(* ===== verification/Prelude.thy ===== *)
theory Prelude
  imports Main "HOL-Library.Word" "HOL-Library.Monad_Syntax"
begin

unbundle bit_operations_syntax

section \<open>Prelude: types, failure, arrays, slot search\<close>

text \<open>
  What every component of the model shares: the C integer types of
  \<^verbatim>\<open>include/tipos.h\<close> as words, the failing assertion (\<open>None\<close> is
  a kernel that has stopped: a \<^verbatim>\<open>kassert\<close> that failed or an access the
  program has no right to), C arrays as lists with checked access, the first-free-slot
  scan that half of the drivers use, C division and the lemma collections that the
  component proofs draw on.
\<close>

type_synonym u8 = "8 word"
type_synonym u16 = "16 word"
type_synonym u32 = "32 word"
type_synonym u64 = "64 word"

named_theorems kdefs "definitions of kernel operations, unfolded in execution proofs"
named_theorems frame "what an operation leaves alone"

subsection \<open>Failure\<close>

text \<open>
  \<^verbatim>\<open>kassert\<close> (\<^verbatim>\<open>include/debug.h\<close>) prints a message,
  disables interrupts and loops for ever: nothing runs after a failed one.
\<close>

definition kassert :: "bool \<Rightarrow> unit option" where
  "kassert b = (if b then Some () else None)"

lemma kassert_True [simp]: "kassert True = Some ()"
  and kassert_False [simp]: "kassert False = None"
  by (simp_all add: kassert_def)

lemma kassert_eq_Some [simp]: "kassert b = Some u \<longleftrightarrow> b"
  by (simp add: kassert_def)

lemma kassert_eq_None [simp]: "kassert b = None \<longleftrightarrow> \<not> b"
  by (simp add: kassert_def)

lemma bind_kassert [simp]: "Option.bind (kassert b) f = (if b then f () else None)"
  by (simp add: kassert_def)

lemma bind_SomeD:
  "Option.bind x f = Some y \<Longrightarrow> \<exists>v. x = Some v \<and> f v = Some y"
  by (cases x) auto

lemma bind_SomeE [elim!]:
  assumes "Option.bind x f = Some y"
  obtains v where "x = Some v" "f v = Some y"
  using bind_SomeD [OF assms] by blast

subsection \<open>C arrays\<close>

text \<open>
  An array indexed by a C \<^verbatim>\<open>int\<close>. An index outside the array reads or
  writes some other object of the program, which the model does not follow: \<open>None\<close>.
\<close>

definition aget :: "'a list \<Rightarrow> int \<Rightarrow> 'a option" where
  "aget xs i = (if 0 \<le> i \<and> i < int (length xs) then Some (xs ! nat i) else None)"

definition aupd :: "int \<Rightarrow> ('a \<Rightarrow> 'a) \<Rightarrow> 'a list \<Rightarrow> 'a list option" where
  "aupd i f xs =
     (if 0 \<le> i \<and> i < int (length xs) then Some (xs[nat i := f (xs ! nat i)]) else None)"

lemma aget_eq_Some:
  "aget xs i = Some x \<longleftrightarrow> 0 \<le> i \<and> i < int (length xs) \<and> xs ! nat i = x"
  by (auto simp: aget_def)

lemma aupd_eq_Some:
  "aupd i f xs = Some ys \<longleftrightarrow>
     0 \<le> i \<and> i < int (length xs) \<and> ys = xs[nat i := f (xs ! nat i)]"
  by (auto simp: aupd_def)

lemma aupd_length: "aupd i f xs = Some ys \<Longrightarrow> length ys = length xs"
  by (auto simp: aupd_eq_Some)

lemma aget_aupd:
  "aupd i f xs = Some ys \<Longrightarrow>
   aget ys j = (if j = i then map_option f (aget xs j) else aget xs j)"
  by (auto simp: aupd_eq_Some aget_def nth_list_update nat_eq_iff)

lemma aupd_defined: "aget xs i = Some x \<Longrightarrow> \<exists>ys. aupd i f xs = Some ys"
  by (auto simp: aupd_def aget_eq_Some)

lemma nth_list_update_field:
  "f y = f (xs ! i) \<Longrightarrow> f (xs[i := y] ! j) = f (xs ! j)"
  by (cases "i < length xs") (auto simp: nth_list_update list_update_beyond)

subsection \<open>Looking for the first slot\<close>

text \<open>
  \<^verbatim>\<open>for (i = 0; i < N; i++) if (P(a[i])) break;\<close> leaves in \<open>i\<close> the first index
  whose element satisfies \<open>P\<close>, or \<open>N\<close>.
\<close>

fun index_where :: "('a \<Rightarrow> bool) \<Rightarrow> 'a list \<Rightarrow> nat" where
  "index_where P [] = 0"
| "index_where P (x # xs) = (if P x then 0 else Suc (index_where P xs))"

lemma index_where_le: "index_where P xs \<le> length xs"
  by (induction xs) auto

lemma index_where_less: "index_where P xs < length xs \<longleftrightarrow> (\<exists>x\<in>set xs. P x)"
  by (induction xs) auto

lemma index_where_length: "index_where P xs = length xs \<longleftrightarrow> (\<forall>x\<in>set xs. \<not> P x)"
  using index_where_less [of P xs] index_where_le [of P xs] by auto

lemma index_where_holds: "index_where P xs < length xs \<Longrightarrow> P (xs ! index_where P xs)"
  by (induction xs) auto

lemma index_where_before: "i < index_where P xs \<Longrightarrow> \<not> P (xs ! i)"
  by (induction xs arbitrary: i) (auto simp: nth_Cons split: if_splits nat.splits)

lemma index_where_exists:
  "i < length xs \<Longrightarrow> P (xs ! i) \<Longrightarrow> index_where P xs < length xs"
  by (auto simp: index_where_less)

subsection \<open>Words\<close>

lemma unat_pred: "0 < x \<Longrightarrow> unat (x - 1 :: 'a::len word) = unat x - 1"
  by (simp add: unat_minus_one)

lemma word_pred_le:
  fixes x :: "'a::len word"
  shows "x \<le> b \<Longrightarrow> 0 < x \<Longrightarrow> x - 1 \<le> b"
  by (simp add: word_le_nat_alt unat_pred)

lemma uint_of_int_small:
  "0 \<le> n \<Longrightarrow> n < 2 ^ LENGTH('a) \<Longrightarrow> uint (word_of_int n :: 'a::len word) = n"
  by (simp add: uint_word_of_int)

lemma sint_of_int_small:
  "- (2 ^ (LENGTH('a) - 1)) \<le> n \<Longrightarrow> n < 2 ^ (LENGTH('a) - 1) \<Longrightarrow>
   sint (word_of_int n :: 'a::len word) = n"
  by (simp add: sint_sbintrunc' signed_take_bit_int_eq_self)

lemma uint_ucast_small:
  fixes w :: "'a::len word"
  shows "uint w < 2 ^ LENGTH('b) \<Longrightarrow> uint (ucast w :: 'b::len word) = uint w"
  by (simp add: unsigned_ucast_eq unsigned_take_bit_eq take_bit_int_eq_self)

lemma sint_uint_small:
  fixes w :: "'a::len word"
  assumes "uint w < 2 ^ (LENGTH('a) - 1)"
  shows "sint w = uint w"
  using sint_of_int_small [of "uint w", where 'a = 'a] assms
  by (simp add: order.trans [OF _ uint_ge_0])

text \<open>The page offset of an address.\<close>

lemma and_fff: "(w :: u32) AND 0xfff = take_bit 12 w"
proof -
  have "(0xfff :: u32) = mask 12" by (simp add: mask_eq_exp_minus_1)
  then show ?thesis by (simp only: take_bit_eq_mask)
qed

subsection \<open>C integer division\<close>

text \<open>\<^verbatim>\<open>/\<close> on signed integers truncates towards zero.\<close>

definition cdiv :: "int \<Rightarrow> int \<Rightarrow> int" where
  "cdiv a b = sgn a * sgn b * (\<bar>a\<bar> div \<bar>b\<bar>)"

lemma cdiv_nonneg [simp]: "0 \<le> a \<Longrightarrow> 0 < b \<Longrightarrow> cdiv a b = a div b"
  by (cases "a = 0") (auto simp: cdiv_def)

subsection \<open>Rounding up\<close>

lemma ceil_div:
  fixes l n :: int
  assumes "0 < n"
  shows "(l + (n - 1)) div n = (if l mod n \<noteq> 0 then l div n + 1 else l div n)"
proof -
  have e: "l + (n - 1) = (l mod n + (n - 1)) + l div n * n" by (simp add: mod_mult_div_eq)
  have r: "0 \<le> l mod n" "l mod n < n" using assms by simp_all
  have "(l mod n + (n - 1)) div n = (if l mod n \<noteq> 0 then 1 else 0)"
  proof (cases "l mod n = 0")
    case False
    then have "(l mod n + (n - 1)) = (l mod n - 1) + 1 * n" "0 \<le> l mod n - 1" "l mod n - 1 < n" using r by simp_all
    then show ?thesis using False assms by (simp only: div_mult_self1 div_pos_pos_trivial) simp
  qed (use assms in simp)
  moreover have "(l + (n - 1)) div n = l div n + (l mod n + (n - 1)) div n"
    by (subst e, subst div_mult_self1) (use assms in simp_all)
  ultimately show ?thesis by simp
qed

lemmas ceil_page = ceil_div [of 4096, simplified]

end
