(* ===== verification/Lib.thy ===== *)
theory Lib
  imports Prelude
begin

section \<open>Strings and formatted output\<close>

text \<open>
  \<^verbatim>\<open>kernel/lib.c\<close>, but for the memory copies: comparison and search in strings,
  \<^verbatim>\<open>pow\<close> and the digit counts, and \<^verbatim>\<open>vsnprintf\<close> with its number printers.
  A string is the list of its characters, without the terminator; the output is the list of
  the characters written from the start of the buffer on, the terminator included. The
  strings that the format and its arguments point to and the buffer do not overlap.
  The second half shows what is printed: decimal and hexadecimal numerals that read back
  as the number, with the one exception, and the text that a format stands for.
\<close>

subsection \<open>Strings\<close>

text \<open>The character at a pointer into a string, 0 at its end.\<close>

definition ch :: "u8 list \<Rightarrow> u8" where
  "ch p = (case p of [] \<Rightarrow> 0 | c # _ \<Rightarrow> c)"

lemma ch_simps [simp]: "ch [] = 0" "ch (c # p) = c"
  by (simp_all add: ch_def)

function (sequential) strcmp :: "u8 list \<Rightarrow> u8 list \<Rightarrow> int" where
  "strcmp p q =
     (if ch p \<noteq> 0 \<and> ch q \<noteq> 0 \<and> ch p = ch q then strcmp (tl p) (tl q)
      else if ch p \<noteq> 0 then (if ch q \<noteq> 0 then sint (ch p) - sint (ch q) else 1)
      else if ch q \<noteq> 0 then -1 else 0)"
  by pat_completeness auto

termination
  by (relation "measure (\<lambda>(p, q). length p)") (auto simp: ch_def split: list.splits)

function (sequential) strncmp :: "u8 list \<Rightarrow> u8 list \<Rightarrow> u32 \<Rightarrow> int" where
  "strncmp p q n =
     (if n \<noteq> 0 \<and> ch p \<noteq> 0 \<and> ch q \<noteq> 0 \<and> ch p = ch q then strncmp (tl p) (tl q) (n - 1)
      else if n \<noteq> 0 then
        (if ch p \<noteq> 0 then (if ch q \<noteq> 0 then sint (ch p) - sint (ch q) else 1)
         else if ch q \<noteq> 0 then -1 else 0)
      else 0)"
  by pat_completeness auto

termination
  by (relation "measure (\<lambda>(p, q, n). length p)") (auto simp: ch_def split: list.splits)

declare strcmp.simps [simp del] strncmp.simps [simp del]

text \<open>\<^verbatim>\<open>string[i]\<close>; behind the terminator lies memory that is not the string's.\<close>

definition char_at :: "u8 list \<Rightarrow> nat \<Rightarrow> u8 option" where
  "char_at s i = (if i < length s then Some (s ! i) else if i = length s then Some 0 else None)"

function (sequential) char_pos :: "u8 list \<Rightarrow> u8 \<Rightarrow> nat \<Rightarrow> nat option" where
  "char_pos s c i =
     (case char_at s i of
        None \<Rightarrow> None
      | Some x \<Rightarrow> if x = 0 then Some 0 else if x = c then Some (Suc i) else char_pos s c (Suc i))"
  by pat_completeness auto

termination
  by (relation "measure (\<lambda>(s, c, i). Suc (length s) - i)") (auto simp: char_at_def split: if_splits)

function (sequential) str_end_pos :: "u8 list \<Rightarrow> nat \<Rightarrow> nat option" where
  "str_end_pos s i =
     (case char_at s i of None \<Rightarrow> None | Some x \<Rightarrow> if x = 0 then Some i else str_end_pos s (Suc i))"
  by pat_completeness auto

termination
  by (relation "measure (\<lambda>(s, i). Suc (length s) - i)") (auto simp: char_at_def split: if_splits)

declare char_pos.simps [simp del] str_end_pos.simps [simp del]

subsection \<open>Numbers\<close>

fun pow_loop :: "nat \<Rightarrow> u32 \<Rightarrow> u32 \<Rightarrow> u32" where
  "pow_loop 0 base res = res"
| "pow_loop (Suc n) base res = pow_loop n base (res * base)"

definition pow :: "int \<Rightarrow> u32 \<Rightarrow> int" where
  "pow base exponent = sint (pow_loop (unat exponent) (word_of_int base) 1)"

text \<open>The loop of \<^verbatim>\<open>len\<close> and \<^verbatim>\<open>ulen\<close>; in base 0 the division traps, in base 1 it never ends.\<close>

partial_function (option) len_loop :: "u32 \<Rightarrow> u32 \<Rightarrow> u32 \<Rightarrow> u32 option" where
  "len_loop d base l =
     (if d \<noteq> 0 then
        if base = 0 then None
        else let d = d div base in if d = 0 then Some l else len_loop d base (l + 1)
      else Some l)"

definition ulen :: "u32 \<Rightarrow> u32 \<Rightarrow> u32 option" where
  "ulen number base = len_loop number base 1"

definition len :: "int \<Rightarrow> u32 \<Rightarrow> u32 option" where
  "len number base = len_loop (word_of_int \<bar>number\<bar>) base 1"

text \<open>The remainder of C's division on signed integers.\<close>

definition cmod :: "int \<Rightarrow> int \<Rightarrow> int" where
  "cmod a b = a - b * cdiv a b"

abbreviation (input) ASCII_0 :: u8 where "ASCII_0 \<equiv> 0x30"
abbreviation (input) ASCII_a :: u8 where "ASCII_a \<equiv> 0x61"

text \<open>The loops over the digits; \<^verbatim>\<open>mult\<close> is an \<^verbatim>\<open>int\<close> in the first two.\<close>

fun dec_digits :: "nat \<Rightarrow> int \<Rightarrow> int \<Rightarrow> u8 list" where
  "dec_digits 0 mult number = []"
| "dec_digits (Suc n) mult number =
     (word_of_int (cmod (cdiv number mult) 10) + ASCII_0) # dec_digits n (cdiv mult 10) number"

fun udec_digits :: "nat \<Rightarrow> int \<Rightarrow> u32 \<Rightarrow> u8 list" where
  "udec_digits 0 mult number = []"
| "udec_digits (Suc n) mult number =
     (ucast ((number div word_of_int mult) mod 10) + ASCII_0) # udec_digits n (cdiv mult 10) number"

definition hex_digit :: "u32 \<Rightarrow> u8" where
  "hex_digit digit =
     (if digit < 10 then ucast digit + ASCII_0 else if digit < 16 then ucast (digit - 10) + ASCII_a else 0x3F)"

fun uhex_digits :: "nat \<Rightarrow> u32 \<Rightarrow> u32 \<Rightarrow> u8 list" where
  "uhex_digits 0 mult number = []"
| "uhex_digits (Suc n) mult number = hex_digit ((number div mult) mod 16) # uhex_digits n (mult div 16) number"

text \<open>The number printers: the characters they write and the size they return.\<close>

definition put_dec :: "int \<Rightarrow> (u8 list \<times> int) option" where
  "put_dec number = do {
     ln \<leftarrow> len number 10;
     let mult = pow 10 (ln - 1);
     let (sign, number, sz) =
       (if number < 0 then ([0x2D], sint (word_of_int (- number) :: u32), 1) else ([], number, 0));
     Some (sign @ dec_digits (unat ln) mult number, sz + uint ln)
   }"

definition print_udec :: "u32 \<Rightarrow> (u8 list \<times> int) option" where
  "print_udec number = do {
     ln \<leftarrow> ulen number 10;
     let mult = pow 10 (ln - 1);
     Some (udec_digits (unat ln) mult number, uint ln)
   }"

definition put_uhex :: "u32 \<Rightarrow> (u8 list \<times> int) option" where
  "put_uhex number = do {
     ln \<leftarrow> ulen number 16;
     let mult = word_of_int (pow 16 (ln - 1));
     Some ([0x30, 0x78] @ replicate (unat (8 - ln)) 0x30 @ uhex_digits (unat ln) mult number, uint (ln + 2))
   }"

subsection \<open>vsnprintf\<close>

text \<open>
  \<^verbatim>\<open>buff_size < 0 || sz < buff_size\<close>, the comparison being unsigned; then the loop that
  copies a string argument.
\<close>

definition has_room :: "u32 \<Rightarrow> u32 \<Rightarrow> bool" where
  "has_room buff_size sz \<longleftrightarrow> buff_size <s 0 \<or> sz < buff_size"

fun put_str :: "u32 \<Rightarrow> u8 list \<Rightarrow> u32 \<Rightarrow> u8 list \<Rightarrow> u32 \<times> u8 list" where
  "put_str buff_size [] sz out = (sz, out)"
| "put_str buff_size (c # s) sz out =
     (if has_room buff_size sz \<and> c \<noteq> 0 then put_str buff_size s (sz + 1) (out @ [c]) else (sz, out))"

text \<open>
  \<open>str\<close> reads the string at an address. The result is the value returned and everything
  written to the buffer; arguments that the caller did not pass are \<open>None\<close>.
\<close>

fun vsn_loop :: "(u32 \<Rightarrow> u8 list) \<Rightarrow> u32 \<Rightarrow> u8 list \<Rightarrow> u32 list \<Rightarrow> u32 \<Rightarrow> u8 list \<Rightarrow> (int \<times> u8 list) option" where
  "vsn_loop str buff_size format args sz out =
     (if \<not> has_room buff_size sz then Some (sint sz, out @ [0])
      else case format of
        [] \<Rightarrow> Some (sint sz, out @ [0])
      | c # format \<Rightarrow>
          if c = 0 then Some (sint sz, out @ [0])
          else if c = 0x25 then
            (case format of
               [] \<Rightarrow> Some (-1, out)
             | d # format \<Rightarrow>
                 if d = 0x63 then
                   (case args of [] \<Rightarrow> None
                    | a # args \<Rightarrow> vsn_loop str buff_size format args (sz + 1) (out @ [ucast a]))
                 else if d = 0x73 then
                   (case args of [] \<Rightarrow> None
                    | a # args \<Rightarrow> (case put_str buff_size (str a) sz out of (sz, out) \<Rightarrow> vsn_loop str buff_size format args sz out))
                 else if d = 0x64 then
                   (case args of [] \<Rightarrow> None
                    | a # args \<Rightarrow> (case put_dec (sint a) of None \<Rightarrow> None
                        | Some (s, n) \<Rightarrow> vsn_loop str buff_size format args (sz + word_of_int n) (out @ s)))
                 else if d = 0x75 then
                   (case args of [] \<Rightarrow> None
                    | a # args \<Rightarrow> (case print_udec a of None \<Rightarrow> None
                        | Some (s, n) \<Rightarrow> vsn_loop str buff_size format args (sz + word_of_int n) (out @ s)))
                 else if d = 0x78 \<or> d = 0x70 then
                   (case args of [] \<Rightarrow> None
                    | a # args \<Rightarrow> (case put_uhex a of None \<Rightarrow> None
                        | Some (s, n) \<Rightarrow> vsn_loop str buff_size format args (sz + word_of_int n) (out @ s)))
                 else if d = 0x25 then vsn_loop str buff_size format args (sz + 1) (out @ [0x25])
                 else Some (-1, out))
          else vsn_loop str buff_size format args (sz + 1) (out @ [c]))"

declare vsn_loop.simps [simp del]

definition vsnprintf :: "(u32 \<Rightarrow> u8 list) \<Rightarrow> int \<Rightarrow> u8 list \<Rightarrow> u32 list \<Rightarrow> (int \<times> u8 list) option" where
  "vsnprintf str buff_size format args = vsn_loop str (word_of_int buff_size) format args 0 []"

definition sprintf :: "(u32 \<Rightarrow> u8 list) \<Rightarrow> u8 list \<Rightarrow> u32 list \<Rightarrow> (int \<times> u8 list) option" where
  "sprintf str format args = vsnprintf str (-1) format args"

definition snprintf :: "(u32 \<Rightarrow> u8 list) \<Rightarrow> int \<Rightarrow> u8 list \<Rightarrow> u32 list \<Rightarrow> (int \<times> u8 list) option" where
  "snprintf str buff_size format args = vsnprintf str buff_size format args"

subsection \<open>Comparison and search\<close>

lemma sint_eq_iff: "sint (a :: 'a::len word) = sint b \<longleftrightarrow> a = b"
  using signed_word_eqI by blast

lemma strcmp_nonul:
  assumes "0 \<notin> set p" "0 \<notin> set q"
  shows "(strcmp p q = 0 \<longleftrightarrow> p = q) \<and> (strcmp p q < 0 \<longleftrightarrow> (map sint p, map sint q) \<in> lexord {(a, b). a < b}) \<and>
    strcmp q p = - strcmp p q"
  using assms
proof (induction p q rule: strcmp.induct)
  case (1 p q)
  show ?case
  proof (cases p)
    case Nil
    then show ?thesis using 1(3) by (cases q) (auto simp: strcmp.simps)
  next
    case p: (Cons a p')
    then have a: "a \<noteq> 0" "0 \<notin> set p'" using 1(2) by auto
    show ?thesis
    proof (cases q)
      case Nil
      then show ?thesis using p a by (simp add: strcmp.simps)
    next
      case q: (Cons b q')
      then have b: "b \<noteq> 0" "0 \<notin> set q'" using 1(3) by auto
      show ?thesis
      proof (cases "a = b")
        case True
        then show ?thesis using 1(1) p q a b
          by (simp add: strcmp.simps [of "b # p'"] strcmp.simps [of "b # q'"])
      next
        case False
        then have "sint a \<noteq> sint b" by (simp add: sint_eq_iff)
        then show ?thesis using False p q a b by (auto simp: strcmp.simps)
      qed
    qed
  qed
qed

lemma strncmp_prefix:
  assumes "0 \<notin> set p" "0 \<notin> set q"
  shows "strncmp p q n = strcmp (take (unat n) p) (take (unat n) q)"
  using assms
proof (induction p q n rule: strncmp.induct)
  case (1 p q n)
  show ?case
  proof (cases "n = 0")
    case False
    then obtain k where k: "unat n = Suc k" "unat (n - 1) = k"
      by (metis Suc_pred diff_Suc_1 unat_gt_0 unat_minus_one)
    show ?thesis using False 1 k
      by (cases p; cases q) (auto simp: strcmp.simps [of "_ # _"] strcmp.simps [of "[]"] strncmp.simps [of "_ # _"] strncmp.simps [of "[]"])
  qed (simp add: strncmp.simps strcmp.simps)
qed

text \<open>On strings, \<^verbatim>\<open>strcmp\<close> is 0 for equal strings only, negative exactly when the first
  comes first in the lexicographic order of signed characters, and antisymmetric;
  \<^verbatim>\<open>strncmp\<close> compares in the same way the prefixes of the length given.\<close>

theorem strcmp_orders:
  assumes "0 \<notin> set p" and "0 \<notin> set q"
  shows "(strcmp p q = 0 \<longleftrightarrow> p = q) \<and> (strcmp p q < 0 \<longleftrightarrow> (map sint p, map sint q) \<in> lexord {(a, b). a < b}) \<and>
    strcmp q p = - strcmp p q \<and> strncmp p q n = strcmp (take (unat n) p) (take (unat n) q)"
  using strcmp_nonul [OF assms] strncmp_prefix [OF assms] by blast

lemma char_pos_spec:
  assumes "0 \<notin> set s" "c \<noteq> 0" "i \<le> length s"
  shows "char_pos s c i = Some (if c \<in> set (drop i s) then Suc (i + index_where ((=) c) (drop i s)) else 0)"
  using assms
proof (induction s c i rule: char_pos.induct)
  case (1 s c i)
  show ?case
  proof (cases "i = length s")
    case False
    then have i: "i < length s" using 1(4) by simp
    then have d: "drop i s = s ! i # drop (Suc i) s" by (simp add: Cons_nth_drop_Suc)
    have "s ! i \<noteq> 0" using 1(2) i by (metis nth_mem)
    then show ?thesis using i 1(1) [of "s ! i"] 1(2,3)
      by (subst char_pos.simps) (auto simp: char_at_def d)
  qed (subst char_pos.simps, simp add: char_at_def)
qed

lemma str_end_pos_spec: "0 \<notin> set s \<Longrightarrow> i \<le> length s \<Longrightarrow> str_end_pos s i = Some (length s)"
proof (induction s i rule: str_end_pos.induct)
  case (1 s i)
  show ?case
  proof (cases "i = length s")
    case False
    then have "s ! i \<noteq> 0" "i < length s" using 1(2,3) by (metis le_neq_implies_less nth_mem, simp)
    then show ?thesis using 1(1) [of "s ! i"] 1(2) by (subst str_end_pos.simps) (auto simp: char_at_def)
  qed (subst str_end_pos.simps, simp add: char_at_def)
qed

text \<open>\<^verbatim>\<open>char_pos\<close> returns one more than the index of the first occurrence of the character
  from the index given on, or 0 when there is none; \<^verbatim>\<open>str_end_pos\<close> the length of the string.\<close>

theorem char_pos_finds:
  assumes "0 \<notin> set s" and "c \<noteq> 0" and "i \<le> length s"
  shows "str_end_pos s i = Some (length s) \<and>
    (\<exists>r. char_pos s c i = Some r \<and>
      (if c \<in> set (drop i s) then i < r \<and> r \<le> length s \<and> s ! (r - 1) = c \<and> (\<forall>j. i \<le> j \<and> j < r - 1 \<longrightarrow> s ! j \<noteq> c)
       else r = 0))"
proof (cases "c \<in> set (drop i s)")
  case True
  define k where "k = index_where ((=) c) (drop i s)"
  have k: "k < length (drop i s)" using True unfolding k_def index_where_less by blast
  then have "c = drop i s ! k" using index_where_holds [of "(=) c" "drop i s"] by (simp add: k_def)
  moreover have "s ! j \<noteq> c" if "i \<le> j" "j < i + k" for j
  proof -
    have "j - i < index_where ((=) c) (drop i s)" using that by (simp add: k_def)
    from index_where_before [OF this] show ?thesis using that assms(3) by auto
  qed
  moreover have "char_pos s c i = Some (Suc (i + k))" using True char_pos_spec [OF assms] by (simp add: k_def)
  ultimately show ?thesis using True k str_end_pos_spec [OF assms(1,3)] assms(3) by auto
qed (use char_pos_spec [OF assms] str_end_pos_spec [OF assms(1,3)] in simp)

subsection \<open>Digits\<close>

text \<open>The numeral of a number in a base, and the number of a numeral.\<close>

function digits :: "nat \<Rightarrow> nat \<Rightarrow> nat list" where
  "digits b n = (if b < 2 \<or> n < b then [n] else digits b (n div b) @ [n mod b])"
  by pat_completeness auto

termination
  by (relation "measure snd") auto

declare digits.simps [simp del]

definition number_of :: "nat \<Rightarrow> nat list \<Rightarrow> nat" where
  "number_of b ds = foldl (\<lambda>a d. a * b + d) 0 ds"

lemma digits_nonempty [simp]: "digits b n \<noteq> []" "0 < length (digits b n)"
  by (subst digits.simps; simp)+

lemma number_of_digits: "number_of b (digits b n) = n"
proof (induction b n rule: digits.induct)
  case (1 b n)
  then show ?case by (subst digits.simps) (auto simp: number_of_def)
qed

lemma digits_bound: "2 \<le> b \<Longrightarrow> d \<in> set (digits b n) \<Longrightarrow> d < b"
proof (induction b n rule: digits.induct)
  case (1 b n)
  then show ?case by (subst (asm) (2) digits.simps) (auto split: if_splits)
qed

lemma digits_hd: "2 \<le> b \<Longrightarrow> 0 < n \<Longrightarrow> 0 < hd (digits b n)"
proof (induction b n rule: digits.induct)
  case (1 b n)
  then show ?case by (subst digits.simps) (auto simp: div_greater_zero_iff)
qed

text \<open>The digits that the printers compute, from the highest power down.\<close>

fun high_digits :: "nat \<Rightarrow> nat \<Rightarrow> nat \<Rightarrow> nat list" where
  "high_digits b 0 n = []"
| "high_digits b (Suc k) n = (n div b ^ k) mod b # high_digits b k n"

lemma high_digits_snoc: "high_digits b (Suc k) n = high_digits b k (n div b) @ [n mod b]"
  by (induction k) (simp_all add: div_mult2_eq)

lemma high_digits: "2 \<le> b \<Longrightarrow> high_digits b (length (digits b n)) n = digits b n"
proof (induction b n rule: digits.induct)
  case (1 b n)
  show ?case
  proof (cases "n < b")
    case True
    then show ?thesis using 1(2) by (subst (1 2) digits.simps) simp
  next
    case False
    then have d: "digits b n = digits b (n div b) @ [n mod b]" using 1(2) by (subst digits.simps) simp
    show ?thesis using 1 False by (simp add: d high_digits_snoc del: high_digits.simps)
  qed
qed

lemma digits_power: "2 \<le> b \<Longrightarrow> 0 < n \<Longrightarrow> b ^ (length (digits b n) - 1) \<le> n"
proof (induction b n rule: digits.induct)
  case (1 b n)
  show ?case
  proof (cases "n < b")
    case True
    then show ?thesis using 1(2,3) by (subst digits.simps) simp
  next
    case False
    then have d: "digits b n = digits b (n div b) @ [n mod b]" using 1(2) by (subst digits.simps) simp
    have p: "0 < n div b" using False 1(2) by (simp add: div_greater_zero_iff)
    obtain l where l: "length (digits b (n div b)) = Suc l" by (metis digits_nonempty(2) gr0_implies_Suc)
    have "b ^ l \<le> n div b" using 1(1) [OF _ 1(2) p] False 1(2) l by simp
    then have "b ^ Suc l \<le> n div b * b" using 1(2) by simp
    also have "\<dots> \<le> n" by simp
    finally show ?thesis by (simp add: d l)
  qed
qed

lemma digits_length: "2 \<le> b \<Longrightarrow> n < b ^ k \<Longrightarrow> 0 < k \<Longrightarrow> length (digits b n) \<le> k"
proof (rule ccontr)
  assume a: "2 \<le> b" "n < b ^ k" "0 < k" "\<not> length (digits b n) \<le> k"
  show False
  proof (cases "n = 0")
    case True
    then have "length (digits b n) = 1" using a(1) by (subst digits.simps) simp
    then show False using a by simp
  next
    case False
    have "b ^ k \<le> b ^ (length (digits b n) - 1)" using a by (intro power_increasing) simp_all
    then show False using digits_power [OF a(1), of n] False a(2) by simp
  qed
qed

lemma digits_number_bound: "2 \<le> b \<Longrightarrow> n < b ^ length (digits b n)"
proof (induction b n rule: digits.induct)
  case (1 b n)
  show ?case
  proof (cases "n < b")
    case True
    then show ?thesis using 1(2) by (subst digits.simps) simp
  next
    case False
    then have d: "digits b n = digits b (n div b) @ [n mod b]" using 1(2) by (subst digits.simps) simp
    have "n div b < b ^ length (digits b (n div b))" using 1 False by simp
    then have "n < b ^ length (digits b (n div b)) * b" using 1(2) by (simp add: div_less_iff_less_mult)
    then show ?thesis by (simp add: d mult.commute)
  qed
qed

subsection \<open>The number printers\<close>

lemma len_loop_spec:
  "2 \<le> unat b \<Longrightarrow> len_loop d b l = Some (l + of_nat (length (digits (unat b) (unat d)) - 1))"
proof (induction "unat d" arbitrary: d l rule: less_induct)
  case less
  have b: "b \<noteq> 0" using less.prems by auto
  have ud: "unat (d div b) = unat d div unat b" by (simp add: unat_div)
  show ?case
  proof (cases "unat d < unat b")
    case True
    then have "d div b = 0" using ud by (simp add: unat_eq_0)
    then show ?thesis using True b by (subst len_loop.simps, subst digits.simps) simp
  next
    case False
    have d: "digits (unat b) (unat d) = digits (unat b) (unat (d div b)) @ [unat d mod unat b]"
      using False less.prems by (subst digits.simps) (simp add: ud)
    have lt: "unat (d div b) < unat d" "d \<noteq> 0" "d div b \<noteq> 0"
    proof -
      show "d \<noteq> 0" using False less.prems by auto
      have "0 < unat d" using False less.prems by simp
      then show "unat (d div b) < unat d" using less.prems by (simp add: ud)
      have "0 < unat d div unat b" using False less.prems by (simp add: div_greater_zero_iff)
      then show "d div b \<noteq> 0" using ud by (metis less_irrefl unsigned_0)
    qed
    obtain m where m: "length (digits (unat b) (unat (d div b))) = Suc m" by (metis digits_nonempty(2) gr0_implies_Suc)
    show ?thesis using less.hyps [OF lt(1) less.prems, of "l + 1"] lt b m
      by (subst len_loop.simps) (simp add: d Let_def)
  qed
qed

lemma pow_loop_spec: "pow_loop n b r = r * b ^ n"
  by (induction n arbitrary: r) (simp_all add: algebra_simps)

lemma pow_small: "0 \<le> b \<Longrightarrow> b ^ unat e < 2 ^ 31 \<Longrightarrow> pow b e = b ^ unat e"
proof -
  assume b: "0 \<le> b" "b ^ unat e < 2 ^ 31"
  then have "0 \<le> b ^ unat e" by simp
  then have "- (2 ^ 31) \<le> b ^ unat e" by (rule order.trans [rotated]) simp
  then have "sint (word_of_int (b ^ unat e) :: u32) = b ^ unat e" using b(2) by (intro sint_of_int_small) simp_all
  then show ?thesis by (simp add: pow_def pow_loop_spec flip: of_int_power)
qed

text \<open>What \<^verbatim>\<open>ulen\<close> and \<^verbatim>\<open>pow\<close> give a printer in base \<open>b\<close>.\<close>

lemma len_pow:
  fixes b d :: u32
  assumes b: "b = 10 \<or> b = 16"
  defines "l \<equiv> length (digits (unat b) (unat d))"
  shows "len_loop d b 1 = Some (of_nat l)" "0 < l" "l \<le> 10" "unat (of_nat l :: u32) = l"
    "unat (of_nat l - 1 :: u32) = l - 1" "unat b ^ (l - 1) < 2 ^ 31" "l - 1 < 10"
    "pow (uint b) (of_nat l - 1) = uint b ^ (l - 1)" "b = 16 \<Longrightarrow> l \<le> 8"
proof -
  have b2: "2 \<le> unat b" using b by auto
  show l0: "0 < l" by (simp add: l_def)
  have len: "len_loop d b 1 = Some (1 + of_nat (l - 1))" unfolding l_def by (rule len_loop_spec [OF b2])
  have "1 + of_nat (l - 1) = (of_nat (Suc (l - 1)) :: u32)" by simp
  then show "len_loop d b 1 = Some (of_nat l)" using len l0 by simp
  have d32: "unat d < 2 ^ 32" using unsigned_less [of d] by simp
  have "unat d < 10 ^ 10" "unat d < 16 ^ 8" using d32 by simp_all
  then have "b = 10 \<Longrightarrow> l \<le> 10" and b16: "b = 16 \<Longrightarrow> l \<le> 8"
    using digits_length [of 10 "unat d" 10] digits_length [of 16 "unat d" 8] by (auto simp: l_def)
  then show l10: "l \<le> 10" using b by auto
  show "b = 16 \<Longrightarrow> l \<le> 8" by (rule b16)
  show ul: "unat (of_nat l :: u32) = l" using l10 by (simp add: unat_of_nat take_bit_nat_eq_self)
  then have "(0 :: u32) < of_nat l" using l0 by (simp add: word_less_nat_alt)
  then show ul1: "unat (of_nat l - 1 :: u32) = l - 1" using ul by (simp add: unat_pred)
  show "l - 1 < 10" using l10 l0 by simp
  have "unat b ^ (l - 1) \<le> (if b = 10 then 10 ^ 9 else 16 ^ 7)"
  proof (cases "b = 10")
    case True
    then show ?thesis using l10 power_increasing [of "l - 1" 9 "10 :: nat"] by simp
  next
    case False
    then have "b = 16" using b by simp
    then show ?thesis using b16 power_increasing [of "l - 1" 7 "16 :: nat"] False by simp
  qed
  then show lt: "unat b ^ (l - 1) < 2 ^ 31" by (rule le_less_trans) simp
  have "uint b ^ (l - 1) = int (unat b ^ (l - 1))" by (simp add: of_nat_power)
  moreover have "int (unat b ^ (l - 1)) < int (2 ^ 31)" using lt by (simp only: of_nat_less_iff)
  moreover have "int (2 ^ 31) = 2 ^ 31" by simp
  ultimately have "uint b ^ (l - 1) < 2 ^ 31" by (simp only:)
  then show "pow (uint b) (of_nat l - 1) = uint b ^ (l - 1)" using pow_small [of "uint b" "of_nat l - 1"] ul1 by simp
qed

definition digit_char :: "nat \<Rightarrow> u8" where
  "digit_char d = (if d < 10 then of_nat d + ASCII_0 else of_nat (d - 10) + ASCII_a)"

lemma digit_char_unat: "unat (y :: u32) < 10 \<Longrightarrow> ucast y + ASCII_0 = digit_char (unat y)"
  by (simp add: digit_char_def)

lemma power_word: "k \<le> 9 \<Longrightarrow> unat (word_of_int (10 ^ k) :: u32) = 10 ^ k"
proof -
  assume "k \<le> 9"
  then have "(10 :: nat) ^ k \<le> 10 ^ 9" by (intro power_increasing) simp_all
  then have lt: "(10 :: nat) ^ k < 2 ^ 32" by (rule le_less_trans) simp
  have "unat (of_nat (10 ^ k) :: u32) = 10 ^ k" using lt by (simp only: unat_of_nat) simp
  moreover have "word_of_int (10 ^ k) = (of_nat (10 ^ k) :: u32)" by simp
  ultimately show ?thesis by (simp only:)
qed

lemma udec_digits_spec:
  "k \<le> 9 \<Longrightarrow> udec_digits (Suc k) (10 ^ k) x = map digit_char (high_digits 10 (Suc k) (unat x))"
proof (induction k)
  case 0
  show ?case using digit_char_unat [of "x mod 10"] by (simp add: unat_mod cdiv_def)
next
  case (Suc k)
  let ?y = "(x div word_of_int (10 ^ Suc k)) mod 10"
  have y: "unat ?y = unat x div 10 ^ Suc k mod 10"
    by (simp only: unat_mod unat_div power_word [OF Suc.prems]) simp
  have lt: "unat ?y < 10" unfolding y by (rule mod_less_divisor) simp
  have "ucast ?y + ASCII_0 = digit_char (unat x div 10 ^ Suc k mod 10)"
    using digit_char_unat [OF lt] by (simp only: y)
  moreover have "cdiv (10 ^ Suc k) 10 = 10 ^ k" by simp
  ultimately show ?case using Suc by (simp only: udec_digits.simps(2) [of "Suc k"] high_digits.simps(2) [of 10 "Suc k"] list.map)
qed

lemma word_digit_char: "0 \<le> d \<Longrightarrow> d < 10 \<Longrightarrow> word_of_int d + ASCII_0 = digit_char (nat d)"
proof -
  assume d: "0 \<le> d" "d < 10"
  then have "(word_of_int d :: u8) = of_nat (nat d)" "nat d < 10" by simp_all
  then show ?thesis by (simp only: digit_char_def if_True)
qed

lemma dec_digits_spec:
  "0 \<le> m \<Longrightarrow> dec_digits (Suc k) (10 ^ k) m = map digit_char (high_digits 10 (Suc k) (nat m))"
proof (induction k)
  case 0
  then show ?case using word_digit_char [of "m mod 10"] by (simp add: cmod_def minus_mult_div_eq_mod nat_mod_distrib)
next
  case (Suc k)
  let ?d = "m div 10 ^ Suc k"
  have "cmod (cdiv m (10 ^ Suc k)) 10 = ?d mod 10" using Suc.prems
    by (simp add: cmod_def minus_mult_div_eq_mod pos_imp_zdiv_nonneg_iff)
  moreover have "word_of_int (?d mod 10) + ASCII_0 = digit_char (nat (?d mod 10))" by (rule word_digit_char) simp_all
  moreover have "nat (?d mod 10) = nat m div 10 ^ Suc k mod 10"
    using Suc.prems by (simp add: nat_mod_distrib nat_div_distrib nat_power_eq pos_imp_zdiv_nonneg_iff del: power_Suc)
  moreover have "cdiv (10 ^ Suc k) 10 = 10 ^ k" by simp
  ultimately show ?case using Suc by (simp only: dec_digits.simps(2) [of "Suc k"] high_digits.simps(2) [of 10 "Suc k"] list.map)
qed

lemma hex_digit_char: "unat (y :: u32) < 16 \<Longrightarrow> hex_digit y = digit_char (unat y)"
proof -
  assume y: "unat y < 16"
  show ?thesis
  proof (cases "unat y < 10")
    case True
    then have "y < 10" by (simp add: word_less_nat_alt)
    then show ?thesis using True by (simp add: hex_digit_def digit_char_def)
  next
    case False
    then have h: "\<not> y < 10" "y < 16" "10 \<le> y" using y by (simp_all add: word_less_nat_alt word_le_nat_alt)
    have "unat (y - 10) = unat y - 10" using h(3) by (simp add: unat_sub)
    moreover have "(of_nat (unat (y - 10)) :: u8) = ucast (y - 10)" by simp
    ultimately have "(of_nat (unat y - 10) :: u8) = ucast (y - 10)" by (simp only:)
    then show ?thesis using h False by (simp add: hex_digit_def digit_char_def)
  qed
qed

lemma uhex_digits_spec:
  "k \<le> 7 \<Longrightarrow> uhex_digits (Suc k) (16 ^ k) x = map digit_char (high_digits 16 (Suc k) (unat x))"
proof (induction k)
  case 0
  have y: "unat (x mod 16) = unat x mod 16" by (simp add: unat_mod)
  have "unat (x mod 16) < 16" unfolding y by simp
  from hex_digit_char [OF this] show ?case by (simp add: y)
next
  case (Suc k)
  have p: "unat (16 ^ j :: u32) = 16 ^ j" if "j \<le> 7" for j
  proof -
    have "(16 :: nat) ^ j \<le> 16 ^ 7" using that by (intro power_increasing) simp_all
    then have lt: "(16 :: nat) ^ j < 2 ^ 32" by (rule le_less_trans) simp
    have "unat (of_nat (16 ^ j) :: u32) = 16 ^ j" using lt by (simp only: unat_of_nat) simp
    then show ?thesis by simp
  qed
  let ?y = "(x div 16 ^ Suc k) mod 16"
  have y: "unat ?y = unat x div 16 ^ Suc k mod 16"
    by (simp only: unat_mod unat_div p [OF Suc.prems]) simp
  have lt: "unat ?y < 16" unfolding y by (rule mod_less_divisor) simp
  have c: "hex_digit ?y = digit_char (unat x div 16 ^ Suc k mod 16)" using hex_digit_char [OF lt] by (simp only: y)
  have "unat ((16 :: u32) ^ Suc k div 16) = unat (16 ^ k :: u32)"
    using p [of k] Suc.prems by (simp only: unat_div p [OF Suc.prems]) simp
  then have "(16 :: u32) ^ Suc k div 16 = 16 ^ k" by (rule unsigned_word_eqI)
  then show ?case using Suc c by (simp only: uhex_digits.simps(2) [of "Suc k"] high_digits.simps(2) [of 16 "Suc k"] list.map)
qed

lemma print_udec_digits: "print_udec x = Some (map digit_char (digits 10 (unat x)), int (length (digits 10 (unat x))))"
proof -
  define l where "l = length (digits 10 (unat x))"
  have L: "len_loop x 10 1 = Some (of_nat l)" "0 < l" "l \<le> 10" "unat (of_nat l :: u32) = l" "l - 1 < 10"
    "pow 10 (of_nat l - 1) = 10 ^ (l - 1)"
    using len_pow [of 10 x] by (simp_all add: l_def)
  obtain k where k: "l = Suc k" using L(2) gr0_implies_Suc by blast
  have "udec_digits l (10 ^ k) x = map digit_char (digits 10 (unat x))"
  proof -
    have "high_digits 10 l (unat x) = digits 10 (unat x)" unfolding l_def by (rule high_digits) simp
    moreover have "k \<le> 9" using L(5) k by simp
    ultimately show ?thesis using udec_digits_spec [of k x] by (simp only: k)
  qed
  moreover have "uint (of_nat l :: u32) = int l" using L(4) by (metis int_nat_eq uint_ge_0 unat_eq_nat_uint)
  ultimately show ?thesis using L(1,4,6) k by (simp add: print_udec_def ulen_def Let_def l_def)
qed

lemma len_abs: "\<bar>n\<bar> \<le> 2 ^ 31 \<Longrightarrow> unat (word_of_int \<bar>n\<bar> :: u32) = nat \<bar>n\<bar>"
proof -
  assume n: "\<bar>n\<bar> \<le> 2 ^ 31"
  have "uint (word_of_int \<bar>n\<bar> :: u32) = \<bar>n\<bar>" by (rule uint_of_int_small) (use n in simp_all)
  then show ?thesis by (simp only: unat_eq_nat_uint)
qed

lemma put_dec_digits:
  assumes "- (2 ^ 31) < n" "n < 2 ^ 31"
  shows "put_dec n = Some ((if n < 0 then [0x2D] else []) @ map digit_char (digits 10 (nat \<bar>n\<bar>)),
    int (length (digits 10 (nat \<bar>n\<bar>))) + (if n < 0 then 1 else 0))"
proof -
  define x :: u32 where "x = word_of_int \<bar>n\<bar>"
  have x: "unat x = nat \<bar>n\<bar>" unfolding x_def by (rule len_abs) (use assms in simp)
  define l where "l = length (digits 10 (unat x))"
  have L: "len_loop x 10 1 = Some (of_nat l)" "0 < l" "l \<le> 10" "unat (of_nat l :: u32) = l"
    "pow 10 (of_nat l - 1) = 10 ^ (l - 1)"
    using len_pow [of 10 x] by (simp_all add: l_def)
  have D: "dec_digits l (10 ^ (l - 1)) \<bar>n\<bar> = map digit_char (digits 10 (unat x))"
  proof -
    obtain k where k: "l = Suc k" using L(2) gr0_implies_Suc by blast
    have "high_digits 10 l (unat x) = digits 10 (unat x)" unfolding l_def by (rule high_digits) simp
    then show ?thesis using dec_digits_spec [of "\<bar>n\<bar>" k] by (simp only: k x abs_ge_zero diff_Suc_1)
  qed
  have ul: "uint (of_nat l :: u32) = int l" using L(4) by (metis int_nat_eq uint_ge_0 unat_eq_nat_uint)
  show ?thesis
  proof (cases "n < 0")
    case True
    have "sint (word_of_int (- n) :: u32) = - n"
      using sint_of_int_small [of "- n", where 'a = 32] assms True by simp
    then show ?thesis using True L(1,4,5) D ul x by (simp add: put_dec_def len_def Let_def x_def l_def)
  next
    case False
    then show ?thesis using L(1,4,5) D ul x by (simp add: put_dec_def len_def Let_def x_def l_def)
  qed
qed

lemma put_uhex_digits: "put_uhex x =
  Some ([0x30, 0x78] @ replicate (8 - length (digits 16 (unat x))) 0x30 @ map digit_char (digits 16 (unat x)),
    int (length (digits 16 (unat x))) + 2)"
proof -
  define l where "l = length (digits 16 (unat x))"
  have L: "len_loop x 16 1 = Some (of_nat l)" "0 < l" "l \<le> 8" "unat (of_nat l :: u32) = l"
    "pow 16 (of_nat l - 1) = 16 ^ (l - 1)"
    using len_pow [of 16 x] by (simp_all add: l_def)
  obtain k where k: "l = Suc k" using L(2) gr0_implies_Suc by blast
  have "uhex_digits l (16 ^ k) x = map digit_char (digits 16 (unat x))"
  proof -
    have "high_digits 16 l (unat x) = digits 16 (unat x)" unfolding l_def by (rule high_digits) simp
    moreover have "k \<le> 7" using L(3) k by simp
    ultimately show ?thesis using uhex_digits_spec [of k x] by (simp only: k)
  qed
  moreover have "(of_nat l :: u32) \<le> 8" using L(3,4) by (simp add: word_le_nat_alt)
  then have "unat (8 - of_nat l :: u32) = 8 - l" using L(4) by (simp add: unat_sub)
  moreover have "uint (of_nat l + 2 :: u32) = int l + 2"
  proof -
    have "unat (of_nat l + 2 :: u32) = l + 2" using L(3,4) by (simp add: unat_word_ariths)
    then show ?thesis by (metis int_nat_eq of_nat_add of_nat_numeral uint_ge_0 unat_eq_nat_uint)
  qed
  ultimately show ?thesis using L(1,4,5) k by (simp add: put_uhex_def ulen_def Let_def l_def)
qed

text \<open>Reading a numeral back.\<close>

definition char_digit :: "u8 \<Rightarrow> nat" where
  "char_digit c = (if c < ASCII_a then unat c - 48 else unat c - 87)"

definition read_number :: "nat \<Rightarrow> u8 list \<Rightarrow> nat" where
  "read_number b s = number_of b (map char_digit s)"

lemma char_digit_char: "d < 16 \<Longrightarrow> char_digit (digit_char d) = d"
proof -
  assume "d < 16"
  then have "d \<in> set [0, 1, 2, 3, 4, 5, 6, 7, 8, 9, 10, 11, 12, 13, 14, 15]" by simp arith
  then show ?thesis by (auto simp: digit_char_def char_digit_def)
qed

lemma map_char_digit: "2 \<le> b \<Longrightarrow> b \<le> 16 \<Longrightarrow> map char_digit (map digit_char (digits b n)) = digits b n"
  unfolding map_map comp_def by (rule map_idI, rule char_digit_char) (use digits_bound in fastforce)

lemma read_digits: "2 \<le> b \<Longrightarrow> b \<le> 16 \<Longrightarrow> read_number b (map digit_char (digits b n)) = n"
  by (simp only: read_number_def map_char_digit number_of_digits)

lemma read_zeros: "read_number b (replicate k 0x30 @ s) = read_number b s"
proof -
  have "foldl (\<lambda>a d. a * b + d) 0 (map char_digit (replicate k 0x30)) = 0"
    by (induction k) (simp_all add: char_digit_def)
  then show ?thesis by (simp add: read_number_def number_of_def)
qed

lemma digit_char_range: "d < 10 \<Longrightarrow> 0x30 \<le> digit_char d \<and> digit_char d \<le> 0x39"
proof -
  assume "d < 10"
  then have "d \<in> set [0, 1, 2, 3, 4, 5, 6, 7, 8, 9]" by simp arith
  then show ?thesis by (auto simp: digit_char_def)
qed

text \<open>\<^verbatim>\<open>%u\<close> prints the decimal numeral of its argument: decimal digits only, without a leading
  zero, that read back as the number, and the size returned is their number.\<close>

theorem print_udec_reads:
  "\<exists>s. print_udec x = Some (s, int (length s)) \<and> read_number 10 s = unat x \<and>
     (\<forall>c\<in>set s. 0x30 \<le> c \<and> c \<le> 0x39) \<and> (x \<noteq> 0 \<longrightarrow> char_digit (hd s) \<noteq> 0)"
proof -
  have "char_digit (hd (map digit_char (digits 10 (unat x)))) = hd (digits 10 (unat x))"
    using digits_bound [of 10 "hd (digits 10 (unat x))" "unat x"] by (simp add: hd_map char_digit_char)
  moreover have "0 < hd (digits 10 (unat x))" if "x \<noteq> 0"
    using digits_hd [of 10 "unat x"] that by (simp add: unat_gt_0)
  moreover have "\<forall>c\<in>set (map digit_char (digits 10 (unat x))). 0x30 \<le> c \<and> c \<le> 0x39"
    using digits_bound [of 10 _ "unat x"] digit_char_range by auto
  ultimately show ?thesis using print_udec_digits [of x] read_digits [of 10 "unat x"] by auto
qed

text \<open>C24: \<^verbatim>\<open>%d\<close> prints the sign and the decimal numeral of every integer but the least one, whose
  negation overflows: that is printed as \<^verbatim>\<open>-./,),(-*,(\<close>.\<close>

theorem put_dec_reads:
  assumes "- (2 ^ 31) \<le> n" and "n < 2 ^ 31"
  shows "if n = - (2 ^ 31) then put_dec n = Some ([0x2D, 0x2E, 0x2F, 0x2C, 0x29, 0x2C, 0x28, 0x2D, 0x2A, 0x2C, 0x28], 11)
    else \<exists>s. put_dec n = Some ((if n < 0 then [0x2D] else []) @ s, int (length s) + (if n < 0 then 1 else 0)) \<and>
      int (read_number 10 s) = \<bar>n\<bar> \<and> (\<forall>c\<in>set s. 0x30 \<le> c \<and> c \<le> 0x39)"
proof (cases "n = - (2 ^ 31)")
  case True
  have "unat (0x80000000 :: u32) = 2147483648" by simp
  moreover have "digits 10 2147483648 = [2, 1, 4, 7, 4, 8, 3, 6, 4, 8]" by (simp add: digits.simps)
  ultimately have "len_loop 0x80000000 10 1 = Some 10" "pow 10 9 = 10 ^ 9"
    using len_pow(1,8) [of 10 "0x80000000"] by simp_all
  moreover have "dec_digits (unat (10 :: u32)) (10 ^ 9) (- (2 ^ 31)) = [0x2E, 0x2F, 0x2C, 0x29, 0x2C, 0x28, 0x2D, 0x2A, 0x2C, 0x28]"
  proof -
    have ten: "unat (10 :: u32) = Suc (Suc (Suc (Suc (Suc (Suc (Suc (Suc (Suc (Suc 0)))))))))" by simp
    show ?thesis unfolding ten by (simp add: cdiv_def cmod_def)
  qed
  ultimately show ?thesis using True by (simp add: put_dec_def len_def)
next
  case False
  have "\<forall>c\<in>set (map digit_char (digits 10 (nat \<bar>n\<bar>))). 0x30 \<le> c \<and> c \<le> 0x39"
    using digits_bound [of 10 _ "nat \<bar>n\<bar>"] digit_char_range by auto
  then show ?thesis using False put_dec_digits [of n] assms read_digits [of 10 "nat \<bar>n\<bar>"] by auto
qed

text \<open>\<^verbatim>\<open>%x\<close> prints \<^verbatim>\<open>0x\<close> and always eight hexadecimal digits that read back as the number,
  but returns as size only the significant digits and two.\<close>

theorem put_uhex_reads:
  "\<exists>s n. put_uhex x = Some ([0x30, 0x78] @ s, n) \<and> length s = 8 \<and> read_number 16 s = unat x \<and>
     3 \<le> n \<and> n \<le> 10 \<and> (n = 10 \<longleftrightarrow> 0x10000000 \<le> x)"
proof -
  let ?l = "length (digits 16 (unat x))"
  have l: "Suc 0 \<le> ?l" "?l \<le> 8" using len_pow(2,9) [of 16 x] by (simp_all add: Suc_le_eq)
  have "?l = 8 \<longleftrightarrow> 16 ^ 7 \<le> unat x"
  proof
    assume "?l = 8" then show "16 ^ 7 \<le> unat x"
    proof (cases "unat x = 0")
      case True
      then have "?l = 1" by (subst digits.simps) simp
      then show ?thesis using \<open>?l = 8\<close> by simp
    qed (use digits_power [of 16 "unat x"] in simp)
  next
    assume "16 ^ 7 \<le> unat x"
    then show "?l = 8" using digits_number_bound [of 16 "unat x"] power_increasing [of ?l 7 "16 :: nat"] l by fastforce
  qed
  then show ?thesis
    using put_uhex_digits [of x] l read_digits [of 16 "unat x"]
    by (intro exI [of _ "replicate (8 - ?l) 0x30 @ map digit_char (digits 16 (unat x))"] exI [of _ "int ?l + 2"])
      (auto simp: read_zeros word_le_nat_alt)
qed

subsection \<open>Formatted text\<close>

text \<open>The text of a format without number directives.\<close>

fun plain_text :: "(u32 \<Rightarrow> u8 list) \<Rightarrow> u8 list \<Rightarrow> u32 list \<Rightarrow> u8 list option" where
  "plain_text str [] args = Some []"
| "plain_text str (c # fmt) args =
     (if c = 0x25 then
        (case fmt of
           [] \<Rightarrow> None
         | d # fmt \<Rightarrow>
             if d = 0x63 then (case args of [] \<Rightarrow> None | a # args \<Rightarrow> map_option ((#) (ucast a)) (plain_text str fmt args))
             else if d = 0x73 then (case args of [] \<Rightarrow> None | a # args \<Rightarrow> map_option ((@) (str a)) (plain_text str fmt args))
             else if d = 0x25 then map_option ((#) 0x25) (plain_text str fmt args)
             else None)
      else map_option ((#) c) (plain_text str fmt args))"

lemma has_room_iff: "n < 2 ^ 31 \<Longrightarrow> has_room (of_nat n) sz \<longleftrightarrow> unat sz < n"
proof -
  assume n: "n < 2 ^ 31"
  then have "sint (of_nat n :: u32) = int n" using sint_of_int_small [of "int n", where 'a = 32] by simp
  then have "\<not> (of_nat n :: u32) <s 0" by (simp add: word_sless_alt)
  moreover have "unat (of_nat n :: u32) = n" using n by (simp add: unat_of_nat take_bit_nat_eq_self)
  ultimately show ?thesis by (simp add: has_room_def word_less_nat_alt)
qed

lemma suc_size: "unat (sz :: u32) < n \<Longrightarrow> n < 2 ^ 31 \<Longrightarrow> unat (sz + 1) = Suc (unat sz)"
  by (simp add: unat_word_ariths)

lemma put_str_spec:
  assumes "n < 2 ^ 31" "0 \<notin> set s" "unat sz = length out" "length out \<le> n"
  shows "\<exists>sz'. put_str (of_nat n) s sz out = (sz', take n (out @ s)) \<and> unat sz' = length (take n (out @ s))"
  using assms(2-4)
proof (induction s arbitrary: sz out)
  case (Cons c s)
  show ?case
  proof (cases "length out < n")
    case True
    have u: "unat (sz + 1) = length (out @ [c])" using suc_size [of sz n] True Cons.prems assms(1) by simp
    from Cons.IH [OF _ u] Cons.prems True show ?thesis by (simp add: has_room_iff [OF assms(1)])
  next
    case False
    then show ?thesis using Cons.prems by (simp add: has_room_iff [OF assms(1)])
  qed
qed simp

lemma vsn_full: "n < 2 ^ 31 \<Longrightarrow> unat sz = n \<Longrightarrow> vsn_loop str (of_nat n) fmt args sz out = Some (int n, out @ [0])"
proof -
  assume n: "n < 2 ^ 31" "unat sz = n"
  then have "uint sz = int n" by (metis int_nat_eq uint_ge_0 unat_eq_nat_uint)
  then have "sint sz = int n" using sint_uint_small [of sz] n(1) by simp
  then show ?thesis using n by (subst vsn_loop.simps) (simp add: has_room_iff)
qed

lemma vsn_plain:
  assumes n: "n < 2 ^ 31"
  shows "plain_text str fmt args = Some t \<Longrightarrow> \<forall>a. 0 \<notin> set (str a) \<Longrightarrow> 0 \<notin> set fmt \<Longrightarrow> unat sz = length out \<Longrightarrow> length out \<le> n \<Longrightarrow>
    vsn_loop str (of_nat n) fmt args sz out = Some (int (min n (length out + length t)), take n (out @ t) @ [0])"
proof (induction str fmt args arbitrary: sz out t rule: plain_text.induct)
  case (1 str args)
  show ?case
  proof (cases "length out = n")
    case True
    then show ?thesis using vsn_full [OF n, of sz] 1 by simp
  next
    case False
    have "uint sz = int (length out)" using 1(4) by (metis int_nat_eq uint_ge_0 unat_eq_nat_uint)
    moreover have "length out < 2 ^ 31" using 1(5) n by simp
    ultimately have "sint sz = int (length out)" using sint_uint_small [of sz] by simp
    then show ?thesis using 1 False by (subst vsn_loop.simps) (simp add: has_room_iff [OF n])
  qed
next
  case (2 str c fmt args)
  show ?case
  proof (cases "length out = n")
    case True
    then show ?thesis using vsn_full [OF n, of sz] 2 by simp
  next
    case False
    then have room: "has_room (of_nat n) sz" "c \<noteq> 0" using 2 by (simp_all add: has_room_iff [OF n])
    have sz1: "unat (sz + 1) = length (out @ [x])" "length (out @ [x]) \<le> n" for x
      using suc_size [OF _ n, of sz] 2 False by simp_all
    have one: ?thesis if "plain_text str f as = Some t'" "t = x # t'" "vsn_loop str (of_nat n) (c # fmt) args sz out =
        vsn_loop str (of_nat n) f as (sz + 1) (out @ [x])"
      "vsn_loop str (of_nat n) f as (sz + 1) (out @ [x]) =
        Some (int (min n (length (out @ [x]) + length t')), take n ((out @ [x]) @ t') @ [0])" for f as t' x
      using that by simp
    show ?thesis
    proof (cases "c = 0x25")
      case lit: False
      then obtain t' where t': "plain_text str fmt args = Some t'" "t = c # t'" using 2(5) by auto
      have e: "vsn_loop str (of_nat n) (c # fmt) args sz out = vsn_loop str (of_nat n) fmt args (sz + 1) (out @ [c])"
        using room lit by (subst vsn_loop.simps) simp
      show ?thesis by (rule one [OF t' e]) (rule 2(4) [OF lit t'(1) 2(6) _ sz1], use 2(7) in simp)
    next
      case pc: True
      then obtain d f where fmt: "fmt = d # f" using 2(5) by (cases fmt) auto
      consider "d = 0x63" | "d = 0x73" | "d = 0x25" using 2(5) pc fmt by (auto split: if_splits)
      then show ?thesis
      proof cases
        case 1
        obtain a as t' where a: "args = a # as" "plain_text str f as = Some t'" "t = ucast a # t'"
          using 2(5) pc fmt 1 by (auto split: list.splits)
        have e: "vsn_loop str (of_nat n) (c # fmt) args sz out = vsn_loop str (of_nat n) f as (sz + 1) (out @ [ucast a])"
          using room pc fmt 1 a(1) by (subst vsn_loop.simps) simp
        show ?thesis
          by (rule one [OF a(2,3) e]) (rule 2(1) [OF pc fmt 1 a(1,2) 2(6) _ sz1], use 2(7) fmt in simp)
      next
        case s: 2
        obtain a as t' where a: "args = a # as" "plain_text str f as = Some t'" "t = str a @ t'"
          using 2(5) pc fmt s by (auto split: list.splits)
        obtain sz' where p: "put_str (of_nat n) (str a) sz out = (sz', take n (out @ str a))"
          "unat sz' = length (take n (out @ str a))"
          using put_str_spec [OF n spec [OF 2(6)] 2(8,9)] by blast
        have e: "vsn_loop str (of_nat n) (c # fmt) args sz out = vsn_loop str (of_nat n) f as sz' (take n (out @ str a))"
          using room pc fmt s a(1) p(1) by (subst vsn_loop.simps) simp
        have "d \<noteq> 0x63" using s by simp
        from 2(2) [OF pc fmt this s a(1,2) 2(6) _ p(2)] 2(7) fmt
        have r: "vsn_loop str (of_nat n) f as sz' (take n (out @ str a)) =
          Some (int (min n (length (take n (out @ str a)) + length t')), take n (take n (out @ str a) @ t') @ [0])" by simp
        have "take n (take n (out @ str a) @ t') = take n (out @ str a @ t')"
          by (cases "length (out @ str a) \<le> n") (simp_all add: min_def)
        moreover have "min n (length (take n (out @ str a)) + length t') = min n (length out + length (str a @ t'))"
          by (simp only: length_take length_append)
        ultimately show ?thesis using e r unfolding a(3) by (simp only: append_assoc)
      next
        case p: 3
        obtain t' where a: "plain_text str f args = Some t'" "t = 0x25 # t'"
          using 2(5) pc fmt p by auto
        have e: "vsn_loop str (of_nat n) (c # fmt) args sz out = vsn_loop str (of_nat n) f args (sz + 1) (out @ [0x25])"
          using room pc fmt p by (subst vsn_loop.simps) simp
        show ?thesis
          by (rule one [OF a e]) (rule 2(3) [OF pc fmt _ _ p a(1) 2(6) _ sz1], use 2(7) fmt p in simp_all)
      qed
    qed
  qed
qed


subsection \<open>Witnesses\<close>

theorem strcmp_orders_witness: "strcmp [0x61, 0x62] [0x61, 0x63] < 0 \<and> strncmp [0x61, 0x62] [0x61, 0x63] 1 = 0"
proof -
  have "0 \<notin> set [0x61, 0x62 :: u8]" "0 \<notin> set [0x61, 0x63 :: u8]" by simp_all
  from strcmp_orders [OF this, of 1] show ?thesis using strcmp_nonul [of "[0x61]" "[0x61]"] by auto
qed

theorem char_pos_finds_witness: "char_pos [0x2F, 0x61, 0x2F] 0x2F 1 = Some 3 \<and> str_end_pos [0x2F, 0x61, 0x2F] 1 = Some 3"
proof -
  have "0 \<notin> set [0x2F, 0x61, 0x2F :: u8]" "(0x2F :: u8) \<noteq> 0" "1 \<le> length [0x2F, 0x61, 0x2F :: u8]" by simp_all
  note f = char_pos_finds [OF this]
  obtain r where r: "char_pos [0x2F, 0x61, 0x2F] 0x2F 1 = Some r" "1 < r" "r \<le> 3" "[0x2F, 0x61, 0x2F] ! (r - 1) = (0x2F :: u8)"
    using f by auto
  then have "r = 2 \<or> r = 3" by auto
  then have "r = 3" using r(4) by auto
  then show ?thesis using r(1) f by simp
qed

theorem print_udec_reads_witness:
  "\<exists>s. print_udec 2026 = Some (s, int (length s)) \<and> read_number 10 s = 2026 \<and> char_digit (hd s) \<noteq> 0"
  using print_udec_reads [of 2026] by auto

theorem put_dec_reads_witness:
  "put_dec (- 2147483648) = Some ([0x2D, 0x2E, 0x2F, 0x2C, 0x29, 0x2C, 0x28, 0x2D, 0x2A, 0x2C, 0x28], 11)"
  using put_dec_reads [of "- 2147483648"] by simp


end
