(* ===== verification/Ring.thy ===== *)
theory Ring
  imports Prelude
begin

section \<open>Doubly linked rings in arrays\<close>

text \<open>
  The scheduler's task list (\<^verbatim>\<open>kernel/sched.c\<close>) and the ring of consoles
  (\<^verbatim>\<open>kernel/con.c\<close>) are circular doubly linked lists threaded through
  the elements of a fixed array. This theory holds the abstraction of such a ring as the
  list of its nodes, and the contract of a node store: a \<^verbatim>\<open>locale\<close> in which
  unlinking a node and linking one at the end are proved once and which each of the two
  components interprets on its own array.
\<close>

subsection \<open>The edges of a ring\<close>

definition edges :: "'a list \<Rightarrow> ('a \<times> 'a) set" where
  "edges xs = set (zip xs (rotate1 xs))"

definition path :: "'a list \<Rightarrow> ('a \<times> 'a) set" where
  "path xs = set (zip xs (tl xs))"

lemma path_simps [simp]:
  "path [] = {}" "path [x] = {}" "path (x # y # zs) = insert (x, y) (path (y # zs))"
  by (simp_all add: path_def)

lemma path_append:
  "xs \<noteq> [] \<Longrightarrow> ys \<noteq> [] \<Longrightarrow>
   path (xs @ ys) = insert (last xs, hd ys) (path xs \<union> path ys)"
proof (induction xs)
  case Nil
  then show ?case by simp
next
  case (Cons x xs)
  then show ?case by (cases xs; cases ys) auto
qed

lemma zip_shift: "set (zip (x # xs) (xs @ [y])) = insert (last (x # xs), y) (path (x # xs))"
proof (induction xs arbitrary: x)
  case Nil
  then show ?case by (simp add: path_def)
next
  case (Cons z xs)
  then show ?case by (auto simp: path_def)
qed

lemma edges_path: "xs \<noteq> [] \<Longrightarrow> edges xs = insert (last xs, hd xs) (path xs)"
  by (cases xs) (simp_all add: edges_def zip_shift del: zip_Cons_Cons)

lemma edges_Nil [simp]: "edges [] = {}"
  by (simp add: edges_def)

lemma edges_swap: "edges (xs @ ys) = edges (ys @ xs)"
proof (cases "xs = [] \<or> ys = []")
  case False
  then show ?thesis by (simp add: edges_path path_append insert_commute Un_commute)
qed auto

lemma path_fst: "(x, y) \<in> path xs \<Longrightarrow> distinct xs \<Longrightarrow> x \<in> set xs \<and> x \<noteq> last xs"
proof (induction xs)
  case (Cons z xs)
  then show ?case by (cases xs) auto
qed simp

lemma path_snd: "(x, y) \<in> path xs \<Longrightarrow> distinct xs \<Longrightarrow> y \<in> set xs \<and> y \<noteq> hd xs"
proof (induction xs)
  case (Cons z xs)
  then show ?case by (cases xs) auto
qed simp

lemma path_nth: "Suc k < length xs \<Longrightarrow> (xs ! k, xs ! Suc k) \<in> path xs"
  by (auto simp: path_def set_zip nth_tl)

lemma edges_nth:
  assumes "k < length xs"
  shows "(xs ! k, xs ! (Suc k mod length xs)) \<in> edges xs"
proof (cases "Suc k < length xs")
  case True
  then have "xs \<noteq> []" by auto
  with True show ?thesis using path_nth [of k xs] edges_path [of xs] by auto
next
  case False
  with assms have k: "Suc k = length xs" by simp
  then have "xs \<noteq> []" by auto
  with k show ?thesis
    by (metis diff_Suc_1 edges_path hd_conv_nth insertI1 last_conv_nth mod_self)
qed

subsection \<open>Links\<close>

definition ring_links :: "('a \<Rightarrow> 'a option) \<Rightarrow> ('a \<Rightarrow> 'a option) \<Rightarrow> 'a list \<Rightarrow> bool" where
  "ring_links nx pv xs \<longleftrightarrow>
     distinct xs \<and> (\<forall>(x, y) \<in> edges xs. nx x = Some y \<and> pv y = Some x)"

lemma ring_links_Nil [simp]: "ring_links nx pv []"
  by (simp add: ring_links_def)

lemma ring_links_single: "ring_links nx pv [x] \<longleftrightarrow> nx x = Some x \<and> pv x = Some x"
  by (simp add: ring_links_def edges_def)

lemma ring_links_distinct: "ring_links nx pv xs \<Longrightarrow> distinct xs"
  by (simp add: ring_links_def)

lemma ring_links_swap: "ring_links nx pv (xs @ ys) \<longleftrightarrow> ring_links nx pv (ys @ xs)"
  by (auto simp: ring_links_def edges_swap [of xs ys])

lemma ring_links_next:
  "ring_links nx pv xs \<Longrightarrow> k < length xs \<Longrightarrow> nx (xs ! k) = Some (xs ! (Suc k mod length xs))"
  using edges_nth [of k xs] by (auto simp: ring_links_def)

lemma ring_links_last: "ring_links nx pv xs \<Longrightarrow> xs \<noteq> [] \<Longrightarrow> nx (last xs) = Some (hd xs)"
  and ring_links_hd: "ring_links nx pv xs \<Longrightarrow> xs \<noteq> [] \<Longrightarrow> pv (hd xs) = Some (last xs)"
  by (auto simp: ring_links_def edges_path)

lemma ring_links_prev_self:
  assumes r: "ring_links nx pv xs" and x: "x \<in> set xs" and self: "pv x = Some x"
  shows "xs = [x]"
proof -
  obtain us vs where xs: "xs = us @ x # vs" using x by (auto simp: in_set_conv_decomp)
  have "ring_links nx pv (x # vs @ us)"
    using r ring_links_swap [of nx pv us "x # vs"] by (simp add: xs)
  then have "vs @ us = []"
    using self by (cases "vs @ us" rule: rev_cases) (auto simp: ring_links_def edges_path)
  then show ?thesis by (simp add: xs)
qed

lemma ring_links_cong:
  assumes "ring_links nx pv xs"
    and "\<And>x. x \<in> set xs \<Longrightarrow> nx' x = nx x" and "\<And>x. x \<in> set xs \<Longrightarrow> pv' x = pv x"
  shows "ring_links nx' pv' xs"
  using assms unfolding ring_links_def edges_def
  by (fastforce dest: set_zip_leftD set_zip_rightD)

lemma ring_links_snoc:
  assumes r: "ring_links nx pv xs" and ne: "xs \<noteq> []" and i: "i \<notin> set xs"
    and n: "\<And>x. x \<in> set xs \<Longrightarrow> x \<noteq> last xs \<Longrightarrow> nx' x = nx x"
    and p: "\<And>x. x \<in> set xs \<Longrightarrow> x \<noteq> hd xs \<Longrightarrow> pv' x = pv x"
    and new: "nx' (last xs) = Some i" "nx' i = Some (hd xs)"
      "pv' (hd xs) = Some i" "pv' i = Some (last xs)"
  shows "ring_links nx' pv' (xs @ [i])"
proof -
  have e: "edges (xs @ [i]) = insert (i, hd xs) (insert (last xs, i) (path xs))"
    using ne by (simp add: edges_path path_append)
  have d: "distinct xs" using r by (rule ring_links_distinct)
  have "nx' x = Some y \<and> pv' y = Some x" if xy: "(x, y) \<in> path xs" for x y
  proof -
    have "nx x = Some y" "pv y = Some x"
      using r xy ne by (auto simp: ring_links_def edges_path)
    then show ?thesis using n p path_fst [OF xy d] path_snd [OF xy d] by simp
  qed
  then show ?thesis using new d i by (auto simp: ring_links_def e)
qed

lemma ring_links_unlink:
  assumes r: "ring_links nx pv (a # m)" and ne: "m \<noteq> []"
    and n: "\<And>x. x \<in> set m \<Longrightarrow> x \<noteq> last m \<Longrightarrow> nx' x = nx x"
    and p: "\<And>x. x \<in> set m \<Longrightarrow> x \<noteq> hd m \<Longrightarrow> pv' x = pv x"
    and new: "nx' (last m) = Some (hd m)" "pv' (hd m) = Some (last m)"
  shows "ring_links nx' pv' m"
proof -
  have d: "distinct m" using r by (simp add: ring_links_def)
  have sub: "path m \<subseteq> path (a # m)" using ne by (cases m) auto
  have "nx' x = Some y \<and> pv' y = Some x" if xy: "(x, y) \<in> path m" for x y
  proof -
    have "(x, y) \<in> edges (a # m)" using sub xy by (auto simp: edges_path)
    then have "nx x = Some y" "pv y = Some x" using r by (auto simp: ring_links_def)
    then show ?thesis using n p path_fst [OF xy d] path_snd [OF xy d] by simp
  qed
  then show ?thesis using new d ne by (auto simp: ring_links_def edges_path)
qed

lemma ring_links_neighbours:
  assumes "ring_links nx pv (a # m)" and "m \<noteq> []"
  shows "nx a = Some (hd m)" and "pv a = Some (last m)"
  using assms by (cases m; auto simp: ring_links_def edges_path)+

subsection \<open>The contract of a node store\<close>

locale ring_store =
  fixes nxt :: "'s \<Rightarrow> 'i \<Rightarrow> 'i option"
    and prv :: "'s \<Rightarrow> 'i \<Rightarrow> 'i option"
    and set_nxt :: "'i \<Rightarrow> 'i option \<Rightarrow> 's \<Rightarrow> 's"
    and set_prv :: "'i \<Rightarrow> 'i option \<Rightarrow> 's \<Rightarrow> 's"
    and valid :: "'s \<Rightarrow> 'i \<Rightarrow> bool"
  assumes nxt_set_nxt: "valid s i \<Longrightarrow> nxt (set_nxt i v s) j = (if j = i then v else nxt s j)"
    and prv_set_prv: "valid s i \<Longrightarrow> prv (set_prv i v s) j = (if j = i then v else prv s j)"
    and nxt_set_prv: "nxt (set_prv i v s) j = nxt s j"
    and prv_set_nxt: "prv (set_nxt i v s) j = prv s j"
    and valid_set_nxt: "valid (set_nxt i v s) j = valid s j"
    and valid_set_prv: "valid (set_prv i v s) j = valid s j"
begin

lemmas store_laws = nxt_set_nxt prv_set_prv nxt_set_prv prv_set_nxt valid_set_nxt valid_set_prv

lemma link_first:
  assumes "valid s i"
  shows "ring_links (nxt (set_prv i (Some i) (set_nxt i (Some i) s)))
     (prv (set_prv i (Some i) (set_nxt i (Some i) s))) [i]"
  using assms by (simp add: ring_links_single store_laws)

text \<open>\<^verbatim>\<open>i->next = first; i->prev = last; last->next = i; first->prev = i\<close>\<close>

lemma link_last:
  assumes r: "ring_links (nxt s) (prv s) xs" and ne: "xs \<noteq> []" and i: "i \<notin> set xs"
    and v: "\<forall>x\<in>set xs. valid s x" "valid s i"
    and s': "s' = set_prv (hd xs) (Some i) (set_nxt (last xs) (Some i)
              (set_prv i (Some (last xs)) (set_nxt i (Some (hd xs)) s)))"
  shows "ring_links (nxt s') (prv s') (xs @ [i])"
proof (rule ring_links_snoc [OF r ne i])
  have mem: "hd xs \<in> set xs" "last xs \<in> set xs" using ne by auto
  then have neq: "hd xs \<noteq> i" "last xs \<noteq> i" using i by auto
  have val: "valid s (hd xs)" "valid s (last xs)" using v mem by auto
  show "nxt s' (last xs) = Some i" "nxt s' i = Some (hd xs)"
    "prv s' (hd xs) = Some i" "prv s' i = Some (last xs)"
    using v val neq by (auto simp: s' store_laws)
  fix x assume x: "x \<in> set xs"
  then have "x \<noteq> i" using i by auto
  then show "x \<noteq> last xs \<Longrightarrow> nxt s' x = nxt s x" "x \<noteq> hd xs \<Longrightarrow> prv s' x = prv s x"
    using v val by (auto simp: s' store_laws)
qed

text \<open>\<^verbatim>\<open>a->prev->next = a->next; a->next->prev = a->prev\<close>\<close>

lemma unlink:
  assumes r: "ring_links (nxt s) (prv s) (a # m)" and ne: "m \<noteq> []"
    and v: "\<forall>x\<in>set m. valid s x"
    and s': "s' = set_prv (hd m) (Some (last m)) (set_nxt (last m) (Some (hd m)) s)"
  shows "ring_links (nxt s') (prv s') m"
proof (rule ring_links_unlink [OF r ne])
  have val: "valid s (hd m)" "valid s (last m)" using v ne by auto
  show "nxt s' (last m) = Some (hd m)" "prv s' (hd m) = Some (last m)"
    using val by (auto simp: s' store_laws)
  fix x assume "x \<in> set m"
  then show "x \<noteq> last m \<Longrightarrow> nxt s' x = nxt s x" "x \<noteq> hd m \<Longrightarrow> prv s' x = prv s x"
    using val by (auto simp: s' store_laws)
qed

end

end
