(* ===== verification/Sched.thy ===== *)
theory Sched
  imports Ring
begin

section \<open>The scheduler\<close>

text \<open>
  \<^verbatim>\<open>kernel/sched.c\<close>: a round-robin scheduler over an array of
  \<open>MAX_PID\<close> task slots. Ready tasks are linked into a ring through the slots; \<open>first\<close> and
  \<open>last\<close> delimit it, \<open>actual\<close> is the running task. A pointer into
  \<^verbatim>\<open>tasks[]\<close> is a slot number, \<^verbatim>\<open>NULL\<close> is \<open>None\<close>, and following
  \<^verbatim>\<open>NULL\<close> stops the kernel (\<open>None\<close> of the option monad).

  The second half relates the array to an abstract round robin \<open>rr\<close>: the ready tasks
  in order with their remaining quanta, and the position of the running one. Every
  operation of the code is shown to succeed where the kernel calls it and to have exactly
  the abstract effect.
\<close>

subsection \<open>The code\<close>

abbreviation (input) MAX_PID :: nat where "MAX_PID \<equiv> 32"
abbreviation (input) SCHED_QUANTUM_DEFAULT :: u32 where "SCHED_QUANTUM_DEFAULT \<equiv> 10"
abbreviation (input) FREE_PID :: int where "FREE_PID \<equiv> -1"

record sched_task =
  t_pd :: int
  t_quantum :: u32
  t_next :: "nat option"
  t_prev :: "nat option"

record sched_state =
  tasks :: "sched_task list"
  sc_actual :: "nat option"
  sc_first :: "nat option"
  sc_last :: "nat option"
  running_tasks :: int

definition upd_task :: "nat \<Rightarrow> (sched_task \<Rightarrow> sched_task) \<Rightarrow> 'a sched_state_scheme \<Rightarrow> 'a sched_state_scheme" where
  "upd_task i f s = s\<lparr>tasks := (tasks s)[i := f (tasks s ! i)]\<rparr>"

text \<open>\<^verbatim>\<open>memset(&tasks[i], 0, sizeof(sched_task))\<close>\<close>

definition zero_task :: sched_task where
  "zero_task = \<lparr>t_pd = 0, t_quantum = 0, t_next = None, t_prev = None\<rparr>"

definition sched_init :: "'a sched_state_scheme \<Rightarrow> 'a sched_state_scheme" where
  "sched_init s = s\<lparr>tasks := map (\<lambda>t. t\<lparr>t_pd := FREE_PID\<rparr>) (replicate MAX_PID zero_task),
     sc_actual := None, sc_first := None, sc_last := None, running_tasks := 0\<rparr>"

definition sched_load :: "int \<Rightarrow> 'a sched_state_scheme \<Rightarrow> 'a sched_state_scheme option" where
  "sched_load pd s = do {
     kassert (0 \<le> pd \<and> pd < int MAX_PID);
     let i = index_where (\<lambda>t. t_pd t = FREE_PID) (tasks s);
     kassert (i \<noteq> MAX_PID);
     let s = upd_task i (\<lambda>t. t\<lparr>t_pd := pd\<rparr>) s;
     let s = upd_task i (\<lambda>t. t\<lparr>t_quantum := SCHED_QUANTUM_DEFAULT\<rparr>) s;
     s \<leftarrow> (if running_tasks s = 0 then
             (let s = upd_task i (\<lambda>t. t\<lparr>t_next := Some i\<rparr>) s;
                  s = upd_task i (\<lambda>t. t\<lparr>t_prev := Some i\<rparr>) s
              in Some (s\<lparr>sc_last := Some i, sc_first := Some i\<rparr>))
           else do {
             let s = upd_task i (\<lambda>t. t\<lparr>t_next := sc_first s\<rparr>) s;
             let s = upd_task i (\<lambda>t. t\<lparr>t_prev := sc_last s\<rparr>) s;
             l \<leftarrow> sc_last s;
             let s = upd_task l (\<lambda>t. t\<lparr>t_next := Some i\<rparr>) s;
             let s = (if t_prev (tasks s ! l) = sc_last s
                      then upd_task l (\<lambda>t. t\<lparr>t_prev := Some i\<rparr>) s else s);
             Some (s\<lparr>sc_last := Some i\<rparr>)
           });
     f \<leftarrow> sc_first s;
     let s = upd_task f (\<lambda>t. t\<lparr>t_prev := sc_last s\<rparr>) s;
     Some (s\<lparr>running_tasks := running_tasks s + 1\<rparr>)
   }"

definition sched_unblock :: "int \<Rightarrow> 'a sched_state_scheme \<Rightarrow> 'a sched_state_scheme option" where
  "sched_unblock pd s = sched_load pd s"

definition sched_exit :: "'a sched_state_scheme \<Rightarrow> (int \<times> 'a sched_state_scheme) option" where
  "sched_exit s = do {
     kassert (running_tasks s > 0);
     (pd, s) \<leftarrow> (if running_tasks s > 1 then do {
         f \<leftarrow> sc_first s;
         a \<leftarrow> sc_actual s;
         let s = (if t_pd (tasks s ! f) = t_pd (tasks s ! a)
                  then s\<lparr>sc_first := t_next (tasks s ! a)\<rparr> else s);
         l \<leftarrow> sc_last s;
         let s = (if t_pd (tasks s ! l) = t_pd (tasks s ! a)
                  then s\<lparr>sc_last := t_prev (tasks s ! a)\<rparr> else s);
         let tmp_next = t_next (tasks s ! a);
         p \<leftarrow> t_prev (tasks s ! a);
         let s = upd_task p (\<lambda>t. t\<lparr>t_next := t_next (tasks s ! a)\<rparr>) s;
         n \<leftarrow> t_next (tasks s ! a);
         let s = upd_task n (\<lambda>t. t\<lparr>t_prev := t_prev (tasks s ! a)\<rparr>) s;
         let s = upd_task a (\<lambda>_. zero_task) s;
         let s = s\<lparr>sc_actual := tmp_next\<rparr>;
         new \<leftarrow> sc_actual s;
         let pd = t_pd (tasks s ! new);
         let s = upd_task a (\<lambda>t. t\<lparr>t_pd := FREE_PID\<rparr>) s;
         Some (pd, s)
       } else do {
         a \<leftarrow> sc_actual s;
         let s = upd_task a (\<lambda>_. zero_task) s;
         let s = upd_task a (\<lambda>t. t\<lparr>t_pd := FREE_PID\<rparr>) s;
         Some (0, s\<lparr>sc_first := None, sc_last := None, sc_actual := None\<rparr>)
       });
     Some (pd, s\<lparr>running_tasks := running_tasks s - 1\<rparr>)
   }"

definition sched_block :: "'a sched_state_scheme \<Rightarrow> (int \<times> 'a sched_state_scheme) option" where
  "sched_block s = sched_exit s"

text \<open>The assertion \<^verbatim>\<open>actual->quantum >= 0\<close> is always true of an unsigned field.\<close>

definition sched_tick :: "'a sched_state_scheme \<Rightarrow> (int \<times> 'a sched_state_scheme) option" where
  "sched_tick s =
     (case sc_actual s of
        None \<Rightarrow>
          if running_tasks s \<le> 0 then Some (0, s)
          else do {
            let s = s\<lparr>sc_actual := sc_first s\<rparr>;
            a \<leftarrow> sc_actual s;
            Some (t_pd (tasks s ! a), s)
          }
      | Some a \<Rightarrow> do {
          kassert (t_quantum (tasks s ! a) \<ge> 0);
          if t_quantum (tasks s ! a) > 0 then do {
            let s = upd_task a (\<lambda>t. t\<lparr>t_quantum := t_quantum t - 1\<rparr>) s;
            Some (t_pd (tasks s ! a), s)
          } else do {
            let s = upd_task a (\<lambda>t. t\<lparr>t_quantum := SCHED_QUANTUM_DEFAULT\<rparr>) s;
            n \<leftarrow> t_next (tasks s ! a);
            let s = s\<lparr>sc_actual := Some n\<rparr>;
            Some (t_pd (tasks s ! n), s)
          }
        })"

subsection \<open>The ring of ready tasks\<close>

fun task_walk :: "sched_task list \<Rightarrow> nat \<Rightarrow> nat option \<Rightarrow> nat list" where
  "task_walk ts 0 p = []"
| "task_walk ts (Suc n) None = []"
| "task_walk ts (Suc n) (Some i) = i # task_walk ts n (t_next (ts ! i))"

definition ready_slots :: "'a sched_state_scheme \<Rightarrow> nat list" where
  "ready_slots s = task_walk (tasks s) (nat (running_tasks s)) (sc_first s)"

abbreviation slot_pid :: "'a sched_state_scheme \<Rightarrow> nat \<Rightarrow> int" where
  "slot_pid s i \<equiv> t_pd (tasks s ! i)"

definition ready_pids :: "'a sched_state_scheme \<Rightarrow> int list" where
  "ready_pids s = map (slot_pid s) (ready_slots s)"

definition sched_rel :: "'a sched_state_scheme \<Rightarrow> nat list \<Rightarrow> bool" where
  "sched_rel s xs \<longleftrightarrow>
     length (tasks s) = MAX_PID \<and>
     ring_links (\<lambda>i. t_next (tasks s ! i)) (\<lambda>i. t_prev (tasks s ! i)) xs \<and>
     set xs \<subseteq> {..<MAX_PID} \<and>
     (\<forall>i<MAX_PID. i \<notin> set xs \<longrightarrow> slot_pid s i = FREE_PID) \<and>
     (\<forall>i\<in>set xs. 0 \<le> slot_pid s i \<and> slot_pid s i < int MAX_PID) \<and>
     inj_on (slot_pid s) (set xs) \<and>
     (\<forall>i\<in>set xs. t_quantum (tasks s ! i) \<le> SCHED_QUANTUM_DEFAULT) \<and>
     running_tasks s = int (length xs) \<and>
     sc_first s = (if xs = [] then None else Some (hd xs)) \<and>
     sc_last s = (if xs = [] then None else Some (last xs)) \<and>
     (\<forall>a. sc_actual s = Some a \<longrightarrow> a \<in> set xs)"

definition sched_ok :: "'a sched_state_scheme \<Rightarrow> bool" where
  "sched_ok s \<longleftrightarrow> sched_rel s (ready_slots s)"

lemma task_walk_ring:
  assumes "ring_links (\<lambda>i. t_next (ts ! i)) pv xs" and "k + n = length xs" and "k < length xs"
  shows "task_walk ts n (Some (xs ! k)) = drop k xs"
  using assms(2,3)
proof (induction n arbitrary: k)
  case 0
  then show ?case by simp
next
  case (Suc n)
  have nx: "t_next (ts ! (xs ! k)) = Some (xs ! (Suc k mod length xs))"
    using assms(1) Suc.prems(2) by (rule ring_links_next)
  show ?case
  proof (cases "Suc k < length xs")
    case True
    with Suc.prems have "task_walk ts n (Some (xs ! Suc k)) = drop (Suc k) xs"
      by (intro Suc.IH) auto
    with True nx Suc.prems show ?thesis by (simp add: Cons_nth_drop_Suc)
  next
    case False
    with Suc.prems have "Suc k = length xs" "n = 0" by auto
    with Suc.prems show ?thesis by (simp add: Cons_nth_drop_Suc flip: Cons_nth_drop_Suc)
  qed
qed

lemma sched_rel_slots: "sched_rel s xs \<Longrightarrow> ready_slots s = xs"
proof (cases "xs = []")
  case True
  assume "sched_rel s xs"
  with True show ?thesis by (simp add: sched_rel_def ready_slots_def)
next
  case False
  assume r: "sched_rel s xs"
  then have "ring_links (\<lambda>i. t_next (tasks s ! i)) (\<lambda>i. t_prev (tasks s ! i)) xs"
    by (simp add: sched_rel_def)
  from task_walk_ring [OF this, of 0 "length xs"] r False show ?thesis
    by (simp add: sched_rel_def ready_slots_def hd_conv_nth)
qed

lemma sched_rel_ok: "sched_rel s xs \<Longrightarrow> sched_ok s"
  by (simp add: sched_ok_def sched_rel_slots)

lemmas task_fields =
  nth_list_update_field [where f = t_pd] nth_list_update_field [where f = t_quantum]
  nth_list_update_field [where f = t_next] nth_list_update_field [where f = t_prev]

interpretation tl: ring_store
  "\<lambda>ts i. t_next (ts ! i)" "\<lambda>ts i. t_prev (ts ! i)"
  "\<lambda>i v ts. ts[i := (ts ! i)\<lparr>t_next := v\<rparr>]" "\<lambda>i v ts. ts[i := (ts ! i)\<lparr>t_prev := v\<rparr>]"
  "\<lambda>ts i. i < length (ts :: sched_task list)"
  by unfold_locales (auto simp: nth_list_update task_fields)

lemma tasks_upd_task [simp]: "tasks (upd_task i f s) = (tasks s)[i := f (tasks s ! i)]"
  and sc_upd_task [simp]: "sc_actual (upd_task i f s) = sc_actual s"
    "sc_first (upd_task i f s) = sc_first s" "sc_last (upd_task i f s) = sc_last s"
    "running_tasks (upd_task i f s) = running_tasks s"
    "sched_state.more (upd_task i f s) = sched_state.more s"
  by (simp_all add: upd_task_def)

lemma upd_first_same: "sc_first s = x \<Longrightarrow> s\<lparr>sc_first := x\<rparr> = s"
  and upd_last_same: "sc_last s = x \<Longrightarrow> s\<lparr>sc_last := x\<rparr> = s"
  by auto

lemma sched_init_rel: "sched_rel (sched_init s) []"
  by (simp add: sched_rel_def sched_init_def)

lemma free_slot:
  assumes "sched_rel s xs" and "length xs < MAX_PID"
  defines "i \<equiv> index_where (\<lambda>t. t_pd t = FREE_PID) (tasks s)"
  shows "i < MAX_PID" and "i \<notin> set xs"
proof -
  have len: "length (tasks s) = MAX_PID" and ring: "distinct xs"
    and sub: "set xs \<subseteq> {..<MAX_PID}"
    using assms(1) by (auto simp: sched_rel_def dest: ring_links_distinct)
  have "card (set xs) < card {..<MAX_PID}"
    using assms(2) ring by (simp add: distinct_card)
  then obtain j where "j < MAX_PID" "j \<notin> set xs"
    using sub by (metis card_mono finite_lessThan lessThan_iff linorder_not_le subsetI finite_set)
  then show i: "i < MAX_PID"
    using assms(1) index_where_exists [of j "tasks s"] len by (auto simp: i_def sched_rel_def)
  then have "slot_pid s i = FREE_PID"
    using index_where_holds [of "\<lambda>t. t_pd t = FREE_PID" "tasks s"] len by (simp add: i_def)
  then show "i \<notin> set xs" using assms(1) by (auto simp: sched_rel_def)
qed

subsection \<open>What each operation does to the ring\<close>

lemma ring_links_prev_self_last:
  "ring_links nx pv xs \<Longrightarrow> xs \<noteq> [] \<Longrightarrow> pv (last xs) = Some (last xs) \<Longrightarrow> hd xs = last xs"
  by (metis last_in_set list.sel(1) ring_links_prev_self last_ConsL)

lemma sched_load_rel:
  assumes r: "sched_rel s xs" and room: "length xs < MAX_PID"
    and pd: "0 \<le> pd" "pd < int MAX_PID" and new: "pd \<notin> slot_pid s ` set xs"
  obtains i s' where "sched_load pd s = Some s'" "sched_rel s' (xs @ [i])"
    "\<forall>x\<in>set xs. slot_pid s' x = slot_pid s x \<and> t_quantum (tasks s' ! x) = t_quantum (tasks s ! x)"
    "slot_pid s' i = pd" "t_quantum (tasks s' ! i) = SCHED_QUANTUM_DEFAULT"
    "sc_actual s' = sc_actual s" "sched_state.more s' = sched_state.more s"
proof -
  define i where "i = index_where (\<lambda>t. t_pd t = FREE_PID) (tasks s)"
  have i: "i < MAX_PID" "i \<notin> set xs" using free_slot [OF r room] by (simp_all add: i_def)
  have len: "length (tasks s) = MAX_PID"
    and ring: "ring_links (\<lambda>i. t_next (tasks s ! i)) (\<lambda>i. t_prev (tasks s ! i)) xs"
    and sub: "set xs \<subseteq> {..<MAX_PID}" and run: "running_tasks s = int (length xs)"
    using r by (auto simp: sched_rel_def)
  show thesis
  proof (cases "xs = []")
    case True
    let ?s = "s\<lparr>tasks := (tasks s)[i := (tasks s ! i)\<lparr>t_pd := pd,
        t_quantum := SCHED_QUANTUM_DEFAULT, t_next := Some i, t_prev := Some i\<rparr>],
        sc_first := Some i, sc_last := Some i, running_tasks := 1\<rparr>"
    have "sched_load pd s = Some ?s"
      using True i pd run len r
      by (simp add: sched_load_def i_def [symmetric] sched_rel_def Let_def upd_task_def)
    moreover have "sched_rel ?s (xs @ [i])"
      using r True i pd by (auto simp: sched_rel_def ring_links_single nth_list_update)
    ultimately show thesis
      using that i len True by force
  next
    case False
    define h l where "h = hd xs" and "l = last xs"
    have hl: "h \<in> set xs" "l \<in> set xs" using False by (auto simp: h_def l_def)
    then have hl': "h < MAX_PID" "l < MAX_PID" "h \<noteq> i" "l \<noteq> i" using sub i by auto
    define t0 where "t0 = (tasks s)[i := (tasks s ! i)\<lparr>t_pd := pd, t_quantum := SCHED_QUANTUM_DEFAULT\<rparr>]"
    define t1 where "t1 = t0[i := (t0 ! i)\<lparr>t_next := Some h\<rparr>]"
    define t2 where "t2 = t1[i := (t1 ! i)\<lparr>t_prev := Some l\<rparr>]"
    define t3 where "t3 = t2[l := (t2 ! l)\<lparr>t_next := Some i\<rparr>]"
    define t4 where "t4 = t3[h := (t3 ! h)\<lparr>t_prev := Some i\<rparr>]"
    note ts = t0_def t1_def t2_def t3_def t4_def
    let ?s = "s\<lparr>tasks := t4, sc_last := Some i, running_tasks := running_tasks s + 1\<rparr>"
    have self: "t_prev (tasks s ! l) = Some l \<Longrightarrow> h = l"
      using ring_links_prev_self_last [OF ring False] by (simp add: h_def l_def)
    have "sched_load pd s = Some ?s"
      using False i hl' pd run len r self
      by (auto simp: sched_load_def i_def [symmetric] sched_rel_def Let_def upd_task_def
          ts nth_list_update h_def [symmetric] l_def [symmetric] list_update_swap)
    moreover have "ring_links (\<lambda>i. t_next (t4 ! i)) (\<lambda>i. t_prev (t4 ! i)) (xs @ [i])"
    proof (rule tl.link_last)
      show "ring_links (\<lambda>i. t_next (t0 ! i)) (\<lambda>i. t_prev (t0 ! i)) xs"
        by (rule ring_links_cong [OF ring]) (use i in \<open>auto simp: t0_def task_fields\<close>)
    qed (use False i sub len in \<open>auto simp: ts h_def l_def\<close>)
    moreover have pid: "t_pd (t4 ! x) = (if x = i then pd else t_pd (tasks s ! x))"
      and q: "t_quantum (t4 ! x) = (if x = i then SCHED_QUANTUM_DEFAULT else t_quantum (tasks s ! x))"
      if "x < MAX_PID" for x
      using that i hl' len by (auto simp: ts nth_list_update)
    moreover have "length t4 = MAX_PID" using len by (simp add: ts)
    ultimately have "sched_load pd s = Some ?s" "sched_rel ?s (xs @ [i])"
      using r False i pd new sub by (auto simp: sched_rel_def inj_on_def subset_iff image_iff; metis)+
    then show thesis using that pid q i sub by (force simp: subset_iff)
  qed
qed


lemma sched_exit_eval:
  assumes "1 < running_tasks s" and "sc_first s = Some f" and "sc_actual s = Some a"
    and "sc_last s = Some l" and "t_next (tasks s ! a) = Some n" and "t_prev (tasks s ! a) = Some p"
    and "n \<noteq> a" and "p \<noteq> a" and "a < length (tasks s)"
  defines "t1 \<equiv> (tasks s)[p := (tasks s ! p)\<lparr>t_next := Some n\<rparr>]"
  defines "t2 \<equiv> t1[n := (t1 ! n)\<lparr>t_prev := Some p\<rparr>]"
  shows "sched_exit s = Some (slot_pid s n,
    s\<lparr>tasks := t2[a := zero_task\<lparr>t_pd := FREE_PID\<rparr>], sc_actual := Some n,
      sc_first := (if slot_pid s f = slot_pid s a then Some n else Some f),
      sc_last := (if slot_pid s l = slot_pid s a then Some p else Some l),
      running_tasks := running_tasks s - 1\<rparr>)"
proof -
  have f: "s\<lparr>sc_first := Some f\<rparr> = s" and l: "u\<lparr>sc_last := sc_last u\<rparr> = u" for u :: "'a sched_state_scheme"
    using assms(2) by auto
  show ?thesis
    using assms(1-9) unfolding t1_def t2_def
    by (cases "slot_pid s f = slot_pid s a"; cases "slot_pid s l = slot_pid s a")
      (simp_all add: sched_exit_def Let_def upd_task_def nth_list_update_neq task_fields)
qed

lemma sched_exit_rel:
  assumes r: "sched_rel s (us @ a # vs)" and act: "sc_actual s = Some a" and ne: "vs @ us \<noteq> []"
  obtains s' where "sched_exit s = Some (slot_pid s (hd (vs @ us)), s')" "sched_rel s' (us @ vs)"
    "sc_actual s' = Some (hd (vs @ us))"
    "\<forall>x\<in>set (us @ vs). slot_pid s' x = slot_pid s x \<and> t_quantum (tasks s' ! x) = t_quantum (tasks s ! x)"
    "sched_state.more s' = sched_state.more s"
proof -
  define m where "m = vs @ us"
  define n p where "n = hd m" and "p = last m"
  have len: "length (tasks s) = MAX_PID" and run: "running_tasks s = int (Suc (length m))"
    and ring: "ring_links (\<lambda>i. t_next (tasks s ! i)) (\<lambda>i. t_prev (tasks s ! i)) (a # m)"
    and sub: "set m \<subseteq> {..<MAX_PID}" "a < MAX_PID"
    and inj: "inj_on (slot_pid s) (set (us @ a # vs))"
    using r ring_links_swap [of _ _ us "a # vs"] by (auto simp: sched_rel_def m_def)
  have am: "a \<notin> set m" and dm: "distinct m" using ring_links_distinct [OF ring] by auto
  have np: "n \<in> set m" "p \<in> set m" using hd_in_set [OF ne] last_in_set [OF ne]
    by (simp_all only: n_def p_def m_def)
  then have np': "n < MAX_PID" "p < MAX_PID" "n \<noteq> a" "p \<noteq> a" using sub am by auto
  have nb: "t_next (tasks s ! a) = Some n" "t_prev (tasks s ! a) = Some p"
    using ring_links_neighbours [OF ring] ne by (simp_all add: m_def n_def p_def)
  define t1 where "t1 = (tasks s)[p := (tasks s ! p)\<lparr>t_next := Some n\<rparr>]"
  define t2 where "t2 = t1[n := (t1 ! n)\<lparr>t_prev := Some p\<rparr>]"
  define t3 where "t3 = t2[a := zero_task\<lparr>t_pd := FREE_PID\<rparr>]"
  note ts = t1_def t2_def t3_def
  have same_pid: "slot_pid s x = slot_pid s a \<longleftrightarrow> x = a" if "x \<in> set (us @ a # vs)" for x
    using inj that by (auto simp: inj_on_def)
  have fst: "slot_pid s (hd (us @ a # vs)) = slot_pid s a \<longleftrightarrow> us = []"
    using same_pid [of "hd (us @ a # vs)"] am by (cases us) (auto simp: m_def)
  have lst: "slot_pid s (last (us @ a # vs)) = slot_pid s a \<longleftrightarrow> vs = []"
    using same_pid [of "last (us @ a # vs)"] am by (cases vs rule: rev_cases) (auto simp: m_def)
  let ?s = "s\<lparr>tasks := t3, sc_actual := Some n, sc_first := Some (hd (us @ vs)),
      sc_last := Some (last (us @ vs)), running_tasks := running_tasks s - 1\<rparr>"
  have ends: "us = [] \<Longrightarrow> n = hd (us @ vs)" "vs = [] \<Longrightarrow> p = last (us @ vs)"
    "us \<noteq> [] \<Longrightarrow> hd (us @ a # vs) = hd (us @ vs)" "vs \<noteq> [] \<Longrightarrow> last (us @ a # vs) = last (us @ vs)"
    by (auto simp: n_def p_def m_def)
  have "running_tasks s > 1" using run ne by (cases vs; cases us) (auto simp: m_def)
  moreover have "sc_first s = Some (hd (us @ a # vs))" "sc_last s = Some (last (us @ a # vs))"
    using r by (auto simp: sched_rel_def)
  ultimately have "sched_exit s = Some (slot_pid s n,
    s\<lparr>tasks := t3, sc_actual := Some n, sc_first := (if us = [] then Some n else Some (hd (us @ a # vs))),
      sc_last := (if vs = [] then Some p else Some (last (us @ a # vs))),
      running_tasks := running_tasks s - 1\<rparr>)"
    using sched_exit_eval [OF _ _ act _ nb np'(3,4)] sub(2) len fst lst unfolding ts by simp
  also have "\<dots> = Some (slot_pid s n, ?s)" using ends by auto
  finally have ex: "sched_exit s = Some (slot_pid s n, ?s)" .
  have fields: "t_pd (t3 ! x) = (if x = a then FREE_PID else t_pd (tasks s ! x))"
     "t_quantum (t3 ! x) = (if x = a then 0 else t_quantum (tasks s ! x))" for x
    using np' len sub by (auto simp: ts nth_list_update task_fields zero_task_def)
  have am': "a \<notin> set (us @ vs)" and n': "n \<in> set (us @ vs)" and ne': "us @ vs \<noteq> []"
    using am np ne by (auto simp: m_def)
  have "ring_links (\<lambda>i. t_next (t2 ! i)) (\<lambda>i. t_prev (t2 ! i)) m"
    by (rule tl.unlink [OF ring]) (use ne sub len in \<open>auto simp: ts m_def n_def p_def\<close>)
  then have "ring_links (\<lambda>i. t_next (t3 ! i)) (\<lambda>i. t_prev (t3 ! i)) m"
    by (rule ring_links_cong) (unfold t3_def, (metis am nth_list_update_neq)+)
  then have "ring_links (\<lambda>i. t_next (t3 ! i)) (\<lambda>i. t_prev (t3 ! i)) (us @ vs)"
    unfolding m_def using ring_links_swap by blast
  moreover have "inj_on (\<lambda>i. t_pd (t3 ! i)) (set (us @ vs))"
    by (rule inj_on_cong [THEN iffD1, OF _ inj_on_subset [OF inj]]) (use am' in \<open>auto simp: fields\<close>)
  moreover have "length t3 = MAX_PID" using len by (simp add: ts)
  moreover have "\<forall>i\<in>set (us @ vs). t_quantum (t3 ! i) \<le> SCHED_QUANTUM_DEFAULT"
    using r by (simp add: sched_rel_def fields)
  moreover have "\<forall>i<MAX_PID. i \<notin> set (us @ vs) \<longrightarrow> t_pd (t3 ! i) = FREE_PID"
    "\<forall>i\<in>set (us @ vs). 0 \<le> t_pd (t3 ! i) \<and> t_pd (t3 ! i) < int MAX_PID"
    "running_tasks s - 1 = int (length (us @ vs))" "set (us @ vs) \<subseteq> {..<MAX_PID}"
    using r am' by (simp_all add: sched_rel_def fields) blast
  ultimately have "sched_rel ?s (us @ vs)"
    using n' ne' by (simp add: sched_rel_def)
  moreover have "\<forall>x\<in>set (us @ vs). t_pd (t3 ! x) = slot_pid s x \<and> t_quantum (t3 ! x) = t_quantum (tasks s ! x)"
    using am' by (auto simp: fields)
  ultimately show thesis
    using ex by (intro that [of ?s]) (simp_all add: m_def n_def)
qed

lemma sched_exit_rel_single:
  assumes r: "sched_rel s [a]" and act: "sc_actual s = Some a"
  obtains s' where "sched_exit s = Some (0, s')" "sched_rel s' []" "sc_actual s' = None"
    "sched_state.more s' = sched_state.more s"
proof -
  let ?s = "s\<lparr>tasks := (tasks s)[a := zero_task\<lparr>t_pd := FREE_PID\<rparr>],
     sc_first := None, sc_last := None, sc_actual := None, running_tasks := 0\<rparr>"
  have "a < MAX_PID" "length (tasks s) = MAX_PID" "running_tasks s = 1"
    using r by (auto simp: sched_rel_def)
  then have "sched_exit s = Some (0, ?s)"
    using act by (simp add: sched_exit_def Let_def upd_task_def nth_list_update)
  moreover have "sched_rel ?s []" using r by (auto simp: sched_rel_def nth_list_update)
  ultimately show thesis using that by auto
qed

lemma sched_rel_upd_quantum:
  assumes "sched_rel s xs" and "q \<le> SCHED_QUANTUM_DEFAULT"
  shows "sched_rel (upd_task a (\<lambda>t. t\<lparr>t_quantum := q\<rparr>) s) xs"
proof -
  have "t_quantum ((tasks s)[a := (tasks s ! a)\<lparr>t_quantum := q\<rparr>] ! i) \<le> SCHED_QUANTUM_DEFAULT"
    if "i \<in> set xs" for i
    using assms that by (cases "i = a") (auto simp: sched_rel_def)
  then show ?thesis
    using assms by (simp add: sched_rel_def upd_task_def task_fields)
qed

lemma sched_rel_actual:
  assumes "sched_rel s xs" and "a \<in> set xs"
  shows "sched_rel (s\<lparr>sc_actual := Some a\<rparr>) xs"
  using assms by (simp add: sched_rel_def)

lemma sched_tick_idle:
  assumes "sched_rel s []"
  shows "sched_tick s = Some (0, s)"
  using assms by (auto simp: sched_rel_def sched_tick_def split: option.splits)

lemma sched_tick_start:
  assumes r: "sched_rel s xs" and ne: "xs \<noteq> []" and act: "sc_actual s = None"
  shows "sched_tick s = Some (slot_pid s (hd xs), s\<lparr>sc_actual := Some (hd xs)\<rparr>)"
  using assms by (auto simp: sched_rel_def sched_tick_def)

lemma sched_tick_same:
  assumes r: "sched_rel s xs" and act: "sc_actual s = Some a" and q: "t_quantum (tasks s ! a) > 0"
  shows "sched_tick s = Some (slot_pid s a, upd_task a (\<lambda>t. t\<lparr>t_quantum := t_quantum t - 1\<rparr>) s)"
  using assms by (auto simp: sched_rel_def sched_tick_def Let_def task_fields)

lemma sched_tick_next:
  assumes r: "sched_rel s xs" and act: "sc_actual s = Some (xs ! k)" and k: "k < length xs"
    and q: "t_quantum (tasks s ! (xs ! k)) = 0"
  defines "n \<equiv> xs ! (Suc k mod length xs)"
  shows "sched_tick s = Some (slot_pid s n,
     (upd_task (xs ! k) (\<lambda>t. t\<lparr>t_quantum := SCHED_QUANTUM_DEFAULT\<rparr>) s)\<lparr>sc_actual := Some n\<rparr>)"
proof -
  have "t_next (tasks s ! (xs ! k)) = Some n"
    using r k unfolding n_def sched_rel_def by (auto dest: ring_links_next)
  then show ?thesis using act q
    by (simp add: sched_tick_def Let_def task_fields)
qed


subsection \<open>The abstract round robin\<close>

record rr =
  rr_tasks :: "(int \<times> u32) list"
  rr_cur :: "nat option"

definition rr_load :: "int \<Rightarrow> rr \<Rightarrow> rr" where
  "rr_load p a = a\<lparr>rr_tasks := rr_tasks a @ [(p, SCHED_QUANTUM_DEFAULT)]\<rparr>"

definition rr_exit :: "nat \<Rightarrow> rr \<Rightarrow> int \<times> rr" where
  "rr_exit k a =
     (let q = take k (rr_tasks a) @ drop (Suc k) (rr_tasks a)
      in if q = [] then (0, \<lparr>rr_tasks = [], rr_cur = None\<rparr>)
         else (let j = (if k < length q then k else 0)
               in (fst (q ! j), \<lparr>rr_tasks = q, rr_cur = Some j\<rparr>)))"

definition rr_tick :: "rr \<Rightarrow> int \<times> rr" where
  "rr_tick a =
     (let q = rr_tasks a in
      case rr_cur a of
        None \<Rightarrow> if q = [] then (0, a) else (fst (q ! 0), a\<lparr>rr_cur := Some 0\<rparr>)
      | Some k \<Rightarrow>
          if snd (q ! k) > 0 then (fst (q ! k), a\<lparr>rr_tasks := q[k := (fst (q ! k), snd (q ! k) - 1)]\<rparr>)
          else (let j = Suc k mod length q
                in (fst (q ! j), \<lparr>rr_tasks = q[k := (fst (q ! k), SCHED_QUANTUM_DEFAULT)], rr_cur = Some j\<rparr>)))"

definition slot_entry :: "'a sched_state_scheme \<Rightarrow> nat \<Rightarrow> int \<times> u32" where
  "slot_entry s i = (slot_pid s i, t_quantum (tasks s ! i))"

definition rr_abs :: "'a sched_state_scheme \<Rightarrow> rr" where
  "rr_abs s = \<lparr>rr_tasks = map (slot_entry s) (ready_slots s),
     rr_cur = map_option (\<lambda>a. index_where ((=) a) (ready_slots s)) (sc_actual s)\<rparr>"

lemma index_where_eq_nth:
  "distinct xs \<Longrightarrow> k < length xs \<Longrightarrow> index_where ((=) (xs ! k)) xs = k"
proof (induction xs arbitrary: k)
  case (Cons x xs)
  then show ?case by (cases k) auto
qed simp

lemma index_where_append:
  "a \<in> set xs \<Longrightarrow> index_where ((=) a) (xs @ ys) = index_where ((=) a) xs"
  by (induction xs) auto

lemma sched_rel_distinct: "sched_rel s xs \<Longrightarrow> distinct xs"
  by (auto simp: sched_rel_def dest: ring_links_distinct)

lemma rr_abs_rel:
  "sched_rel s xs \<Longrightarrow> rr_abs s = \<lparr>rr_tasks = map (slot_entry s) xs,
     rr_cur = map_option (\<lambda>a. index_where ((=) a) xs) (sc_actual s)\<rparr>"
  by (simp add: rr_abs_def sched_rel_slots)

lemma ready_pids_rel: "sched_rel s xs \<Longrightarrow> ready_pids s = map (slot_pid s) xs"
  by (simp add: ready_pids_def sched_rel_slots)

lemma sched_load_refines:
  assumes ok: "sched_ok s" and room: "length (ready_pids s) < MAX_PID"
    and pd: "0 \<le> pd" "pd < int MAX_PID" and new: "pd \<notin> set (ready_pids s)"
  obtains s' where "sched_load pd s = Some s'" "sched_ok s'" "rr_abs s' = rr_load pd (rr_abs s)"
    "ready_pids s' = ready_pids s @ [pd]" "sc_actual s' = sc_actual s"
    "sched_state.more s' = sched_state.more s"
proof -
  define xs where "xs = ready_slots s"
  have r: "sched_rel s xs" using ok by (simp add: sched_ok_def xs_def)
  have "length xs < MAX_PID" "pd \<notin> slot_pid s ` set xs"
    using room new by (simp_all add: ready_pids_def xs_def)
  from sched_load_rel [OF r this(1) pd this(2)] obtain i s' where
    s': "sched_load pd s = Some s'" "sched_rel s' (xs @ [i])"
      "\<forall>x\<in>set xs. slot_pid s' x = slot_pid s x \<and> t_quantum (tasks s' ! x) = t_quantum (tasks s ! x)"
      "slot_pid s' i = pd" "t_quantum (tasks s' ! i) = SCHED_QUANTUM_DEFAULT"
      "sc_actual s' = sc_actual s" "sched_state.more s' = sched_state.more s" by metis
  have "rr_abs s' = rr_load pd (rr_abs s)"
    using s' r by (auto simp: rr_abs_rel [OF r] rr_abs_rel [OF s'(2)] rr_load_def slot_entry_def
        sched_rel_def index_where_append map_option_case split: option.splits)
  moreover have "ready_pids s' = ready_pids s @ [pd]"
    using s' by (simp add: ready_pids_rel [OF r] ready_pids_rel [OF s'(2)])
  ultimately show thesis using that s' by (blast intro: sched_rel_ok)
qed

lemma sched_exit_refines:
  assumes ok: "sched_ok s" and act: "sc_actual s = Some a"
  obtains k pd s' where "rr_cur (rr_abs s) = Some k" "k < length (ready_pids s)"
    "sched_exit s = Some (pd, s')" "sched_ok s'" "(pd, rr_abs s') = rr_exit k (rr_abs s)"
    "ready_pids s' = take k (ready_pids s) @ drop (Suc k) (ready_pids s)"
    "sched_state.more s' = sched_state.more s"
proof -
  define xs where "xs = ready_slots s"
  have r: "sched_rel s xs" using ok by (simp add: sched_ok_def xs_def)
  then have "a \<in> set xs" using act by (simp add: sched_rel_def)
  then obtain us vs where xs: "xs = us @ a # vs" by (auto simp: in_set_conv_decomp)
  define k where "k = length us"
  have k: "rr_cur (rr_abs s) = Some k" "k < length (ready_pids s)"
    using act sched_rel_distinct [OF r] index_where_eq_nth [of xs k]
    by (simp_all add: rr_abs_rel [OF r] ready_pids_rel [OF r] xs k_def)
  show thesis
  proof (cases "vs @ us = []")
    case True
    then have "sched_rel s [a]" using r xs by simp
    from sched_exit_rel_single [OF this act] obtain s' where
      s': "sched_exit s = Some (0, s')" "sched_rel s' []" "sc_actual s' = None"
        "sched_state.more s' = sched_state.more s" .
    then show thesis using True k
      by (intro that [of k 0 s'])
        (auto simp: rr_abs_rel [OF r] rr_abs_rel [OF s'(2)] ready_pids_rel [OF r]
          ready_pids_rel [OF s'(2)] rr_exit_def xs k_def intro: sched_rel_ok)
  next
    case False
    from sched_exit_rel [OF r [unfolded xs] act False] obtain s' where
      s': "sched_exit s = Some (slot_pid s (hd (vs @ us)), s')" "sched_rel s' (us @ vs)"
        "sc_actual s' = Some (hd (vs @ us))"
        "\<forall>x\<in>set (us @ vs). slot_pid s' x = slot_pid s x \<and> t_quantum (tasks s' ! x) = t_quantum (tasks s ! x)"
        "sched_state.more s' = sched_state.more s" .
    have "map (slot_entry s') (us @ vs) = map (slot_entry s) (us @ vs)"
      using s'(4) by (auto simp: slot_entry_def)
    moreover have "hd (vs @ us) = (us @ vs) ! (if vs \<noteq> [] then length us else 0)"
      using False by (auto simp: hd_conv_nth nth_append)
    moreover have "index_where ((=) (hd (vs @ us))) (us @ vs) = (if vs \<noteq> [] then length us else 0)"
      using calculation(2) index_where_eq_nth [OF sched_rel_distinct [OF s'(2)]] False
      by (auto split: if_splits)
    ultimately have "(slot_pid s (hd (vs @ us)), rr_abs s') = rr_exit k (rr_abs s)"
      using s'(3) False
      by (auto simp: rr_abs_rel [OF r] rr_abs_rel [OF s'(2)] rr_exit_def xs k_def Let_def
          slot_entry_def nth_append)
    moreover have "ready_pids s' = take k (ready_pids s) @ drop (Suc k) (ready_pids s)"
      using s'(4) by (simp add: ready_pids_rel [OF r] ready_pids_rel [OF s'(2)] xs k_def)
    ultimately show thesis using that k s' by (blast intro: sched_rel_ok)
  qed
qed

lemma sched_tick_refines:
  assumes ok: "sched_ok s"
  obtains pd s' where "sched_tick s = Some (pd, s')" "sched_ok s'"
    "(pd, rr_abs s') = rr_tick (rr_abs s)" "ready_pids s' = ready_pids s"
    "sched_state.more s' = sched_state.more s"
proof -
  define xs where "xs = ready_slots s"
  have r: "sched_rel s xs" using ok by (simp add: sched_ok_def xs_def)
  note d = sched_rel_distinct [OF r]
  consider (idle) "sc_actual s = None" "xs = []" | (start) "sc_actual s = None" "xs \<noteq> []"
    | (run) k where "sc_actual s = Some (xs ! k)" "k < length xs"
    using r by (cases "sc_actual s") (auto simp: sched_rel_def in_set_conv_nth)
  then show thesis
  proof cases
    case idle
    then show thesis using r that [of 0 s] ok sched_tick_idle
      by (auto simp: rr_abs_rel [OF r] rr_tick_def)
  next
    case start
    let ?s = "s\<lparr>sc_actual := Some (hd xs)\<rparr>"
    have r': "sched_rel ?s xs" using r start(2) by (simp add: sched_rel_actual)
    have "index_where ((=) (hd xs)) xs = 0" using start(2) by (cases xs) auto
    moreover have "slot_entry ?s = slot_entry s" by (simp add: slot_entry_def fun_eq_iff)
    ultimately have ab: "rr_abs ?s = \<lparr>rr_tasks = map (slot_entry s) xs, rr_cur = Some 0\<rparr>"
      by (simp add: rr_abs_rel [OF r'])
    have abs: "(slot_pid s (hd xs), rr_abs ?s) = rr_tick (rr_abs s)"
      unfolding ab rr_abs_rel [OF r]
      using start by (simp add: rr_tick_def slot_entry_def hd_conv_nth)
    show thesis
      by (rule that [OF sched_tick_start [OF r start(2,1)] sched_rel_ok [OF r'] abs])
        (simp_all add: ready_pids_rel [OF r] ready_pids_rel [OF r'])
  next
    case run
    note idx = index_where_eq_nth [OF d run(2)]
    have len: "xs ! k < length (tasks s)"
      using r nth_mem [OF run(2)] unfolding sched_rel_def by (metis lessThan_iff subsetD)
    have upd: "map (slot_entry (upd_task (xs ! k) (\<lambda>t. t\<lparr>t_quantum := q\<rparr>) s)) xs
        = (map (slot_entry s) xs)[k := (slot_pid s (xs ! k), q)]" for q
      using d run(2) len
      by (auto intro!: nth_equalityI simp: slot_entry_def nth_list_update nth_eq_iff_index_eq)
    have pids: "map (slot_pid (upd_task (xs ! k) (\<lambda>t. t\<lparr>t_quantum := q\<rparr>) s)) xs = map (slot_pid s) xs" for q
      by (simp add: task_fields)
    show thesis
    proof (cases "t_quantum (tasks s ! (xs ! k)) > 0")
      case True
      let ?q = "t_quantum (tasks s ! (xs ! k)) - 1"
      let ?s = "upd_task (xs ! k) (\<lambda>t. t\<lparr>t_quantum := ?q\<rparr>) s"
      have "?q \<le> SCHED_QUANTUM_DEFAULT"
        using r run(2) True by (intro word_pred_le) (auto simp: sched_rel_def)
      with r have r': "sched_rel ?s xs" by (rule sched_rel_upd_quantum)
      have "sched_tick s = Some (slot_pid s (xs ! k), ?s)"
        using sched_tick_same [OF r run(1) True] by (simp add: upd_task_def)
      then show thesis using True run r' idx upd [of ?q] pids [of ?q]
        by (intro that [of "slot_pid s (xs ! k)" ?s])
          (auto simp: rr_abs_rel [OF r] rr_abs_rel [OF r'] rr_tick_def ready_pids_rel [OF r]
            ready_pids_rel [OF r'] slot_entry_def intro: sched_rel_ok)
    next
      case False
      let ?n = "xs ! (Suc k mod length xs)"
      let ?s1 = "upd_task (xs ! k) (\<lambda>t. t\<lparr>t_quantum := SCHED_QUANTUM_DEFAULT\<rparr>) s"
      let ?s = "?s1\<lparr>sc_actual := Some ?n\<rparr>"
      have n: "Suc k mod length xs < length xs" using run(2) by (intro mod_less_divisor) auto
      have r': "sched_rel ?s xs"
        by (rule sched_rel_actual [OF sched_rel_upd_quantum [OF r]]) (use n in simp_all)
      have q0: "t_quantum (tasks s ! (xs ! k)) = 0" using False by (simp add: word_neq_0_conv [symmetric])
      have e: "slot_entry ?s = slot_entry ?s1" "slot_pid ?s = slot_pid ?s1"
        by (simp_all add: fun_eq_iff slot_entry_def)
      show thesis
        using sched_tick_next [OF r run q0] q0 run r' idx index_where_eq_nth [OF d n] n
          upd [of SCHED_QUANTUM_DEFAULT] pids [of SCHED_QUANTUM_DEFAULT]
        by (intro that [of "slot_pid s ?n" ?s])
          (auto simp: rr_abs_rel [OF r] rr_abs_rel [OF r'] rr_tick_def ready_pids_rel [OF r]
            ready_pids_rel [OF r'] e slot_entry_def Let_def intro: sched_rel_ok)
    qed
  qed
qed


subsection \<open>Fairness\<close>

text \<open>Timer interrupts one after the other, with the pids that \<open>sched_tick\<close> hands out.\<close>

fun sched_ticks :: "nat \<Rightarrow> 'a sched_state_scheme \<Rightarrow> (int list \<times> 'a sched_state_scheme) option" where
  "sched_ticks 0 s = Some ([], s)"
| "sched_ticks (Suc n) s = do {
     (p, s) \<leftarrow> sched_tick s;
     (ps, s) \<leftarrow> sched_ticks n s;
     Some (p # ps, s)
   }"

fun rr_ticks :: "nat \<Rightarrow> rr \<Rightarrow> int list \<times> rr" where
  "rr_ticks 0 a = ([], a)"
| "rr_ticks (Suc n) a = (let (p, a) = rr_tick a; (ps, a) = rr_ticks n a in (p # ps, a))"

definition rr_wf :: "rr \<Rightarrow> bool" where
  "rr_wf a \<longleftrightarrow> (\<forall>e \<in> set (rr_tasks a). snd e \<le> SCHED_QUANTUM_DEFAULT) \<and>
     (\<forall>k. rr_cur a = Some k \<longrightarrow> k < length (rr_tasks a))"

lemma sched_ticks_refines:
  assumes "sched_ok s"
  shows "\<exists>s'. sched_ticks n s = Some (fst (rr_ticks n (rr_abs s)), s') \<and> sched_ok s' \<and>
    rr_abs s' = snd (rr_ticks n (rr_abs s)) \<and> ready_pids s' = ready_pids s"
  using assms
proof (induction n arbitrary: s)
  case 0
  then show ?case by simp
next
  case (Suc n)
  from sched_tick_refines [OF Suc.prems] obtain pd s1 where
    1: "sched_tick s = Some (pd, s1)" "sched_ok s1" "(pd, rr_abs s1) = rr_tick (rr_abs s)"
      "ready_pids s1 = ready_pids s" by metis
  from Suc.IH [OF 1(2)] obtain s2 where
    "sched_ticks n s1 = Some (fst (rr_ticks n (rr_abs s1)), s2)" "sched_ok s2"
    "rr_abs s2 = snd (rr_ticks n (rr_abs s1))" "ready_pids s2 = ready_pids s1" by blast
  with 1 show ?case by (auto simp: split_beta Let_def simp flip: 1(3))
qed

lemma rr_tick_run:
  assumes "rr_wf a" and "rr_cur a = Some k"
  obtains k' where "rr_wf (snd (rr_tick a))" "rr_cur (snd (rr_tick a)) = Some k'"
    "fst (rr_tick a) = fst (rr_tasks a ! k')"
    "length (rr_tasks (snd (rr_tick a))) = length (rr_tasks a)"
    "map fst (rr_tasks (snd (rr_tick a))) = map fst (rr_tasks a)"
    "0 < snd (rr_tasks a ! k) \<Longrightarrow>
       k' = k \<and> unat (snd (rr_tasks (snd (rr_tick a)) ! k)) = unat (snd (rr_tasks a ! k)) - 1"
    "snd (rr_tasks a ! k) = 0 \<Longrightarrow> k' = (if Suc k = length (rr_tasks a) then 0 else Suc k)"
proof -
  let ?q = "rr_tasks a"
  have k: "k < length ?q" using assms by (simp add: rr_wf_def)
  have qk: "snd (?q ! k) \<le> SCHED_QUANTUM_DEFAULT"
    using assms(1) nth_mem [OF k] by (simp add: rr_wf_def)
  have wf: "\<forall>e \<in> set (?q[k := (x, y)]). snd e \<le> SCHED_QUANTUM_DEFAULT"
    if "y \<le> SCHED_QUANTUM_DEFAULT" for x y
    using assms(1) that set_update_subset_insert [of ?q k "(x, y)"] by (auto simp: rr_wf_def)
  show thesis
  proof (cases "0 < snd (?q ! k)")
    case True
    with qk have "snd (?q ! k) - 1 \<le> SCHED_QUANTUM_DEFAULT" by (intro word_pred_le)
    from wf [OF this] True assms k show thesis
      by (intro that [of k]) (auto simp: rr_tick_def Let_def rr_wf_def map_update unat_pred list_update_same_conv)
  next
    case False
    then have "snd (?q ! k) = 0" using word_neq_0_conv by blast
    with wf [of SCHED_QUANTUM_DEFAULT] assms k show thesis
      by (intro that [of "if Suc k = length ?q then 0 else Suc k"])
        (auto simp: rr_tick_def Let_def rr_wf_def map_update list_update_same_conv mod_Suc)
  qed
qed

text \<open>
  How many interrupts it takes at most until the task at position \<open>j\<close> of \<open>n\<close> is handed out,
  with the running task at \<open>k\<close> and \<open>q\<close> left of its quantum: the rest of this quantum and
  a whole one (the interrupt that renews it included) for every task in between.
\<close>

definition rr_wait :: "nat \<Rightarrow> nat \<Rightarrow> nat \<Rightarrow> nat \<Rightarrow> nat" where
  "rr_wait n j k q =
     (let d = (if k \<le> j then j - k else j + n - k)
      in if d = 0 then (if q = 0 then 11 * (n - 1) + 1 else 1) else 11 * (d - 1) + q + 1)"

lemma rr_ticks_reach:
  assumes "rr_wf a" and "rr_cur a = Some k" and "j < length (rr_tasks a)"
    and "rr_wait (length (rr_tasks a)) j k (unat (snd (rr_tasks a ! k))) \<le> t"
  shows "fst (rr_tasks a ! j) \<in> set (fst (rr_ticks t a))"
  using assms
proof (induction t arbitrary: a k)
  case 0
  then show ?case by (auto simp: rr_wait_def Let_def split: if_splits)
next
  case (Suc t)
  let ?n = "length (rr_tasks a)" and ?b = "snd (rr_tick a)"
  have k: "k < ?n" using Suc.prems by (simp add: rr_wf_def)
  obtain k' where k': "rr_wf ?b" "rr_cur ?b = Some k'" "fst (rr_tick a) = fst (rr_tasks a ! k')"
    "length (rr_tasks ?b) = ?n" "map fst (rr_tasks ?b) = map fst (rr_tasks a)"
    "0 < snd (rr_tasks a ! k) \<Longrightarrow> k' = k \<and> unat (snd (rr_tasks ?b ! k)) = unat (snd (rr_tasks a ! k)) - 1"
    "snd (rr_tasks a ! k) = 0 \<Longrightarrow> k' = (if Suc k = ?n then 0 else Suc k)"
    using rr_tick_run [OF Suc.prems(1,2)] by metis
  have same: "fst (rr_tasks ?b ! j) = fst (rr_tasks a ! j)"
    using Suc.prems(3) k'(4,5) by (metis nth_map)
  have "k' < ?n" using k' by (simp add: rr_wf_def)
  then have "snd (rr_tasks ?b ! k') \<le> SCHED_QUANTUM_DEFAULT"
    using k'(1,4) nth_mem [of k' "rr_tasks ?b"] by (simp add: rr_wf_def)
  then have q': "unat (snd (rr_tasks ?b ! k')) \<le> 10" by (simp add: word_le_nat_alt)
  show ?case
  proof (cases "k' = j")
    case True
    then show ?thesis using k'(3) by (simp add: split_beta Let_def)
  next
    case False
    have "rr_wait ?n j k' (unat (snd (rr_tasks ?b ! k'))) \<le> t"
    proof (cases "0 < snd (rr_tasks a ! k)")
      case True
      then have "0 < unat (snd (rr_tasks a ! k))" by (simp add: word_less_nat_alt)
      then show ?thesis
        using True k'(6) Suc.prems(3,4) False k by (auto simp: rr_wait_def Let_def split: if_splits)
    next
      case False
      then have "snd (rr_tasks a ! k) = 0" using word_neq_0_conv by blast
      then show ?thesis
        using k'(7) Suc.prems(3,4) \<open>k' \<noteq> j\<close> k q'
        by (cases "Suc k = ?n") (auto simp: rr_wait_def Let_def split: if_splits)
    qed
    then have "fst (rr_tasks ?b ! j) \<in> set (fst (rr_ticks t ?b))"
      using Suc.IH [OF k'(1,2)] Suc.prems(3) k'(4) by simp
    then show ?thesis by (simp add: same split_beta Let_def)
  qed
qed

lemma rr_wf_abs: "sched_ok s \<Longrightarrow> rr_wf (rr_abs s)"
  by (auto simp: sched_ok_def sched_rel_def rr_abs_def rr_wf_def slot_entry_def index_where_less)

lemma rr_wait_bound: "j < n \<Longrightarrow> k < n \<Longrightarrow> q \<le> 10 \<Longrightarrow> rr_wait n j k q \<le> 11 * n"
  by (auto simp: rr_wait_def Let_def)

lemma rr_ticks_length: "length (fst (rr_ticks n a)) = n"
  by (induction n arbitrary: a) (auto simp: split_beta Let_def)


subsection \<open>The contract of a run queue\<close>

text \<open>
  What the process manager (\<^verbatim>\<open>kernel/loader.c\<close>) relies on: the ready
  pids in order, the pid of the running task, and what loading and blocking do to them.
\<close>

definition running_pid :: "'a sched_state_scheme \<Rightarrow> int option" where
  "running_pid s = map_option (slot_pid s) (sc_actual s)"

fun load_each :: "(int \<Rightarrow> 's \<Rightarrow> 's option) \<Rightarrow> int list \<Rightarrow> 's \<Rightarrow> 's option" where
  "load_each load [] s = Some s"
| "load_each load (p # ps) s = Option.bind (load p s) (load_each load ps)"

locale run_queue =
  fixes load :: "int \<Rightarrow> 's \<Rightarrow> 's option"
    and block :: "'s \<Rightarrow> (int \<times> 's) option"
    and tick :: "'s \<Rightarrow> (int \<times> 's) option"
    and ready :: "'s \<Rightarrow> int list"
    and running :: "'s \<Rightarrow> int option"
    and ok :: "'s \<Rightarrow> bool"
  assumes distinct_ready: "ok s \<Longrightarrow> distinct (ready s)"
    and ready_range: "ok s \<Longrightarrow> p \<in> set (ready s) \<Longrightarrow> 0 \<le> p \<and> p < int MAX_PID"
    and running_ready: "ok s \<Longrightarrow> running s = Some p \<Longrightarrow> p \<in> set (ready s)"
    and load: "ok s \<Longrightarrow> 0 \<le> p \<Longrightarrow> p < int MAX_PID \<Longrightarrow> p \<notin> set (ready s) \<Longrightarrow>
      \<exists>s'. load p s = Some s' \<and> ok s' \<and> ready s' = ready s @ [p] \<and> running s' = running s"
    and block: "ok s \<Longrightarrow> running s = Some p \<Longrightarrow>
      \<exists>q s'. block s = Some (q, s') \<and> ok s' \<and> ready s' = remove1 p (ready s) \<and>
        running s' = (if ready s' = [] then None else Some q) \<and> (ready s' = [] \<longrightarrow> q = 0)"
    and tick: "ok s \<Longrightarrow> \<exists>q s'. tick s = Some (q, s') \<and> ok s' \<and> ready s' = ready s \<and>
        running s' = (if ready s = [] then None else Some q) \<and> (ready s = [] \<longrightarrow> q = 0)"
begin

lemma load_all:
  "ok s \<Longrightarrow> distinct ps \<Longrightarrow> set ps \<subseteq> {0..<int MAX_PID} \<Longrightarrow> set ps \<inter> set (ready s) = {} \<Longrightarrow>
   \<exists>s'. load_each load ps s = Some s' \<and> ok s' \<and> ready s' = ready s @ ps \<and> running s' = running s"
proof (induction ps arbitrary: s)
  case Nil
  then show ?case by simp
next
  case (Cons p ps)
  then obtain s1 where s1: "load p s = Some s1" "ok s1" "ready s1 = ready s @ [p]"
      "running s1 = running s"
    using load [of s p] by auto
  then have "set ps \<inter> set (ready s1) = {}" using Cons.prems by auto
  with Cons.IH [OF s1(2)] Cons.prems s1 show ?case by auto
qed

lemma ready_length: "ok s \<Longrightarrow> length (ready s) \<le> MAX_PID"
proof -
  assume ok: "ok s"
  have "length (ready s) = card (set (ready s))" using distinct_ready [OF ok] by (simp add: distinct_card)
  also have "\<dots> \<le> card {0..<int MAX_PID}"
    using ready_range [OF ok] by (intro card_mono) auto
  finally show ?thesis by simp
qed

end

lemma ready_pids_distinct: "sched_ok s \<Longrightarrow> distinct (ready_pids s)"
  by (auto simp: sched_ok_def sched_rel_def ready_pids_def distinct_map dest: ring_links_distinct)

lemma ready_pids_range: "sched_ok s \<Longrightarrow> p \<in> set (ready_pids s) \<Longrightarrow> 0 \<le> p \<and> p < int MAX_PID"
  by (auto simp: sched_ok_def sched_rel_def ready_pids_def)

lemma ready_pids_room:
  assumes "sched_ok s" and "0 \<le> p" "p < int MAX_PID" and "p \<notin> set (ready_pids s)"
  shows "length (ready_pids s) < MAX_PID"
proof -
  have "set (ready_pids s) \<subset> {0..<int MAX_PID}"
    using assms ready_pids_range [OF assms(1)] by (auto simp: psubset_eq)
  then have "card (set (ready_pids s)) < card {0..<int MAX_PID}" by (intro psubset_card_mono) auto
  then show ?thesis using ready_pids_distinct [OF assms(1)] by (simp add: distinct_card)
qed

lemma running_pid_rr:
  assumes "sched_ok s"
  shows "running_pid s = map_option (\<lambda>k. ready_pids s ! k) (rr_cur (rr_abs s))"
proof (cases "sc_actual s")
  case (Some a)
  then have "a \<in> set (ready_slots s)" using assms by (simp add: sched_ok_def sched_rel_def)
  then have "index_where ((=) a) (ready_slots s) < length (ready_slots s)"
    by (auto simp: index_where_less)
  with index_where_holds [OF this] show ?thesis
    by (simp add: running_pid_def rr_abs_def ready_pids_def Some)
qed (simp add: running_pid_def rr_abs_def)

lemma rr_abs_pids: "map fst (rr_tasks (rr_abs s)) = ready_pids s"
  by (simp add: rr_abs_def ready_pids_def slot_entry_def comp_def)

lemma remove1_nth:
  "distinct xs \<Longrightarrow> k < length xs \<Longrightarrow> remove1 (xs ! k) xs = take k xs @ drop (Suc k) xs"
proof (induction xs arbitrary: k)
  case (Cons x xs)
  then show ?case by (cases k) auto
qed simp

lemma rr_exit_pid:
  assumes "(q, b) = rr_exit k a" and "k < length (rr_tasks a)"
  shows "map_option (\<lambda>k. map fst (rr_tasks b) ! k) (rr_cur b) =
      (if rr_tasks b = [] then None else Some q)" "rr_tasks b = [] \<Longrightarrow> q = 0"
proof -
  define q' where "q' = take k (rr_tasks a) @ drop (Suc k) (rr_tasks a)"
  define j where "j = (if k < length q' then k else 0)"
  have "(q, b) = (if q' = [] then (0, \<lparr>rr_tasks = [], rr_cur = None\<rparr>)
      else (fst (q' ! j), \<lparr>rr_tasks = q', rr_cur = Some j\<rparr>))"
    using assms by (simp add: rr_exit_def q'_def j_def Let_def)
  moreover have "q' \<noteq> [] \<Longrightarrow> j < length q'" by (simp add: j_def)
  ultimately show "map_option (\<lambda>k. map fst (rr_tasks b) ! k) (rr_cur b) =
      (if rr_tasks b = [] then None else Some q)" "rr_tasks b = [] \<Longrightarrow> q = 0"
    by (auto split: if_splits)
qed

lemma sched_block_run_queue:
  assumes ok: "sched_ok s" and run: "running_pid s = Some p"
  shows "\<exists>q s'. sched_block s = Some (q, s') \<and> sched_ok s' \<and>
     ready_pids s' = remove1 p (ready_pids s) \<and>
     running_pid s' = (if ready_pids s' = [] then None else Some q) \<and> (ready_pids s' = [] \<longrightarrow> q = 0)"
proof -
  obtain a where a: "sc_actual s = Some a" using run by (auto simp: running_pid_def)
  obtain k q s' where s': "rr_cur (rr_abs s) = Some k" "k < length (ready_pids s)"
    "sched_exit s = Some (q, s')" "sched_ok s'" "(q, rr_abs s') = rr_exit k (rr_abs s)"
    "ready_pids s' = take k (ready_pids s) @ drop (Suc k) (ready_pids s)"
    using sched_exit_refines [OF ok a] by metis
  have p: "p = ready_pids s ! k" using run s'(1) by (simp add: running_pid_rr [OF ok])
  have l: "k < length (rr_tasks (rr_abs s))" using s'(2) by (metis length_map rr_abs_pids)
  have e: "rr_tasks (rr_abs s') = [] \<longleftrightarrow> ready_pids s' = []" by (metis map_is_Nil_conv rr_abs_pids)
  have "running_pid s' = (if ready_pids s' = [] then None else Some q)" "ready_pids s' = [] \<Longrightarrow> q = 0"
    using rr_exit_pid [OF s'(5) l] e by (simp_all add: running_pid_rr [OF s'(4)] rr_abs_pids)
  then show ?thesis
    using s' remove1_nth [OF ready_pids_distinct [OF ok] s'(2)] by (simp add: sched_block_def p)
qed

lemma rr_tick_pid:
  assumes "(q, b) = rr_tick a" and "rr_wf a"
  shows "map_option (\<lambda>k. map fst (rr_tasks b) ! k) (rr_cur b) =
      (if rr_tasks a = [] then None else Some q)" "rr_tasks a = [] \<Longrightarrow> q = 0"
  using assms by (auto simp: rr_tick_def rr_wf_def Let_def map_update nth_list_update
      split: if_splits option.splits intro!: mod_less_divisor)

lemma sched_tick_run_queue:
  assumes ok: "sched_ok s"
  shows "\<exists>q s'. sched_tick s = Some (q, s') \<and> sched_ok s' \<and> ready_pids s' = ready_pids s \<and>
     running_pid s' = (if ready_pids s = [] then None else Some q) \<and> (ready_pids s = [] \<longrightarrow> q = 0)"
proof -
  obtain q s' where s': "sched_tick s = Some (q, s')" "sched_ok s'"
    "(q, rr_abs s') = rr_tick (rr_abs s)" "ready_pids s' = ready_pids s"
    using sched_tick_refines [OF ok] by metis
  have e: "rr_tasks (rr_abs s) = [] \<longleftrightarrow> ready_pids s = []" by (metis map_is_Nil_conv rr_abs_pids)
  have "running_pid s' = (if ready_pids s = [] then None else Some q)" "ready_pids s = [] \<Longrightarrow> q = 0"
    using rr_tick_pid [OF s'(3) rr_wf_abs [OF ok]] e s'(4)
    by (simp_all add: running_pid_rr [OF s'(2)] rr_abs_pids)
  then show ?thesis using s' by blast
qed

lemma sched_load_run_queue:
  assumes ok: "sched_ok s" and p: "0 \<le> p" "p < int MAX_PID" "p \<notin> set (ready_pids s)"
  shows "\<exists>s'. sched_load p s = Some s' \<and> sched_ok s' \<and> ready_pids s' = ready_pids s @ [p] \<and>
    running_pid s' = running_pid s"
proof -
  obtain s' where s': "sched_load p s = Some s'" "sched_ok s'" "rr_abs s' = rr_load p (rr_abs s)"
    "ready_pids s' = ready_pids s @ [p]"
    using sched_load_refines [OF ok ready_pids_room [OF ok p] p] by metis
  have "rr_cur (rr_abs s) = Some k \<Longrightarrow> k < length (ready_pids s)" for k
    using rr_wf_abs [OF ok] by (metis length_map rr_abs_pids rr_wf_def)
  then have "running_pid s' = running_pid s"
    using s' by (cases "rr_cur (rr_abs s)")
      (auto simp: running_pid_rr [OF ok] running_pid_rr [OF s'(2)] rr_load_def nth_append)
  with s' show ?thesis by blast
qed

interpretation rq: run_queue sched_unblock sched_block sched_tick ready_pids running_pid sched_ok
proof unfold_locales
  fix s :: "'a sched_state_scheme" and p
  assume ok: "sched_ok s" 
  show "running_pid s = Some p \<Longrightarrow> p \<in> set (ready_pids s)"
    using ok by (auto simp: running_pid_def sched_ok_def sched_rel_def ready_pids_def)
qed (simp_all add: ready_pids_distinct ready_pids_range [simplified] sched_load_run_queue sched_unblock_def
    sched_block_run_queue sched_tick_run_queue)

text \<open>Loading a ready process into the scheduler always finds a slot and appends the
  process, with a full quantum, behind the last ready task of the round robin; the running
  task and the order and quanta of the others stay as they are.\<close>

theorem sched_load_appends:
  assumes "sched_ok s" and "0 \<le> pd" and "pd < int MAX_PID" and "pd \<notin> set (ready_pids s)"
  shows "\<exists>s'. sched_load pd s = Some s' \<and> sched_ok s' \<and> rr_abs s' = rr_load pd (rr_abs s)"
  using sched_load_refines [OF assms(1) ready_pids_room [OF assms] assms(2-4)] by metis

text \<open>C9: The running task leaving the scheduler (it exits or blocks) is unlinked wherever it
  stands in the ring, the others keep their order and quanta, and the processor goes to the
  task that came after it, or to the idle process (pid 0) when none is left.\<close>

theorem sched_exit_removes:
  assumes "sched_ok s" and "sc_actual s \<noteq> None"
  shows "\<exists>k pd s'. rr_cur (rr_abs s) = Some k \<and> k < length (rr_tasks (rr_abs s)) \<and>
    sched_exit s = Some (pd, s') \<and> sched_ok s' \<and> (pd, rr_abs s') = rr_exit k (rr_abs s)"
proof -
  obtain a where "sc_actual s = Some a" using assms(2) by auto
  from sched_exit_refines [OF assms(1) this] show ?thesis
    by (metis length_map rr_abs_pids)
qed

text \<open>C8: A timer interrupt is one step of the abstract round robin: the running task keeps the
  processor while it has quantum left, and then its quantum is renewed and its successor in
  the ring runs; with no running task the first ready one is started, or the idle process.\<close>

theorem sched_tick_round_robin:
  assumes "sched_ok s"
  shows "\<exists>pd s'. sched_tick s = Some (pd, s') \<and> sched_ok s' \<and> (pd, rr_abs s') = rr_tick (rr_abs s)"
  using sched_tick_refines [OF assms] by metis


subsection \<open>Witnesses\<close>

definition sched_boot :: sched_state where
  "sched_boot = sched_init \<lparr>tasks = [], sc_actual = None, sc_first = None, sc_last = None, running_tasks = 0\<rparr>"

text \<open>The scheduler with processes 1 and 2 loaded and the first timer interrupt taken.\<close>

definition sched_demo :: sched_state where
  "sched_demo = snd (the (sched_tick (the (load_each sched_unblock [1, 2] sched_boot))))"

lemma sched_boot_facts: "sched_ok sched_boot" "ready_pids sched_boot = []" "running_pid sched_boot = None"
proof -
  have r: "sched_rel sched_boot []" unfolding sched_boot_def by (rule sched_init_rel)
  show "sched_ok sched_boot" "ready_pids sched_boot = []" "running_pid sched_boot = None"
    using sched_rel_ok [OF r] ready_pids_rel [OF r]
    by (simp_all add: sched_boot_def sched_init_def running_pid_def)
qed

lemma sched_demo_facts: "sched_ok sched_demo" "ready_pids sched_demo = [1, 2]"
  "sc_actual sched_demo \<noteq> None"
proof -
  obtain s where s: "load_each sched_unblock [1, 2] sched_boot = Some s" "sched_ok s" "ready_pids s = [1, 2]"
    using rq.load_all [of sched_boot "[1, 2]"] sched_boot_facts by auto
  with sched_tick_run_queue [OF s(2)] show "sched_ok sched_demo" "ready_pids sched_demo = [1, 2]"
    "sc_actual sched_demo \<noteq> None"
    by (auto simp: sched_demo_def running_pid_def)
qed

theorem sched_load_appends_witness:
  "\<exists>s'. sched_load 3 sched_demo = Some s' \<and> sched_ok s' \<and> rr_abs s' = rr_load 3 (rr_abs sched_demo)"
  by (rule sched_load_appends) (simp_all add: sched_demo_facts)

theorem sched_exit_removes_witness:
  "\<exists>k pd s'. rr_cur (rr_abs sched_demo) = Some k \<and> k < length (rr_tasks (rr_abs sched_demo)) \<and>
    sched_exit sched_demo = Some (pd, s') \<and> sched_ok s' \<and> (pd, rr_abs s') = rr_exit k (rr_abs sched_demo)"
  by (rule sched_exit_removes) (simp_all add: sched_demo_facts)

theorem sched_tick_round_robin_witness:
  "\<exists>pd s'. sched_tick sched_demo = Some (pd, s') \<and> sched_ok s' \<and> (pd, rr_abs s') = rr_tick (rr_abs sched_demo)"
  by (rule sched_tick_round_robin) (simp_all add: sched_demo_facts)


end
