(* ===== verification/Process.thy ===== *)
theory Process
  imports Sched
begin

section \<open>Processes: switching, wait queues, sleeping\<close>

text \<open>
  The process table of \<^verbatim>\<open>kernel/loader.c\<close> and what the kernel does with the
  running process: the context switch of \<^verbatim>\<open>kernel/taskswitch.asm\<close>, the wait
  queues that every blocking driver keeps (linked through the process table), the delta
  queue of sleeping processes and the timer interrupt. Pids are C \<^verbatim>\<open>int\<close>s;
  \<^verbatim>\<open>FREE_QUEUE\<close> and \<^verbatim>\<open>FREE_PCB_PID\<close> are \<open>0xFFFFFFFF\<close>, that is \<open>-1\<close>
  as a pid. The stack pointer, \<^verbatim>\<open>CR3\<close> and the kernel stack of the TSS are the
  only machine registers that a switch is followed through; the others live on the stacks.
\<close>

subsection \<open>The code\<close>

abbreviation (input) FREE_QUEUE :: int where "FREE_QUEUE \<equiv> -1"
abbreviation (input) FREE_PCB_PID :: int where "FREE_PCB_PID \<equiv> -1"
abbreviation (input) IDLE_PID :: int where "IDLE_PID \<equiv> 0"
abbreviation (input) PL_KERNEL :: u32 where "PL_KERNEL \<equiv> 0"
abbreviation (input) PL_USER :: u32 where "PL_USER \<equiv> 3"
abbreviation (input) K_STACK_TOP :: u32 where "K_STACK_TOP \<equiv> 0xff800000"

record pcb =
  p_id :: int
  p_privilege_level :: u32
  p_cr3 :: u32
  p_esp :: u32
  p_next_empty_page_addr :: u32
  p_prev :: int
  p_next :: int

record slept_task =
  s_id :: int
  s_time :: u32
  s_next :: int

record proc_state = sched_state +
  processes :: "pcb list"
  cur_pid :: int
  tmp_pid :: int
  sleeping :: "slept_task list"
  first_slept :: int
  timer_count :: u32
  esp_reg :: u32
  cr3_reg :: u32
  tss_esp0 :: u32

definition cur_pdt :: "'a proc_state_scheme \<Rightarrow> u32 option" where
  "cur_pdt s = map_option p_cr3 (aget (processes s) (cur_pid s))"

definition initialize_process_list :: "'a proc_state_scheme \<Rightarrow> 'a proc_state_scheme" where
  "initialize_process_list s = s\<lparr>processes := map (\<lambda>p. p\<lparr>p_id := FREE_PCB_PID\<rparr>) (processes s)\<rparr>"

definition initialize_sleeping_list :: "'a proc_state_scheme \<Rightarrow> 'a proc_state_scheme" where
  "initialize_sleeping_list s = s\<lparr>
     sleeping := map (\<lambda>_. \<lparr>s_id = FREE_PCB_PID, s_time = 0, s_next = FREE_PCB_PID\<rparr>) (sleeping s),
     first_slept := FREE_PCB_PID\<rparr>"

text \<open>The interrupt and timer registration at the start is left to the interrupt model.\<close>

definition loader_init :: "'a proc_state_scheme \<Rightarrow> 'a proc_state_scheme option" where
  "loader_init s = do {
     let s = initialize_process_list s;
     let s = initialize_sleeping_list s;
     let s = s\<lparr>cur_pid := IDLE_PID\<rparr>;
     ps \<leftarrow> aupd IDLE_PID (\<lambda>p. p\<lparr>p_id := IDLE_PID\<rparr>) (processes s);
     ps \<leftarrow> aupd IDLE_PID (\<lambda>p. p\<lparr>p_privilege_level := PL_KERNEL\<rparr>) ps;
     ps \<leftarrow> aupd IDLE_PID (\<lambda>p. p\<lparr>p_cr3 := cr3_reg s\<rparr>) ps;
     Some (s\<lparr>processes := ps\<rparr>)
   }"

text \<open>\<^verbatim>\<open>get_new_pid\<close>: the first free entry of the process table.\<close>

definition get_new_pid :: "'a proc_state_scheme \<Rightarrow> int option" where
  "get_new_pid s = do {
     let i = index_where (\<lambda>p. p_id p = FREE_PCB_PID) (processes s);
     kassert (i < MAX_PID);
     Some (int i)
   }"

definition getpid :: "'a proc_state_scheme \<Rightarrow> int" where
  "getpid s = cur_pid s"

text \<open>
  \<^verbatim>\<open>pushad\<close> takes 32 bytes of the stack before the stack pointer is saved and
  \<^verbatim>\<open>popad\<close> gives them back after the other one is restored.
\<close>

definition task_switch :: "'a proc_state_scheme \<Rightarrow> 'a proc_state_scheme option" where
  "task_switch s = do {
     ps \<leftarrow> aupd (cur_pid s) (\<lambda>p. p\<lparr>p_esp := esp_reg s - 32\<rparr>) (processes s);
     let s = s\<lparr>processes := ps\<rparr>;
     p \<leftarrow> aget (processes s) (tmp_pid s);
     let s = s\<lparr>esp_reg := p_esp p + 32\<rparr>;
     let s = s\<lparr>tss_esp0 := (if p_privilege_level p = PL_KERNEL then 0 else K_STACK_TOP)\<rparr>;
     let s = s\<lparr>cr3_reg := p_cr3 p\<rparr>;
     Some (s\<lparr>cur_pid := tmp_pid s\<rparr>)
   }"

text \<open>The walk to the end of a wait queue; a circular queue would make it run for ever.\<close>

partial_function (option) queue_end :: "pcb list \<Rightarrow> int \<Rightarrow> int option" where
  "queue_end ps t = Option.bind (aget ps t)
     (\<lambda>p. if p_next p \<noteq> FREE_PCB_PID then queue_end ps (p_next p) else Some t)"

text \<open>The queue head \<^verbatim>\<open>*cola\<close> is passed in and the new one returned.\<close>

definition loader_enqueue :: "int \<Rightarrow> 'a proc_state_scheme \<Rightarrow> (int \<times> 'a proc_state_scheme) option" where
  "loader_enqueue cola s = do {
     c \<leftarrow> aget (processes s) (cur_pid s);
     kassert (p_prev c = FREE_QUEUE);
     kassert (p_next c = FREE_QUEUE);
     (cola, s) \<leftarrow> (if cola = FREE_QUEUE then Some (cur_pid s, s)
       else do {
         t \<leftarrow> queue_end (processes s) cola;
         ps \<leftarrow> aupd t (\<lambda>p. p\<lparr>p_next := cur_pid s\<rparr>) (processes s);
         ps \<leftarrow> aupd (cur_pid s) (\<lambda>p. p\<lparr>p_prev := t\<rparr>) ps;
         Some (cola, s\<lparr>processes := ps\<rparr>)
       });
     (n, s) \<leftarrow> sched_block s;
     s \<leftarrow> task_switch (s\<lparr>tmp_pid := n\<rparr>);
     Some (cola, s)
   }"

definition loader_unqueue :: "int \<Rightarrow> 'a proc_state_scheme \<Rightarrow> (int \<times> 'a proc_state_scheme) option" where
  "loader_unqueue cola s =
     (if cola \<noteq> FREE_QUEUE then do {
        c \<leftarrow> aget (processes s) cola;
        if p_next c \<noteq> FREE_PCB_PID then do {
          let t = p_next c;
          ps \<leftarrow> aupd t (\<lambda>p. p\<lparr>p_prev := FREE_PCB_PID\<rparr>) (processes s);
          ps \<leftarrow> aupd cola (\<lambda>p. p\<lparr>p_next := FREE_PCB_PID\<rparr>) ps;
          s \<leftarrow> sched_unblock cola (s\<lparr>processes := ps\<rparr>);
          Some (t, s)
        } else do {
          s \<leftarrow> sched_unblock cola s;
          Some (FREE_QUEUE, s)
        }
      } else Some (cola, s))"

text \<open>
  The search of \<^verbatim>\<open>loader_sleep\<close> along the delta queue: how far the new sleeper
  goes, the sleeper before that place and the ticks that remain.
\<close>

partial_function (option) sleep_seek ::
  "slept_task list \<Rightarrow> int \<Rightarrow> int \<Rightarrow> u32 \<Rightarrow> (int \<times> int \<times> u32) option" where
  "sleep_seek sl tmp prev time =
     (if tmp \<noteq> FREE_PCB_PID then
        Option.bind (aget sl tmp) (\<lambda>e.
          if s_time e < time then sleep_seek sl (s_next e) tmp (time - s_time e)
          else Some (tmp, prev, time))
      else Some (tmp, prev, time))"

definition set_slept :: "int \<Rightarrow> u32 \<Rightarrow> int \<Rightarrow> slept_task list \<Rightarrow> slept_task list option" where
  "set_slept p time nx sl = aupd p (\<lambda>e. e\<lparr>s_id := p, s_time := time, s_next := nx\<rparr>) sl"

definition loader_sleep :: "u32 \<Rightarrow> 'a proc_state_scheme \<Rightarrow> 'a proc_state_scheme option" where
  "loader_sleep time s =
     (if time \<le> 0 then Some s else do {
        s \<leftarrow> (if first_slept s = FREE_PCB_PID then do {
            let s = s\<lparr>first_slept := cur_pid s\<rparr>;
            sl \<leftarrow> set_slept (cur_pid s) time FREE_PCB_PID (sleeping s);
            Some (s\<lparr>sleeping := sl\<rparr>)
          } else do {
            (tmp, prev, time) \<leftarrow> sleep_seek (sleeping s) (first_slept s) FREE_PCB_PID time;
            if tmp = FREE_PCB_PID then do {
              sl \<leftarrow> aupd prev (\<lambda>e. e\<lparr>s_next := cur_pid s\<rparr>) (sleeping s);
              sl \<leftarrow> set_slept (cur_pid s) time FREE_PCB_PID sl;
              Some (s\<lparr>sleeping := sl\<rparr>)
            } else do {
              s \<leftarrow> (if prev = FREE_PCB_PID then Some (s\<lparr>first_slept := cur_pid s\<rparr>)
                   else do {
                     sl \<leftarrow> aupd prev (\<lambda>e. e\<lparr>s_next := cur_pid s\<rparr>) (sleeping s);
                     Some (s\<lparr>sleeping := sl\<rparr>)
                   });
              sl \<leftarrow> set_slept (cur_pid s) time tmp (sleeping s);
              sl \<leftarrow> aupd tmp (\<lambda>e. e\<lparr>s_time := s_time e - time\<rparr>) sl;
              Some (s\<lparr>sleeping := sl\<rparr>)
            }
          });
        (n, s) \<leftarrow> sched_block s;
        task_switch (s\<lparr>tmp_pid := n\<rparr>)
      })"

text \<open>The loop of \<^verbatim>\<open>loader_tick\<close> that wakes every sleeper with no ticks left.\<close>

partial_function (option) wake_expired :: "'a proc_state_scheme \<Rightarrow> 'a proc_state_scheme option" where
  "wake_expired s =
     (if first_slept s \<noteq> FREE_PCB_PID then
        Option.bind (aget (sleeping s) (first_slept s)) (\<lambda>e.
          if s_time e = 0 then
            Option.bind (sched_unblock (first_slept s) s) (\<lambda>s.
            Option.bind (aupd (first_slept s) (\<lambda>e. e\<lparr>s_id := FREE_PCB_PID\<rparr>) (sleeping s)) (\<lambda>sl.
            Option.bind (aget sl (first_slept s)) (\<lambda>e.
              wake_expired (s\<lparr>sleeping := sl, first_slept := s_next e\<rparr>))))
          else Some s)
      else Some s)"

definition loader_tick :: "'a proc_state_scheme \<Rightarrow> 'a proc_state_scheme option" where
  "loader_tick s =
     (if first_slept s = FREE_PCB_PID then Some s else do {
        sl \<leftarrow> aupd (first_slept s) (\<lambda>e. e\<lparr>s_time := s_time e - 1\<rparr>) (sleeping s);
        wake_expired (s\<lparr>sleeping := sl\<rparr>)
      })"

text \<open>The timer interrupt (\<^verbatim>\<open>taskswitch.asm\<close>); the end of interrupt is port output.\<close>

definition timer_handler :: "'a proc_state_scheme \<Rightarrow> 'a proc_state_scheme option" where
  "timer_handler s = do {
     s \<leftarrow> loader_tick (s\<lparr>timer_count := timer_count s + 1\<rparr>);
     (p, s) \<leftarrow> sched_tick s;
     if p = cur_pid s then Some s else task_switch (s\<lparr>tmp_pid := p\<rparr>)
   }"


subsection \<open>What scheduling leaves alone\<close>

lemma sched_load_more [frame]: "sched_load p s = Some s' \<Longrightarrow> sched_state.more s' = sched_state.more s"
  by (auto simp: sched_load_def Let_def split: if_splits)

lemma sched_exit_more [frame]: "sched_exit s = Some (q, s') \<Longrightarrow> sched_state.more s' = sched_state.more s"
  by (auto simp: sched_exit_def Let_def split: if_splits)

lemma sched_tick_more [frame]: "sched_tick s = Some (q, s') \<Longrightarrow> sched_state.more s' = sched_state.more s"
  by (auto simp: sched_tick_def Let_def split: if_splits option.splits)

lemma more_eq_fields:
  assumes "sched_state.more s' = sched_state.more (s :: 'a proc_state_scheme)"
  shows "processes s' = processes s" "cur_pid s' = cur_pid s" "tmp_pid s' = tmp_pid s"
    "sleeping s' = sleeping s" "first_slept s' = first_slept s" "timer_count s' = timer_count s"
    "esp_reg s' = esp_reg s" "cr3_reg s' = cr3_reg s" "tss_esp0 s' = tss_esp0 s"
    "proc_state.more s' = proc_state.more s"
  using assms by (cases s; cases s'; simp)+

lemmas sched_unblock_fields = sched_load_more [folded sched_unblock_def, THEN more_eq_fields(1)]
  sched_load_more [folded sched_unblock_def, THEN more_eq_fields(2)]
  sched_load_more [folded sched_unblock_def, THEN more_eq_fields(4)]
  sched_load_more [folded sched_unblock_def, THEN more_eq_fields(5)]
lemmas sched_block_fields = sched_exit_more [folded sched_block_def, THEN more_eq_fields(1)]
  sched_exit_more [folded sched_block_def, THEN more_eq_fields(2)]
  sched_exit_more [folded sched_block_def, THEN more_eq_fields(4)]
  sched_exit_more [folded sched_block_def, THEN more_eq_fields(5)]
lemmas sched_tick_fields = sched_tick_more [THEN more_eq_fields(1)] sched_tick_more [THEN more_eq_fields(2)]
  sched_tick_more [THEN more_eq_fields(4)] sched_tick_more [THEN more_eq_fields(5)]

lemma ready_slots_frame [simp]:
  "ready_slots (s\<lparr>processes := v1\<rparr>) = ready_slots s" "ready_slots (s\<lparr>cur_pid := v2\<rparr>) = ready_slots s"
  "ready_slots (s\<lparr>tmp_pid := v2\<rparr>) = ready_slots s" "ready_slots (s\<lparr>sleeping := v3\<rparr>) = ready_slots s"
  "ready_slots (s\<lparr>first_slept := v2\<rparr>) = ready_slots s" "ready_slots (s\<lparr>timer_count := v4\<rparr>) = ready_slots s"
  "ready_slots (s\<lparr>esp_reg := v4\<rparr>) = ready_slots s" "ready_slots (s\<lparr>cr3_reg := v4\<rparr>) = ready_slots s"
  "ready_slots (s\<lparr>tss_esp0 := v4\<rparr>) = ready_slots s"
  by (simp_all add: ready_slots_def)

lemma sched_ok_frame [simp]:
  "sched_ok (s\<lparr>processes := v1\<rparr>) = sched_ok s" "sched_ok (s\<lparr>cur_pid := v2\<rparr>) = sched_ok s"
  "sched_ok (s\<lparr>tmp_pid := v2\<rparr>) = sched_ok s" "sched_ok (s\<lparr>sleeping := v3\<rparr>) = sched_ok s"
  "sched_ok (s\<lparr>first_slept := v2\<rparr>) = sched_ok s" "sched_ok (s\<lparr>timer_count := v4\<rparr>) = sched_ok s"
  "sched_ok (s\<lparr>esp_reg := v4\<rparr>) = sched_ok s" "sched_ok (s\<lparr>cr3_reg := v4\<rparr>) = sched_ok s"
  "sched_ok (s\<lparr>tss_esp0 := v4\<rparr>) = sched_ok s"
  by (simp_all add: sched_ok_def sched_rel_def)

lemma ready_pids_frame [simp]:
  "ready_pids (s\<lparr>processes := v1\<rparr>) = ready_pids s" "ready_pids (s\<lparr>cur_pid := v2\<rparr>) = ready_pids s"
  "ready_pids (s\<lparr>tmp_pid := v2\<rparr>) = ready_pids s" "ready_pids (s\<lparr>sleeping := v3\<rparr>) = ready_pids s"
  "ready_pids (s\<lparr>first_slept := v2\<rparr>) = ready_pids s" "ready_pids (s\<lparr>timer_count := v4\<rparr>) = ready_pids s"
  "ready_pids (s\<lparr>esp_reg := v4\<rparr>) = ready_pids s" "ready_pids (s\<lparr>cr3_reg := v4\<rparr>) = ready_pids s"
  "ready_pids (s\<lparr>tss_esp0 := v4\<rparr>) = ready_pids s"
  by (simp_all add: ready_pids_def)

lemma running_pid_frame [simp]:
  "running_pid (s\<lparr>processes := v1\<rparr>) = running_pid s" "running_pid (s\<lparr>cur_pid := v2\<rparr>) = running_pid s"
  "running_pid (s\<lparr>tmp_pid := v2\<rparr>) = running_pid s" "running_pid (s\<lparr>sleeping := v3\<rparr>) = running_pid s"
  "running_pid (s\<lparr>first_slept := v2\<rparr>) = running_pid s" "running_pid (s\<lparr>timer_count := v4\<rparr>) = running_pid s"
  "running_pid (s\<lparr>esp_reg := v4\<rparr>) = running_pid s" "running_pid (s\<lparr>cr3_reg := v4\<rparr>) = running_pid s"
  "running_pid (s\<lparr>tss_esp0 := v4\<rparr>) = running_pid s"
  by (simp_all add: running_pid_def)

subsection \<open>Wait queues as lists\<close>

fun linked :: "pcb list \<Rightarrow> int \<Rightarrow> int list \<Rightarrow> bool" where
  "linked ps prev [] = True"
| "linked ps prev (q # qs) =
     (0 \<le> q \<and> q < int (length ps) \<and> p_prev (ps ! nat q) = prev \<and>
      p_next (ps ! nat q) = (case qs of [] \<Rightarrow> FREE_PCB_PID | r # _ \<Rightarrow> r) \<and> linked ps q qs)"

definition wait_queue :: "pcb list \<Rightarrow> int \<Rightarrow> int list \<Rightarrow> bool" where
  "wait_queue ps head qs \<longleftrightarrow>
     distinct qs \<and> head = (case qs of [] \<Rightarrow> FREE_QUEUE | q # _ \<Rightarrow> q) \<and> linked ps FREE_QUEUE qs"

lemma linked_range: "linked ps prev qs \<Longrightarrow> q \<in> set qs \<Longrightarrow> 0 \<le> q \<and> q < int (length ps)"
  by (induction qs arbitrary: prev) auto

lemma linked_cong:
  assumes "linked ps prev qs" and "length ps' = length ps"
    and "\<And>q. q \<in> set qs \<Longrightarrow> p_prev (ps' ! nat q) = p_prev (ps ! nat q)"
    and "\<And>q. q \<in> set qs \<Longrightarrow> p_next (ps' ! nat q) = p_next (ps ! nat q)"
  shows "linked ps' prev qs"
  using assms by (induction qs arbitrary: prev) auto

lemma linked_snoc:
  assumes l: "linked ps prev qs" and ne: "qs \<noteq> []" and d: "distinct qs"
    and c: "c \<notin> set qs" "0 \<le> c" "c < int (length ps)" "p_next (ps ! nat c) = FREE_PCB_PID"
  defines "ps1 \<equiv> ps[nat (last qs) := (ps ! nat (last qs))\<lparr>p_next := c\<rparr>]"
  shows "linked (ps1[nat c := (ps1 ! nat c)\<lparr>p_prev := last qs\<rparr>]) prev (qs @ [c])"
  using l ne d c(1) unfolding ps1_def
proof (induction qs arbitrary: prev)
  case Nil
  then show ?case by simp
next
  case (Cons q qs)
  have nat_neq: "nat q \<noteq> nat c" "nat q < length ps" "nat c < length ps"
    using Cons.prems c(2,3) by auto
  show ?case
  proof (cases "qs = []")
    case True
    then show ?thesis using Cons.prems c nat_neq by (simp add: nth_list_update)
  next
    case False
    have "nat (last qs) \<noteq> nat q"
      using False Cons.prems linked_range [of ps q qs "last qs"] by (auto dest: eq_nat_nat_iff [THEN iffD1, rotated 2])
    then show ?thesis
      using False Cons nat_neq by (cases qs) (auto simp: nth_list_update)
  qed
qed

lemma queue_end_last:
  assumes "linked ps prev qs" and "qs \<noteq> []"
  shows "queue_end ps (hd qs) = Some (last qs)"
  using assms
proof (induction qs arbitrary: prev)
  case (Cons q qs)
  have "aget ps q = Some (ps ! nat q)" using Cons.prems by (simp add: aget_def)
  moreover have "qs \<noteq> [] \<Longrightarrow> hd qs \<noteq> FREE_PCB_PID"
    using Cons.prems by (cases qs) auto
  ultimately show ?case
    using Cons by (cases qs) (auto simp: queue_end.simps [of ps q])
qed simp

subsection \<open>Blocking and waking\<close>

text \<open>The links of a process that waits nowhere.\<close>

definition unlinked :: "pcb list \<Rightarrow> int \<Rightarrow> bool" where
  "unlinked ps p \<longleftrightarrow> p_prev (ps ! nat p) = FREE_QUEUE \<and> p_next (ps ! nat p) = FREE_QUEUE"

definition same_links :: "pcb list \<Rightarrow> pcb list \<Rightarrow> int \<Rightarrow> bool" where
  "same_links ps ps' p \<longleftrightarrow> p_prev (ps' ! nat p) = p_prev (ps ! nat p) \<and>
     p_next (ps' ! nat p) = p_next (ps ! nat p)"

lemma same_links_refl [simp]: "same_links ps ps p"
  by (simp add: same_links_def)

lemma same_links_trans: "same_links a b p \<Longrightarrow> same_links b c p \<Longrightarrow> same_links a c p"
  by (simp add: same_links_def)

lemma unlinked_same: "same_links ps ps' p \<Longrightarrow> unlinked ps' p = unlinked ps p"
  by (simp add: same_links_def unlinked_def)

lemma wait_queue_cong:
  "wait_queue ps h qs \<Longrightarrow> length ps' = length ps \<Longrightarrow> (\<And>q. q \<in> set qs \<Longrightarrow> same_links ps ps' q) \<Longrightarrow>
   wait_queue ps' h qs"
  by (auto simp: wait_queue_def same_links_def intro: linked_cong)

lemma wait_queue_range: "wait_queue ps h qs \<Longrightarrow> q \<in> set qs \<Longrightarrow> 0 \<le> q \<and> q < int (length ps)"
  by (auto simp: wait_queue_def dest: linked_range)

lemma wait_queue_Nil [simp]: "wait_queue ps h [] \<longleftrightarrow> h = FREE_QUEUE"
  by (simp add: wait_queue_def)

lemma task_switch_Some:
  assumes "0 \<le> cur_pid s" "cur_pid s < int (length (processes s))"
    and "0 \<le> tmp_pid s" "tmp_pid s < int (length (processes s))"
  obtains s' where "task_switch s = Some s'" "cur_pid s' = tmp_pid s"
    "length (processes s') = length (processes s)" "\<And>p. same_links (processes s) (processes s') p"
    "sched_ok s' = sched_ok s" "ready_pids s' = ready_pids s" "running_pid s' = running_pid s"
    "sleeping s' = sleeping s" "first_slept s' = first_slept s"
    "proc_state.more s' = proc_state.more s" "timer_count s' = timer_count s"
proof -
  define ps where "ps = (processes s)[nat (cur_pid s) := (processes s ! nat (cur_pid s))\<lparr>p_esp := esp_reg s - 32\<rparr>]"
  define p where "p = ps ! nat (tmp_pid s)"
  have "task_switch s = Some (s\<lparr>processes := ps, esp_reg := p_esp p + 32,
      tss_esp0 := (if p_privilege_level p = PL_KERNEL then 0 else K_STACK_TOP),
      cr3_reg := p_cr3 p, cur_pid := tmp_pid s\<rparr>)"
    using assms by (simp add: task_switch_def aupd_def aget_def ps_def p_def Let_def)
  then show thesis
    by (rule that) (simp_all add: ps_def same_links_def nth_list_update_field)
qed

lemma sched_unblock_Some:
  assumes "sched_ok s" "0 \<le> p" "p < int MAX_PID" "p \<notin> set (ready_pids s)"
  obtains s' where "sched_unblock p s = Some s'" "sched_ok s'" "ready_pids s' = ready_pids s @ [p]"
    "running_pid s' = running_pid s" "sched_state.more s' = sched_state.more s"
  using rq.load [OF assms] sched_load_more [of p s] by (auto simp: sched_unblock_def)

lemma loader_unqueue_Cons:
  assumes ok: "sched_ok s" and len: "length (processes s) = MAX_PID"
    and q: "wait_queue (processes s) h (q # qs)" and nr: "q \<notin> set (ready_pids s)"
  obtains h' s' where "loader_unqueue h s = Some (h', s')" "sched_ok s'"
    "wait_queue (processes s') h' qs" "unlinked (processes s') q"
    "ready_pids s' = ready_pids s @ [q]" "running_pid s' = running_pid s" "cur_pid s' = cur_pid s"
    "length (processes s') = MAX_PID" "\<And>p. 0 \<le> p \<Longrightarrow> p \<notin> set (q # qs) \<Longrightarrow> same_links (processes s) (processes s') p"
    "sleeping s' = sleeping s" "first_slept s' = first_slept s" "proc_state.more s' = proc_state.more s"
proof -
  let ?ps = "processes s"
  have h: "h = q" "0 \<le> q" "q < int MAX_PID" "p_prev (?ps ! nat q) = FREE_QUEUE"
    "p_next (?ps ! nat q) = (case qs of [] \<Rightarrow> FREE_PCB_PID | r # _ \<Rightarrow> r)" "linked ?ps q qs" "distinct (q # qs)"
    using q len by (auto simp: wait_queue_def)
  have get: "aget ?ps q = Some (?ps ! nat q)" using h len by (simp add: aget_def)
  show thesis
  proof (cases qs)
    case Nil
    obtain s' where s': "sched_unblock q s = Some s'" "sched_ok s'" "ready_pids s' = ready_pids s @ [q]"
      "running_pid s' = running_pid s" "sched_state.more s' = sched_state.more s"
      using sched_unblock_Some [OF ok h(2,3) nr] by metis
    have f: "loader_unqueue h s = Some (FREE_QUEUE, s')"
      using h get Nil s' by (simp add: loader_unqueue_def)
    show thesis
      by (rule that [OF f]) (use s' h len Nil more_eq_fields [OF s'(5)] in \<open>simp_all add: unlinked_def\<close>)
  next
    case (Cons r rs)
    define ps1 where "ps1 = ?ps[nat r := (?ps ! nat r)\<lparr>p_prev := FREE_PCB_PID\<rparr>]"
    define ps2 where "ps2 = ps1[nat q := (ps1 ! nat q)\<lparr>p_next := FREE_PCB_PID\<rparr>]"
    have r: "0 \<le> r" "r < int MAX_PID" "r \<noteq> q" "nat r \<noteq> nat q" using h len Cons by auto
    obtain s' where s': "sched_unblock q (s\<lparr>processes := ps2\<rparr>) = Some s'" "sched_ok s'"
      "ready_pids s' = ready_pids s @ [q]" "running_pid s' = running_pid s"
      "sched_state.more s' = sched_state.more (s\<lparr>processes := ps2\<rparr>)"
      using sched_unblock_Some [of "s\<lparr>processes := ps2\<rparr>" q] ok h(2,3) nr by auto
    note fields = more_eq_fields [OF s'(5)]
    have f: "loader_unqueue h s = Some (r, s')"
      using h get Cons r s' len by (simp add: loader_unqueue_def aupd_def ps1_def ps2_def)
    have links: "p_prev (ps2 ! nat p) = (if p = r then FREE_PCB_PID else p_prev (?ps ! nat p))"
      "p_next (ps2 ! nat p) = (if p = q then FREE_PCB_PID else p_next (?ps ! nat p))" if "0 \<le> p" for p
      using r h len that by (auto simp: ps1_def ps2_def nth_list_update nat_eq_iff nth_list_update_field)
    have "linked ps2 FREE_QUEUE qs"
    proof -
      have lr: "linked ?ps r rs" using h(6) Cons by simp
      have "length ps2 = length ?ps" by (simp add: ps1_def ps2_def)
      then have "linked ps2 r rs"
        by (rule linked_cong [OF lr]) (use h(7) Cons linked_range [OF lr] in \<open>auto simp: links\<close>)
      moreover have "p_next (ps2 ! nat r) = (case rs of [] \<Rightarrow> FREE_PCB_PID | r # _ \<Rightarrow> r)"
        using links [OF r(1)] r lr h(6) Cons by simp
      ultimately show ?thesis using h Cons links [OF r(1)] r by (simp add: ps1_def ps2_def)
    qed
    then have "wait_queue (processes s') r qs"
      using h Cons fields by (simp add: wait_queue_def)
    then show thesis
      by (rule that [OF f s'(2)])
        (use s' h len r links in \<open>auto simp: fields unlinked_def same_links_def Cons ps1_def ps2_def\<close>)
  qed
qed

text \<open>
  The process on the processor is the scheduler's running task, or the idle process when
  there is none.
\<close>

definition cpu_ok :: "'a proc_state_scheme \<Rightarrow> bool" where
  "cpu_ok s \<longleftrightarrow> cur_pid s = (case running_pid s of None \<Rightarrow> IDLE_PID | Some p \<Rightarrow> p)"

text \<open>
  Everything that the process operations keep: the scheduler's ring, the size of the process
  table, and the process on the processor.
\<close>

definition proc_ok :: "'a proc_state_scheme \<Rightarrow> bool" where
  "proc_ok s \<longleftrightarrow> sched_ok s \<and> length (processes s) = MAX_PID \<and> length (sleeping s) = MAX_PID \<and> cpu_ok s \<and>
     IDLE_PID \<notin> set (ready_pids s)"

lemma proc_okD:
  assumes "proc_ok s"
  shows "sched_ok s" "length (processes s) = MAX_PID" "length (sleeping s) = MAX_PID" "cpu_ok s"
    "IDLE_PID \<notin> set (ready_pids s)" "distinct (ready_pids s)"
    "\<And>p. p \<in> set (ready_pids s) \<Longrightarrow> 0 \<le> p \<and> p < int MAX_PID"
  using assms ready_pids_distinct [of s] ready_pids_range [of s] by (auto simp: proc_ok_def)

text \<open>The running process gives up the processor for the one that the scheduler chose.\<close>

lemma block_switch:
  assumes ok: "proc_ok s" and run: "running_pid s = Some p"
  obtains n s1 s2 where "sched_block s = Some (n, s1)" "task_switch (s1\<lparr>tmp_pid := n\<rparr>) = Some s2"
    "proc_ok s2" "ready_pids s2 = remove1 p (ready_pids s)" "\<And>q. same_links (processes s) (processes s2) q"
    "sleeping s2 = sleeping s" "first_slept s2 = first_slept s" "timer_count s2 = timer_count s"
    "proc_state.more s2 = proc_state.more s"
    "running_pid s2 = (if ready_pids s2 = [] then None else Some n)" "cur_pid s2 = n"
proof -
  note D = proc_okD [OF ok]
  obtain n s1 where s1: "sched_block s = Some (n, s1)" "sched_ok s1"
    "ready_pids s1 = remove1 p (ready_pids s)" "running_pid s1 = (if ready_pids s1 = [] then None else Some n)"
    "ready_pids s1 = [] \<longrightarrow> n = 0"
    using rq.block [OF D(1) run] by blast
  have f: "sched_state.more s1 = sched_state.more s"
    using s1(1) sched_exit_more by (simp add: sched_block_def)
  note F = more_eq_fields [OF f]
  have n: "0 \<le> n" "n < int MAX_PID"
  proof -
    have "n = 0 \<or> n \<in> set (ready_pids s1)"
      using s1(5) s1(4) rq.running_ready [OF s1(2), of n] by (cases "ready_pids s1 = []") auto
    then show "0 \<le> n" "n < int MAX_PID" using ready_pids_range [OF s1(2), of n] by auto
  qed
  have p: "p = cur_pid s" "p \<in> set (ready_pids s)"
    using D(4) run rq.running_ready [OF D(1) run] by (simp_all add: cpu_ok_def)
  have c: "0 \<le> cur_pid s" "cur_pid s < int MAX_PID" using D(7) p by auto
  obtain s2 where s2: "task_switch (s1\<lparr>tmp_pid := n\<rparr>) = Some s2" "cur_pid s2 = n"
    "length (processes s2) = MAX_PID" "\<And>q. same_links (processes s) (processes s2) q"
    "sched_ok s2" "ready_pids s2 = ready_pids s1" "running_pid s2 = running_pid s1"
    "sleeping s2 = sleeping s" "first_slept s2 = first_slept s"
    "proc_state.more s2 = proc_state.more s" "timer_count s2 = timer_count s"
    using task_switch_Some [of "s1\<lparr>tmp_pid := n\<rparr>"] c n D(2) s1(2) F by auto
  have "proc_ok s2"
    using s2 s1 D ready_pids_distinct [OF s1(2)] by (auto simp: proc_ok_def cpu_ok_def dest: notin_set_remove1)
  then show thesis
    using that [OF s1(1) s2(1)] s2 s1 by simp
qed

lemma loader_enqueue_Some:
  assumes ok: "proc_ok s" and run: "running_pid s = Some p"
    and q: "wait_queue (processes s) h qs" and new: "p \<notin> set qs" and un: "unlinked (processes s) p"
  obtains h' s' where "loader_enqueue h s = Some (h', s')" "proc_ok s'"
    "wait_queue (processes s') h' (qs @ [p])" "ready_pids s' = remove1 p (ready_pids s)"
    "\<And>r. 0 \<le> r \<Longrightarrow> r \<notin> set (p # qs) \<Longrightarrow> same_links (processes s) (processes s') r"
    "sleeping s' = sleeping s" "first_slept s' = first_slept s" "timer_count s' = timer_count s"
    "proc_state.more s' = proc_state.more s"
    "running_pid s' = (if ready_pids s' = [] then None else Some (cur_pid s'))"
proof -
  let ?ps = "processes s"
  note D = proc_okD [OF ok]
  have p: "p = cur_pid s" "0 \<le> p" "p < int MAX_PID"
    using D(4,7) run rq.running_ready [OF D(1) run] by (auto simp: cpu_ok_def)
  have get: "aget ?ps p = Some (?ps ! nat p)" using p D by (simp add: aget_def)
  show thesis
  proof (cases qs)
    case Nil
    obtain n s1 s2 where B: "sched_block s = Some (n, s1)" "task_switch (s1\<lparr>tmp_pid := n\<rparr>) = Some s2"
      "proc_ok s2" "ready_pids s2 = remove1 p (ready_pids s)" "\<And>q. same_links (processes s) (processes s2) q"
      "sleeping s2 = sleeping s" "first_slept s2 = first_slept s" "timer_count s2 = timer_count s"
      "proc_state.more s2 = proc_state.more s"
      "running_pid s2 = (if ready_pids s2 = [] then None else Some n)" "cur_pid s2 = n"
      using block_switch [OF ok run] by metis
    have f: "loader_enqueue h s = Some (p, s2)"
      using q Nil get p un B by (simp add: loader_enqueue_def unlinked_def)
    have "wait_queue (processes s2) p (qs @ [p])"
      using Nil p D(2) un B(5) [of p] proc_okD(2) [OF B(3)] by (simp add: wait_queue_def same_links_def unlinked_def)
    then show thesis by (rule that [OF f B(3)]) (use B in simp_all)
  next
    case (Cons r rs)
    define t where "t = last qs"
    define ps1 where "ps1 = ?ps[nat t := (?ps ! nat t)\<lparr>p_next := p\<rparr>]"
    define ps2 where "ps2 = ps1[nat p := (ps1 ! nat p)\<lparr>p_prev := t\<rparr>]"
    have W: "h = r" "distinct qs" "linked ?ps FREE_QUEUE qs" "qs \<noteq> []" "h \<noteq> FREE_QUEUE" using q Cons by (auto simp: wait_queue_def)
    have t: "t \<in> set qs" "0 \<le> t" "t < int MAX_PID" "t \<noteq> p"
      using W(4) wait_queue_range [OF q, of t] D(2) new by (auto simp: t_def)
    have e: "queue_end ?ps h = Some t" using queue_end_last [OF W(3,4)] W(1) Cons by (simp add: t_def)
    have ok': "proc_ok (s\<lparr>processes := ps2\<rparr>)"
      using ok by (simp add: proc_ok_def cpu_ok_def ps1_def ps2_def)
    obtain n s1 s2 where B: "sched_block (s\<lparr>processes := ps2\<rparr>) = Some (n, s1)"
      "task_switch (s1\<lparr>tmp_pid := n\<rparr>) = Some s2"
      "proc_ok s2" "ready_pids s2 = remove1 p (ready_pids s)" "\<And>q. same_links ps2 (processes s2) q"
      "sleeping s2 = sleeping s" "first_slept s2 = first_slept s" "timer_count s2 = timer_count s"
      "proc_state.more s2 = proc_state.more s"
      "running_pid s2 = (if ready_pids s2 = [] then None else Some n)" "cur_pid s2 = n"
      using block_switch [OF ok'] run by simp metis
    have f: "loader_enqueue h s = Some (h, s2)"
      using get p un B W e t D(2) by (simp add: loader_enqueue_def unlinked_def aupd_def ps1_def ps2_def)
    have l2: "linked ps2 FREE_QUEUE (qs @ [p])"
      using linked_snoc [OF W(3,4,2) new p(2)] p(3) D(2) un by (simp add: unlinked_def ps1_def ps2_def t_def)
    have "wait_queue ps2 h (qs @ [p])"
      using l2 W new Cons by (simp add: wait_queue_def)
    then have "wait_queue (processes s2) h (qs @ [p])"
      using B(5) proc_okD(2) [OF ok'] proc_okD(2) [OF B(3)] by (auto intro: wait_queue_cong)
    moreover have "same_links ?ps (processes s2) q'" if "0 \<le> q'" "q' \<notin> set (p # qs)" for q'
    proof -
      have "nat q' \<noteq> nat p" "nat q' \<noteq> nat t" using that t p by (auto simp: eq_nat_nat_iff)
      then have "same_links ?ps ps2 q'" by (simp add: same_links_def ps1_def ps2_def)
      then show ?thesis using B(5) by (rule same_links_trans)
    qed
    ultimately show thesis by (intro that [OF f B(3)]) (use B in simp_all)
  qed
qed

subsection \<open>The delta queue of sleepers\<close>

text \<open>
  Sleepers in the order in which they wake, each with the ticks that it waits after the one
  before it: \<open>delta_insert\<close> and \<open>delta_tick\<close> are what the kernel means by the linked list.
\<close>

fun delta_insert :: "int \<Rightarrow> u32 \<Rightarrow> (int \<times> u32) list \<Rightarrow> (int \<times> u32) list" where
  "delta_insert p t [] = [(p, t)]"
| "delta_insert p t ((q, d) # ds) =
     (if d < t then (q, d) # delta_insert p (t - d) ds else (p, t) # (q, d - t) # ds)"

fun delta_drop :: "(int \<times> u32) list \<Rightarrow> int list \<times> (int \<times> u32) list" where
  "delta_drop [] = ([], [])"
| "delta_drop ((q, d) # ds) = (if d = 0 then (let (w, r) = delta_drop ds in (q # w, r)) else ([], (q, d) # ds))"

fun delta_tick :: "(int \<times> u32) list \<Rightarrow> int list \<times> (int \<times> u32) list" where
  "delta_tick [] = ([], [])"
| "delta_tick ((q, d) # ds) = delta_drop ((q, d - 1) # ds)"

text \<open>The ticks that each sleeper still has to wait.\<close>

fun waits :: "nat \<Rightarrow> (int \<times> u32) list \<Rightarrow> (int \<times> nat) list" where
  "waits a [] = []"
| "waits a ((q, d) # ds) = (q, a + unat d) # waits (a + unat d) ds"

definition delta_ok :: "(int \<times> u32) list \<Rightarrow> bool" where
  "delta_ok ds \<longleftrightarrow> distinct (map fst ds) \<and> (ds \<noteq> [] \<longrightarrow> 0 < snd (hd ds))"

lemma fst_waits [simp]: "map fst (waits a ds) = map fst ds"
  by (induction ds arbitrary: a) auto

lemma delta_insert_pids: "set (map fst (delta_insert p t ds)) = insert p (set (map fst ds))"
  by (induction p t ds rule: delta_insert.induct) auto

lemma delta_insert_waits:
  "set (waits a (delta_insert p t ds)) = insert (p, a + unat t) (set (waits a ds))"
proof (induction p t ds arbitrary: a rule: delta_insert.induct)
  case (2 p t q d ds)
  show ?case
  proof (cases "d < t")
    case True
    then have "unat d + unat (t - d) = unat t" by (simp add: unat_sub less_imp_le word_less_nat_alt [symmetric])
    with True 2 show ?thesis by (simp add: insert_commute add.assoc)
  next
    case False
    then have le: "t \<le> d" by simp
    then have "unat t + unat (d - t) = unat d" using unat_sub [OF le] by (simp add: word_le_nat_alt)
    with False show ?thesis by (simp add: add.assoc)
  qed
qed simp

lemma delta_insert_ok:
  "delta_ok ds \<Longrightarrow> p \<notin> set (map fst ds) \<Longrightarrow> 0 < t \<Longrightarrow> delta_ok (delta_insert p t ds)"
proof -
  have d: "distinct (map fst ds) \<Longrightarrow> p \<notin> set (map fst ds) \<Longrightarrow> distinct (map fst (delta_insert p t ds))" for ds
  proof (induction p t ds rule: delta_insert.induct)
    case (2 p t q d ds)
    then show ?case using delta_insert_pids [of p "t - d" ds] by auto
  qed simp
  assume "delta_ok ds" "p \<notin> set (map fst ds)" "0 < t"
  with d [of ds] show ?thesis by (cases ds) (auto simp: delta_ok_def)
qed

lemma delta_drop_waits:
  "delta_drop ds = (w, r) \<Longrightarrow> distinct (map fst ds) \<Longrightarrow>
   waits a ds = map (\<lambda>q. (q, a)) w @ waits a r \<and> delta_ok r"
proof (induction ds arbitrary: w r)
  case (Cons e ds)
  then show ?case by (cases e) (auto simp: delta_ok_def word_gt_0 split: if_splits prod.splits)
qed (simp add: delta_ok_def)

lemma delta_drop_pids: "delta_drop ds = (w, r) \<Longrightarrow> map fst ds = w @ map fst r"
proof (induction ds arbitrary: w r)
  case (Cons e ds)
  then show ?case by (cases e) (auto split: if_splits prod.splits)
qed simp

lemma waits_ge: "(p, n) \<in> set (waits a ds) \<Longrightarrow> a \<le> n"
proof (induction ds arbitrary: a)
  case (Cons e ds)
  then show ?case by (cases e) (fastforce dest: Cons.IH)
qed simp

lemma waits_gt: "delta_ok ds \<Longrightarrow> (p, n) \<in> set (waits a ds) \<Longrightarrow> a < n"
proof (cases ds)
  case (Cons e r)
  assume "delta_ok ds" "(p, n) \<in> set (waits a ds)"
  moreover from this have "0 < unat (snd e)" using Cons by (simp add: delta_ok_def unat_gt_0 word_gt_0)
  ultimately show ?thesis using Cons waits_ge [of p n "a + unat (snd e)" r]
    by (cases e) auto
qed simp

lemma waits_pred:
  "waits (Suc a) ds = map (\<lambda>(q, n). (q, Suc n)) (waits a ds)"
  by (induction ds arbitrary: a) auto

lemma delta_tick_waits:
  assumes ok: "delta_ok ds" and t: "delta_tick ds = (w, r)"
  shows "waits 0 ds = map (\<lambda>q. (q, 1)) w @ map (\<lambda>(q, n). (q, Suc n)) (waits 0 r)" "delta_ok r"
    "map fst ds = w @ map fst r"
proof -
  have "waits 0 ds = map (\<lambda>q. (q, 1)) w @ map (\<lambda>(q, n). (q, Suc n)) (waits 0 r) \<and> delta_ok r \<and>
    map fst ds = w @ map fst r"
  proof (cases ds)
    case Nil
    then show ?thesis using t ok by simp
  next
    case (Cons e es)
    obtain q d where e: "e = (q, d)" by (cases e)
    have d: "0 < d" "distinct (map fst ((q, d - 1) # es))" using ok Cons e by (simp_all add: delta_ok_def)
    then have u: "unat d = Suc (unat (d - 1))" by (simp add: unat_pred word_gt_0 unat_gt_0)
    have drop: "delta_drop ((q, d - 1) # es) = (w, r)" using t Cons e by simp
    have "waits 0 ds = map (\<lambda>(q, n). (q, Suc n)) (waits 0 ((q, d - 1) # es))"
      using Cons e u by (simp add: waits_pred)
    then have "waits 0 ds = map (\<lambda>(q, n). (q, Suc n)) (map (\<lambda>q. (q, 0)) w @ waits 0 r)"
      using delta_drop_waits [OF drop d(2), of 0] by (simp only:)
    then show ?thesis
      using delta_drop_waits [OF drop d(2), of 0] delta_drop_pids [OF drop] Cons e by simp
  qed
  then show "waits 0 ds = map (\<lambda>q. (q, 1)) w @ map (\<lambda>(q, n). (q, Suc n)) (waits 0 r)" "delta_ok r"
    "map fst ds = w @ map fst r" by simp_all
qed

text \<open>The list in the array.\<close>

fun slept_list :: "slept_task list \<Rightarrow> int \<Rightarrow> (int \<times> u32) list \<Rightarrow> bool" where
  "slept_list sl h [] = (h = FREE_PCB_PID)"
| "slept_list sl h ((q, d) # ds) =
     (h = q \<and> 0 \<le> q \<and> q < int (length sl) \<and> s_time (sl ! nat q) = d \<and> slept_list sl (s_next (sl ! nat q)) ds)"

definition sleep_rel :: "'a proc_state_scheme \<Rightarrow> (int \<times> u32) list \<Rightarrow> bool" where
  "sleep_rel s ds \<longleftrightarrow> slept_list (sleeping s) (first_slept s) ds \<and> delta_ok ds"

lemma slept_list_range: "slept_list sl h ds \<Longrightarrow> q \<in> fst ` set ds \<Longrightarrow> 0 \<le> q \<and> q < int (length sl)"
  by (induction ds arbitrary: h) force+

lemma slept_list_cong:
  assumes "slept_list sl h ds" "length sl' = length sl"
    "\<And>q. q \<in> fst ` set ds \<Longrightarrow> s_time (sl' ! nat q) = s_time (sl ! nat q) \<and> s_next (sl' ! nat q) = s_next (sl ! nat q)"
  shows "slept_list sl' h ds"
  using assms by (induction ds arbitrary: h) auto

lemma slept_list_upd:
  assumes "slept_list sl h ds" "0 \<le> p" "p \<notin> fst ` set ds"
  shows "slept_list (sl[nat p := e]) h ds"
  using assms(1)
proof (rule slept_list_cong, goal_cases)
  case (2 q)
  then have "0 \<le> q" "q \<noteq> p" using assms slept_list_range [of sl h ds q] by auto
  then have "nat q \<noteq> nat p" using assms(2) by (simp add: eq_nat_nat_iff)
  then show ?case by simp
qed simp


lemma sleep_seek_insert:
  assumes "slept_list sl h ds" "distinct (map fst ds)" "p \<notin> fst ` set ds" "0 \<le> p" "p < int (length sl)"
    and "prev \<notin> fst ` set ds"
  shows "\<exists>tmp prev' t'. sleep_seek sl h prev t = Some (tmp, prev', t') \<and>
    (tmp = FREE_PCB_PID \<or> tmp \<in> fst ` set ds) \<and> (prev' = prev \<or> prev' \<in> fst ` set ds) \<and>
    (tmp = FREE_PCB_PID \<and> ds \<noteq> [] \<longrightarrow> prev' \<noteq> prev) \<and>
    (\<forall>sl'. length sl' = length sl \<longrightarrow> s_time (sl' ! nat p) = t' \<longrightarrow> s_next (sl' ! nat p) = tmp \<longrightarrow>
      (\<forall>q\<in>fst ` set ds.
         s_time (sl' ! nat q) = (if q = tmp then s_time (sl ! nat q) - t' else s_time (sl ! nat q)) \<and>
         s_next (sl' ! nat q) = (if q = prev' then p else s_next (sl ! nat q))) \<longrightarrow>
      slept_list sl' (if prev' = prev then p else h) (delta_insert p t ds))"
  using assms
proof (induction ds arbitrary: h prev t)
  case Nil
  then show ?case by (simp add: sleep_seek.simps)
next
  case (Cons e ds)
  obtain q d where e: "e = (q, d)" by (cases e)
  have q: "h = q" "0 \<le> q" "q < int (length sl)" "s_time (sl ! nat q) = d"
    "slept_list sl (s_next (sl ! nat q)) ds" "q \<notin> fst ` set ds" "distinct (map fst ds)" "p \<noteq> q"
    "p \<notin> fst ` set ds" "prev \<noteq> q" "prev \<notin> fst ` set ds"
    using Cons.prems e by auto
  have get: "aget sl q = Some (sl ! nat q)" using q by (simp add: aget_def)
  show ?case
  proof (cases "d < t")
    case True
    obtain tmp prev' t' where IH: "sleep_seek sl (s_next (sl ! nat q)) q (t - d) = Some (tmp, prev', t')"
      "tmp = FREE_PCB_PID \<or> tmp \<in> fst ` set ds" "prev' = q \<or> prev' \<in> fst ` set ds"
      "\<forall>sl'. length sl' = length sl \<longrightarrow> s_time (sl' ! nat p) = t' \<longrightarrow> s_next (sl' ! nat p) = tmp \<longrightarrow>
        (\<forall>q\<in>fst ` set ds.
           s_time (sl' ! nat q) = (if q = tmp then s_time (sl ! nat q) - t' else s_time (sl ! nat q)) \<and>
           s_next (sl' ! nat q) = (if q = prev' then p else s_next (sl ! nat q))) \<longrightarrow>
        slept_list sl' (if prev' = q then p else s_next (sl ! nat q)) (delta_insert p (t - d) ds)"
      using Cons.IH [OF q(5,7,9) Cons.prems(4,5) q(6), of "t - d"] by blast
    have "sleep_seek sl h prev t = Some (tmp, prev', t')"
      using q(1,2,4) get True IH(1) by (subst sleep_seek.simps) simp
    moreover have ne: "prev' \<noteq> prev" "q \<noteq> tmp" using IH q by auto
    moreover have "slept_list sl' h (delta_insert p t (e # ds))"
      if "length sl' = length sl" "s_time (sl' ! nat p) = t'" "s_next (sl' ! nat p) = tmp"
        "\<forall>q'\<in>fst ` set (e # ds).
         s_time (sl' ! nat q') = (if q' = tmp then s_time (sl ! nat q') - t' else s_time (sl ! nat q')) \<and>
         s_next (sl' ! nat q') = (if q' = prev' then p else s_next (sl ! nat q'))" for sl'
    proof -
      have "slept_list sl' (if prev' = q then p else s_next (sl ! nat q)) (delta_insert p (t - d) ds)"
        using IH(4) that by simp
      then show ?thesis using that(1,4) True e q ne by (auto split: if_splits)
    qed
    moreover have "tmp = FREE_PCB_PID \<or> tmp \<in> fst ` set (e # ds)" "prev' = prev \<or> prev' \<in> fst ` set (e # ds)"
      using IH(2,3) e by auto
    ultimately show ?thesis using ne by (intro exI [of _ tmp] exI [of _ prev'] exI [of _ t']) simp
  next
    case False
    have "sleep_seek sl h prev t = Some (q, prev, t)"
      using q(1,2,4) get False by (subst sleep_seek.simps) simp
    moreover have "slept_list sl' (s_next (sl ! nat q)) ds"
      if "length sl' = length sl" "\<forall>q'\<in>fst ` set (e # ds).
         s_time (sl' ! nat q') = (if q' = q then s_time (sl ! nat q') - t else s_time (sl ! nat q')) \<and>
         s_next (sl' ! nat q') = (if q' = prev then p else s_next (sl ! nat q'))" for sl'
    proof (rule slept_list_cong [OF q(5) that(1)])
      fix q' assume q': "q' \<in> fst ` set ds"
      then have "q' \<noteq> q" "q' \<noteq> prev" using q(6,11) by auto
      then show "s_time (sl' ! nat q') = s_time (sl ! nat q') \<and> s_next (sl' ! nat q') = s_next (sl ! nat q')"
        using that(2) q' by auto
    qed
    ultimately show ?thesis
      using q False e Cons.prems by (intro exI [of _ q] exI [of _ prev] exI [of _ t]) auto
  qed
qed

lemma loader_sleep_Some:
  assumes ok: "proc_ok s" and run: "running_pid s = Some p" and sl: "sleep_rel s ds"
    and new: "p \<notin> fst ` set ds" and t: "0 < t"
  obtains s' where "loader_sleep t s = Some s'" "proc_ok s'" "sleep_rel s' (delta_insert p t ds)"
    "ready_pids s' = remove1 p (ready_pids s)" "\<And>q. same_links (processes s) (processes s') q"
    "timer_count s' = timer_count s" "proc_state.more s' = proc_state.more s"
    "running_pid s' = (if ready_pids s' = [] then None else Some (cur_pid s'))"
proof -
  note D = proc_okD [OF ok]
  let ?sl = "sleeping s" and ?h = "first_slept s"
  have p: "p = cur_pid s" "0 \<le> p" "p < int MAX_PID"
    using D(4,7) run rq.running_ready [OF D(1) run] by (auto simp: cpu_ok_def)
  have S: "slept_list ?sl ?h ds" "distinct (map fst ds)" using sl by (simp_all add: sleep_rel_def delta_ok_def)
  have rng: "\<And>q. q \<in> fst ` set ds \<Longrightarrow> 0 \<le> q \<and> q < int MAX_PID \<and> nat q \<noteq> nat p"
  proof -
    fix q assume q: "q \<in> fst ` set ds"
    then have "q \<noteq> p" using new by auto
    then show "0 \<le> q \<and> q < int MAX_PID \<and> nat q \<noteq> nat p"
      using slept_list_range [OF S(1) q] D(3) p(2) by (auto simp: eq_nat_nat_iff)
  qed
  have ne: "FREE_PCB_PID \<notin> fst ` set ds" using rng by force
  have plen: "p < int (length ?sl)" using p D(3) by simp
  obtain tmp prev t' where I: "sleep_seek ?sl ?h FREE_PCB_PID t = Some (tmp, prev, t')"
    "tmp = FREE_PCB_PID \<or> tmp \<in> fst ` set ds" "prev = FREE_PCB_PID \<or> prev \<in> fst ` set ds"
    "tmp = FREE_PCB_PID \<and> ds \<noteq> [] \<longrightarrow> prev \<noteq> FREE_PCB_PID"
    "\<And>sl'. length sl' = length ?sl \<Longrightarrow> s_time (sl' ! nat p) = t' \<Longrightarrow> s_next (sl' ! nat p) = tmp \<Longrightarrow>
      (\<forall>q\<in>fst ` set ds.
         s_time (sl' ! nat q) = (if q = tmp then s_time (?sl ! nat q) - t' else s_time (?sl ! nat q)) \<and>
         s_next (sl' ! nat q) = (if q = prev then p else s_next (?sl ! nat q))) \<Longrightarrow>
      slept_list sl' (if prev = FREE_PCB_PID then p else ?h) (delta_insert p t ds)"
    using sleep_seek_insert [OF S new p(2) plen ne, of t]
    by (elim exE conjE) (rule that, assumption+, blast)
  define h' where "h' = (if prev = FREE_PCB_PID then p else ?h)"
  define sl1 where "sl1 = (if prev = FREE_PCB_PID then ?sl else ?sl[nat prev := (?sl ! nat prev)\<lparr>s_next := p\<rparr>])"
  define sl2 where "sl2 = sl1[nat p := (sl1 ! nat p)\<lparr>s_id := p, s_time := t', s_next := tmp\<rparr>]"
  define sl3 where "sl3 = (if tmp = FREE_PCB_PID then sl2 else sl2[nat tmp := (sl2 ! nat tmp)\<lparr>s_time := s_time (sl2 ! nat tmp) - t'\<rparr>])"
  note sls = sl1_def sl2_def sl3_def
  have len: "length sl3 = MAX_PID" by (simp add: sls D(3))
  have tp: "tmp \<noteq> FREE_PCB_PID \<Longrightarrow> nat p \<noteq> nat tmp" using I(2) rng [of tmp] by auto
  have "s_time (sl3 ! nat p) = t'" "s_next (sl3 ! nat p) = tmp"
    using p D(3) tp by (auto simp: sls nth_list_update)
  moreover have "\<forall>q\<in>fst ` set ds.
     s_time (sl3 ! nat q) = (if q = tmp then s_time (?sl ! nat q) - t' else s_time (?sl ! nat q)) \<and>
     s_next (sl3 ! nat q) = (if q = prev then p else s_next (?sl ! nat q))"
  proof
    fix q assume q: "q \<in> fst ` set ds"
    have nt: "nat q = nat tmp \<longleftrightarrow> q = tmp" if "tmp \<noteq> FREE_PCB_PID" using that rng [OF q] rng [of tmp] I(2) by (auto simp: eq_nat_nat_iff)
    have np: "nat q = nat prev \<longleftrightarrow> q = prev" if "prev \<noteq> FREE_PCB_PID" using that rng [OF q] rng [of prev] I(3) by (auto simp: eq_nat_nat_iff)
    have qp: "nat q \<noteq> nat p" "nat q < MAX_PID" and qne: "q \<noteq> FREE_PCB_PID" using rng [OF q] by auto
    have 1: "s_next (sl1 ! nat q) = (if q = prev then p else s_next (?sl ! nat q))"
      "s_time (sl1 ! nat q) = s_time (?sl ! nat q)"
      using np qp qne D(3) by (auto simp: sl1_def nth_list_update)
    have 2: "sl2 ! nat q = sl1 ! nat q" using qp by (simp add: sl2_def)
    have 3: "s_next (sl3 ! nat q) = s_next (sl2 ! nat q)"
      "s_time (sl3 ! nat q) = (if q = tmp then s_time (sl2 ! nat q) - t' else s_time (sl2 ! nat q))"
      using nt qp qne D(3) by (auto simp: sl3_def sl2_def sl1_def nth_list_update)
    show "s_time (sl3 ! nat q) = (if q = tmp then s_time (?sl ! nat q) - t' else s_time (?sl ! nat q)) \<and>
     s_next (sl3 ! nat q) = (if q = prev then p else s_next (?sl ! nat q))"
      using 1 2 3 by auto
  qed
  ultimately have L: "slept_list sl3 h' (delta_insert p t ds)"
    using I(5) [of sl3] len D(3) by (simp add: h'_def)
  let ?s = "s\<lparr>first_slept := h', sleeping := sl3\<rparr>"
  have ok': "proc_ok ?s" using ok len by (simp add: proc_ok_def cpu_ok_def)
  obtain n s1 s2 where B: "sched_block ?s = Some (n, s1)" "task_switch (s1\<lparr>tmp_pid := n\<rparr>) = Some s2"
    "proc_ok s2" "ready_pids s2 = remove1 p (ready_pids s)" "\<And>q. same_links (processes s) (processes s2) q"
    "sleeping s2 = sl3" "first_slept s2 = h'" "timer_count s2 = timer_count s"
    "proc_state.more s2 = proc_state.more s"
    "running_pid s2 = (if ready_pids s2 = [] then None else Some n)" "cur_pid s2 = n"
    using block_switch [OF ok', of p] run by simp metis
  show thesis
  proof (rule that [OF _ B(3) _ B(4) B(5) B(8) B(9)])
    show "sleep_rel s2 (delta_insert p t ds)"
      using L delta_insert_ok [of ds p t] sl new t B(6,7) by (simp add: sleep_rel_def)
    show "running_pid s2 = (if ready_pids s2 = [] then None else Some (cur_pid s2))" using B(10,11) by simp
    have t0: "\<not> t \<le> 0" using t by simp
    show "loader_sleep t s = Some s2"
    proof (cases "?h = FREE_PCB_PID")
      case True
      then have "ds = []" using S(1) ne by (cases ds) auto
      then have "tmp = FREE_PCB_PID" "prev = FREE_PCB_PID" "t' = t"
        using I True by (simp_all add: sleep_seek.simps)
      then show ?thesis using True B(1,2) p D(3) t0
        by (simp add: loader_sleep_def set_slept_def aupd_def sls h'_def)
    next
      case False
      have r: "tmp \<noteq> FREE_PCB_PID \<Longrightarrow> 0 \<le> tmp \<and> tmp < int MAX_PID" "prev \<noteq> FREE_PCB_PID \<Longrightarrow> 0 \<le> prev \<and> prev < int MAX_PID"
        using I(2,3) rng by auto
      moreover have "ds \<noteq> []" using False S(1) by auto
      ultimately show ?thesis using False B(1,2) p D(3) t0 I(1,4)
        by (cases "tmp = FREE_PCB_PID"; cases "prev = FREE_PCB_PID")
          (simp_all add: loader_sleep_def set_slept_def aupd_def sls h'_def)
    qed
  qed
qed

lemma wake_expired_Some:
  assumes "slept_list (sleeping s) (first_slept s) ds" and "delta_drop ds = (w, r)" and "distinct (map fst ds)"
    and "sched_ok s" and "length (processes s) = MAX_PID" and "length (sleeping s) = MAX_PID"
    and "set (ready_pids s) \<inter> fst ` set ds = {}"
  shows "\<exists>s'. wake_expired s = Some s' \<and> slept_list (sleeping s') (first_slept s') r \<and> sched_ok s' \<and>
    ready_pids s' = ready_pids s @ w \<and> running_pid s' = running_pid s \<and> processes s' = processes s \<and>
    length (sleeping s') = MAX_PID \<and> cur_pid s' = cur_pid s \<and> timer_count s' = timer_count s \<and>
    proc_state.more s' = proc_state.more s"
  using assms
proof (induction ds arbitrary: s w r)
  case Nil
  then show ?case by (subst wake_expired.simps) simp
next
  case (Cons e ds)
  obtain q d where e: "e = (q, d)" by (cases e)
  have q: "first_slept s = q" "0 \<le> q" "q < int MAX_PID" "s_time (sleeping s ! nat q) = d"
    "slept_list (sleeping s) (s_next (sleeping s ! nat q)) ds" "q \<notin> fst ` set ds" "q \<notin> set (ready_pids s)"
    using Cons.prems e by auto
  have get: "aget (sleeping s) q = Some (sleeping s ! nat q)" using q Cons.prems(6) by (simp add: aget_def)
  show ?case
  proof (cases "d = 0")
    case True
    obtain w' where w: "delta_drop ds = (w', r)" "w = q # w'"
      using Cons.prems(2) True e by (auto split: prod.splits)
    obtain s1 where s1: "sched_unblock q s = Some s1" "sched_ok s1" "ready_pids s1 = ready_pids s @ [q]"
      "running_pid s1 = running_pid s" "sched_state.more s1 = sched_state.more s"
      using sched_unblock_Some [OF Cons.prems(4) q(2,3,7)] by metis
    note F = more_eq_fields [OF s1(5)]
    define sl where "sl = (sleeping s)[nat q := (sleeping s ! nat q)\<lparr>s_id := FREE_PCB_PID\<rparr>]"
    define n where "n = s_next (sleeping s ! nat q)"
    let ?s = "s1\<lparr>sleeping := sl, first_slept := n\<rparr>"
    have step: "wake_expired s = wake_expired ?s"
      using q(1,2,3,4) get True s1(1) Cons.prems(6) F
      by (subst wake_expired.simps) (simp add: aupd_def aget_def sl_def n_def)
    have "slept_list sl n ds" unfolding sl_def n_def by (rule slept_list_upd) (use q in auto)
    then have "\<exists>s'. wake_expired ?s = Some s' \<and> slept_list (sleeping s') (first_slept s') r \<and> sched_ok s' \<and>
      ready_pids s' = ready_pids ?s @ w' \<and> running_pid s' = running_pid ?s \<and> processes s' = processes ?s \<and>
      length (sleeping s') = MAX_PID \<and> cur_pid s' = cur_pid ?s \<and> timer_count s' = timer_count ?s \<and>
      proc_state.more s' = proc_state.more ?s"
      by (intro Cons.IH [OF _ w(1)]) (use Cons.prems(3,5,6,7) e s1 F q in \<open>auto simp: sl_def\<close>)
    then show ?thesis using step w s1 F by auto
  next
    case False
    then have "wake_expired s = Some s"
      using q(1,2,4) get by (subst wake_expired.simps) simp
    moreover have "w = []" "r = (q, d) # ds" using False Cons.prems(2) e by simp_all
    ultimately show ?thesis using Cons.prems q by simp
  qed
qed

lemma loader_tick_Some:
  assumes ok: "proc_ok s" and sl: "sleep_rel s ds" and disj: "set (ready_pids s) \<inter> fst ` set ds = {}"
    and idle: "IDLE_PID \<notin> fst ` set ds" and t: "delta_tick ds = (w, r)"
  obtains s' where "loader_tick s = Some s'" "proc_ok s'" "sleep_rel s' r" "ready_pids s' = ready_pids s @ w"
    "running_pid s' = running_pid s" "processes s' = processes s" "timer_count s' = timer_count s"
    "proc_state.more s' = proc_state.more s"
proof -
  note D = proc_okD [OF ok]
  note W = delta_tick_waits(2,3) [OF _ t]
  have S: "slept_list (sleeping s) (first_slept s) ds" "delta_ok ds" using sl by (simp_all add: sleep_rel_def)
  show thesis
  proof (cases ds)
    case Nil
    have "loader_tick s = Some s" using Nil S by (simp add: loader_tick_def)
    then show thesis by (rule that) (use Nil t ok sl in simp_all)
  next
    case (Cons e es)
    obtain q d where e: "e = (q, d)" by (cases e)
    have q: "first_slept s = q" "0 \<le> q" "q < int MAX_PID" "s_time (sleeping s ! nat q) = d"
      "slept_list (sleeping s) (s_next (sleeping s ! nat q)) es" "q \<notin> fst ` set es"
      using S D(3) Cons e by (auto simp: delta_ok_def)
    define sl1 where "sl1 = (sleeping s)[nat q := (sleeping s ! nat q)\<lparr>s_time := d - 1\<rparr>]"
    let ?s = "s\<lparr>sleeping := sl1\<rparr>"
    have "slept_list sl1 q ((q, d - 1) # es)"
      using slept_list_upd [OF q(5,2,6)] q(2,3) D(3) by (simp add: sl1_def)
    then have "\<exists>s'. wake_expired ?s = Some s' \<and> slept_list (sleeping s') (first_slept s') r \<and> sched_ok s' \<and>
      ready_pids s' = ready_pids ?s @ w \<and> running_pid s' = running_pid ?s \<and> processes s' = processes ?s \<and>
      length (sleeping s') = MAX_PID \<and> cur_pid s' = cur_pid ?s \<and> timer_count s' = timer_count ?s \<and>
      proc_state.more s' = proc_state.more ?s"
      by (intro wake_expired_Some [where ds = "(q, d - 1) # es"])
        (use D t Cons e q disj S(2) in \<open>simp_all add: sl1_def delta_ok_def\<close>)
    then obtain s' where s': "wake_expired ?s = Some s'" "slept_list (sleeping s') (first_slept s') r" "sched_ok s'"
      "ready_pids s' = ready_pids s @ w" "running_pid s' = running_pid s" "processes s' = processes s"
      "length (sleeping s') = MAX_PID" "cur_pid s' = cur_pid s" "timer_count s' = timer_count s"
      "proc_state.more s' = proc_state.more s" by auto
    have tick: "loader_tick s = Some s'"
      using q D(3) s'(1) by (simp add: loader_tick_def aupd_def sl1_def)
    have "set w \<subseteq> fst ` set ds" using W(2) [OF S(2)] by (metis Un_upper1 list.set_map set_append)
    then have "proc_ok s'" using D s' idle by (auto simp: proc_ok_def cpu_ok_def)
    moreover have "sleep_rel s' r" using s'(2) W(1) [OF S(2)] by (simp add: sleep_rel_def)
    ultimately show thesis using that [OF tick] s' by simp
  qed
qed

text \<open>
  The timer interrupt: the expired sleepers become ready, then the scheduler chooses who
  goes on, and that process is on the processor afterwards.
\<close>

lemma timer_handler_Some:
  assumes ok: "proc_ok s" and sl: "sleep_rel s ds" and disj: "set (ready_pids s) \<inter> fst ` set ds = {}"
    and idle: "IDLE_PID \<notin> fst ` set ds" and t: "delta_tick ds = (w, r)"
  obtains s' where "timer_handler s = Some s'" "proc_ok s'" "sleep_rel s' r" "ready_pids s' = ready_pids s @ w"
    "\<And>q. same_links (processes s) (processes s') q" "timer_count s' = timer_count s + 1"
    "proc_state.more s' = proc_state.more s"
    "running_pid s' = (if ready_pids s' = [] then None else Some (cur_pid s'))"
proof -
  let ?s = "s\<lparr>timer_count := timer_count s + 1\<rparr>"
  have "proc_ok ?s" "sleep_rel ?s ds" "set (ready_pids ?s) \<inter> fst ` set ds = {}"
    using ok sl disj by (simp_all add: proc_ok_def cpu_ok_def sleep_rel_def)
  then obtain s1 where s1: "loader_tick ?s = Some s1" "proc_ok s1" "sleep_rel s1 r" "ready_pids s1 = ready_pids s @ w"
    "running_pid s1 = running_pid s" "processes s1 = processes s" "timer_count s1 = timer_count s + 1"
    "proc_state.more s1 = proc_state.more s"
    using loader_tick_Some [of ?s ds w r] idle t by simp metis
  note D = proc_okD [OF s1(2)]
  obtain p s2 where s2: "sched_tick s1 = Some (p, s2)" "sched_ok s2" "ready_pids s2 = ready_pids s1"
    "running_pid s2 = (if ready_pids s1 = [] then None else Some p)" "ready_pids s1 = [] \<longrightarrow> p = 0"
    using rq.tick [OF D(1)] by blast
  note F = more_eq_fields [OF sched_tick_more [OF s2(1)]]
  have p: "0 \<le> p" "p < int MAX_PID"
  proof -
    have "p = 0 \<or> p \<in> set (ready_pids s1)"
      using s2(3-5) rq.running_ready [OF s2(2), of p] by (cases "ready_pids s1 = []") auto
    then show "0 \<le> p" "p < int MAX_PID" using D(7) by auto
  qed
  have c: "0 \<le> cur_pid s1" "cur_pid s1 < int MAX_PID"
  proof -
    have "cur_pid s1 = 0 \<or> cur_pid s1 \<in> set (ready_pids s1)"
      using D(4) rq.running_ready [OF D(1)] by (auto simp: cpu_ok_def split: option.splits)
    then show "0 \<le> cur_pid s1" "cur_pid s1 < int MAX_PID" using D(7) by auto
  qed
  show thesis
  proof (cases "p = cur_pid s2")
    case True
    have h: "timer_handler s = Some s2" using s1(1) s2(1) True F by (simp add: timer_handler_def)
    show thesis
      by (rule that [OF h]) (use s1 s2 D F True in \<open>auto simp: proc_ok_def cpu_ok_def sleep_rel_def\<close>)
  next
    case False
    obtain s3 where s3: "task_switch (s2\<lparr>tmp_pid := p\<rparr>) = Some s3" "cur_pid s3 = p"
      "length (processes s3) = MAX_PID" "\<And>q. same_links (processes s2) (processes s3) q"
      "sched_ok s3" "ready_pids s3 = ready_pids s2" "running_pid s3 = running_pid s2"
      "sleeping s3 = sleeping s2" "first_slept s3 = first_slept s2"
      "proc_state.more s3 = proc_state.more s2" "timer_count s3 = timer_count s2"
      using task_switch_Some [of "s2\<lparr>tmp_pid := p\<rparr>"] c p D(2) s2(2) F by auto
    have h: "timer_handler s = Some s3" using s1(1) s2(1) s3(1) False by (simp add: timer_handler_def)
    show thesis
      by (rule that [OF h]) (use s1 s2 s3 D F in \<open>auto simp: proc_ok_def cpu_ok_def sleep_rel_def\<close>)
  qed
qed

subsection \<open>Where every process is\<close>

text \<open>
  The processes of the system: each is ready, asleep, or in one of the wait queues (whose
  heads \<open>hs\<close> the drivers own), and in one place only; who is not in a wait queue is not
  linked to anybody.
\<close>

definition placed :: "'a proc_state_scheme \<Rightarrow> int list \<Rightarrow> int list list \<Rightarrow> (int \<times> u32) list \<Rightarrow> bool" where
  "placed s hs qss ds \<longleftrightarrow>
     proc_ok s \<and> sleep_rel s ds \<and> list_all2 (wait_queue (processes s)) hs qss \<and>
     distinct (ready_pids s @ map fst ds @ concat qss) \<and>
     IDLE_PID \<notin> set (map fst ds @ concat qss) \<and>
     (\<forall>p\<in>set (ready_pids s @ map fst ds). unlinked (processes s) p)"

lemma placedD:
  assumes "placed s hs qss ds"
  shows "proc_ok s" "sleep_rel s ds" "length hs = length qss"
    "\<And>k. k < length hs \<Longrightarrow> wait_queue (processes s) (hs ! k) (qss ! k)"
    "distinct (ready_pids s @ map fst ds @ concat qss)"
    "IDLE_PID \<notin> set (map fst ds)" "\<And>qs. qs \<in> set qss \<Longrightarrow> IDLE_PID \<notin> set qs"
    "\<And>p. p \<in> set (ready_pids s) \<Longrightarrow> unlinked (processes s) p"
    "\<And>p. p \<in> set (map fst ds) \<Longrightarrow> unlinked (processes s) p"
  using assms by (auto simp: placed_def list_all2_conv_all_nth)

lemma split_at:
  assumes "k < length xs"
  obtains us vs where "xs = us @ xs ! k # vs" "length us = k" "\<And>y. xs[k := y] = us @ y # vs"
  using assms id_take_nth_drop [of k xs] by (metis length_take min.absorb4 upd_conv_take_nth_drop)

text \<open>The members of the other queues are somewhere else.\<close>

lemma list_all2_others:
  assumes "list_all2 (wait_queue ps) hs qss" and k: "k < length hs" and len: "length ps' = length ps"
    and new: "wait_queue ps' h' qs'"
    and same: "\<And>q j. j < length qss \<Longrightarrow> j \<noteq> k \<Longrightarrow> q \<in> set (qss ! j) \<Longrightarrow> same_links ps ps' q"
  shows "list_all2 (wait_queue ps') (hs[k := h']) (qss[k := qs'])"
proof -
  have l: "length hs = length qss" and w: "\<And>j. j < length hs \<Longrightarrow> wait_queue ps (hs ! j) (qss ! j)"
    using assms(1) by (auto simp: list_all2_conv_all_nth)
  have "wait_queue ps' (hs[k := h'] ! j) (qss[k := qs'] ! j)" if "j < length hs" for j
  proof (cases "j = k")
    case True
    then show ?thesis using new that l by simp
  next
    case False
    then show ?thesis using wait_queue_cong [OF w [OF that] len] same [of j] that l by simp
  qed
  then show ?thesis using l by (simp add: list_all2_conv_all_nth)
qed

lemma nth_not_middle:
  assumes "j < length (us @ x # vs)" "j \<noteq> length us"
  shows "(us @ x # vs) ! j \<in> set us \<union> set vs"
proof (cases "j < length us")
  case False
  then obtain i where "j = length us + Suc i" using assms(2) by (metis add_Suc_right less_iff_Suc_add linorder_neqE_nat)
  then show ?thesis using assms(1) by (simp add: nth_append)
qed (simp add: nth_append)

lemma other_queue:
  assumes d: "distinct (concat qss)" and j: "j < length qss" and k: "k < length qss" and ne: "j \<noteq> k"
    and q: "q \<in> set (qss ! j)"
  shows "q \<notin> set (qss ! k)"
proof -
  obtain us vs where s: "qss = us @ qss ! k # vs" "length us = k" using split_at [OF k] by metis
  have "qss ! j \<in> set us \<union> set vs" using nth_not_middle [of j us "qss ! k" vs] j ne s by metis
  then have "q \<in> set (concat us) \<union> set (concat vs)" using q by auto
  moreover have "distinct (concat us @ qss ! k @ concat vs)" using d s(1) by (metis concat.simps(2) concat_append)
  ultimately show ?thesis by auto
qed

lemma placed_enqueue:
  assumes P: "placed s hs qss ds" and k: "k < length hs" and run: "running_pid s = Some p"
  shows "\<exists>h' s'. loader_enqueue (hs ! k) s = Some (h', s') \<and>
    placed s' (hs[k := h']) (qss[k := qss ! k @ [p]]) ds \<and> ready_pids s' = remove1 p (ready_pids s) \<and>
    running_pid s' = (if ready_pids s' = [] then None else Some (cur_pid s')) \<and> timer_count s' = timer_count s \<and>
    proc_state.more s' = proc_state.more s"
proof -
  note D = placedD [OF P] and ok = proc_okD [OF placedD(1) [OF P]]
  have p: "p \<in> set (ready_pids s)" using rq.running_ready [OF ok(1) run] .
  then have pn: "p \<notin> set (map fst ds)" "p \<notin> set (concat qss)" using D(5) by auto
  have kq: "k < length qss" using k D(3) by simp
  obtain us vs where sp: "qss = us @ qss ! k # vs" "\<And>y. qss[k := y] = us @ y # vs" using split_at [OF kq] by metis
  have new: "p \<notin> set (qss ! k)" using pn(2) kq by auto
  obtain h' s' where E: "loader_enqueue (hs ! k) s = Some (h', s')" "proc_ok s'"
    "wait_queue (processes s') h' (qss ! k @ [p])" "ready_pids s' = remove1 p (ready_pids s)"
    "\<And>r. 0 \<le> r \<Longrightarrow> r \<notin> set (p # qss ! k) \<Longrightarrow> same_links (processes s) (processes s') r"
    "sleeping s' = sleeping s" "first_slept s' = first_slept s" "timer_count s' = timer_count s"
    "proc_state.more s' = proc_state.more s"
    "running_pid s' = (if ready_pids s' = [] then None else Some (cur_pid s'))"
    using loader_enqueue_Some [OF D(1) run D(4) [OF k] new D(8) [OF p]] by metis
  have len: "length (processes s') = length (processes s)" using ok proc_okD [OF E(2)] by simp
  have rng: "\<And>j q. j < length qss \<Longrightarrow> q \<in> set (qss ! j) \<Longrightarrow> 0 \<le> q"
    using wait_queue_range D(3,4) by metis
  have dist: "distinct (concat qss)" using D(5) by simp
  have "list_all2 (wait_queue (processes s')) (hs[k := h']) (qss[k := qss ! k @ [p]])"
  proof (rule list_all2_others [OF _ k len E(3)])
    show "list_all2 (wait_queue (processes s)) hs qss" using P by (simp add: placed_def)
    fix q j assume j: "j < length qss" "j \<noteq> k" "q \<in> set (qss ! j)"
    have "q \<notin> set (qss ! k)" using other_queue [OF dist j(1) kq j(2,3)] .
    moreover have "q \<noteq> p" using j pn(2) by auto
    ultimately show "same_links (processes s) (processes s') q" using E(5) rng [OF j(1,3)] by simp
  qed
  moreover have "sleep_rel s' ds" using D(2) E(6,7) by (simp add: sleep_rel_def)
  moreover have "distinct (ready_pids s' @ map fst ds @ concat (qss[k := qss ! k @ [p]]))"
  proof -
    have "distinct (ready_pids s @ map fst ds @ concat us @ qss ! k @ concat vs)"
      using D(5) sp(1) by (metis concat.simps(2) concat_append)
    then show ?thesis using p by (auto simp: E(4) sp(2) dest: notin_set_remove1)
  qed
  moreover have "\<forall>r\<in>set (ready_pids s' @ map fst ds). unlinked (processes s') r"
  proof
    fix r assume "r \<in> set (ready_pids s' @ map fst ds)"
    then have r: "r \<in> set (ready_pids s @ map fst ds)" "r \<noteq> p"
      using ok(6) pn(1) by (auto simp: E(4) dest: notin_set_remove1)
    then have "r \<notin> set (concat qss)" using D(5) by auto
    then have "r \<notin> set (p # qss ! k)" using r(2) kq by auto
    moreover have "0 \<le> r"
      using r ok(7) [of r] D(2) slept_list_range [of "sleeping s" "first_slept s" ds r] by (auto simp: sleep_rel_def)
    ultimately show "unlinked (processes s') r" using E(5) [of r] D(8,9) r by (auto simp: unlinked_same)
  qed
  moreover have "IDLE_PID \<notin> set (map fst ds @ concat (qss[k := qss ! k @ [p]]))"
  proof -
    have "IDLE_PID \<noteq> p" using ok(5) p by auto
    moreover have "IDLE_PID \<notin> set (concat us @ qss ! k @ concat vs)"
      using P sp(1) by (metis (no_types, lifting) concat.simps(2) concat_append placed_def set_append Un_iff)
    ultimately show ?thesis using D(6) by (auto simp: sp(2))
  qed
  ultimately show ?thesis using E by (auto simp: placed_def)
qed

lemma placed_range:
  assumes P: "placed s hs qss ds" and p: "p \<in> set (ready_pids s @ map fst ds @ concat qss)"
  shows "0 \<le> p" "p < int MAX_PID"
proof -
  note D = placedD [OF P] and ok = proc_okD [OF placedD(1) [OF P]]
  have "0 \<le> p \<and> p < int MAX_PID" if "p \<in> set (concat qss)"
    using that wait_queue_range [OF D(4)] D(3) ok(2) by (fastforce simp: in_set_conv_nth)
  moreover have "0 \<le> p \<and> p < int MAX_PID" if "p \<in> fst ` set ds"
    using that D(2) slept_list_range [of "sleeping s" "first_slept s" ds p] ok(3) by (auto simp: sleep_rel_def)
  ultimately show "0 \<le> p" "p < int MAX_PID" using p ok(7) [of p] by auto
qed

lemma placed_unqueue:
  assumes P: "placed s hs qss ds" and k: "k < length hs" and q: "qss ! k = q # qs"
  shows "\<exists>h' s'. loader_unqueue (hs ! k) s = Some (h', s') \<and>
    placed s' (hs[k := h']) (qss[k := qs]) ds \<and> ready_pids s' = ready_pids s @ [q] \<and>
    running_pid s' = running_pid s \<and> cur_pid s' = cur_pid s \<and> proc_state.more s' = proc_state.more s"
proof -
  note D = placedD [OF P] and ok = proc_okD [OF placedD(1) [OF P]]
  have kq: "k < length qss" using k D(3) by simp
  obtain us vs where sp: "qss = us @ (q # qs) # vs" "\<And>y. qss[k := y] = us @ y # vs"
    using split_at [OF kq] q by metis
  have qc: "q \<in> set (concat qss)" using sp(1) by auto
  then have qn: "q \<notin> set (ready_pids s)" "q \<notin> fst ` set ds" using D(5) by auto
  obtain h' s' where E: "loader_unqueue (hs ! k) s = Some (h', s')" "sched_ok s'"
    "wait_queue (processes s') h' qs" "unlinked (processes s') q"
    "ready_pids s' = ready_pids s @ [q]" "running_pid s' = running_pid s" "cur_pid s' = cur_pid s"
    "length (processes s') = MAX_PID"
    "\<And>p. 0 \<le> p \<Longrightarrow> p \<notin> set (q # qs) \<Longrightarrow> same_links (processes s) (processes s') p"
    "sleeping s' = sleeping s" "first_slept s' = first_slept s" "proc_state.more s' = proc_state.more s"
    using loader_unqueue_Cons [OF ok(1,2) D(4) [OF k, unfolded q] qn(1)] by metis
  have rng: "\<And>j r. j < length qss \<Longrightarrow> r \<in> set (qss ! j) \<Longrightarrow> 0 \<le> r"
    using wait_queue_range D(3,4) by metis
  have dist: "distinct (concat qss)" and q0: "q \<noteq> 0" using D(5) P qc by (auto simp: placed_def)
  have "list_all2 (wait_queue (processes s')) (hs[k := h']) (qss[k := qs])"
  proof (rule list_all2_others [OF _ k _ E(3)])
    show "list_all2 (wait_queue (processes s)) hs qss" using P by (simp add: placed_def)
    show "length (processes s') = length (processes s)" using E(8) ok by simp
    fix r j assume j: "j < length qss" "j \<noteq> k" "r \<in> set (qss ! j)"
    have "r \<notin> set (qss ! k)" using other_queue [OF dist j(1) kq j(2,3)] .
    then show "same_links (processes s) (processes s') r" using E(9) rng [OF j(1,3)] q by simp
  qed
  moreover have "proc_ok s'" using ok E q0 by (simp add: proc_ok_def cpu_ok_def)
  moreover have "sleep_rel s' ds" using D(2) E(10,11) by (simp add: sleep_rel_def)
  moreover have "distinct (ready_pids s' @ map fst ds @ concat (qss[k := qs]))"
    using D(5) [unfolded sp(1)] unfolding E(5) sp(2) by auto
  moreover have "\<forall>r\<in>set (ready_pids s' @ map fst ds). unlinked (processes s') r"
  proof
    fix r assume "r \<in> set (ready_pids s' @ map fst ds)"
    then consider "r = q" | "r \<in> set (ready_pids s @ map fst ds)" by (auto simp: E(5))
    then show "unlinked (processes s') r"
    proof cases
      case 2
      then have "r \<notin> set (concat qss)" using D(5) by auto
      then have "r \<notin> set (q # qs)" using sp(1) by auto
      moreover have "0 \<le> r" using placed_range [OF P, of r] 2 by auto
      ultimately show ?thesis using E(9) [of r] D(8,9) 2 by (auto simp: unlinked_same)
    qed (simp add: E(4))
  qed
  moreover have "IDLE_PID \<notin> set (map fst ds @ concat (qss[k := qs]))"
    using P [unfolded placed_def sp(1)] unfolding sp(2) by auto
  ultimately show ?thesis using E by (auto simp: placed_def)
qed

lemma placed_sleep:
  assumes P: "placed s hs qss ds" and run: "running_pid s = Some p" and t: "0 < t"
  shows "\<exists>s'. loader_sleep t s = Some s' \<and> placed s' hs qss (delta_insert p t ds) \<and>
    ready_pids s' = remove1 p (ready_pids s) \<and> timer_count s' = timer_count s \<and>
    running_pid s' = (if ready_pids s' = [] then None else Some (cur_pid s')) \<and>
    proc_state.more s' = proc_state.more s"
proof -
  note D = placedD [OF P] and ok = proc_okD [OF placedD(1) [OF P]]
  have p: "p \<in> set (ready_pids s)" using rq.running_ready [OF ok(1) run] .
  then have pn: "p \<notin> fst ` set ds" "p \<notin> set (concat qss)" using D(5) by auto
  obtain s' where E: "loader_sleep t s = Some s'" "proc_ok s'" "sleep_rel s' (delta_insert p t ds)"
    "ready_pids s' = remove1 p (ready_pids s)" "\<And>q. same_links (processes s) (processes s') q"
    "timer_count s' = timer_count s" "proc_state.more s' = proc_state.more s"
    "running_pid s' = (if ready_pids s' = [] then None else Some (cur_pid s'))"
    using loader_sleep_Some [OF D(1) run D(2) pn(1) t] by metis
  have len: "length (processes s') = length (processes s)" using ok proc_okD [OF E(2)] by simp
  have pids: "set (map fst (delta_insert p t ds)) = insert p (fst ` set ds)"
    using delta_insert_pids [of p t ds] by simp
  have "distinct (map fst (delta_insert p t ds))" using E(3) by (simp add: sleep_rel_def delta_ok_def)
  then have "distinct (ready_pids s' @ map fst (delta_insert p t ds) @ concat qss)"
    using D(5) pids pn(2) ok(6) by (auto simp: E(4) dest: notin_set_remove1)
  moreover have "list_all2 (wait_queue (processes s')) hs qss"
    using P E(5) len by (auto simp: placed_def intro: list.rel_mono_strong [of "wait_queue (processes s)"] wait_queue_cong)
  moreover have "\<forall>r\<in>set (ready_pids s' @ map fst (delta_insert p t ds)). unlinked (processes s') r"
    using D(8,9) pids p E(5) by (auto simp: E(4) unlinked_same [OF E(5)] dest: notin_set_remove1)
  moreover have "IDLE_PID \<notin> set (map fst (delta_insert p t ds) @ concat qss)"
    using P pids ok(5) p by (auto simp: placed_def)
  ultimately show ?thesis using E by (auto simp: placed_def)
qed

lemma placed_timer:
  assumes P: "placed s hs qss ds" and t: "delta_tick ds = (w, r)"
  shows "\<exists>s'. timer_handler s = Some s' \<and> placed s' hs qss r \<and> ready_pids s' = ready_pids s @ w \<and>
    timer_count s' = timer_count s + 1 \<and>
    running_pid s' = (if ready_pids s' = [] then None else Some (cur_pid s')) \<and>
    proc_state.more s' = proc_state.more s"
proof -
  note D = placedD [OF P] and ok = proc_okD [OF placedD(1) [OF P]]
  have w: "map fst ds = w @ map fst r" using D(2) delta_tick_waits(3) [OF _ t] by (simp add: sleep_rel_def)
  have disj: "set (ready_pids s) \<inter> fst ` set ds = {}" "IDLE_PID \<notin> fst ` set ds" using D(5,6) by auto
  obtain s' where E: "timer_handler s = Some s'" "proc_ok s'" "sleep_rel s' r" "ready_pids s' = ready_pids s @ w"
    "\<And>q. same_links (processes s) (processes s') q" "timer_count s' = timer_count s + 1"
    "proc_state.more s' = proc_state.more s"
    "running_pid s' = (if ready_pids s' = [] then None else Some (cur_pid s'))"
    using timer_handler_Some [OF D(1,2) disj t] by metis
  have len: "length (processes s') = length (processes s)" using ok proc_okD [OF E(2)] by simp
  have "distinct (ready_pids s' @ map fst r @ concat qss)" using D(5) by (simp add: E(4) w)
  moreover have "list_all2 (wait_queue (processes s')) hs qss"
    using P E(5) len by (auto simp: placed_def intro: list.rel_mono_strong [of "wait_queue (processes s)"] wait_queue_cong)
  moreover have "\<forall>r\<in>set (ready_pids s' @ map fst r). unlinked (processes s') r"
    using D(8,9) unfolding E(4) w by (auto simp: unlinked_same [OF E(5)])
  moreover have "IDLE_PID \<notin> set (map fst r @ concat qss)"
    using P by (auto simp: placed_def w)
  ultimately show ?thesis using E by (auto simp: placed_def)
qed

text \<open>The places of the processes look at the fields of the process state only.\<close>

lemma placed_cong:
  assumes "sched_state.truncate s' = sched_state.truncate s" "processes s' = processes s" "sleeping s' = sleeping s"
    "first_slept s' = first_slept s" "cur_pid s' = cur_pid s"
  shows "placed s' hs qss ds = placed s hs qss ds" "ready_pids s' = ready_pids s" "running_pid s' = running_pid s"
proof -
  have f: "tasks s' = tasks s" "sc_actual s' = sc_actual s" "sc_first s' = sc_first s" "sc_last s' = sc_last s"
    "running_tasks s' = running_tasks s"
    using assms(1) by (simp_all add: sched_state.defs)
  show r: "ready_pids s' = ready_pids s" "running_pid s' = running_pid s"
    using f by (simp_all add: ready_pids_def ready_slots_def running_pid_def)
  have "sched_ok s' = sched_ok s" using f by (simp add: sched_ok_def ready_slots_def sched_rel_def)
  then show "placed s' hs qss ds = placed s hs qss ds"
    using assms r by (simp add: placed_def proc_ok_def cpu_ok_def sleep_rel_def)
qed

end
