(* ===== verification/Sem.thy ===== *)
theory Sem
  imports Process
begin

section \<open>Semaphores and the kernel as a system of events\<close>

text \<open>
  \<^verbatim>\<open>kernel/sem.c\<close>, and the kernel's blocking machinery seen as a whole: a system
  whose events are timer interrupts and the blocking operations that drivers and system
  calls perform on wait queues, semaphores and the sleep list. Interrupts are off inside the
  kernel, so an event is one step. The invariant \<open>placed\<close> of Process.thy is kept by
  every event, none of them stops the kernel, and what semaphores and sleep promise holds
  for every sequence of events.
\<close>

subsection \<open>The code\<close>

record sem_t =
  sm_vl :: u32
  sm_q :: int

text \<open>\<^verbatim>\<open>SEM_NEW\<close>\<close>

definition SEM_NEW :: "u32 \<Rightarrow> sem_t" where
  "SEM_NEW v = \<lparr>sm_vl = v, sm_q = -1\<rparr>"

definition sem_wait :: "sem_t \<Rightarrow> 'a proc_state_scheme \<Rightarrow> (sem_t \<times> 'a proc_state_scheme) option" where
  "sem_wait m s =
     (if sm_vl m = 0 then do {
        (q, s) \<leftarrow> loader_enqueue (sm_q m) s;
        Some (m\<lparr>sm_q := q\<rparr>, s)
      } else Some (m\<lparr>sm_vl := sm_vl m - 1\<rparr>, s))"

definition sem_signal :: "sem_t \<Rightarrow> 'a proc_state_scheme \<Rightarrow> (sem_t \<times> 'a proc_state_scheme) option" where
  "sem_signal m s =
     (if sm_q m = -1 then Some (m\<lparr>sm_vl := sm_vl m + 1\<rparr>, s)
      else do {
        (q, s) \<leftarrow> loader_unqueue (sm_q m) s;
        Some (m\<lparr>sm_q := q\<rparr>, s)
      })"

partial_function (option) broadcast_loop ::
  "int \<Rightarrow> 'a proc_state_scheme \<Rightarrow> (int \<times> 'a proc_state_scheme) option" where
  "broadcast_loop q s =
     (if q \<noteq> -1 then Option.bind (loader_unqueue q s) (\<lambda>(q, s). broadcast_loop q s)
      else Some (q, s))"

definition sem_broadcast :: "sem_t \<Rightarrow> 'a proc_state_scheme \<Rightarrow> (sem_t \<times> 'a proc_state_scheme) option" where
  "sem_broadcast m s = do {
     (q, s) \<leftarrow> broadcast_loop (sm_q m) s;
     let m = m\<lparr>sm_q := q\<rparr>;
     Some (m\<lparr>sm_vl := 0\<rparr>, s)
   }"

subsection \<open>The contract of blocking\<close>

text \<open>
  What a driver relies on when it blocks the running process on one of several wait queues
  and wakes the first of a queue later.
\<close>

locale blocking =
  fixes block :: "nat \<Rightarrow> 's \<Rightarrow> 's option"
    and wake :: "nat \<Rightarrow> 's \<Rightarrow> 's option"
    and queues :: "'s \<Rightarrow> int list list"
    and ready :: "'s \<Rightarrow> int list"
    and running :: "'s \<Rightarrow> int option"
    and ok :: "'s \<Rightarrow> bool"
  assumes block: "ok s \<Longrightarrow> k < length (queues s) \<Longrightarrow> running s = Some p \<Longrightarrow>
      \<exists>s'. block k s = Some s' \<and> ok s' \<and> queues s' = (queues s)[k := queues s ! k @ [p]] \<and>
        ready s' = remove1 p (ready s)"
    and wake: "ok s \<Longrightarrow> k < length (queues s) \<Longrightarrow> queues s ! k = q # qs \<Longrightarrow>
      \<exists>s'. wake k s = Some s' \<and> ok s' \<and> queues s' = (queues s)[k := qs] \<and>
        ready s' = ready s @ [q] \<and> running s' = running s"
    and wake_none: "ok s \<Longrightarrow> k < length (queues s) \<Longrightarrow> queues s ! k = [] \<Longrightarrow> wake k s = Some s"
begin

text \<open>Waking \<open>n\<close> times wakes the first \<open>n\<close> waiters in the order in which they came.\<close>

fun wake_times :: "nat \<Rightarrow> nat \<Rightarrow> 's \<Rightarrow> 's option" where
  "wake_times 0 k s = Some s"
| "wake_times (Suc n) k s = Option.bind (wake k s) (wake_times n k)"

lemma wake_fifo:
  "ok s \<Longrightarrow> k < length (queues s) \<Longrightarrow>
   \<exists>s'. wake_times n k s = Some s' \<and> ok s' \<and> queues s' = (queues s)[k := drop n (queues s ! k)] \<and>
     ready s' = ready s @ take n (queues s ! k) \<and> running s' = running s"
proof (induction n arbitrary: s)
  case (Suc n)
  show ?case
  proof (cases "queues s ! k")
    case Nil
    then have w: "wake k s = Some s" using wake_none Suc.prems by simp
    have "(queues s)[k := []] = queues s" using Nil by (metis list_update_id)
    then show ?thesis using Suc.IH [OF Suc.prems] Nil w by simp
  next
    case (Cons q qs)
    obtain s1 where "wake k s = Some s1" "ok s1" "queues s1 = (queues s)[k := qs]"
      "ready s1 = ready s @ [q]" "running s1 = running s"
      using wake [OF Suc.prems Cons] by metis
    then show ?thesis using Suc.IH [of s1] Suc.prems Cons by auto
  qed
qed simp

end

subsection \<open>The model keeps the contract\<close>

fun walk_queue :: "nat \<Rightarrow> pcb list \<Rightarrow> int \<Rightarrow> int list" where
  "walk_queue 0 ps h = []"
| "walk_queue (Suc n) ps h =
     (if 0 \<le> h \<and> h < int (length ps) then h # walk_queue n ps (p_next (ps ! nat h)) else [])"

definition queue_list :: "pcb list \<Rightarrow> int \<Rightarrow> int list" where
  "queue_list ps h = walk_queue MAX_PID ps h"

lemma walk_linked:
  "linked ps prev qs \<Longrightarrow> length qs \<le> n \<Longrightarrow> walk_queue n ps (case qs of [] \<Rightarrow> -1 | q # _ \<Rightarrow> q) = qs"
proof (induction qs arbitrary: n prev)
  case Nil
  then show ?case by (cases n) auto
next
  case (Cons q qs)
  then show ?case by (cases n) auto
qed

lemma queue_list_eq:
  assumes q: "wait_queue ps h qs" and len: "length ps = MAX_PID"
  shows "queue_list ps h = qs"
proof -
  have "set qs \<subseteq> {0..<int MAX_PID}" using wait_queue_range [OF q] len by auto
  then have "card (set qs) \<le> card {0..<int MAX_PID}" by (intro card_mono) auto
  then have "length qs \<le> MAX_PID" using q by (simp add: wait_queue_def distinct_card)
  then show ?thesis using q walk_linked [of ps FREE_QUEUE qs MAX_PID] by (simp add: wait_queue_def queue_list_def)
qed

lemma placed_queue_list:
  assumes P: "placed s hs qss ds"
  shows "map (queue_list (processes s)) hs = qss"
proof -
  note D = placedD [OF P]
  show ?thesis
    by (rule nth_equalityI) (use D(3,4) proc_okD(2) [OF D(1)] in \<open>auto intro: queue_list_eq\<close>)
qed

type_synonym 'a queued = "int list \<times> 'a proc_state_scheme"

definition q_block :: "nat \<Rightarrow> 'a queued \<Rightarrow> 'a queued option" where
  "q_block k = (\<lambda>(hs, s). map_option (\<lambda>(h, s). (hs[k := h], s)) (loader_enqueue (hs ! k) s))"

definition q_wake :: "nat \<Rightarrow> 'a queued \<Rightarrow> 'a queued option" where
  "q_wake k = (\<lambda>(hs, s). map_option (\<lambda>(h, s). (hs[k := h], s)) (loader_unqueue (hs ! k) s))"

definition q_queues :: "'a queued \<Rightarrow> int list list" where
  "q_queues = (\<lambda>(hs, s). map (queue_list (processes s)) hs)"

definition q_ok :: "'a queued \<Rightarrow> bool" where
  "q_ok = (\<lambda>(hs, s). \<exists>qss ds. placed s hs qss ds)"

lemma q_okE:
  assumes "q_ok (hs, s)"
  obtains ds where "placed s hs (q_queues (hs, s)) ds"
  using assms placed_queue_list [of s hs] by (auto simp: q_ok_def q_queues_def)

interpretation wq: blocking q_block q_wake q_queues "\<lambda>(hs, s). ready_pids s" "\<lambda>(hs, s). running_pid s" q_ok
proof unfold_locales
  fix x :: "'a queued" and k p assume a: "q_ok x" "k < length (q_queues x)" "(case x of (hs, s) \<Rightarrow> running_pid s) = Some p"
  obtain hs s where x: "x = (hs, s)" by (cases x)
  obtain ds where P: "placed s hs (q_queues x) ds" using q_okE a(1) x by metis
  have k: "k < length hs" using a(2) x by (simp add: q_queues_def)
  from placed_enqueue [OF P k] a(3) x obtain h' s' where
    "loader_enqueue (hs ! k) s = Some (h', s')" "ready_pids s' = remove1 p (ready_pids s)"
    "placed s' (hs[k := h']) ((q_queues x)[k := q_queues x ! k @ [p]]) ds" by auto
  moreover from placed_queue_list [OF this(3)] have
    "q_queues (hs[k := h'], s') = (q_queues x)[k := q_queues x ! k @ [p]]" by (simp add: q_queues_def)
  ultimately show "\<exists>s'. q_block k x = Some s' \<and> q_ok s' \<and> q_queues s' = (q_queues x)[k := q_queues x ! k @ [p]] \<and>
      (case s' of (hs, s) \<Rightarrow> ready_pids s) = remove1 p (case x of (hs, s) \<Rightarrow> ready_pids s)"
    by (auto simp: x q_block_def q_ok_def)
next
  fix x :: "'a queued" and k q qs assume a: "q_ok x" "k < length (q_queues x)" "q_queues x ! k = q # qs"
  obtain hs s where x: "x = (hs, s)" by (cases x)
  obtain ds where P: "placed s hs (q_queues x) ds" using q_okE a(1) x by metis
  have k: "k < length hs" using a(2) x by (simp add: q_queues_def)
  from placed_unqueue [OF P k a(3)] obtain h' s' where
    "loader_unqueue (hs ! k) s = Some (h', s')" "ready_pids s' = ready_pids s @ [q]" "running_pid s' = running_pid s"
    "placed s' (hs[k := h']) ((q_queues x)[k := qs]) ds" by auto
  moreover from placed_queue_list [OF this(4)] have
    "q_queues (hs[k := h'], s') = (q_queues x)[k := qs]" by (simp add: q_queues_def)
  ultimately show "\<exists>s'. q_wake k x = Some s' \<and> q_ok s' \<and> q_queues s' = (q_queues x)[k := qs] \<and>
      (case s' of (hs, s) \<Rightarrow> ready_pids s) = (case x of (hs, s) \<Rightarrow> ready_pids s) @ [q] \<and>
      (case s' of (hs, s) \<Rightarrow> running_pid s) = (case x of (hs, s) \<Rightarrow> running_pid s)"
    by (auto simp: x q_wake_def q_ok_def)
next
  fix x :: "'a queued" and k assume a: "q_ok x" "k < length (q_queues x)" "q_queues x ! k = []"
  obtain hs s where x: "x = (hs, s)" by (cases x)
  obtain ds where P: "placed s hs (q_queues x) ds" using q_okE a(1) x by metis
  have k: "k < length hs" using a(2) x by (simp add: q_queues_def)
  then have "hs ! k = -1" using placedD(4) [OF P k] a(3) by simp
  moreover from this have "hs[k := -1] = hs" by (metis list_update_id)
  ultimately show "q_wake k x = Some x" by (simp add: x q_wake_def loader_unqueue_def)
qed

text \<open>Broadcasting empties the queue.\<close>

lemma broadcast_loop_placed:
  assumes "placed s hs qss ds" and "k < length hs"
  shows "\<exists>s'. broadcast_loop (hs ! k) s = Some (-1, s') \<and> placed s' (hs[k := -1]) (qss[k := []]) ds \<and>
    ready_pids s' = ready_pids s @ qss ! k \<and> running_pid s' = running_pid s \<and>
    proc_state.more s' = proc_state.more s"
  using assms
proof (induction "qss ! k" arbitrary: s hs qss)
  case Nil
  then have h: "hs ! k = -1" using placedD(4) [OF Nil.prems] by simp
  have "hs[k := -1] = hs" "qss[k := []] = qss" using h Nil.hyps by (metis list_update_id)+
  then show ?case using Nil h by (subst broadcast_loop.simps) simp
next
  case (Cons q qs)
  note P = Cons.prems(1) and q = Cons.hyps(2) [symmetric]
  have kq: "k < length qss" using placedD(3) [OF P] Cons.prems(2) by simp
  have h: "hs ! k \<noteq> -1" using placedD(4) [OF Cons.prems] placedD(4) [OF Cons.prems, THEN wait_queue_range, of q] q
    by (auto simp: wait_queue_def)
  obtain h' s' where u: "loader_unqueue (hs ! k) s = Some (h', s')"
    "placed s' (hs[k := h']) (qss[k := qs]) ds" "ready_pids s' = ready_pids s @ [q]"
    "running_pid s' = running_pid s" "proc_state.more s' = proc_state.more s"
    using placed_unqueue [OF Cons.prems q] by metis
  have "\<exists>s''. broadcast_loop (hs[k := h'] ! k) s' = Some (-1, s'') \<and>
    placed s'' (hs[k := h', k := -1]) (qss[k := qs, k := []]) ds \<and>
    ready_pids s'' = ready_pids s' @ qss[k := qs] ! k \<and> running_pid s'' = running_pid s' \<and>
    proc_state.more s'' = proc_state.more s'"
    by (rule Cons.hyps(1) [OF _ u(2)]) (use kq Cons.prems(2) in simp_all)
  then show ?case using u h Cons.prems(2) kq q by (subst broadcast_loop.simps) auto
qed

subsection \<open>The system of events\<close>

record sys =
  sy_proc :: proc_state
  sy_queues :: "int list"
  sy_sems :: "sem_t list"

datatype event = Tick | Block nat | Wake nat | Sleep u32 | Sem_wait nat | Sem_signal nat | Sem_broadcast nat

definition sys_queue_op :: "nat \<Rightarrow> (int \<times> proc_state) option \<Rightarrow> sys \<Rightarrow> sys option" where
  "sys_queue_op k r y = map_option (\<lambda>(h, s). y\<lparr>sy_proc := s, sy_queues := (sy_queues y)[k := h]\<rparr>) r"

definition sys_sem_op :: "nat \<Rightarrow> (sem_t \<times> proc_state) option \<Rightarrow> sys \<Rightarrow> sys option" where
  "sys_sem_op k r y = map_option (\<lambda>(m, s). y\<lparr>sy_proc := s, sy_sems := (sy_sems y)[k := m]\<rparr>) r"

fun sys_step :: "event \<Rightarrow> sys \<Rightarrow> sys option" where
  "sys_step Tick y = map_option (\<lambda>s. y\<lparr>sy_proc := s\<rparr>) (timer_handler (sy_proc y))"
| "sys_step (Block k) y = sys_queue_op k (loader_enqueue (sy_queues y ! k) (sy_proc y)) y"
| "sys_step (Wake k) y = sys_queue_op k (loader_unqueue (sy_queues y ! k) (sy_proc y)) y"
| "sys_step (Sleep t) y = map_option (\<lambda>s. y\<lparr>sy_proc := s\<rparr>) (loader_sleep t (sy_proc y))"
| "sys_step (Sem_wait k) y = sys_sem_op k (sem_wait (sy_sems y ! k) (sy_proc y)) y"
| "sys_step (Sem_signal k) y = sys_sem_op k (sem_signal (sy_sems y ! k) (sy_proc y)) y"
| "sys_step (Sem_broadcast k) y = sys_sem_op k (sem_broadcast (sy_sems y ! k) (sy_proc y)) y"

text \<open>
  When an event can happen: interrupts and wake-ups whoever runs, the operations that a
  process performs only while one is running, and queues and semaphores that exist.
\<close>

fun enabled :: "sys \<Rightarrow> event \<Rightarrow> bool" where
  "enabled y Tick = True"
| "enabled y (Block k) = (k < length (sy_queues y) \<and> running_pid (sy_proc y) \<noteq> None)"
| "enabled y (Wake k) = (k < length (sy_queues y))"
| "enabled y (Sleep t) = (running_pid (sy_proc y) \<noteq> None)"
| "enabled y (Sem_wait k) = (k < length (sy_sems y) \<and> running_pid (sy_proc y) \<noteq> None)"
| "enabled y (Sem_signal k) = (k < length (sy_sems y))"
| "enabled y (Sem_broadcast k) = (k < length (sy_sems y))"

text \<open>
  A run: each event is one that can happen when it does. \<open>None\<close> would be a kernel that stops.
\<close>

fun sys_run :: "event list \<Rightarrow> sys \<Rightarrow> sys option" where
  "sys_run [] y = Some y"
| "sys_run (e # es) y = Option.bind (sys_step e y) (sys_run es)"

inductive feasible :: "event list \<Rightarrow> sys \<Rightarrow> bool" where
  feasible_Nil: "feasible [] y"
| feasible_Cons: "enabled y e \<Longrightarrow> (\<And>y'. sys_step e y = Some y' \<Longrightarrow> feasible es y') \<Longrightarrow> feasible (e # es) y"

inductive_cases feasible_ConsE: "feasible (e # es) y"

definition sys_heads :: "sys \<Rightarrow> int list" where
  "sys_heads y = sy_queues y @ map sm_q (sy_sems y)"

definition sys_ok :: "sys \<Rightarrow> int list list \<Rightarrow> (int \<times> u32) list \<Rightarrow> bool" where
  "sys_ok y qss ds \<longleftrightarrow> placed (sy_proc y) (sys_heads y) qss ds"

text \<open>Everybody in the system, wherever they are.\<close>

definition sys_pids :: "sys \<Rightarrow> int list list \<Rightarrow> (int \<times> u32) list \<Rightarrow> int set" where
  "sys_pids y qss ds = set (ready_pids (sy_proc y) @ map fst ds @ concat qss)"

lemma set_concat_upd:
  assumes "k < length qss"
  shows "set (concat (qss[k := qs])) \<union> set (qss ! k) = set (concat qss) \<union> set qs"
proof -
  from split_at [OF assms] obtain us vs where s: "qss = us @ qss ! k # vs" "\<And>y. qss[k := y] = us @ y # vs" by metis
  have "set (concat qss) = set (concat us) \<union> set (qss ! k) \<union> set (concat vs)"
    by (subst s(1)) auto
  then show ?thesis by (auto simp: s(2))
qed

lemma set_concat_snoc:
  assumes "k < length qss"
  shows "set (concat (qss[k := qss ! k @ [p]])) = insert p (set (concat qss))"
proof -
  from split_at [OF assms] obtain us vs where s: "qss = us @ qss ! k # vs" "\<And>y. qss[k := y] = us @ y # vs" by metis
  have "set (concat qss) = set (concat us) \<union> set (qss ! k) \<union> set (concat vs)"
    by (subst s(1)) auto
  then show ?thesis by (auto simp: s(2))
qed

lemma set_concat_drop:
  assumes "k < length qss" "qss ! k = ps @ qs" "distinct (concat qss)"
  shows "set ps \<union> set (concat (qss[k := qs])) = set (concat qss)"
proof -
  from split_at [OF assms(1)] obtain us vs where s: "qss = us @ qss ! k # vs" "\<And>y. qss[k := y] = us @ y # vs" by metis
  have "set (concat qss) = set (concat us) \<union> set (qss ! k) \<union> set (concat vs)"
    by (subst s(1)) auto
  then show ?thesis by (auto simp: s(2) assms(2))
qed

definition sleeps_on :: "event \<Rightarrow> (int \<times> u32) list \<Rightarrow> int list \<Rightarrow> (int \<times> u32) list \<Rightarrow> bool" where
  "sleeps_on e ds rs' ds' \<longleftrightarrow> (\<forall>p n. (p, n) \<in> set (waits 0 ds) \<longrightarrow>
     (if e = Tick then (if n = 1 then p \<in> set rs' else (p, n - 1) \<in> set (waits 0 ds'))
      else (p, n) \<in> set (waits 0 ds')))"

lemma sleeps_on_same: "e \<noteq> Tick \<Longrightarrow> sleeps_on e ds rs ds"
  by (simp add: sleeps_on_def)

lemma sleeps_on_tick:
  assumes ok: "delta_ok ds" and t: "delta_tick ds = (w, r)"
  shows "sleeps_on Tick ds (rs @ w) r"
proof -
  have "if n = 1 then p \<in> set (rs @ w) else (p, n - 1) \<in> set (waits 0 r)" if "(p, n) \<in> set (waits 0 ds)" for p n
  proof -
    have "(p, n) \<in> (\<lambda>q. (q, 1)) ` set w \<or> (\<exists>m. (p, m) \<in> set (waits 0 r) \<and> n = Suc m)"
      using that delta_tick_waits(1) [OF assms] by auto
    moreover have "(p, m) \<in> set (waits 0 r) \<Longrightarrow> 0 < m" for m
      using waits_gt delta_tick_waits(2) [OF assms] by blast
    ultimately show ?thesis by auto
  qed
  then show ?thesis unfolding sleeps_on_def if_P [OF refl] by blast
qed

text \<open>
  The abstract semaphore: a count, and the processes that wait for it in the order in which
  they came. A signal hands the permit to the first waiter, and only counts when nobody waits.
\<close>

fun sem_next :: "event \<Rightarrow> int option \<Rightarrow> nat \<Rightarrow> u32 \<times> int list \<Rightarrow> u32 \<times> int list" where
  "sem_next (Sem_wait k) r j (v, q) =
     (if j \<noteq> k then (v, q) else if v = 0 then (v, q @ [the r]) else (v - 1, q))"
| "sem_next (Sem_signal k) r j (v, q) =
     (if j \<noteq> k then (v, q) else case q of [] \<Rightarrow> (v + 1, []) | _ # qs \<Rightarrow> (v, qs))"
| "sem_next (Sem_broadcast k) r j (v, q) = (if j \<noteq> k then (v, q) else (0, []))"
| "sem_next _ r j vq = vq"

definition sem_view :: "sys \<Rightarrow> int list list \<Rightarrow> nat \<Rightarrow> u32 \<times> int list" where
  "sem_view y qss j = (sm_vl (sy_sems y ! j), qss ! (length (sy_queues y) + j))"

definition sems_step :: "event \<Rightarrow> sys \<Rightarrow> int list list \<Rightarrow> sys \<Rightarrow> int list list \<Rightarrow> bool" where
  "sems_step e y qss y' qss' \<longleftrightarrow> (\<forall>j<length (sy_sems y).
     sem_view y' qss' j = sem_next e (running_pid (sy_proc y)) j (sem_view y qss j))"

text \<open>What a good step is.\<close>

definition good_step :: "event \<Rightarrow> sys \<Rightarrow> int list list \<Rightarrow> (int \<times> u32) list \<Rightarrow> sys \<Rightarrow> int list list \<Rightarrow> (int \<times> u32) list \<Rightarrow> bool" where
  "good_step e y qss ds y' qss' ds' \<longleftrightarrow>
     sys_ok y' qss' ds' \<and> sys_pids y' qss' ds' = sys_pids y qss ds \<and>
     sleeps_on e ds (ready_pids (sy_proc y')) ds' \<and> sems_step e y qss y' qss' \<and>
     length (sy_queues y') = length (sy_queues y) \<and> length (sy_sems y') = length (sy_sems y)"

lemma good_block:
  assumes ok: "sys_ok y qss ds" and k: "k < length (sys_heads y)" and run: "running_pid (sy_proc y) \<noteq> None"
    and e: "e \<noteq> Tick"
  obtains h s where "loader_enqueue (sys_heads y ! k) (sy_proc y) = Some (h, s)"
    "\<And>y'. sy_proc y' = s \<Longrightarrow> sys_heads y' = (sys_heads y)[k := h] \<Longrightarrow> length (sy_queues y') = length (sy_queues y) \<Longrightarrow>
       length (sy_sems y') = length (sy_sems y) \<Longrightarrow>
       sems_step e y qss y' (qss[k := qss ! k @ [the (running_pid (sy_proc y))]]) \<Longrightarrow>
       good_step e y qss ds y' (qss[k := qss ! k @ [the (running_pid (sy_proc y))]]) ds"
proof -
  obtain p where p: "running_pid (sy_proc y) = Some p" using run by auto
  have P: "placed (sy_proc y) (sys_heads y) qss ds" using ok by (simp add: sys_ok_def)
  have kq: "k < length qss" using k placedD(3) [OF P] by simp
  have rp: "p \<in> set (ready_pids (sy_proc y))"
    using p rq.running_ready proc_okD(1) [OF placedD(1) [OF P]] by blast
  obtain h s where s: "loader_enqueue (sys_heads y ! k) (sy_proc y) = Some (h, s)"
    "placed s ((sys_heads y)[k := h]) (qss[k := qss ! k @ [p]]) ds" "ready_pids s = remove1 p (ready_pids (sy_proc y))"
    using placed_enqueue [OF P k p] by metis
  have "set (ready_pids s) \<union> {p} = set (ready_pids (sy_proc y))"
    using rp proc_okD(6) [OF placedD(1) [OF P]] by (auto simp: s(3) set_remove1_eq)
  then have pids: "set (ready_pids s) \<union> set (concat (qss[k := qss ! k @ [p]])) = set (ready_pids (sy_proc y)) \<union> set (concat qss)"
    unfolding set_concat_snoc [OF kq] by blast
  show thesis
    by (rule that [OF s(1)])
      (use s(2) pids e p in \<open>auto simp: good_step_def sys_ok_def sleeps_on_same sys_pids_def simp del: set_concat\<close>)
qed

lemma good_wake:
  assumes ok: "sys_ok y qss ds" and k: "k < length (sys_heads y)" and e: "e \<noteq> Tick"
  obtains h s where "loader_unqueue (sys_heads y ! k) (sy_proc y) = Some (h, s)"
    "\<And>y'. sy_proc y' = s \<Longrightarrow> sys_heads y' = (sys_heads y)[k := h] \<Longrightarrow> length (sy_queues y') = length (sy_queues y) \<Longrightarrow>
       length (sy_sems y') = length (sy_sems y) \<Longrightarrow>
       sems_step e y qss y' (qss[k := tl (qss ! k)]) \<Longrightarrow> good_step e y qss ds y' (qss[k := tl (qss ! k)]) ds"
proof -
  have P: "placed (sy_proc y) (sys_heads y) qss ds" using ok by (simp add: sys_ok_def)
  have kq: "k < length qss" using k placedD(3) [OF P] by simp
  show thesis
  proof (cases "qss ! k")
    case Nil
    then have "sys_heads y ! k = -1" using placedD(4) [OF P k] by simp
    moreover from this have "(sys_heads y)[k := -1] = sys_heads y" by (metis list_update_id)
    moreover have "qss[k := tl (qss ! k)] = qss" using Nil by (metis list.sel(2) list_update_id)
    ultimately show thesis
      by (intro that [of "-1" "sy_proc y"])
        (use ok e in \<open>auto simp: loader_unqueue_def good_step_def sys_ok_def sys_pids_def sleeps_on_same\<close>)
  next
    case (Cons q qs)
    obtain h s where s: "loader_unqueue (sys_heads y ! k) (sy_proc y) = Some (h, s)"
      "placed s ((sys_heads y)[k := h]) (qss[k := qs]) ds" "ready_pids s = ready_pids (sy_proc y) @ [q]"
      using placed_unqueue [OF P k Cons] by metis
    have "distinct (concat qss)" using placedD(5) [OF P] by simp
    then have "set [q] \<union> set (concat (qss[k := qs])) = set (concat qss)"
      using set_concat_drop [OF kq, of "[q]" qs] Cons by simp
    then have pids: "set (ready_pids s) \<union> set (concat (qss[k := qs])) = set (ready_pids (sy_proc y)) \<union> set (concat qss)"
      by (auto simp: s(3))
    show thesis
      by (rule that [OF s(1)])
        (use s(2) pids e Cons in \<open>auto simp: good_step_def sys_ok_def sleeps_on_same sys_pids_def simp del: set_concat\<close>)
  qed
qed

lemma wait_queue_head: "wait_queue ps h qs \<Longrightarrow> h = -1 \<longleftrightarrow> qs = []"
  by (cases qs) (auto simp: wait_queue_def)

lemma heads_nth:
  "k < length (sy_queues y) \<Longrightarrow> sys_heads y ! k = sy_queues y ! k"
  "k < length (sy_sems y) \<Longrightarrow> sys_heads y ! (length (sy_queues y) + k) = sm_q (sy_sems y ! k)"
  by (simp_all add: sys_heads_def nth_append)

lemma heads_upd:
  "sys_heads (y\<lparr>sy_proc := s, sy_queues := (sy_queues y)[k := h]\<rparr>) =
     (if k < length (sy_queues y) then (sys_heads y)[k := h] else sys_heads y)"
  "sys_heads (y\<lparr>sy_proc := s, sy_sems := (sy_sems y)[k := m]\<rparr>) =
     (sys_heads y)[length (sy_queues y) + k := sm_q m]"
  by (auto simp: sys_heads_def list_update_append map_update list_update_beyond)

lemma heads_upd_vl:
  "sys_heads (y\<lparr>sy_proc := s, sy_sems := (sy_sems y)[k := (sy_sems y ! k)\<lparr>sm_vl := v\<rparr>]\<rparr>) = sys_heads y"
  by (simp add: sys_heads_def map_update flip: map_update)
     (metis list_update_id map_update sem_t.select_convs(2) sem_t.surjective sem_t.update_convs(1))

lemma good_Tick:
  assumes ok: "sys_ok y qss ds" and en: "enabled y e" and e: "e = Tick"
  shows "\<exists>y' qss' ds'. sys_step e y = Some y' \<and> good_step e y qss ds y' qss' ds'"
proof -
  have P: "placed (sy_proc y) (sys_heads y) qss ds" using ok by (simp add: sys_ok_def)
  note D = placedD [OF P] and Tick = e
  obtain w r where t: "delta_tick ds = (w, r)" by (cases "delta_tick ds")
  have dk: "delta_ok ds" using D(2) by (simp add: sleep_rel_def)
  obtain s' where s': "timer_handler (sy_proc y) = Some s'" "placed s' (sys_heads y) qss r"
    "ready_pids s' = ready_pids (sy_proc y) @ w"
    using placed_timer [OF P t] by metis
  have "good_step Tick y qss ds (y\<lparr>sy_proc := s'\<rparr>) qss r"
    using s' sleeps_on_tick [OF dk t] delta_tick_waits(3) [OF dk t]
    by (simp add: good_step_def sys_ok_def sys_pids_def sys_heads_def sems_step_def sem_view_def Un_assoc flip: set_map)
  then show ?thesis using Tick s'(1) by auto
qed

lemma good_Block:
  assumes ok: "sys_ok y qss ds" and en: "enabled y e" and e: "e = Block k"
  shows "\<exists>y' qss' ds'. sys_step e y = Some y' \<and> good_step e y qss ds y' qss' ds'"
proof -
  have P: "placed (sy_proc y) (sys_heads y) qss ds" using ok by (simp add: sys_ok_def)
  note D = placedD [OF P] and Block = e
  have k: "k < length (sy_queues y)" "k < length (sys_heads y)" "running_pid (sy_proc y) \<noteq> None" "e \<noteq> Tick"
    using en e by (auto simp: sys_heads_def)
  obtain h s where s: "loader_enqueue (sys_heads y ! k) (sy_proc y) = Some (h, s)"
    "\<And>y'. sy_proc y' = s \<Longrightarrow> sys_heads y' = (sys_heads y)[k := h] \<Longrightarrow> length (sy_queues y') = length (sy_queues y) \<Longrightarrow>
     length (sy_sems y') = length (sy_sems y) \<Longrightarrow>
       sems_step e y qss y' (qss[k := qss ! k @ [the (running_pid (sy_proc y))]]) \<Longrightarrow> good_step e y qss ds y' (qss[k := qss ! k @ [the (running_pid (sy_proc y))]]) ds"
    using good_block [OF ok k(2-4)] by metis
  let ?y = "y\<lparr>sy_proc := s, sy_queues := (sy_queues y)[k := h]\<rparr>"
  have "good_step e y qss ds ?y (qss[k := qss ! k @ [the (running_pid (sy_proc y))]]) ds"
      by (rule s(2)) (use k(1) e in \<open>auto simp: heads_upd sems_step_def sem_view_def\<close>)
  then show ?thesis using s(1) k(1) Block by (auto simp: sys_queue_op_def heads_nth)
qed

lemma good_Wake:
  assumes ok: "sys_ok y qss ds" and en: "enabled y e" and e: "e = Wake k"
  shows "\<exists>y' qss' ds'. sys_step e y = Some y' \<and> good_step e y qss ds y' qss' ds'"
proof -
  have P: "placed (sy_proc y) (sys_heads y) qss ds" using ok by (simp add: sys_ok_def)
  note D = placedD [OF P] and Wake = e
  have k: "k < length (sy_queues y)" "k < length (sys_heads y)" "e \<noteq> Tick"
    using en e by (auto simp: sys_heads_def)
  obtain h s where s: "loader_unqueue (sys_heads y ! k) (sy_proc y) = Some (h, s)"
    "\<And>y'. sy_proc y' = s \<Longrightarrow> sys_heads y' = (sys_heads y)[k := h] \<Longrightarrow> length (sy_queues y') = length (sy_queues y) \<Longrightarrow>
     length (sy_sems y') = length (sy_sems y) \<Longrightarrow>
       sems_step e y qss y' (qss[k := tl (qss ! k)]) \<Longrightarrow> good_step e y qss ds y' (qss[k := tl (qss ! k)]) ds"
    using good_wake [OF ok k(2,3)] by metis
  let ?y = "y\<lparr>sy_proc := s, sy_queues := (sy_queues y)[k := h]\<rparr>"
  have "good_step e y qss ds ?y (qss[k := tl (qss ! k)]) ds"
      by (rule s(2)) (use k(1) e in \<open>auto simp: heads_upd sems_step_def sem_view_def\<close>)
  then show ?thesis using s(1) k(1) Wake by (auto simp: sys_queue_op_def heads_nth)
qed

lemma good_Sleep:
  assumes ok: "sys_ok y qss ds" and en: "enabled y e" and e: "e = Sleep t"
  shows "\<exists>y' qss' ds'. sys_step e y = Some y' \<and> good_step e y qss ds y' qss' ds'"
proof -
  have P: "placed (sy_proc y) (sys_heads y) qss ds" using ok by (simp add: sys_ok_def)
  note D = placedD [OF P] and Sleep = e
  obtain p where p: "running_pid (sy_proc y) = Some p" using en Sleep by auto
  show ?thesis
  proof (cases "t = 0")
    case True
    then have "good_step e y qss ds y qss ds" "sys_step e y = Some y"
      using Sleep ok by (auto simp: loader_sleep_def good_step_def sleeps_on_same sems_step_def sem_view_def)
    then show ?thesis by blast
  next
    case False
    then have t: "0 < t" by (simp add: word_gt_0)
    obtain s' where s': "loader_sleep t (sy_proc y) = Some s'" "placed s' (sys_heads y) qss (delta_insert p t ds)"
      "ready_pids s' = remove1 p (ready_pids (sy_proc y))"
      using placed_sleep [OF P p t] by metis
    have rp: "p \<in> set (ready_pids (sy_proc y))"
      using p rq.running_ready proc_okD(1) [OF D(1)] by blast
    have "insert p (set (ready_pids s')) = set (ready_pids (sy_proc y))"
      using rp proc_okD(6) [OF D(1)] by (auto simp: s'(3) set_remove1_eq)
    then have "good_step e y qss ds (y\<lparr>sy_proc := s'\<rparr>) qss (delta_insert p t ds)"
      using s'(2) Sleep delta_insert_waits [of 0 p t ds] delta_insert_pids [of p t ds]
      by (auto simp: good_step_def sys_ok_def sys_pids_def sys_heads_def sleeps_on_def sems_step_def sem_view_def simp del: set_map set_concat)
    then show ?thesis using Sleep s'(1) by auto
  qed
qed

lemma good_Sem_wait:
  assumes ok: "sys_ok y qss ds" and en: "enabled y e" and e: "e = Sem_wait k"
  shows "\<exists>y' qss' ds'. sys_step e y = Some y' \<and> good_step e y qss ds y' qss' ds'"
proof -
  have P: "placed (sy_proc y) (sys_heads y) qss ds" using ok by (simp add: sys_ok_def)
  note D = placedD [OF P] and Sem_wait = e
  let ?k = "length (sy_queues y) + k"
  have k: "k < length (sy_sems y)" "?k < length (sys_heads y)" "running_pid (sy_proc y) \<noteq> None" "e \<noteq> Tick"
    using en Sem_wait by (auto simp: sys_heads_def)
  note hd = heads_nth(2) [OF k(1)]
  have kq: "?k < length qss" using k D(3) by simp
  have nil: "sm_q (sy_sems y ! k) = -1 \<longleftrightarrow> qss ! ?k = []" using wait_queue_head [OF D(4) [OF k(2)]] hd by simp
  show ?thesis
  proof (cases "sm_vl (sy_sems y ! k) = 0")
    case True
    obtain h s where s: "loader_enqueue (sys_heads y ! ?k) (sy_proc y) = Some (h, s)"
      "\<And>y'. sy_proc y' = s \<Longrightarrow> sys_heads y' = (sys_heads y)[?k := h] \<Longrightarrow> length (sy_queues y') = length (sy_queues y) \<Longrightarrow>
       length (sy_sems y') = length (sy_sems y) \<Longrightarrow>
       sems_step e y qss y' (qss[?k := qss ! ?k @ [the (running_pid (sy_proc y))]]) \<Longrightarrow> good_step e y qss ds y' (qss[?k := qss ! ?k @ [the (running_pid (sy_proc y))]]) ds"
      using good_block [OF ok k(2-4)] by metis
    let ?y = "y\<lparr>sy_proc := s, sy_sems := (sy_sems y)[k := (sy_sems y ! k)\<lparr>sm_q := h\<rparr>]\<rparr>"
    have "good_step e y qss ds ?y (qss[?k := qss ! ?k @ [the (running_pid (sy_proc y))]]) ds"
      by (rule s(2)) (use kq k(1) True Sem_wait in \<open>auto simp: heads_upd sems_step_def sem_view_def nth_list_update\<close>)
    then show ?thesis using s(1) Sem_wait True hd by (auto simp: sys_sem_op_def sem_wait_def)
  next
    case False
    let ?y = "y\<lparr>sy_proc := sy_proc y, sy_sems := (sy_sems y)[k := (sy_sems y ! k)\<lparr>sm_vl := sm_vl (sy_sems y ! k) - 1\<rparr>]\<rparr>"
    have "sys_heads ?y = sys_heads y" by (rule heads_upd_vl)
    then have "good_step e y qss ds ?y qss ds"
      using ok Sem_wait False by (auto simp: good_step_def sys_ok_def sleeps_on_same sys_pids_def sems_step_def sem_view_def nth_list_update)
    then show ?thesis using Sem_wait False by (auto simp: sys_sem_op_def sem_wait_def)
  qed
qed

lemma good_Sem_signal:
  assumes ok: "sys_ok y qss ds" and en: "enabled y e" and e: "e = Sem_signal k"
  shows "\<exists>y' qss' ds'. sys_step e y = Some y' \<and> good_step e y qss ds y' qss' ds'"
proof -
  have P: "placed (sy_proc y) (sys_heads y) qss ds" using ok by (simp add: sys_ok_def)
  note D = placedD [OF P] and Sem_signal = e
  let ?k = "length (sy_queues y) + k"
  have k: "k < length (sy_sems y)" "?k < length (sys_heads y)" "e \<noteq> Tick"
    using en Sem_signal by (auto simp: sys_heads_def)
  note hd = heads_nth(2) [OF k(1)]
  have kq: "?k < length qss" using k D(3) by simp
  have nil: "sm_q (sy_sems y ! k) = -1 \<longleftrightarrow> qss ! ?k = []" using wait_queue_head [OF D(4) [OF k(2)]] hd by simp
  show ?thesis
  proof (cases "sm_q (sy_sems y ! k) = -1")
    case False
    obtain h s where s: "loader_unqueue (sys_heads y ! ?k) (sy_proc y) = Some (h, s)"
      "\<And>y'. sy_proc y' = s \<Longrightarrow> sys_heads y' = (sys_heads y)[?k := h] \<Longrightarrow> length (sy_queues y') = length (sy_queues y) \<Longrightarrow>
       length (sy_sems y') = length (sy_sems y) \<Longrightarrow>
       sems_step e y qss y' (qss[?k := tl (qss ! ?k)]) \<Longrightarrow> good_step e y qss ds y' (qss[?k := tl (qss ! ?k)]) ds"
      using good_wake [OF ok k(2,3)] by metis
    let ?y = "y\<lparr>sy_proc := s, sy_sems := (sy_sems y)[k := (sy_sems y ! k)\<lparr>sm_q := h\<rparr>]\<rparr>"
    have "good_step e y qss ds ?y (qss[?k := tl (qss ! ?k)]) ds"
      by (rule s(2)) (use kq k(1) False nil Sem_signal in \<open>auto simp: heads_upd sems_step_def sem_view_def nth_list_update split: list.splits\<close>)
    then show ?thesis using s(1) Sem_signal False hd by (auto simp: sys_sem_op_def sem_signal_def)
  next
    case True
    let ?y = "y\<lparr>sy_proc := sy_proc y, sy_sems := (sy_sems y)[k := (sy_sems y ! k)\<lparr>sm_vl := sm_vl (sy_sems y ! k) + 1\<rparr>]\<rparr>"
    have "sys_heads ?y = sys_heads y" by (rule heads_upd_vl)
    then have "good_step e y qss ds ?y qss ds"
      using ok Sem_signal True nil
      by (auto simp: good_step_def sys_ok_def sleeps_on_same sys_pids_def sems_step_def sem_view_def nth_list_update)
    then show ?thesis using Sem_signal True by (auto simp: sys_sem_op_def sem_signal_def)
  qed
qed

lemma good_Sem_broadcast:
  assumes ok: "sys_ok y qss ds" and en: "enabled y e" and e: "e = Sem_broadcast k"
  shows "\<exists>y' qss' ds'. sys_step e y = Some y' \<and> good_step e y qss ds y' qss' ds'"
proof -
  have P: "placed (sy_proc y) (sys_heads y) qss ds" using ok by (simp add: sys_ok_def)
  note D = placedD [OF P] and Sem_broadcast = e
  let ?k = "length (sy_queues y) + k"
  have k: "k < length (sy_sems y)" "?k < length (sys_heads y)" "e \<noteq> Tick"
    using en Sem_broadcast by (auto simp: sys_heads_def)
  note hd = heads_nth(2) [OF k(1)]
  have kq: "?k < length qss" using k D(3) by simp
  have nil: "sm_q (sy_sems y ! k) = -1 \<longleftrightarrow> qss ! ?k = []" using wait_queue_head [OF D(4) [OF k(2)]] hd by simp
  obtain s where s: "broadcast_loop (sys_heads y ! ?k) (sy_proc y) = Some (-1, s)"
    "placed s ((sys_heads y)[?k := -1]) (qss[?k := []]) ds" "ready_pids s = ready_pids (sy_proc y) @ qss ! ?k"
    using broadcast_loop_placed [OF P k(2)] by metis
  let ?y = "y\<lparr>sy_proc := s, sy_sems := (sy_sems y)[k := (sy_sems y ! k)\<lparr>sm_q := -1, sm_vl := 0\<rparr>]\<rparr>"
  have "set (qss ! ?k) \<union> set (concat (qss[?k := []])) = set (concat qss)"
    using set_concat_drop [OF kq, of "qss ! ?k" "[]"] D(5) by simp
  then have "set (ready_pids s) \<union> set (concat (qss[?k := []])) = set (ready_pids (sy_proc y)) \<union> set (concat qss)"
    unfolding s(3) set_append by blast
  then have "good_step e y qss ds ?y (qss[?k := []]) ds"
    using s(2) k kq Sem_broadcast
    by (auto simp: heads_upd good_step_def sys_ok_def sys_pids_def sleeps_on_same simp del: set_concat) (auto simp: heads_upd sems_step_def sem_view_def nth_list_update)
  then show ?thesis using s(1) Sem_broadcast hd by (auto simp: sys_sem_op_def sem_broadcast_def)
qed

lemma sys_step_good:
  assumes "sys_ok y qss ds" and "enabled y e"
  shows "\<exists>y' qss' ds'. sys_step e y = Some y' \<and> good_step e y qss ds y' qss' ds'"
  using good_Tick [OF assms] good_Block [OF assms] good_Wake [OF assms] good_Sleep [OF assms]
    good_Sem_wait [OF assms] good_Sem_signal [OF assms] good_Sem_broadcast [OF assms]
  by (cases e) blast+

subsection \<open>What runs of the system show\<close>

fun slept_walk :: "nat \<Rightarrow> slept_task list \<Rightarrow> int \<Rightarrow> (int \<times> u32) list" where
  "slept_walk 0 sl h = []"
| "slept_walk (Suc n) sl h =
     (if 0 \<le> h \<and> h < int (length sl)
      then (h, s_time (sl ! nat h)) # slept_walk n sl (s_next (sl ! nat h)) else [])"

definition delta_list :: "'a proc_state_scheme \<Rightarrow> (int \<times> u32) list" where
  "delta_list s = slept_walk MAX_PID (sleeping s) (first_slept s)"

text \<open>The sleeping processes, with the ticks that each still has to wait.\<close>

definition sleepers :: "sys \<Rightarrow> (int \<times> nat) list" where
  "sleepers y = waits 0 (delta_list (sy_proc y))"

definition waiting :: "sys \<Rightarrow> int list list" where
  "waiting y = map (queue_list (processes (sy_proc y))) (sys_heads y)"

definition everyone :: "sys \<Rightarrow> int list" where
  "everyone y = ready_pids (sy_proc y) @ map fst (sleepers y) @ concat (waiting y)"

definition sys_inv :: "sys \<Rightarrow> bool" where
  "sys_inv y \<longleftrightarrow> sys_ok y (waiting y) (delta_list (sy_proc y))"

definition sem_state :: "sys \<Rightarrow> nat \<Rightarrow> u32 \<times> int list" where
  "sem_state y k = sem_view y (waiting y) k"

fun ticks_in :: "event list \<Rightarrow> nat" where
  "ticks_in [] = 0"
| "ticks_in (e # es) = (if e = Tick then 1 else 0) + ticks_in es"

lemma slept_walk_list:
  "slept_list sl h ds \<Longrightarrow> length ds \<le> n \<Longrightarrow> slept_walk n sl h = ds"
proof (induction ds arbitrary: h n)
  case Nil
  then show ?case by (cases n) auto
next
  case (Cons e ds)
  then show ?case by (cases n; cases e) auto
qed

lemma delta_list_eq:
  assumes "proc_ok s" "sleep_rel s ds"
  shows "delta_list s = ds"
proof -
  have l: "slept_list (sleeping s) (first_slept s) ds" and d: "distinct (map fst ds)"
    using assms(2) by (auto simp: sleep_rel_def delta_ok_def)
  have "set (map fst ds) \<subseteq> {0..<int MAX_PID}"
  proof
    fix q assume "q \<in> set (map fst ds)"
    then have "q \<in> fst ` set ds" by simp
    then show "q \<in> {0..<int MAX_PID}" using slept_list_range [OF l] proc_okD(3) [OF assms(1)] by simp
  qed
  then have "card (set (map fst ds)) \<le> card {0..<int MAX_PID}" by (intro card_mono) auto
  then have "length ds \<le> MAX_PID" using distinct_card [OF d] by simp
  with l show ?thesis by (simp add: delta_list_def slept_walk_list)
qed

lemma sys_ok_unique:
  assumes "sys_ok y qss ds"
  shows "waiting y = qss" "delta_list (sy_proc y) = ds" "sys_inv y" "sys_pids y qss ds = set (everyone y)"
proof -
  have P: "placed (sy_proc y) (sys_heads y) qss ds" using assms by (simp add: sys_ok_def)
  show w: "waiting y = qss" "delta_list (sy_proc y) = ds"
    using placed_queue_list [OF P] delta_list_eq [OF placedD(1,2) [OF P]] by (simp_all add: waiting_def)
  then show "sys_inv y" "sys_pids y qss ds = set (everyone y)"
    using assms by (simp_all add: sys_inv_def sys_pids_def everyone_def sleepers_def)
qed

lemma sys_step_inv:
  assumes "sys_inv y" and "enabled y e"
  obtains y' where "sys_step e y = Some y'" "sys_inv y'" "set (everyone y') = set (everyone y)"
    "sleeps_on e (delta_list (sy_proc y)) (ready_pids (sy_proc y')) (delta_list (sy_proc y'))"
    "\<And>k. k < length (sy_sems y) \<Longrightarrow> sem_state y' k = sem_next e (running_pid (sy_proc y)) k (sem_state y k)"
    "length (sy_sems y') = length (sy_sems y)"
proof -
  have ok: "sys_ok y (waiting y) (delta_list (sy_proc y))" using assms(1) by (simp add: sys_inv_def)
  obtain y' qss' ds' where s: "sys_step e y = Some y'"
    "good_step e y (waiting y) (delta_list (sy_proc y)) y' qss' ds'"
    using sys_step_good [OF ok assms(2)] by metis
  then have ok': "sys_ok y' qss' ds'" by (simp add: good_step_def)
  note u = sys_ok_unique [OF ok'] and g = s(2) [unfolded good_step_def]
  show thesis
    by (rule that [OF s(1) u(3)])
      (use g u sys_ok_unique(4) [OF ok] in \<open>auto simp: sem_state_def sems_step_def\<close>)
qed

lemma everyone_distinct: "sys_inv y \<Longrightarrow> distinct (everyone y)"
  unfolding sys_inv_def sys_ok_def everyone_def sleepers_def fst_waits by (rule placedD(5))

text \<open>C1: The kernel does not lose, duplicate or misplace a process: in every run of timer
  interrupts, blocking, waking, sleeping and semaphore operations no assertion fails and no
  list is followed out of its array, the same processes are there at the end as at the
  start, and each of them is in exactly one place (ready, asleep, or in one wait queue).\<close>

theorem sys_run_safe:
  assumes "sys_inv y" and "feasible es y"
  shows "\<exists>y'. sys_run es y = Some y' \<and> sys_inv y' \<and> distinct (everyone y') \<and> set (everyone y') = set (everyone y)"
  using assms
proof (induction es arbitrary: y)
  case (Cons e es)
  from Cons.prems(2) have en: "enabled y e" "\<And>y'. sys_step e y = Some y' \<Longrightarrow> feasible es y'"
    by (auto elim: feasible_ConsE)
  obtain y1 where "sys_step e y = Some y1" "sys_inv y1" "set (everyone y1) = set (everyone y)"
    using sys_step_inv [OF Cons.prems(1) en(1)] by metis
  then show ?case using Cons.IH [of y1] en(2) by auto
qed (simp add: everyone_distinct)

lemma sleeper_waits:
  assumes "sys_inv y" "feasible es y" "(p, n) \<in> set (sleepers y)" "ticks_in es < n"
  shows "\<exists>y'. sys_run es y = Some y' \<and> sys_inv y' \<and> (p, n - ticks_in es) \<in> set (sleepers y')"
  using assms
proof (induction es arbitrary: y n)
  case (Cons e es)
  from Cons.prems(2) have en: "enabled y e" "\<And>y'. sys_step e y = Some y' \<Longrightarrow> feasible es y'"
    by (auto elim: feasible_ConsE)
  obtain y1 where y1: "sys_step e y = Some y1" "sys_inv y1"
    "sleeps_on e (delta_list (sy_proc y)) (ready_pids (sy_proc y1)) (delta_list (sy_proc y1))"
    using sys_step_inv [OF Cons.prems(1) en(1)] by metis
  let ?n = "if e = Tick then n - 1 else n"
  have "(p, ?n) \<in> set (sleepers y1)"
    using y1(3) Cons.prems(3,4) by (auto simp: sleeps_on_def sleepers_def split: if_splits)
  then have "\<exists>y'. sys_run es y1 = Some y' \<and> sys_inv y' \<and> (p, ?n - ticks_in es) \<in> set (sleepers y')"
    using Cons.prems(4) en(2) [OF y1(1)] y1(2) by (intro Cons.IH) auto
  then show ?case using y1(1) Cons.prems(4) by (auto split: if_splits)
qed simp

text \<open>C10: A process that sleeps for \<open>t\<close> ticks is made ready by the \<open>t\<close>-th timer
  interrupt after it went to sleep and by no earlier one, whatever the other processes do
  in between (including going to sleep and waking up around it in the delta queue).\<close>

theorem sleep_exact:
  assumes "sys_inv y" and "running_pid (sy_proc y) = Some p" and "0 < t"
    and "sys_step (Sleep t) y = Some y1" and "feasible es y1" and "ticks_in es < unat t"
  shows "\<exists>y2. sys_run es y1 = Some y2 \<and> p \<notin> set (ready_pids (sy_proc y2)) \<and>
    (Suc (ticks_in es) = unat t \<longrightarrow>
       (\<exists>y3. sys_step Tick y2 = Some y3 \<and> p \<in> set (ready_pids (sy_proc y3))))"
proof -
  have P: "placed (sy_proc y) (sys_heads y) (waiting y) (delta_list (sy_proc y))"
    using assms(1) by (simp add: sys_inv_def sys_ok_def)
  obtain s where s: "loader_sleep t (sy_proc y) = Some s"
    "placed s (sys_heads y) (waiting y) (delta_insert p t (delta_list (sy_proc y)))"
    using placed_sleep [OF P assms(2,3)] by metis
  have y1: "y1 = y\<lparr>sy_proc := s\<rparr>" using s(1) assms(4) by simp
  have ok1: "sys_ok y1 (waiting y) (delta_insert p t (delta_list (sy_proc y)))"
    using s(2) by (simp add: sys_ok_def y1 sys_heads_def)
  have "(p, unat t) \<in> set (sleepers y1)"
    using delta_insert_waits [of 0 p t] sys_ok_unique(2) [OF ok1] by (simp add: sleepers_def)
  from sleeper_waits [OF sys_ok_unique(3) [OF ok1] assms(5) this assms(6)]
  obtain y2 where y2: "sys_run es y1 = Some y2" "sys_inv y2" "(p, unat t - ticks_in es) \<in> set (sleepers y2)" by blast
  have "p \<in> fst ` set (sleepers y2)" using y2(3) by force
  then have nr: "p \<notin> set (ready_pids (sy_proc y2))" using everyone_distinct [OF y2(2)] by (auto simp: everyone_def)
  obtain y3 where y3: "sys_step Tick y2 = Some y3"
    "sleeps_on Tick (delta_list (sy_proc y2)) (ready_pids (sy_proc y3)) (delta_list (sy_proc y3))"
    using sys_step_inv [OF y2(2), of Tick] by (metis enabled.simps(1))
  have "p \<in> set (ready_pids (sy_proc y3))" if "Suc (ticks_in es) = unat t"
    using y3(2) y2(3) that by (auto simp: sleeps_on_def sleepers_def split: if_splits)
  then show ?thesis using y2(1) y3(1) nr by blast
qed

text \<open>C12: The semaphores of the kernel are counting semaphores with a first-come
  first-served queue: every event of the system acts on each semaphore as the abstract one
  does (a wait takes a permit or queues the running process behind the others, a signal hands
  its permit to the longest waiter, events on other semaphores change nothing).\<close>

theorem sem_refines:
  assumes "sys_inv y" and "enabled y e" and "k < length (sy_sems y)"
  shows "\<exists>y'. sys_step e y = Some y' \<and> sys_inv y' \<and>
    sem_state y' k = sem_next e (running_pid (sy_proc y)) k (sem_state y k)"
  using sys_step_inv [OF assms(1,2)] assms(3) by metis

definition permits :: "u32 \<times> int list \<Rightarrow> int" where
  "permits = (\<lambda>(v, q). int (unat v) - int (length q))"

fun balance :: "nat \<Rightarrow> event list \<Rightarrow> int" where
  "balance k [] = 0"
| "balance k (e # es) = (if e = Sem_signal k then 1 else if e = Sem_wait k then -1 else 0) + balance k es"

fun signals :: "nat \<Rightarrow> event list \<Rightarrow> nat" where
  "signals k [] = 0"
| "signals k (e # es) = (if e = Sem_signal k then 1 else 0) + signals k es"

lemma sem_next_other:
  "e \<noteq> Sem_wait k \<Longrightarrow> e \<noteq> Sem_signal k \<Longrightarrow> e \<noteq> Sem_broadcast k \<Longrightarrow> sem_next e r k vq = vq"
  by (cases vq; cases e) auto

lemma sem_next_permits:
  assumes wf: "fst vq = 0 \<or> snd vq = []" and nb: "e \<noteq> Sem_broadcast k"
    and room: "e = Sem_signal k \<Longrightarrow> unat (fst vq) + 1 < 2 ^ 32"
  shows "permits (sem_next e r k vq) = permits vq + balance k [e] \<and>
    (fst (sem_next e r k vq) = 0 \<or> snd (sem_next e r k vq) = []) \<and>
    unat (fst (sem_next e r k vq)) \<le> unat (fst vq) + signals k [e]"
proof -
  obtain v q where vq: "vq = (v, q)" by (cases vq)
  consider (w) "e = Sem_wait k" | (g) "e = Sem_signal k" | (o) "e \<noteq> Sem_wait k" "e \<noteq> Sem_signal k" by blast
  then show ?thesis
  proof cases
    case w
    show ?thesis
    proof (cases "v = 0")
      case True
      then show ?thesis by (simp add: w vq permits_def)
    next
      case False
      then have "unat (v - 1) = unat v - 1" "0 < unat v" by (simp_all add: unat_pred word_gt_0 unat_gt_0)
      then show ?thesis using False wf by (simp add: w vq permits_def del: of_nat_unat)
    qed
  next
    case g
    have "unat (v + 1) = unat v + 1" using room g by (simp add: vq unat_word_ariths)
    then show ?thesis using wf by (cases q) (simp_all add: g vq permits_def del: of_nat_unat)
  next
    case o
    then show ?thesis using sem_next_other [OF o nb] wf by simp
  qed
qed

text \<open>C11: A semaphore never grants more permits than it has: over any run without a
  broadcast, what is left of its count less the processes still waiting is the initial count plus
  the signals less the waits, and nobody waits while a permit is free. (A semaphore
  created with one permit is therefore a mutual exclusion lock.)\<close>

theorem sem_permits:
  assumes "sys_inv y" and "feasible es y" and "k < length (sy_sems y)" and "Sem_broadcast k \<notin> set es"
    and "fst (sem_state y k) = 0 \<or> snd (sem_state y k) = []"
    and "unat (fst (sem_state y k)) + signals k es < 2 ^ 32"
  shows "\<exists>y'. sys_run es y = Some y' \<and> permits (sem_state y' k) = permits (sem_state y k) + balance k es \<and>
    (fst (sem_state y' k) = 0 \<or> snd (sem_state y' k) = [])"
  using assms
proof (induction es arbitrary: y)
  case (Cons e es)
  from Cons.prems(2) have en: "enabled y e" "\<And>y'. sys_step e y = Some y' \<Longrightarrow> feasible es y'"
    by (auto elim: feasible_ConsE)
  obtain y1 where y1: "sys_step e y = Some y1" "sys_inv y1"
    "sem_state y1 k = sem_next e (running_pid (sy_proc y)) k (sem_state y k)" "length (sy_sems y1) = length (sy_sems y)"
    using sys_step_inv [OF Cons.prems(1) en(1)] Cons.prems(3) by metis
  have "e \<noteq> Sem_broadcast k" "e = Sem_signal k \<Longrightarrow> unat (fst (sem_state y k)) + 1 < 2 ^ 32"
    using Cons.prems(4,6) by auto
  note n = sem_next_permits [OF Cons.prems(5) this, of "running_pid (sy_proc y)", folded y1(3)]
  have "\<exists>y'. sys_run es y1 = Some y' \<and> permits (sem_state y' k) = permits (sem_state y1 k) + balance k es \<and>
    (fst (sem_state y' k) = 0 \<or> snd (sem_state y' k) = [])"
    by (rule Cons.IH) (use Cons.prems y1 en(2) n in \<open>auto split: if_splits\<close>)
  then show ?case using y1(1) n by auto
qed simp

subsection \<open>Witnesses\<close>

text \<open>Process 1 is running and 2 is ready; one wait queue and one semaphore with one permit.\<close>

definition blank_pcb :: pcb where
  "blank_pcb = \<lparr>p_id = FREE_PCB_PID, p_privilege_level = 0, p_cr3 = 0, p_esp = 0,
     p_next_empty_page_addr = 0, p_prev = FREE_QUEUE, p_next = FREE_QUEUE\<rparr>"

definition proc_demo :: proc_state where
  "proc_demo = \<lparr>tasks = tasks sched_demo, sc_actual = sc_actual sched_demo, sc_first = sc_first sched_demo,
     sc_last = sc_last sched_demo, running_tasks = running_tasks sched_demo,
     processes = replicate MAX_PID blank_pcb,
     cur_pid = the (running_pid sched_demo), tmp_pid = 0,
     sleeping = replicate MAX_PID \<lparr>s_id = FREE_PCB_PID, s_time = 0, s_next = FREE_PCB_PID\<rparr>,
     first_slept = FREE_PCB_PID, timer_count = 0, esp_reg = 0, cr3_reg = 0, tss_esp0 = 0\<rparr>"

definition sys_demo :: sys where
  "sys_demo = \<lparr>sy_proc = proc_demo, sy_queues = [FREE_QUEUE], sy_sems = [SEM_NEW 1]\<rparr>"

lemma proc_demo_sched:
  "sched_ok proc_demo" "ready_pids proc_demo = [1, 2]" "running_pid proc_demo = running_pid sched_demo"
proof -
  have slots: "ready_slots proc_demo = ready_slots sched_demo"
    by (simp add: ready_slots_def proc_demo_def)
  show "ready_pids proc_demo = [1, 2]"
    using sched_demo_facts(2) by (simp add: ready_pids_def slots) (simp add: proc_demo_def)
  show "running_pid proc_demo = running_pid sched_demo" by (simp add: running_pid_def proc_demo_def)
  show "sched_ok proc_demo"
    using sched_demo_facts(1) unfolding sched_ok_def slots by (simp add: sched_rel_def proc_demo_def)
qed

lemma sys_demo_ok: "sys_ok sys_demo [[], []] []"
proof -
  have run: "running_pid sched_demo \<noteq> None" using sched_demo_facts(3) by (auto simp: running_pid_def)
  then have "proc_ok proc_demo"
    using proc_demo_sched by (auto simp: proc_ok_def cpu_ok_def) (auto simp: proc_demo_def)
  moreover have "sleep_rel proc_demo []" by (simp add: sleep_rel_def delta_ok_def proc_demo_def)
  moreover have "unlinked (processes proc_demo) 1" "unlinked (processes proc_demo) 2"
    by (simp_all add: unlinked_def proc_demo_def blank_pcb_def)
  ultimately show ?thesis
    by (simp add: sys_ok_def placed_def sys_demo_def sys_heads_def SEM_NEW_def proc_demo_sched)
qed

lemmas sys_demo_inv = sys_ok_unique(3) [OF sys_demo_ok]

lemma sys_demo_sem: "sem_state sys_demo 0 = (1, [])"
  using sys_ok_unique(1) [OF sys_demo_ok]
  by (simp add: sem_state_def sem_view_def) (simp add: sys_demo_def SEM_NEW_def)

lemma sys_demo_running: "\<exists>p. running_pid (sy_proc sys_demo) = Some p"
  using sched_demo_facts(3) by (simp add: sys_demo_def proc_demo_sched) (auto simp: running_pid_def)

lemma feasible_ticks: "feasible (replicate n Tick) y"
  by (induction n arbitrary: y) (auto intro: feasible.intros)

theorem sys_run_safe_witness:
  "\<exists>y'. sys_run [Tick, Tick, Tick] sys_demo = Some y' \<and> sys_inv y' \<and> distinct (everyone y') \<and>
     set (everyone y') = set (everyone sys_demo)"
  by (rule sys_run_safe [OF sys_demo_inv]) (use feasible_ticks [of 3] in \<open>simp add: numeral_3_eq_3\<close>)

theorem sem_refines_witness:
  "\<exists>y'. sys_step (Sem_wait 0) sys_demo = Some y' \<and> sys_inv y' \<and>
    sem_state y' 0 = sem_next (Sem_wait 0) (running_pid (sy_proc sys_demo)) 0 (sem_state sys_demo 0)"
  by (rule sem_refines [OF sys_demo_inv]) (use sys_demo_running in \<open>auto simp: sys_demo_def\<close>)

theorem sem_permits_witness:
  "\<exists>y'. sys_run [Sem_wait 0] sys_demo = Some y' \<and>
     permits (sem_state y' 0) = permits (sem_state sys_demo 0) + balance 0 [Sem_wait 0] \<and>
     (fst (sem_state y' 0) = 0 \<or> snd (sem_state y' 0) = [])"
  by (rule sem_permits [OF sys_demo_inv])
    (use sys_demo_running in \<open>auto simp: sys_demo_sem intro!: feasible.intros, auto simp: sys_demo_def\<close>)

theorem sleep_exact_witness:
  "\<exists>p y1 y2 y3. sys_step (Sleep 3) sys_demo = Some y1 \<and> sys_run [Tick, Tick] y1 = Some y2 \<and>
    p \<notin> set (ready_pids (sy_proc y2)) \<and> sys_step Tick y2 = Some y3 \<and> p \<in> set (ready_pids (sy_proc y3))"
proof -
  obtain p where p: "running_pid (sy_proc sys_demo) = Some p" using sys_demo_running by blast
  then obtain y1 where y1: "sys_step (Sleep 3) sys_demo = Some y1"
    using sys_step_inv [OF sys_demo_inv, of "Sleep 3"] by (metis enabled.simps(4) option.distinct(1))
  have f: "feasible [Tick, Tick] y1" using feasible_ticks [of 2] by (simp add: numeral_2_eq_2)
  show ?thesis using sleep_exact [OF sys_demo_inv p _ y1 f] y1 by auto
qed

end
