(* ===== verification/Frames.thy ===== *)
theory Frames
  imports Sem
begin

section \<open>The frame allocator\<close>

text \<open>
  The physical page allocator of \<^verbatim>\<open>kernel/mm.c\<close>: a bitmap with one bit per page
  of the memory above 1 MB, most significant bit first; the pages below 4 MB are the
  kernel's, the rest is the users'. The bitmap is a function from C array indices to bytes:
  an index past its end (or a negative one) reaches whatever memory lies there, as in C.
  The second half proves the contract of an allocator for both zones and that the bitmap
  which the boot code builds from the BIOS memory map reserves itself and every region that
  is not available.
\<close>

subsection \<open>The code\<close>

abbreviation (input) PAGE_SIZE :: int where "PAGE_SIZE \<equiv> 4096"
abbreviation (input) HIMEM_BEGIN :: int where "HIMEM_BEGIN \<equiv> 0x100000"
abbreviation (input) MM_KERNEL_LIMIT :: int where "MM_KERNEL_LIMIT \<equiv> 0x400000"
abbreviation (input) MMAP_MEMORY_AVAILABLE :: u32 where "MMAP_MEMORY_AVAILABLE \<equiv> 1"

record mmap_entry =
  me_addr :: u64
  me_len :: u64
  me_type :: u32
  me_acpi :: u32

record mm_state = proc_state +
  mmap :: "mmap_entry list"
  mm_bitmap :: "int \<Rightarrow> u8"
  mm_bitmap_byte_len :: int
  phys :: "u32 \<Rightarrow> u8"
  kernel_pagetable :: u32

definition get_bit :: "int \<Rightarrow> 'a mm_state_scheme \<Rightarrow> bool option" where
  "get_bit position s = do {
     let offset = cdiv position 8;
     kassert (offset \<le> mm_bitmap_byte_len s);
     let b = position - offset * 8;
     kassert (b \<le> 8);
     Some (drop_bit (nat (7 - b)) (mm_bitmap s offset) AND 1 = 1)
   }"

definition set_bit_op :: "int \<Rightarrow> 'a mm_state_scheme \<Rightarrow> 'a mm_state_scheme option" where
  "set_bit_op position s = do {
     let offset = cdiv position 8;
     kassert (offset \<le> mm_bitmap_byte_len s);
     let b = position - offset * 8;
     kassert (b \<le> 8);
     let tmp_bit = push_bit (nat (7 - b)) 1;
     Some (s\<lparr>mm_bitmap := (mm_bitmap s)(offset := mm_bitmap s offset OR tmp_bit)\<rparr>)
   }"

definition clear_bit_op :: "int \<Rightarrow> 'a mm_state_scheme \<Rightarrow> 'a mm_state_scheme option" where
  "clear_bit_op position s = do {
     let offset = cdiv position 8;
     kassert (offset \<le> mm_bitmap_byte_len s);
     let b = position - offset * 8;
     kassert (b \<le> 8);
     let tmp_bit = push_bit (nat (7 - b)) 1 XOR 0xFF;
     Some (s\<lparr>mm_bitmap := (mm_bitmap s)(offset := mm_bitmap s offset AND tmp_bit)\<rparr>)
   }"

datatype request = MM_REQUEST_KERNEL | MM_REQUEST_USER

text \<open>The bytes of the bitmap that a request looks at: first, and one past the last.\<close>

fun zone :: "request \<Rightarrow> 'a mm_state_scheme \<Rightarrow> int \<times> int" where
  "zone MM_REQUEST_KERNEL s = (0, (MM_KERNEL_LIMIT - HIMEM_BEGIN) div PAGE_SIZE div 8)"
| "zone MM_REQUEST_USER s =
     ((MM_KERNEL_LIMIT - HIMEM_BEGIN) div PAGE_SIZE div 8, mm_bitmap_byte_len s)"

text \<open>\<^verbatim>\<open>while (bitfld != 0) { if (bitfld & 1) free_pg_count++; bitfld >>= 1; }\<close>\<close>

function count_ones :: "u8 \<Rightarrow> u32 \<Rightarrow> u32" where
  "count_ones bitfld c =
     (if bitfld \<noteq> 0 then count_ones (drop_bit 1 bitfld) (if bitfld AND 1 \<noteq> 0 then c + 1 else c) else c)"
  by auto
termination
proof (relation "measure (\<lambda>(b, c). unat b)")
  fix b :: u8 assume "b \<noteq> 0"
  then have "0 < unat b" by (simp add: unat_gt_0 word_gt_0)
  moreover have "unat (drop_bit 1 b) = unat b div 2"
    by (simp add: drop_bit_eq_div unat_div)
  ultimately show "((drop_bit 1 b, c'), (b, c)) \<in> measure (\<lambda>(b, c). unat b)" for c c' :: u32 by simp
qed simp

function count_free :: "(int \<Rightarrow> u8) \<Rightarrow> int \<Rightarrow> int \<Rightarrow> u32 \<Rightarrow> u32" where
  "count_free bm cursor limit c =
     (if cursor < limit
      then count_free bm (cursor + 1) limit (if bm cursor \<noteq> 0xFF then count_ones (NOT (bm cursor)) c else c)
      else c)"
  by auto
termination by (relation "measure (\<lambda>(bm, c, l, n). nat (l - c))") auto

definition mm_free_page_count :: "request \<Rightarrow> 'a mm_state_scheme \<Rightarrow> u32" where
  "mm_free_page_count r s = (let (cursor, limit) = zone r s in count_free (mm_bitmap s) cursor limit 0)"

function seek_byte :: "(int \<Rightarrow> u8) \<Rightarrow> int \<Rightarrow> int \<Rightarrow> int" where
  "seek_byte bm cursor limit =
     (if cursor < limit then (if bm cursor \<noteq> 0xFF then cursor else seek_byte bm (cursor + 1) limit)
      else cursor)"
  by auto
termination by (relation "measure (\<lambda>(bm, c, l). nat (l - c))") auto

text \<open>The loop over the eight bits of the byte that was found, from bit \<open>i\<close> on.\<close>

fun seek_bit :: "nat \<Rightarrow> int \<Rightarrow> 'a mm_state_scheme \<Rightarrow> (u32 \<times> 'a mm_state_scheme) option" where
  "seek_bit 0 i s = Some (0, s)"
| "seek_bit (Suc n) i s = do {
     b \<leftarrow> get_bit i s;
     if \<not> b then do {
       let dir = word_of_int (HIMEM_BEGIN + i * PAGE_SIZE);
       s \<leftarrow> set_bit_op i s;
       Some (dir, s)
     } else seek_bit n (i + 1) s
   }"

definition mm_mem_seek :: "request \<Rightarrow> 'a mm_state_scheme \<Rightarrow> (u32 \<times> 'a mm_state_scheme) option" where
  "mm_mem_seek r s = do {
     let (cursor, limit) = zone r s;
     let cursor = seek_byte (mm_bitmap s) cursor limit;
     if cursor = limit then Some (0, s)
     else do {
       (dir, s) \<leftarrow> seek_bit 8 (cursor * 8) s;
       kassert (dir AND 0xfff = 0);
       Some (dir, s)
     }
   }"

definition mm_mem_kalloc :: "'a mm_state_scheme \<Rightarrow> (u32 \<times> 'a mm_state_scheme) option" where
  "mm_mem_kalloc s = mm_mem_seek MM_REQUEST_KERNEL s"

definition mm_mem_alloc :: "'a mm_state_scheme \<Rightarrow> (u32 \<times> 'a mm_state_scheme) option" where
  "mm_mem_alloc s = mm_mem_seek MM_REQUEST_USER s"

definition mm_mem_free :: "u32 \<Rightarrow> 'a mm_state_scheme \<Rightarrow> 'a mm_state_scheme option" where
  "mm_mem_free frame s = clear_bit_op (cdiv (sint (frame - word_of_int HIMEM_BEGIN)) PAGE_SIZE) s"

text \<open>The scan of the memory map for its last available entry above 1 MB.\<close>

fun last_valid :: "mmap_entry list \<Rightarrow> u32 \<Rightarrow> u32 \<Rightarrow> u32" where
  "last_valid [] i r = r"
| "last_valid (e # es) i r =
     last_valid es (i + 1) (if me_addr e \<ge> 0x100000 \<and> me_type e = MMAP_MEMORY_AVAILABLE then i else r)"

definition mm_mmap_last_valid_entry :: "mmap_entry list \<Rightarrow> u32" where
  "mm_mmap_last_valid_entry es = last_valid es 0 0"

text \<open>
  \<^verbatim>\<open>for (entry = mmap_addr, i = 0; i <= last_valid_entry; ...)\<close> visits the first
  \<open>last_valid_entry + 1\<close> entries.
\<close>

definition mm_mem_length :: "mmap_entry list \<Rightarrow> u32 \<Rightarrow> u32" where
  "mm_mem_length es lv =
     foldl (\<lambda>n e. if me_addr e \<ge> 0x100000 then n + ucast (me_len e) else n) 0 (take (Suc (unat lv)) es)"

fun set_bits_from :: "nat \<Rightarrow> u32 \<Rightarrow> 'a mm_state_scheme \<Rightarrow> 'a mm_state_scheme option" where
  "set_bits_from 0 i s = Some s"
| "set_bits_from (Suc n) i s = do { s \<leftarrow> set_bit_op (sint i) s; set_bits_from n (i + 1) s }"

definition mm_reserve_bitmap_pages :: "u32 \<Rightarrow> 'a mm_state_scheme \<Rightarrow> 'a mm_state_scheme option" where
  "mm_reserve_bitmap_pages bitmap_byte_len s = do {
     s \<leftarrow> set_bits_from (unat (bitmap_byte_len div 4096)) 0 s;
     let i = bitmap_byte_len div 4096;
     if bitmap_byte_len - i * 4096 > 0 then set_bit_op (sint i) s else Some s
   }"

definition entry_pages :: "mmap_entry \<Rightarrow> u32" where
  "entry_pages e =
     (let len = ucast (me_len e div 4096) :: u32
      in if me_len e - ucast (len * 4096) > 0 then len + 1 else len)"

fun mm_mark_used :: "mmap_entry list \<Rightarrow> 'a mm_state_scheme \<Rightarrow> 'a mm_state_scheme option" where
  "mm_mark_used [] s = Some s"
| "mm_mark_used (e # es) s = do {
     s \<leftarrow> (if me_addr e \<ge> 0x100000 \<and> me_type e \<noteq> MMAP_MEMORY_AVAILABLE
           then set_bits_from (unat (entry_pages e)) (ucast ((me_addr e - 0x100000) div 4096)) s
           else Some s);
     mm_mark_used es s
   }"

text \<open>A map with no entry would be read past its end.\<close>

definition mm_setup_bitmap :: "mmap_entry list \<Rightarrow> 'a mm_state_scheme \<Rightarrow> 'a mm_state_scheme option" where
  "mm_setup_bitmap es s = do {
     let lv = mm_mmap_last_valid_entry es;
     kassert (unat lv < length es);
     let mem_length = mm_mem_length es lv;
     let s = s\<lparr>mm_bitmap_byte_len := sint (mem_length div 4096 div 8)\<rparr>;
     let s = s\<lparr>mm_bitmap := (\<lambda>i. if 0 \<le> i \<and> i < mm_bitmap_byte_len s then 0 else mm_bitmap s i)\<rparr>;
     s \<leftarrow> mm_reserve_bitmap_pages (word_of_int (mm_bitmap_byte_len s)) s;
     mm_mark_used (take (Suc (unat lv)) es) s
   }"

declare seek_byte.simps [simp del] count_free.simps [simp del] count_ones.simps [simp del]

subsection \<open>Bits\<close>

definition used_bit :: "(int \<Rightarrow> u8) \<Rightarrow> int \<Rightarrow> bool" where
  "used_bit bm p = bit (bm (p div 8)) (nat (7 - p mod 8))"

lemma and_one_bit: "(drop_bit n (w :: 'a::len word) AND 1 = 1) = bit w n"
  by (simp add: and_one_eq odd_iff_mod_2_eq_one bit_iff_odd_drop_bit)

lemma bit_pos: "p - p div 8 * 8 = p mod (8 :: int)"
  by (simp add: minus_div_mult_eq_mod)

lemma get_bit_eq [simp]:
  "0 \<le> p \<Longrightarrow> p div 8 \<le> mm_bitmap_byte_len s \<Longrightarrow> get_bit p s = Some (used_bit (mm_bitmap s) p)"
  by (simp add: get_bit_def Let_def bit_pos used_bit_def and_one_bit order.trans [OF less_imp_le [OF pos_mod_bound]])

definition with_bit :: "int \<Rightarrow> bool \<Rightarrow> (int \<Rightarrow> u8) \<Rightarrow> int \<Rightarrow> u8" where
  "with_bit p v bm = bm(p div 8 :=
     (if v then bm (p div 8) OR push_bit (nat (7 - p mod 8)) 1
      else bm (p div 8) AND (push_bit (nat (7 - p mod 8)) 1 XOR 0xFF)))"

lemma set_bit_eq [simp]:
  "0 \<le> p \<Longrightarrow> p div 8 \<le> mm_bitmap_byte_len s \<Longrightarrow>
   set_bit_op p s = Some (s\<lparr>mm_bitmap := with_bit p True (mm_bitmap s)\<rparr>)"
  by (simp add: set_bit_op_def Let_def bit_pos with_bit_def order.trans [OF less_imp_le [OF pos_mod_bound]])

lemma clear_bit_eq [simp]:
  "0 \<le> p \<Longrightarrow> p div 8 \<le> mm_bitmap_byte_len s \<Longrightarrow>
   clear_bit_op p s = Some (s\<lparr>mm_bitmap := with_bit p False (mm_bitmap s)\<rparr>)"
  by (simp add: clear_bit_op_def Let_def bit_pos with_bit_def order.trans [OF less_imp_le [OF pos_mod_bound]])

lemma bit_one_byte: "k < 8 \<Longrightarrow> bit (2 ^ n :: u8) k \<longleftrightarrow> k = n"
  by (auto simp: bit_exp_iff)

lemma u8_FF: "(0xFF :: u8) = - 1"
  by simp

lemma bit_FF: "k < 8 \<Longrightarrow> bit (- 1 :: u8) k"
  by simp

lemma used_with_bit [simp]: "used_bit (with_bit p v bm) q = (if q = p then v else used_bit bm q)"
proof (cases "q div 8 = p div 8")
  case True
  have k: "nat (7 - q mod 8) < 8" "nat (7 - p mod 8) < 8" by auto
  have qp: "nat (7 - q mod 8) = nat (7 - p mod 8) \<longleftrightarrow> q = p"
  proof
    assume a: "nat (7 - q mod 8) = nat (7 - p mod 8)"
    have "q mod 8 < 8" "p mod 8 < 8" by simp_all
    then have "q mod 8 = p mod 8" using a by linarith
    then show "q = p" using True by (metis div_mult_mod_eq)
  qed simp
  define m n where "m = nat (7 - q mod 8)" and "n = nat (7 - p mod 8)"
  note mn = k [folded m_def n_def] qp [folded m_def n_def]
  have "bit (if v then b OR push_bit n 1 else b AND (push_bit n 1 XOR 0xFF)) m = (if m = n then v else bit b m)" for b :: u8
    unfolding u8_FF using mn(1,2) by (simp add: bit_not_iff bit_or_iff bit_and_iff bit_xor_iff bit_one_byte bit_FF)
  then show ?thesis
    unfolding used_bit_def with_bit_def True m_def [symmetric] n_def [symmetric] using mn(3) by simp
next
  case False
  then show ?thesis by (auto simp: used_bit_def with_bit_def)
qed

lemma byte_full: "bm c = 0xFF \<longleftrightarrow> (\<forall>i\<in>{0..<8}. used_bit bm (c * 8 + i))"
proof -
  have "used_bit bm (c * 8 + i) = bit (bm c) (nat (7 - i))" if "i \<in> {0..<8}" for i
    using that by (simp add: used_bit_def)
  moreover have "bm c = 0xFF \<longleftrightarrow> (\<forall>k<8. bit (bm c) k)"
    unfolding u8_FF by (auto intro!: bit_word_eqI)
  moreover have "(\<forall>k<8. bit (bm c) k) \<longleftrightarrow> (\<forall>i\<in>{0..<8::int}. bit (bm c) (nat (7 - i)))"
  proof (intro iffI ballI allI impI)
    fix k :: nat assume a: "\<forall>i\<in>{0..<8::int}. bit (bm c) (nat (7 - i))" and k: "k < 8"
    from a have "bit (bm c) (nat (7 - (7 - int k)))" by (rule bspec) (use k in auto)
    then show "bit (bm c) k" by simp
  next
    fix i :: int assume a: "\<forall>k<8. bit (bm c) k" "i \<in> {0..<8}"
    then have "nat (7 - i) < 8" by auto
    then show "bit (bm c) (nat (7 - i))" using a by blast
  qed
  ultimately show ?thesis by simp
qed

subsection \<open>Seeking\<close>

lemma seek_byte_spec:
  assumes "c \<le> limit"
  shows "c \<le> seek_byte bm c limit" "seek_byte bm c limit \<le> limit"
    "\<forall>d. c \<le> d \<longrightarrow> d < seek_byte bm c limit \<longrightarrow> bm d = 0xFF"
    "seek_byte bm c limit < limit \<Longrightarrow> bm (seek_byte bm c limit) \<noteq> 0xFF"
proof -
  have "c \<le> seek_byte bm c limit \<and> seek_byte bm c limit \<le> limit \<and>
    (\<forall>d. c \<le> d \<longrightarrow> d < seek_byte bm c limit \<longrightarrow> bm d = 0xFF) \<and>
    (seek_byte bm c limit < limit \<longrightarrow> bm (seek_byte bm c limit) \<noteq> 0xFF)"
    using assms
  proof (induction bm c limit rule: seek_byte.induct)
    case (1 bm c limit)
    show ?case
    proof (cases "c < limit \<and> bm c = 0xFF")
      case True
      then have IH: "c + 1 \<le> seek_byte bm (c + 1) limit \<and> seek_byte bm (c + 1) limit \<le> limit \<and>
        (\<forall>d. c + 1 \<le> d \<longrightarrow> d < seek_byte bm (c + 1) limit \<longrightarrow> bm d = 0xFF) \<and>
        (seek_byte bm (c + 1) limit < limit \<longrightarrow> bm (seek_byte bm (c + 1) limit) \<noteq> 0xFF)"
        using 1 by simp
      have e: "seek_byte bm c limit = seek_byte bm (c + 1) limit" using True by (subst seek_byte.simps) simp
      have "bm d = 0xFF" if "c \<le> d" "d < seek_byte bm (c + 1) limit" for d
        using IH that True by (cases "d = c") auto
      then show ?thesis unfolding e using IH by auto
    next
      case False
      then have "seek_byte bm c limit = c" by (subst seek_byte.simps) simp
      then show ?thesis using "1.prems" False by auto
    qed
  qed
  then show "c \<le> seek_byte bm c limit" "seek_byte bm c limit \<le> limit"
    "\<forall>d. c \<le> d \<longrightarrow> d < seek_byte bm c limit \<longrightarrow> bm d = 0xFF"
    "seek_byte bm c limit < limit \<Longrightarrow> bm (seek_byte bm c limit) \<noteq> 0xFF" by blast+
qed

definition frame_at :: "int \<Rightarrow> u32" where
  "frame_at p = word_of_int (HIMEM_BEGIN + p * PAGE_SIZE)"

lemma seek_bit_spec:
  assumes "0 \<le> i" "\<exists>j\<in>{0..<int n}. \<not> used_bit (mm_bitmap s) (i + j)" "(i + int n - 1) div 8 \<le> mm_bitmap_byte_len s"
  shows "\<exists>j\<in>{0..<int n}. \<not> used_bit (mm_bitmap s) (i + j) \<and> (\<forall>k\<in>{0..<j}. used_bit (mm_bitmap s) (i + k)) \<and>
    seek_bit n i s = Some (frame_at (i + j), s\<lparr>mm_bitmap := with_bit (i + j) True (mm_bitmap s)\<rparr>)"
  using assms
proof (induction n arbitrary: i)
  case (Suc n)
  have b: "i div 8 \<le> mm_bitmap_byte_len s"
    using Suc.prems(3) zdiv_mono1 [of i "i + int (Suc n) - 1" 8] by simp
  show ?case
  proof (cases "used_bit (mm_bitmap s) i")
    case False
    then show ?thesis using b Suc.prems(1) by (intro bexI [of _ 0]) (auto simp: frame_at_def)
  next
    case True
    obtain j0 where j0: "j0 \<in> {0..<int (Suc n)}" "\<not> used_bit (mm_bitmap s) (i + j0)" using Suc.prems(2) by blast
    then have "j0 \<noteq> 0" using True by auto
    then have "j0 - 1 \<in> {0..<int n}" "\<not> used_bit (mm_bitmap s) (i + 1 + (j0 - 1))" using j0 by auto
    then have "\<exists>j\<in>{0..<int n}. \<not> used_bit (mm_bitmap s) (i + 1 + j)" by blast
    from Suc.IH [OF _ this] obtain j where j: "j \<in> {0..<int n}" "\<not> used_bit (mm_bitmap s) (i + 1 + j)"
      "\<forall>k\<in>{0..<j}. used_bit (mm_bitmap s) (i + 1 + k)"
      "seek_bit n (i + 1) s = Some (frame_at (i + 1 + j), s\<lparr>mm_bitmap := with_bit (i + 1 + j) True (mm_bitmap s)\<rparr>)"
      using Suc.prems(1,3) by (auto simp: algebra_simps)
    have "used_bit (mm_bitmap s) (i + k)" if "k \<in> {0..<j + 1}" for k
      using j(3) [rule_format, of "k - 1"] True that by (cases "k = 0") (auto simp: algebra_simps)
    then show ?thesis
      using j True b Suc.prems(1) by (intro bexI [of _ "j + 1"]) (auto simp: algebra_simps)
  qed
qed simp

text \<open>
  Enough memory for the kernel's zone, and no more than the 2 GB at which the signed
  arithmetic of \<^verbatim>\<open>mm_mem_free\<close> turns negative.
\<close>

definition frames_ok :: "'a mm_state_scheme \<Rightarrow> bool" where
  "frames_ok s \<longleftrightarrow> 96 \<le> mm_bitmap_byte_len s \<and> mm_bitmap_byte_len s \<le> 65536"

definition zone_bits :: "request \<Rightarrow> 'a mm_state_scheme \<Rightarrow> int set" where
  "zone_bits r s = {fst (zone r s) * 8..<snd (zone r s) * 8}"

lemma zone_range:
  "frames_ok s \<Longrightarrow> 0 \<le> fst (zone r s) \<and> fst (zone r s) \<le> snd (zone r s) \<and> snd (zone r s) \<le> mm_bitmap_byte_len s"
  by (cases r) (auto simp: frames_ok_def)

lemma frame_at_push: "frame_at p = push_bit 12 (word_of_int (256 + p))"
  by (simp add: frame_at_def push_bit_eq_mult algebra_simps)

lemma frame_at_aligned [simp]: "frame_at p AND 0xfff = 0"
  by (simp add: and_fff frame_at_push take_bit_push_bit)

lemma frame_at_uint: "0 \<le> p \<Longrightarrow> p < 524288 \<Longrightarrow> uint (frame_at p) = HIMEM_BEGIN + p * PAGE_SIZE"
  unfolding frame_at_def by (rule uint_of_int_small) auto

lemma frame_at_inj: "0 \<le> p \<Longrightarrow> p < 524288 \<Longrightarrow> 0 \<le> q \<Longrightarrow> q < 524288 \<Longrightarrow> frame_at p = frame_at q \<longleftrightarrow> p = q"
proof -
  assume r: "0 \<le> p" "p < 524288" "0 \<le> q" "q < 524288"
  have "p = q" if "frame_at p = frame_at q"
  proof -
    have "HIMEM_BEGIN + p * PAGE_SIZE = HIMEM_BEGIN + q * PAGE_SIZE"
      using that frame_at_uint [OF r(1,2)] frame_at_uint [OF r(3,4)] by (simp only:)
    then show ?thesis by simp
  qed
  then show ?thesis by blast
qed

lemma frame_at_nonzero: "0 \<le> p \<Longrightarrow> p < 524288 \<Longrightarrow> frame_at p \<noteq> 0"
  using frame_at_uint [of p] by auto

lemma mem_free_frame:
  assumes "frames_ok s" "0 \<le> p" "p div 8 < mm_bitmap_byte_len s"
  shows "mm_mem_free (frame_at p) s = Some (s\<lparr>mm_bitmap := with_bit p False (mm_bitmap s)\<rparr>)"
proof -
  have p: "p < 524288" using assms by (auto simp: frames_ok_def)
  have "frame_at p - word_of_int HIMEM_BEGIN = (word_of_int (p * PAGE_SIZE) :: u32)"
    by (simp add: frame_at_def)
  moreover have "sint (word_of_int (p * PAGE_SIZE) :: u32) = p * PAGE_SIZE"
    using p assms(2) by (intro sint_of_int_small) auto
  ultimately show ?thesis using assms by (simp add: mm_mem_free_def)
qed

lemma mem_seek_spec:
  assumes ok: "frames_ok s"
  shows "(\<exists>p\<in>zone_bits r s. \<not> used_bit (mm_bitmap s) p \<and> (\<forall>q\<in>zone_bits r s. q < p \<longrightarrow> used_bit (mm_bitmap s) q) \<and>
      mm_mem_seek r s = Some (frame_at p, s\<lparr>mm_bitmap := with_bit p True (mm_bitmap s)\<rparr>)) \<or>
    (\<forall>p\<in>zone_bits r s. used_bit (mm_bitmap s) p) \<and> mm_mem_seek r s = Some (0, s)"
proof -
  obtain lo hi where z: "zone r s = (lo, hi)" by (cases "zone r s")
  have rng: "0 \<le> lo" "lo \<le> hi" "hi \<le> mm_bitmap_byte_len s" using zone_range [OF ok, of r] z by auto
  define c where "c = seek_byte (mm_bitmap s) lo hi"
  note S = seek_byte_spec [OF rng(2), of "mm_bitmap s", folded c_def]
  have full: "used_bit (mm_bitmap s) p" if "lo * 8 \<le> p" "p < c * 8" for p
  proof -
    have "lo \<le> p div 8" "p div 8 < c" using that by auto
    then have "mm_bitmap s (p div 8) = 0xFF" using S(3) by blast
    then have "\<forall>i\<in>{0..<8}. used_bit (mm_bitmap s) (p div 8 * 8 + i)" using byte_full by blast
    from this [rule_format, of "p mod 8"] show ?thesis by simp
  qed
  show ?thesis
  proof (cases "c = hi")
    case True
    have "mm_mem_seek r s = Some (0, s)" using z True by (simp add: mm_mem_seek_def c_def)
    moreover have "\<forall>p\<in>zone_bits r s. used_bit (mm_bitmap s) p" using full True z by (simp add: zone_bits_def)
    ultimately show ?thesis by blast
  next
    case False
    then have c: "lo \<le> c" "c < hi" using S(1,2) by simp_all
    then have "\<exists>j\<in>{0..<int 8}. \<not> used_bit (mm_bitmap s) (c * 8 + j)"
      using S(4) byte_full [of "mm_bitmap s" c] by auto
    from seek_bit_spec [OF _ this] obtain j where j: "j \<in> {0..<8}" "\<not> used_bit (mm_bitmap s) (c * 8 + j)"
      "\<forall>k\<in>{0..<j}. used_bit (mm_bitmap s) (c * 8 + k)"
      "seek_bit 8 (c * 8) s = Some (frame_at (c * 8 + j), s\<lparr>mm_bitmap := with_bit (c * 8 + j) True (mm_bitmap s)\<rparr>)"
      using c rng by auto
    have seek: "mm_mem_seek r s = Some (frame_at (c * 8 + j), s\<lparr>mm_bitmap := with_bit (c * 8 + j) True (mm_bitmap s)\<rparr>)"
      using z False j(4) by (simp add: mm_mem_seek_def c_def [symmetric])
    have "c * 8 + j \<in> zone_bits r s" using c j(1) z by (auto simp: zone_bits_def)
    moreover have "used_bit (mm_bitmap s) q" if "q \<in> zone_bits r s" "q < c * 8 + j" for q
    proof (cases "q < c * 8")
      case False
      then have "q - c * 8 \<in> {0..<j}" using that by auto
      from j(3) [rule_format, OF this] show ?thesis by simp
    qed (use full that z in \<open>simp add: zone_bits_def\<close>)
    ultimately show ?thesis using j(2) seek by blast
  qed
qed

subsection \<open>The contract of a frame allocator\<close>

locale frame_allocator =
  fixes alloc :: "'s \<Rightarrow> (u32 \<times> 's) option"
    and free :: "u32 \<Rightarrow> 's \<Rightarrow> 's option"
    and pool :: "'s \<Rightarrow> u32 set"
    and taken :: "'s \<Rightarrow> u32 set"
    and ok :: "'s \<Rightarrow> bool"
  assumes alloc: "ok s \<Longrightarrow> pool s - taken s \<noteq> {} \<Longrightarrow>
      \<exists>f s'. alloc s = Some (f, s') \<and> f \<in> pool s - taken s \<and> ok s' \<and>
        taken s' = insert f (taken s) \<and> pool s' = pool s"
    and alloc_none: "ok s \<Longrightarrow> pool s - taken s = {} \<Longrightarrow> alloc s = Some (0, s)"
    and free: "ok s \<Longrightarrow> f \<in> pool s \<Longrightarrow>
      \<exists>s'. free f s = Some s' \<and> ok s' \<and> taken s' = taken s - {f} \<and> pool s' = pool s"
    and pool_finite: "ok s \<Longrightarrow> finite (pool s)"
    and pool_nonzero: "ok s \<Longrightarrow> 0 \<notin> pool s"
begin

fun alloc_times :: "nat \<Rightarrow> 's \<Rightarrow> (u32 list \<times> 's) option" where
  "alloc_times 0 s = Some ([], s)"
| "alloc_times (Suc n) s = do {
     (f, s) \<leftarrow> alloc s;
     (fs, s) \<leftarrow> alloc_times n s;
     Some (f # fs, s)
   }"

text \<open>As many frames as are free can be had, all different and none in use before.\<close>

lemma alloc_many:
  "ok s \<Longrightarrow> n \<le> card (pool s - taken s) \<Longrightarrow>
   \<exists>fs s'. alloc_times n s = Some (fs, s') \<and> length fs = n \<and> distinct fs \<and> set fs \<subseteq> pool s - taken s \<and>
     ok s' \<and> taken s' = set fs \<union> taken s \<and> pool s' = pool s"
proof (induction n arbitrary: s)
  case (Suc n)
  then have "pool s - taken s \<noteq> {}" by (metis card.empty not_less_eq_eq zero_le)
  with alloc Suc.prems(1) obtain f s1 where s1: "alloc s = Some (f, s1)" "f \<in> pool s - taken s" "ok s1"
    "taken s1 = insert f (taken s)" "pool s1 = pool s" by blast
  have "card (pool s1 - taken s1) = card (pool s - taken s) - 1"
    using s1 pool_finite [OF Suc.prems(1)] by (simp add: card_Diff_singleton flip: Diff_insert)
  then have "n \<le> card (pool s1 - taken s1)" using Suc.prems(2) by simp
  from Suc.IH [OF s1(3) this] obtain fs s' where "alloc_times n s1 = Some (fs, s')" "length fs = n" "distinct fs"
    "set fs \<subseteq> pool s1 - taken s1" "ok s'" "taken s' = set fs \<union> taken s1" "pool s' = pool s1" by blast
  then show ?case using s1 by (intro exI [of _ "f # fs"] exI [of _ s']) auto
qed simp

lemma alloc_after_free:
  assumes "ok s" "f \<in> pool s" "free f s = Some s1"
  shows "\<exists>g s2. alloc s1 = Some (g, s2) \<and> g \<noteq> 0"
proof -
  obtain s1' where "free f s = Some s1'" "ok s1'" "taken s1' = taken s - {f}" "pool s1' = pool s"
    using free [OF assms(1,2)] by blast
  then have s1: "ok s1" "pool s1 - taken s1 \<noteq> {}" using assms by auto
  then show ?thesis using alloc [OF s1] pool_nonzero [OF s1(1)] by (metis DiffD1)
qed

end

subsection \<open>Both zones keep the contract\<close>

definition frames :: "request \<Rightarrow> 'a mm_state_scheme \<Rightarrow> u32 set" where
  "frames r s = frame_at ` zone_bits r s"

definition taken_frames :: "'a mm_state_scheme \<Rightarrow> u32 set" where
  "taken_frames s = frame_at ` {p \<in> {0..<mm_bitmap_byte_len s * 8}. used_bit (mm_bitmap s) p}"

lemma zone_bits_range:
  assumes "frames_ok s" "p \<in> zone_bits r s"
  shows "0 \<le> p" "p < mm_bitmap_byte_len s * 8" "p < 524288" "p div 8 < mm_bitmap_byte_len s"
proof -
  show p: "0 \<le> p" "p < mm_bitmap_byte_len s * 8" using zone_range [OF assms(1), of r] assms(2) by (auto simp: zone_bits_def)
  show "p < 524288" using p assms(1) by (simp add: frames_ok_def)
  show "p div 8 < mm_bitmap_byte_len s" using p by simp
qed

lemma taken_iff:
  assumes "frames_ok s" "0 \<le> p" "p < mm_bitmap_byte_len s * 8"
  shows "frame_at p \<in> taken_frames s \<longleftrightarrow> used_bit (mm_bitmap s) p"
proof -
  have "p < 524288" "\<And>q. q < mm_bitmap_byte_len s * 8 \<Longrightarrow> q < 524288" using assms by (auto simp: frames_ok_def)
  then show ?thesis using assms by (auto simp: taken_frames_def frame_at_inj)
qed

lemma zone_upd [simp]: "zone r (s\<lparr>mm_bitmap := b\<rparr>) = zone r s"
  "zone_bits r (s\<lparr>mm_bitmap := b\<rparr>) = zone_bits r s" "frames r (s\<lparr>mm_bitmap := b\<rparr>) = frames r s"
  "frames_ok (s\<lparr>mm_bitmap := b\<rparr>) = frames_ok s"
proof -
  show "zone r (s\<lparr>mm_bitmap := b\<rparr>) = zone r s" by (cases r) simp_all
  then show "zone_bits r (s\<lparr>mm_bitmap := b\<rparr>) = zone_bits r s" "frames r (s\<lparr>mm_bitmap := b\<rparr>) = frames r s"
    by (simp_all add: zone_bits_def frames_def)
qed (simp add: frames_ok_def)

lemma used_with_True: "used_bit (with_bit p True bm) q \<longleftrightarrow> q = p \<or> used_bit bm q"
  and used_with_False: "used_bit (with_bit p False bm) q \<longleftrightarrow> q \<noteq> p \<and> used_bit bm q"
  by simp_all

lemma taken_upd:
  assumes "frames_ok s" "0 \<le> p" "p < mm_bitmap_byte_len s * 8"
  shows "taken_frames (s\<lparr>mm_bitmap := with_bit p True (mm_bitmap s)\<rparr>) = insert (frame_at p) (taken_frames s)"
    "taken_frames (s\<lparr>mm_bitmap := with_bit p False (mm_bitmap s)\<rparr>) = taken_frames s - {frame_at p}"
proof -
  define D where "D = {0..<mm_bitmap_byte_len s * 8}"
  have p: "p \<in> D" using assms(2,3) by (simp add: D_def)
  have inj: "inj_on frame_at D"
    using assms(1) by (intro inj_onI) (simp add: D_def frames_ok_def frame_at_inj)
  have t: "taken_frames (s\<lparr>mm_bitmap := b\<rparr>) = frame_at ` {q \<in> D. used_bit b q}" for b
    by (simp add: taken_frames_def D_def)
  have t0: "taken_frames s = frame_at ` {q \<in> D. used_bit (mm_bitmap s) q}"
    by (simp add: taken_frames_def D_def)
  have "{q \<in> D. q = p \<or> used_bit (mm_bitmap s) q} = insert p {q \<in> D. used_bit (mm_bitmap s) q}" using p by blast
  then show "taken_frames (s\<lparr>mm_bitmap := with_bit p True (mm_bitmap s)\<rparr>) = insert (frame_at p) (taken_frames s)"
    unfolding t t0 used_with_True by (simp only: image_insert)
  have e: "{q \<in> D. q \<noteq> p \<and> used_bit (mm_bitmap s) q} = {q \<in> D. used_bit (mm_bitmap s) q} - {p}" by blast
  have "frame_at ` ({q \<in> D. used_bit (mm_bitmap s) q} - {p}) =
      frame_at ` {q \<in> D. used_bit (mm_bitmap s) q} - frame_at ` {p}"
    by (rule inj_on_image_set_diff [OF inj]) (use p in auto)
  then show "taken_frames (s\<lparr>mm_bitmap := with_bit p False (mm_bitmap s)\<rparr>) = taken_frames s - {frame_at p}"
    unfolding t t0 used_with_False e by (simp only: image_insert image_empty)
qed

lemma seek_contract:
  assumes ok: "frames_ok s"
  shows "frames r s - taken_frames s \<noteq> {} \<Longrightarrow>
      \<exists>f s'. mm_mem_seek r s = Some (f, s') \<and> f \<in> frames r s - taken_frames s \<and> frames_ok s' \<and>
        taken_frames s' = insert f (taken_frames s) \<and> frames r s' = frames r s"
    and "frames r s - taken_frames s = {} \<Longrightarrow> mm_mem_seek r s = Some (0, s)"
proof -
  have mem: "frame_at p \<in> frames r s - taken_frames s \<longleftrightarrow> \<not> used_bit (mm_bitmap s) p" if "p \<in> zone_bits r s" for p
    using taken_iff [OF ok, of p] zone_bits_range [OF ok that] that by (auto simp: frames_def)
  note S = mem_seek_spec [OF ok, of r]
  {
    assume "frames r s - taken_frames s \<noteq> {}"
    then obtain p where "p \<in> zone_bits r s" "\<not> used_bit (mm_bitmap s) p"
      using mem by (auto simp: frames_def)
    then obtain q where q: "q \<in> zone_bits r s" "\<not> used_bit (mm_bitmap s) q"
      "mm_mem_seek r s = Some (frame_at q, s\<lparr>mm_bitmap := with_bit q True (mm_bitmap s)\<rparr>)" using S by blast
    then show "\<exists>f s'. mm_mem_seek r s = Some (f, s') \<and> f \<in> frames r s - taken_frames s \<and> frames_ok s' \<and>
        taken_frames s' = insert f (taken_frames s) \<and> frames r s' = frames r s"
      using mem [OF q(1)] taken_upd(1) [OF ok zone_bits_range(1,2) [OF ok q(1)]] ok by auto
  }
  {
    assume e: "frames r s - taken_frames s = {}"
    have "used_bit (mm_bitmap s) p" if "p \<in> zone_bits r s" for p using mem [OF that] e by auto
    then show "mm_mem_seek r s = Some (0, s)" using S by blast
  }
qed

lemma free_contract:
  assumes ok: "frames_ok s" and f: "f \<in> frames r s"
  shows "\<exists>s'. mm_mem_free f s = Some s' \<and> frames_ok s' \<and> taken_frames s' = taken_frames s - {f} \<and>
    frames r s' = frames r s"
proof -
  obtain p where p: "p \<in> zone_bits r s" "f = frame_at p" using f by (auto simp: frames_def)
  note R = zone_bits_range [OF ok p(1)]
  show ?thesis using mem_free_frame [OF ok R(1,4)] taken_upd(2) [OF ok R(1,2)] ok p(2) by simp
qed

lemma frames_finite: "frames_ok s \<Longrightarrow> finite (frames r s)"
  by (simp add: frames_def zone_bits_def)

lemma frames_nonzero: "frames_ok s \<Longrightarrow> 0 \<notin> frames r s"
proof
  assume ok: "frames_ok s" and "0 \<in> frames r s"
  then obtain p where p: "p \<in> zone_bits r s" "frame_at p = 0" by (auto simp: frames_def)
  then show False using zone_bits_range [OF ok p(1)] frame_at_nonzero [of p] by simp
qed

lemma kalloc_seek: "mm_mem_kalloc = mm_mem_seek MM_REQUEST_KERNEL"
  and alloc_seek: "mm_mem_alloc = mm_mem_seek MM_REQUEST_USER"
  by (simp_all add: fun_eq_iff mm_mem_kalloc_def mm_mem_alloc_def)

interpretation kf: frame_allocator mm_mem_kalloc mm_mem_free "frames MM_REQUEST_KERNEL" taken_frames frames_ok
  unfolding kalloc_seek
  by unfold_locales (fact seek_contract free_contract frames_finite frames_nonzero)+

interpretation uf: frame_allocator mm_mem_alloc mm_mem_free "frames MM_REQUEST_USER" taken_frames frames_ok
  unfolding alloc_seek
  by unfold_locales (fact seek_contract free_contract frames_finite frames_nonzero)+

text \<open>The zones do not overlap: a user frame is never a kernel frame.\<close>

lemma zones_disjoint: "frames_ok s \<Longrightarrow> frames MM_REQUEST_KERNEL s \<inter> frames MM_REQUEST_USER s = {}"
proof -
  assume ok: "frames_ok s"
  have "frame_at p \<noteq> frame_at q" if "p \<in> zone_bits MM_REQUEST_KERNEL s" "q \<in> zone_bits MM_REQUEST_USER s" for p q
    using that zone_bits_range [OF ok that(1)] zone_bits_range [OF ok that(2)] frame_at_inj [of p q]
    by (auto simp: zone_bits_def)
  then show ?thesis by (auto simp: frames_def)
qed

subsection \<open>Counting free frames\<close>

lemma bits_shift: "{k. bit (b :: u8) k} = (if b AND 1 \<noteq> 0 then {0} else {}) \<union> Suc ` {k. bit (drop_bit 1 b) k}"
proof -
  have "bit b k \<longleftrightarrow> (k = 0 \<and> b AND 1 \<noteq> 0) \<or> (\<exists>j. k = Suc j \<and> bit (drop_bit 1 b) j)" for k
    by (cases k) (auto simp: bit_0 and_one_eq odd_iff_mod_2_eq_one bit_drop_bit_eq)
  then show ?thesis by auto
qed

lemma bits_finite: "finite {k. bit (b :: 'a::len word) k}"
  by (rule finite_subset [of _ "{..<LENGTH('a)}"]) (auto dest: bit_imp_le_length)

lemma count_ones_card: "count_ones b c = c + of_nat (card {k. bit b k})"
proof (induction b c rule: count_ones.induct)
  case (1 b c)
  show ?case
  proof (cases "b = 0")
    case False
    have d: "{0} \<inter> Suc ` {k. bit (drop_bit 1 b) k} = {}" by auto
    have "card {k. bit b k} = (if b AND 1 \<noteq> 0 then 1 else 0) + card {k. bit (drop_bit 1 b) k}"
      unfolding bits_shift [of b] using d bits_finite [of "drop_bit 1 b"]
      by (auto simp: card_image card_Un_disjoint)
    then show ?thesis using 1 [OF False] False by (subst count_ones.simps) simp
  next
    case True
    have "{k. bit (0 :: u8) k} = {}" by simp
    then have "card {k. bit (0 :: u8) k} = 0" by (simp only: card.empty)
    moreover have "count_ones 0 c = c" by (subst count_ones.simps) simp
    ultimately show ?thesis unfolding True by (simp only: semiring_1_class.of_nat_0 add_0_right)
  qed
qed

lemma count_byte: "card {k. bit (NOT (bm c) :: u8) k} = card {p \<in> {c * 8..<(c + 1) * 8}. \<not> used_bit bm p}"
proof (rule bij_betw_same_card [of "\<lambda>k. c * 8 + 7 - int k"])
  have m: "(c * 8 + 7 - int k) mod 8 = 7 - int k" "(c * 8 + 7 - int k) div 8 = c" if "k < 8" for k
  proof -
    have "c * 8 + 7 - int k = (7 - int k) + c * 8" "0 \<le> 7 - int k" "7 - int k < 8" using that by simp_all
    then show "(c * 8 + 7 - int k) mod 8 = 7 - int k" "(c * 8 + 7 - int k) div 8 = c"
      by (simp_all only: mod_mult_self1 div_mult_self1 mod_pos_pos_trivial div_pos_pos_trivial)
  qed
  have "{k. bit (NOT (bm c)) k} = {k. k < 8 \<and> \<not> bit (bm c) k}" by (auto simp: bit_not_iff)
  moreover have "bij_betw (\<lambda>k. c * 8 + 7 - int k) {k. k < 8 \<and> \<not> bit (bm c) k} {p \<in> {c * 8..<(c + 1) * 8}. \<not> used_bit bm p}"
  proof (rule bij_betw_byWitness [where f' = "\<lambda>p. nat (7 - p mod 8)"], goal_cases)
    case 1
    show ?case using m by auto
  next
    case 2
    show ?case
    proof
      fix p assume "p \<in> {p \<in> {c * 8..<(c + 1) * 8}. \<not> used_bit bm p}"
      then have "c * 8 \<le> p" "p < (c + 1) * 8" by auto
      then have "c * 8 + p mod 8 = p" by presburger
      then show "c * 8 + 7 - int (nat (7 - p mod 8)) = p" by simp
    qed
  next
    case 3
    show ?case using m by (auto simp: used_bit_def)
  next
    case 4
    show ?case
    proof
      fix k assume "k \<in> (\<lambda>p. nat (7 - p mod 8)) ` {p \<in> {c * 8..<(c + 1) * 8}. \<not> used_bit bm p}"
      then obtain p where k: "k = nat (7 - p mod 8)" and p: "c * 8 \<le> p" "p < (c + 1) * 8" "\<not> used_bit bm p" by auto
      then have "p div 8 = c" by presburger
      then show "k \<in> {k. k < 8 \<and> \<not> bit (bm c) k}" using p(3) k by (simp add: used_bit_def)
    qed
  qed
  ultimately show "bij_betw (\<lambda>k. c * 8 + 7 - int k) {k. bit (NOT (bm c)) k} {p \<in> {c * 8..<(c + 1) * 8}. \<not> used_bit bm p}"
    by simp
qed

lemma count_free_card:
  assumes "c \<le> limit"
  shows "count_free bm c limit n = n + of_nat (card {p \<in> {c * 8..<limit * 8}. \<not> used_bit bm p})"
  using assms
proof (induction bm c limit n rule: count_free.induct)
  case (1 bm c limit n)
  show ?case
  proof (cases "c < limit")
    case True
    define n' where "n' = (if bm c \<noteq> 0xFF then count_ones (NOT (bm c)) n else n)"
    have z: "card {k. bit (NOT (bm c)) k} = 0" if "bm c = 0xFF"
    proof -
      have "NOT (bm c) = 0" using that by (simp add: u8_FF)
      then have "{k. bit (NOT (bm c)) k} = {}" by simp
      then show ?thesis by (simp only: card.empty)
    qed
    have n': "n' = n + of_nat (card {p \<in> {c * 8..<(c + 1) * 8}. \<not> used_bit bm p})"
    proof (cases "bm c = 0xFF")
      case True
      then show ?thesis using z [OF True, unfolded count_byte] by (simp add: n'_def)
    next
      case False
      then show ?thesis unfolding count_byte [symmetric] by (simp only: n'_def count_ones_card if_True not_False_eq_True)
    qed
    have fin: "finite {p \<in> {a..<b}. \<not> used_bit bm p}" for a b :: int
      by (rule finite_subset [of _ "{a..<b}"]) auto
    have U: "{p \<in> {c * 8..<limit * 8}. \<not> used_bit bm p} =
      {p \<in> {c * 8..<(c + 1) * 8}. \<not> used_bit bm p} \<union> {p \<in> {(c + 1) * 8..<limit * 8}. \<not> used_bit bm p}"
      using True by auto
    have card: "card {p \<in> {c * 8..<limit * 8}. \<not> used_bit bm p} =
      card {p \<in> {c * 8..<(c + 1) * 8}. \<not> used_bit bm p} + card {p \<in> {(c + 1) * 8..<limit * 8}. \<not> used_bit bm p}"
      unfolding U by (rule card_Un_disjoint [OF fin fin]) auto
    have "count_free bm c limit n = count_free bm (c + 1) limit n'"
      unfolding n'_def using True by (subst count_free.simps) simp
    moreover have "count_free bm (c + 1) limit n' =
        n' + of_nat (card {p \<in> {(c + 1) * 8..<limit * 8}. \<not> used_bit bm p})"
      unfolding n'_def using 1 True by simp
    ultimately show ?thesis unfolding card n' by (simp only: of_nat_add add.assoc)
  next
    case False
    then have "{p \<in> {c * 8..<limit * 8}. \<not> used_bit bm p} = {}" by auto
    then show ?thesis using False by (subst count_free.simps) (simp del: Collect_empty_eq)
  qed
qed

lemma free_count:
  assumes "frames_ok s"
  shows "mm_free_page_count r s = of_nat (card (frames r s - taken_frames s))"
proof -
  have b: "\<And>p. p \<in> zone_bits r s \<Longrightarrow> 0 \<le> p \<and> p < mm_bitmap_byte_len s * 8 \<and> p < 524288"
    using zone_bits_range [OF assms] by blast
  have "frames r s - taken_frames s = frame_at ` {p \<in> zone_bits r s. \<not> used_bit (mm_bitmap s) p}"
    using taken_iff [OF assms] b by (auto simp: frames_def)
  moreover have "inj_on frame_at {p \<in> zone_bits r s. \<not> used_bit (mm_bitmap s) p}"
    using b frame_at_inj by (intro inj_onI) auto
  ultimately have "card (frames r s - taken_frames s) = card {p \<in> zone_bits r s. \<not> used_bit (mm_bitmap s) p}"
    by (simp add: card_image)
  then show ?thesis
    using count_free_card [of "fst (zone r s)" "snd (zone r s)" "mm_bitmap s" 0] zone_range [OF assms, of r]
    by (simp add: mm_free_page_count_def zone_bits_def Let_def split_beta)
qed

subsection \<open>The bitmap at boot\<close>

lemma set_bits_from_spec:
  assumes "uint i + int n \<le> 2 ^ 31" and "n \<noteq> 0 \<Longrightarrow> (uint i + int n - 1) div 8 \<le> mm_bitmap_byte_len s"
  shows "\<exists>b. set_bits_from n i s = Some (s\<lparr>mm_bitmap := b\<rparr>) \<and>
    (\<forall>q. used_bit b q \<longleftrightarrow> used_bit (mm_bitmap s) q \<or> uint i \<le> q \<and> q < uint i + int n)"
  using assms
proof (induction n arbitrary: i s)
  case 0
  show ?case by (intro exI [of _ "mm_bitmap s"]) auto
next
  case (Suc n)
  have si: "sint i = uint i"
    by (rule sint_uint_small) (use Suc.prems(1) in simp)
  have up: "uint (i + 1) = uint i + 1 \<or> n = 0" using Suc.prems(1) by (simp add: uint_word_ariths)
  have d: "uint i div 8 \<le> mm_bitmap_byte_len s"
    using Suc.prems(2) zdiv_mono1 [of "uint i" "uint i + int (Suc n) - 1" 8] by simp
  let ?s = "s\<lparr>mm_bitmap := with_bit (uint i) True (mm_bitmap s)\<rparr>"
  have one: "set_bit_op (sint i) s = Some ?s" using d by (simp add: si)
  show ?case
  proof (cases "n = 0")
    case True
    then show ?thesis using one
      by (intro exI [of _ "with_bit (uint i) True (mm_bitmap s)"]) auto
  next
    case False
    then have u: "uint (i + 1) = uint i + 1" using up by simp
    have "\<exists>b. set_bits_from n (i + 1) ?s = Some (?s\<lparr>mm_bitmap := b\<rparr>) \<and>
      (\<forall>q. used_bit b q \<longleftrightarrow> used_bit (mm_bitmap ?s) q \<or> uint (i + 1) \<le> q \<and> q < uint (i + 1) + int n)"
      by (rule Suc.IH) (use Suc.prems u in \<open>simp_all add: algebra_simps\<close>)
    then obtain b where b: "set_bits_from n (i + 1) ?s = Some (?s\<lparr>mm_bitmap := b\<rparr>)"
      "\<And>q. used_bit b q \<longleftrightarrow> used_bit (mm_bitmap ?s) q \<or> uint (i + 1) \<le> q \<and> q < uint (i + 1) + int n" by blast
    have "used_bit b q \<longleftrightarrow> used_bit (mm_bitmap s) q \<or> uint i \<le> q \<and> q < uint i + int (Suc n)" for q
      unfolding b(2) u by auto
    then show ?thesis using one b(1) by (intro exI [of _ b]) simp
  qed
qed

definition bitmap_pages :: "int \<Rightarrow> int" where
  "bitmap_pages len = (len + 4095) div 4096"

lemma reserve_spec:
  assumes "0 \<le> len" "len \<le> 65536" "96 \<le> len" "mm_bitmap_byte_len s = len"
  shows "\<exists>b. mm_reserve_bitmap_pages (word_of_int len) s = Some (s\<lparr>mm_bitmap := b\<rparr>) \<and>
    (\<forall>q. used_bit b q \<longleftrightarrow> used_bit (mm_bitmap s) q \<or> 0 \<le> q \<and> q < bitmap_pages len)"
proof -
  define w :: u32 where "w = word_of_int len"
  have w: "uint w = len" unfolding w_def by (rule uint_of_int_small) (use assms in auto)
  have d: "uint (w div 4096) = len div 4096" using w by (simp add: uint_div)
  have n: "unat (w div 4096) = nat (len div 4096)" using d by (metis nat_uint_eq)
  have rest: "uint (w - w div 4096 * 4096) = len mod 4096"
    by (simp add: minus_div_mult_eq_mod uint_mod w)
  have small: "len div 4096 \<le> 16" using assms(2) by simp
  have "\<exists>b. set_bits_from (nat (len div 4096)) 0 s = Some (s\<lparr>mm_bitmap := b\<rparr>) \<and>
    (\<forall>q. used_bit b q \<longleftrightarrow> used_bit (mm_bitmap s) q \<or> uint (0 :: u32) \<le> q \<and> q < uint (0 :: u32) + int (nat (len div 4096)))"
    by (rule set_bits_from_spec) (use small assms in auto)
  then obtain b where b: "set_bits_from (nat (len div 4096)) 0 s = Some (s\<lparr>mm_bitmap := b\<rparr>)"
    "\<And>q. used_bit b q \<longleftrightarrow> used_bit (mm_bitmap s) q \<or> 0 \<le> q \<and> q < len div 4096" using assms(1) by auto
  show ?thesis
  proof (cases "len mod 4096 = 0")
    case True
    then have "w - w div 4096 * 4096 = 0" using rest by (simp add: uint_0_iff)
    moreover have "bitmap_pages len = len div 4096" using True by (simp add: bitmap_pages_def ceil_page)
    ultimately show ?thesis using b n by (auto simp: mm_reserve_bitmap_pages_def Let_def w_def [symmetric])
  next
    case False
    then have "w - w div 4096 * 4096 \<noteq> 0" using rest by auto
    then have pos: "w - w div 4096 * 4096 > 0" by (simp add: word_gt_0)
    have pg: "bitmap_pages len = len div 4096 + 1" using False by (simp add: bitmap_pages_def ceil_page)
    have "sint (w div 4096) = len div 4096"
      using sint_uint_small [of "w div 4096"] d small by simp
    moreover have "len div 4096 div 8 \<le> len" using small assms by simp
    ultimately have "mm_reserve_bitmap_pages w s = Some (s\<lparr>mm_bitmap := with_bit (len div 4096) True b\<rparr>)"
      using b(1) n pos assms by (simp add: mm_reserve_bitmap_pages_def Let_def)
    moreover have "used_bit (with_bit (len div 4096) True b) q \<longleftrightarrow>
        used_bit (mm_bitmap s) q \<or> 0 \<le> q \<and> q < bitmap_pages len" for q
    proof -
      define m where "m = len div 4096"
      have "0 \<le> m" using assms(1) by (simp add: m_def)
      then show ?thesis unfolding used_with_True b(2) pg m_def [symmetric] by auto
    qed
    ultimately show ?thesis unfolding w_def by blast
  qed
qed

text \<open>The pages of a region that the boot code takes for reserved.\<close>

definition region_pages :: "mmap_entry \<Rightarrow> int set" where
  "region_pages e = {(uint (me_addr e) - HIMEM_BEGIN) div PAGE_SIZE..<
     (uint (me_addr e) - HIMEM_BEGIN) div PAGE_SIZE + (uint (me_len e) + 4095) div PAGE_SIZE}"

definition reserved :: "mmap_entry \<Rightarrow> bool" where
  "reserved e \<longleftrightarrow> me_addr e \<ge> 0x100000 \<and> me_type e \<noteq> MMAP_MEMORY_AVAILABLE"

lemma mark_entry:
  assumes r: "me_addr e \<ge> 0x100000"
    and fits: "uint (me_addr e) + uint (me_len e) \<le> HIMEM_BEGIN + mm_bitmap_byte_len s * 32768"
    and ok: "frames_ok s"
  shows "\<exists>b. set_bits_from (unat (entry_pages e)) (ucast ((me_addr e - 0x100000) div 4096)) s =
      Some (s\<lparr>mm_bitmap := b\<rparr>) \<and>
    (\<forall>q. used_bit b q \<longleftrightarrow> used_bit (mm_bitmap s) q \<or> q \<in> region_pages e)"
proof -
  define a l where "a = uint (me_addr e)" and "l = uint (me_len e)"
  have al: "HIMEM_BEGIN \<le> a" "0 \<le> l" "a + l \<le> HIMEM_BEGIN + mm_bitmap_byte_len s * 32768" "mm_bitmap_byte_len s \<le> 65536"
    using r fits ok by (auto simp: a_def l_def frames_ok_def word_le_def)
  then have big: "a - HIMEM_BEGIN + l \<le> 2147483648" by simp
  have pos: "uint (ucast ((me_addr e - 0x100000) div 4096) :: u32) = (a - HIMEM_BEGIN) div 4096"
  proof -
    have "uint (me_addr e - 0x100000) = a - HIMEM_BEGIN"
      using al r by (simp add: a_def uint_sub_if' word_le_def)
    then have "uint ((me_addr e - 0x100000) div 4096) = (a - HIMEM_BEGIN) div 4096" by (simp add: uint_div)
    then show ?thesis using al big by (subst uint_ucast_small) simp_all
  qed
  have len: "uint (ucast (me_len e div 4096) :: u32) = l div 4096"
    using al big by (subst uint_ucast_small) (simp_all add: l_def uint_div)
  have pages: "uint (entry_pages e) = (l + 4095) div 4096"
  proof -
    define n :: u32 where "n = ucast (me_len e div 4096)"
    have n: "uint n = l div 4096" using len by (simp add: n_def)
    have "uint (n * 4096) = l div 4096 * 4096" using n al big by (simp add: uint_word_ariths)
    then have "uint (ucast (n * 4096) :: u64) = l div 4096 * 4096"
      using al big by (subst uint_ucast_small) simp_all
    then have m: "uint (me_len e - ucast (n * 4096)) = l mod 4096"
    proof -
      have "l div 4096 * 4096 = l - l mod 4096" by (simp add: minus_mod_eq_div_mult)
      moreover have "0 \<le> l mod 4096" by simp
      ultimately show ?thesis
        using \<open>uint (ucast (n * 4096) :: u64) = l div 4096 * 4096\<close> by (simp add: uint_sub_if' l_def)
    qed
    then have "me_len e - ucast (n * 4096) > 0 \<longleftrightarrow> l mod 4096 \<noteq> 0"
      by (metis uint_0_iff word_gt_0)
    moreover have "uint (n + 1) = l div 4096 + 1" using n al big by (simp add: uint_word_ariths)
    ultimately show ?thesis using n by (simp add: entry_pages_def Let_def n_def [symmetric] ceil_page)
  qed
  have up: "unat (entry_pages e) = nat ((l + 4095) div 4096)" using pages by (metis nat_uint_eq)
  have nn: "0 \<le> (l + 4095) div 4096" using al(2) by simp
  have end1: "(a - HIMEM_BEGIN) div 4096 + (l + 4095) div 4096 \<le> mm_bitmap_byte_len s * 8"
  proof -
    have "(a - HIMEM_BEGIN) div 4096 * 4096 \<le> a - HIMEM_BEGIN" "(l + 4095) div 4096 * 4096 \<le> l + 4095"
      by (simp_all flip: minus_mod_eq_div_mult)
    then show ?thesis using al(3) by linarith
  qed
  have "\<exists>b. set_bits_from (unat (entry_pages e)) (ucast ((me_addr e - 0x100000) div 4096)) s =
      Some (s\<lparr>mm_bitmap := b\<rparr>) \<and>
    (\<forall>q. used_bit b q \<longleftrightarrow> used_bit (mm_bitmap s) q \<or>
       uint (ucast ((me_addr e - 0x100000) div 4096) :: u32) \<le> q \<and>
       q < uint (ucast ((me_addr e - 0x100000) div 4096) :: u32) + int (unat (entry_pages e)))"
    by (rule set_bits_from_spec) (use al end1 nn in \<open>simp_all add: pos up\<close>)
  then show ?thesis using nn by (simp add: pos up region_pages_def a_def [symmetric] l_def [symmetric])
qed

lemma mark_used_spec:
  assumes "\<forall>e\<in>set es. reserved e \<longrightarrow>
      uint (me_addr e) + uint (me_len e) \<le> HIMEM_BEGIN + mm_bitmap_byte_len s * 32768"
    and "frames_ok s"
  shows "\<exists>b. mm_mark_used es s = Some (s\<lparr>mm_bitmap := b\<rparr>) \<and>
    (\<forall>q. used_bit b q \<longleftrightarrow> used_bit (mm_bitmap s) q \<or> (\<exists>e\<in>set es. reserved e \<and> q \<in> region_pages e))"
  using assms
proof (induction es arbitrary: s)
  case Nil
  show ?case by (intro exI [of _ "mm_bitmap s"]) auto
next
  case (Cons e es)
  have "\<exists>b. (if me_addr e \<ge> 0x100000 \<and> me_type e \<noteq> MMAP_MEMORY_AVAILABLE
       then set_bits_from (unat (entry_pages e)) (ucast ((me_addr e - 0x100000) div 4096)) s else Some s) =
      Some (s\<lparr>mm_bitmap := b\<rparr>) \<and>
    (\<forall>q. used_bit b q \<longleftrightarrow> used_bit (mm_bitmap s) q \<or> (reserved e \<and> q \<in> region_pages e))"
  proof (cases "reserved e")
    case True
    then show ?thesis using mark_entry [of e s] Cons.prems by (simp add: reserved_def)
  next
    case False
    then show ?thesis by (intro exI [of _ "mm_bitmap s"]) (auto simp: reserved_def)
  qed
  then obtain b where b: "(if me_addr e \<ge> 0x100000 \<and> me_type e \<noteq> MMAP_MEMORY_AVAILABLE
       then set_bits_from (unat (entry_pages e)) (ucast ((me_addr e - 0x100000) div 4096)) s else Some s) =
      Some (s\<lparr>mm_bitmap := b\<rparr>)"
    "\<And>q. used_bit b q \<longleftrightarrow> used_bit (mm_bitmap s) q \<or> (reserved e \<and> q \<in> region_pages e)" by blast
  have "\<exists>b'. mm_mark_used es (s\<lparr>mm_bitmap := b\<rparr>) = Some (s\<lparr>mm_bitmap := b\<rparr>\<lparr>mm_bitmap := b'\<rparr>) \<and>
    (\<forall>q. used_bit b' q \<longleftrightarrow> used_bit (mm_bitmap (s\<lparr>mm_bitmap := b\<rparr>)) q \<or>
       (\<exists>e\<in>set es. reserved e \<and> q \<in> region_pages e))"
    by (rule Cons.IH) (use Cons.prems in auto)
  then obtain b' where b': "mm_mark_used es (s\<lparr>mm_bitmap := b\<rparr>) = Some (s\<lparr>mm_bitmap := b'\<rparr>)"
    "\<And>q. used_bit b' q \<longleftrightarrow> used_bit b q \<or> (\<exists>e\<in>set es. reserved e \<and> q \<in> region_pages e)" by auto
  have "mm_mark_used (e # es) s = Some (s\<lparr>mm_bitmap := b'\<rparr>)"
    using b'(1) b(1) by (simp only: mm_mark_used.simps Option.bind.simps)
  then show ?case using b(2) b'(2) by (intro exI [of _ b']) auto
qed

text \<open>The entries that the boot code looks at, and the length of the bitmap that it makes.\<close>

definition seen_entries :: "mmap_entry list \<Rightarrow> mmap_entry list" where
  "seen_entries es = take (Suc (unat (mm_mmap_last_valid_entry es))) es"

definition boot_len :: "mmap_entry list \<Rightarrow> int" where
  "boot_len es = uint (mm_mem_length es (mm_mmap_last_valid_entry es)) div 32768"

lemma setup_bitmap_spec:
  assumes len: "96 \<le> boot_len es" "boot_len es \<le> 65536" and ne: "unat (mm_mmap_last_valid_entry es) < length es"
    and fits: "\<forall>e\<in>set (seen_entries es). reserved e \<longrightarrow>
      uint (me_addr e) + uint (me_len e) \<le> HIMEM_BEGIN + boot_len es * 32768"
  shows "\<exists>b. mm_setup_bitmap es s = Some (s\<lparr>mm_bitmap_byte_len := boot_len es, mm_bitmap := b\<rparr>) \<and>
    frames_ok (s\<lparr>mm_bitmap_byte_len := boot_len es, mm_bitmap := b\<rparr>) \<and>
    (\<forall>p\<in>{0..<boot_len es * 8}. used_bit b p \<longleftrightarrow>
       p * PAGE_SIZE < boot_len es \<or> (\<exists>e\<in>set (seen_entries es). reserved e \<and> p \<in> region_pages e))"
proof -
  define L where "L = boot_len es"
  define w where "w = mm_mem_length es (mm_mmap_last_valid_entry es) div 4096 div 8"
  have wu: "uint w = L" unfolding w_def L_def boot_len_def by (simp add: uint_div zdiv_zmult2_eq [symmetric])
  have ws: "sint w = L" using sint_uint_small [of w] wu len by (simp add: L_def)
  have wi: "word_of_int L = w" using wu by (metis word_of_int_uint)
  let ?s0 = "s\<lparr>mm_bitmap_byte_len := L, mm_bitmap := (\<lambda>i. if 0 \<le> i \<and> i < L then 0 else mm_bitmap s i)\<rparr>"
  have z: "\<not> used_bit (\<lambda>i. if 0 \<le> i \<and> i < L then 0 else mm_bitmap s i) p" if "0 \<le> p" "p < L * 8" for p
  proof -
    have "0 \<le> p div 8" "p div 8 < L" using that by auto
    then show ?thesis by (simp add: used_bit_def)
  qed
  obtain b where b: "mm_reserve_bitmap_pages w ?s0 = Some (?s0\<lparr>mm_bitmap := b\<rparr>)"
    "\<And>q. used_bit b q \<longleftrightarrow> used_bit (mm_bitmap ?s0) q \<or> 0 \<le> q \<and> q < bitmap_pages L"
    using reserve_spec [of L ?s0] len wi by (auto simp: L_def)
  have "\<exists>b'. mm_mark_used (seen_entries es) (?s0\<lparr>mm_bitmap := b\<rparr>) = Some (?s0\<lparr>mm_bitmap := b, mm_bitmap := b'\<rparr>) \<and>
    (\<forall>q. used_bit b' q \<longleftrightarrow> used_bit (mm_bitmap (?s0\<lparr>mm_bitmap := b\<rparr>)) q \<or>
      (\<exists>e\<in>set (seen_entries es). reserved e \<and> q \<in> region_pages e))"
    by (rule mark_used_spec) (use fits len in \<open>simp_all add: L_def frames_ok_def\<close>)
  then obtain b' where b': "mm_mark_used (seen_entries es) (?s0\<lparr>mm_bitmap := b\<rparr>) = Some (?s0\<lparr>mm_bitmap := b'\<rparr>)"
    "\<And>q. used_bit b' q \<longleftrightarrow> used_bit b q \<or> (\<exists>e\<in>set (seen_entries es). reserved e \<and> q \<in> region_pages e)" by auto
  have run: "mm_setup_bitmap es s = Some (?s0\<lparr>mm_bitmap := b'\<rparr>)"
    using b(1) b'(1) ne ws wi by (simp add: mm_setup_bitmap_def Let_def w_def [symmetric] seen_entries_def cong: if_cong)
  have "used_bit b' p \<longleftrightarrow> p * PAGE_SIZE < L \<or> (\<exists>e\<in>set (seen_entries es). reserved e \<and> p \<in> region_pages e)"
    if "p \<in> {0..<L * 8}" for p
  proof -
    have "p < bitmap_pages L \<longleftrightarrow> p * PAGE_SIZE < L"
    proof -
      define d r where "d = (L + 4095) div 4096" and "r = (L + 4095) mod 4096"
      have "L + 4095 = d * 4096 + r" by (simp add: d_def r_def div_mult_mod_eq)
      moreover have "0 \<le> r" "r < 4096" by (simp_all add: r_def)
      ultimately show ?thesis unfolding bitmap_pages_def d_def [symmetric] by linarith
    qed
    then show ?thesis using b(2) [of p] b'(2) [of p] z [of p] that by auto
  qed
  then show ?thesis using run len by (intro exI [of _ b']) (simp add: frames_ok_def L_def)
qed


text \<open>C5: The frame allocator, for the kernel's zone and for the users': while the zone has a
  free frame an allocation returns one, non-zero and in the zone, and marks it and nothing else as taken;
  when it has none the allocation returns 0 and changes nothing; freeing a frame of the zone
  makes exactly that frame available again.\<close>

theorem frame_alloc_free:
  assumes "frames_ok s"
  shows "(frames r s - taken_frames s \<noteq> {} \<longrightarrow>
      (\<exists>f s'. mm_mem_seek r s = Some (f, s') \<and> f \<in> frames r s - taken_frames s \<and> f \<noteq> 0 \<and> frames_ok s' \<and>
        taken_frames s' = insert f (taken_frames s))) \<and>
    (frames r s \<subseteq> taken_frames s \<longrightarrow> mm_mem_seek r s = Some (0, s)) \<and>
    (f \<in> frames r s \<longrightarrow>
      (\<exists>s'. mm_mem_free f s = Some s' \<and> frames_ok s' \<and> taken_frames s' = taken_frames s - {f}))"
proof (intro conjI impI)
  assume "frames r s - taken_frames s \<noteq> {}"
  from seek_contract(1) [OF assms this] show "\<exists>f s'. mm_mem_seek r s = Some (f, s') \<and>
      f \<in> frames r s - taken_frames s \<and> f \<noteq> 0 \<and> frames_ok s' \<and> taken_frames s' = insert f (taken_frames s)"
    using frames_nonzero [OF assms, of r] by (metis DiffD1)
next
  assume "f \<in> frames r s"
  from free_contract [OF assms this]
  show "\<exists>s'. mm_mem_free f s = Some s' \<and> frames_ok s' \<and> taken_frames s' = taken_frames s - {f}" by blast
qed (use seek_contract(2) [OF assms, of r] in blast)

text \<open>The number of free pages that the kernel reports is the number of frames of the
  zone that are not taken.\<close>

theorem free_pages_counted:
  assumes "frames_ok s"
  shows "unat (mm_free_page_count r s) = card (frames r s - taken_frames s)"
proof -
  have "frames r s \<subseteq> frame_at ` {0..<524288}"
    using zone_bits_range [OF assms] by (force simp: frames_def)
  then have "card (frames r s - taken_frames s) \<le> card (frame_at ` {0..<524288})"
    by (intro card_mono) auto
  also have "\<dots> \<le> 524288" using card_image_le [of "{0..<524288}" frame_at] by simp
  finally have "card (frames r s - taken_frames s) < 2 ^ 32" by simp
  then show ?thesis by (simp add: free_count [OF assms] unat_of_nat take_bit_nat_eq_self)
qed

subsection \<open>Witnesses\<close>

text \<open>A machine with 8 MB above the first, and a map with a reserved region of a page.\<close>

definition map_demo :: "mmap_entry list" where
  "map_demo = [\<lparr>me_addr = 0, me_len = 0x9fc00, me_type = 1, me_acpi = 0\<rparr>,
     \<lparr>me_addr = 0x100000, me_len = 0x7f0000, me_type = 1, me_acpi = 0\<rparr>,
     \<lparr>me_addr = 0x8f0000, me_len = 0x1000, me_type = 2, me_acpi = 0\<rparr>,
     \<lparr>me_addr = 0x8f1000, me_len = 0xf000, me_type = 1, me_acpi = 0\<rparr>]"

definition mm_demo :: "mm_state" where
  "mm_demo = proc_state.extend proc_demo (mm_state.fields map_demo (\<lambda>_. 0) 256 (\<lambda>_. 0) 0)"

lemma mm_demo_ok: "frames_ok mm_demo"
  by (simp add: frames_ok_def mm_demo_def mm_state.fields_def proc_state.extend_def)

lemma mm_demo_bits: "mm_bitmap mm_demo = (\<lambda>_. 0)" "mm_bitmap_byte_len mm_demo = 256"
  by (simp_all add: mm_demo_def mm_state.fields_def proc_state.extend_def)

lemma mm_demo_free:
  assumes "p \<in> zone_bits r mm_demo"
  shows "frame_at p \<in> frames r mm_demo - taken_frames mm_demo"
proof -
  have "\<not> used_bit (mm_bitmap mm_demo) p" by (simp add: mm_demo_bits used_bit_def)
  then show ?thesis using taken_iff [OF mm_demo_ok] zone_bits_range [OF mm_demo_ok assms] assms by (simp add: frames_def)
qed

theorem frame_alloc_free_witness:
  "(\<exists>f s'. mm_mem_seek MM_REQUEST_USER mm_demo = Some (f, s') \<and>
        f \<in> frames MM_REQUEST_USER mm_demo - taken_frames mm_demo \<and> f \<noteq> 0 \<and> frames_ok s' \<and>
        taken_frames s' = insert f (taken_frames mm_demo)) \<and>
    (\<exists>s'. mm_mem_free (frame_at 800) mm_demo = Some s' \<and> frames_ok s' \<and>
        taken_frames s' = taken_frames mm_demo - {frame_at 800})"
proof -
  have "frame_at 800 \<in> frames MM_REQUEST_USER mm_demo - taken_frames mm_demo"
    by (rule mm_demo_free) (simp add: zone_bits_def mm_demo_bits)
  then show ?thesis using frame_alloc_free [OF mm_demo_ok, of MM_REQUEST_USER "frame_at 800"] by blast
qed

theorem free_pages_counted_witness:
  "unat (mm_free_page_count MM_REQUEST_KERNEL mm_demo) =
     card (frames MM_REQUEST_KERNEL mm_demo - taken_frames mm_demo)"
  by (rule free_pages_counted [OF mm_demo_ok])

lemma map_demo_facts: "mm_mmap_last_valid_entry map_demo = 3" "boot_len map_demo = 256"
  "seen_entries map_demo = map_demo"
proof -
  show l: "mm_mmap_last_valid_entry map_demo = 3"
    by (simp add: mm_mmap_last_valid_entry_def map_demo_def)
  show "seen_entries map_demo = map_demo" unfolding seen_entries_def l by (simp add: map_demo_def)
  have "mm_mem_length map_demo 3 = 0x800000" by (simp add: mm_mem_length_def map_demo_def)
  then show "boot_len map_demo = 256" by (simp add: boot_len_def l)
qed


end
