(* ===== verification/Paging.thy ===== *)
theory Paging
  imports Frames
begin

section \<open>Page directories and page tables\<close>

text \<open>
  The paging half of \<^verbatim>\<open>kernel/mm.c\<close>. Directories and tables are frames of
  physical memory, an array of bytes in which their 32-bit entries are little endian;
  an \<^verbatim>\<open>mm_page*\<close> is a physical address, which the kernel uses directly because its
  own first 4 MB are mapped one to one (page 0 excepted, so that following \<^verbatim>\<open>NULL\<close>
  faults: \<open>None\<close>). The second half shows that mapping a frame changes the
  translation of that page and of no other, in that directory and in every other.
  The TLB is not modelled: every change is taken to be seen at once.
\<close>

subsection \<open>Memory words\<close>

definition ld32 :: "(u32 \<Rightarrow> u8) \<Rightarrow> u32 \<Rightarrow> u32" where
  "ld32 m a = ucast (m a) OR push_bit 8 (ucast (m (a + 1))) OR push_bit 16 (ucast (m (a + 2))) OR
     push_bit 24 (ucast (m (a + 3)))"

definition st32 :: "u32 \<Rightarrow> u32 \<Rightarrow> (u32 \<Rightarrow> u8) \<Rightarrow> u32 \<Rightarrow> u8" where
  "st32 a v m = m(a := ucast v, a + 1 := ucast (drop_bit 8 v), a + 2 := ucast (drop_bit 16 v),
     a + 3 := ucast (drop_bit 24 v))"

definition get32 :: "u32 \<Rightarrow> 'a mm_state_scheme \<Rightarrow> u32" where
  "get32 a s = ld32 (phys s) a"

definition put32 :: "u32 \<Rightarrow> u32 \<Rightarrow> 'a mm_state_scheme \<Rightarrow> 'a mm_state_scheme" where
  "put32 a v s = s\<lparr>phys := st32 a v (phys s)\<rparr>"

text \<open>\<^verbatim>\<open>memset((void*) a, 0, PAGE_SIZE)\<close> on a physical page.\<close>

definition zero_page :: "u32 \<Rightarrow> 'a mm_state_scheme \<Rightarrow> 'a mm_state_scheme" where
  "zero_page a s = s\<lparr>phys := (\<lambda>x. if x - a < 4096 then 0 else phys s x)\<rparr>"

subsection \<open>Entries\<close>

abbreviation (input) MM_ATTR_P :: u32 where "MM_ATTR_P \<equiv> 0x001"
abbreviation (input) MM_ATTR_RW :: u32 where "MM_ATTR_RW \<equiv> 0x002"
abbreviation (input) MM_ATTR_US_U :: u32 where "MM_ATTR_US_U \<equiv> 0x004"
abbreviation (input) MM_ATTR_US_S :: u32 where "MM_ATTR_US_S \<equiv> 0x000"
abbreviation (input) MM_ATTR_USR_SHARED :: u32 where "MM_ATTR_USR_SHARED \<equiv> 0x200"
abbreviation (input) MM_ATTR_USR_COR :: u32 where "MM_ATTR_USR_COR \<equiv> 0x400"
abbreviation (input) PAGE_REQUESTED :: u32 where "PAGE_REQUESTED \<equiv> 2"
abbreviation (input) MM_TMP_PAGE :: u32 where "MM_TMP_PAGE \<equiv> 0xFF800000"

text \<open>\<^verbatim>\<open>struct str_mm_page\<close>: 12 bits of attributes, 20 bits of base.\<close>

definition attr_of :: "u32 \<Rightarrow> u32" where
  "attr_of e = e AND 0xFFF"

definition base_addr :: "u32 \<Rightarrow> u32" where
  "base_addr e = push_bit 12 (drop_bit 12 e)"

definition with_attr :: "u32 \<Rightarrow> u32 \<Rightarrow> u32" where
  "with_attr a e = base_addr e OR (a AND 0xFFF)"

definition with_base :: "u32 \<Rightarrow> u32 \<Rightarrow> u32" where
  "with_base b e = push_bit 12 b OR attr_of e"

definition WITHOUT_ATTRS :: "u32 \<Rightarrow> u32" where
  "WITHOUT_ATTRS x = x AND NOT 0xFFF"

definition PD_ENTRY_FOR :: "u32 \<Rightarrow> u32" where
  "PD_ENTRY_FOR x = drop_bit 22 x"

definition PT_ENTRY_FOR :: "u32 \<Rightarrow> u32" where
  "PT_ENTRY_FOR x = drop_bit 12 (x AND 0x3FF000)"

definition pd_entry :: "u32 \<Rightarrow> u32 \<Rightarrow> u32" where
  "pd_entry vaddr pdt = pdt + 4 * PD_ENTRY_FOR vaddr"

definition pt_slot :: "u32 \<Rightarrow> u32 \<Rightarrow> u32" where
  "pt_slot vaddr table = table + 4 * PT_ENTRY_FOR vaddr"

definition aligned :: "u32 \<Rightarrow> bool" where
  "aligned a \<longleftrightarrow> a AND 0xFFF = 0"

definition mm_free_page_table_for :: "u32 \<Rightarrow> u32 \<Rightarrow> 'a mm_state_scheme \<Rightarrow> 'a mm_state_scheme option" where
  "mm_free_page_table_for vaddr pdt s = do {
     kassert (aligned vaddr);
     let pde = pd_entry vaddr pdt;
     let frame = base_addr (get32 pde s);
     s \<leftarrow> mm_mem_free frame s;
     Some (put32 pde 0 s)
   }"

text \<open>The condition is \<^verbatim>\<open>!(pdt[entry].attr && MM_ATTR_P)\<close>: an entry with no attribute at all.\<close>

fun vaddr_for_free :: "nat \<Rightarrow> u32 \<Rightarrow> u32 \<Rightarrow> 'a mm_state_scheme \<Rightarrow> u32" where
  "vaddr_for_free 0 entry pdt s = 0"
| "vaddr_for_free (Suc n) entry pdt s =
     (if attr_of (get32 (pdt + 4 * entry) s) = 0 then push_bit 22 entry
      else vaddr_for_free n (entry + 1) pdt s)"

definition mm_vaddr_for_free_pdt_entry :: "u32 \<Rightarrow> 'a mm_state_scheme \<Rightarrow> u32" where
  "mm_vaddr_for_free_pdt_entry pdt s = vaddr_for_free 1024 0 pdt s"

definition mm_pt_entry_for :: "u32 \<Rightarrow> u32 \<Rightarrow> 'a mm_state_scheme \<Rightarrow> u32 option" where
  "mm_pt_entry_for vaddr pdt s = do {
     kassert (aligned vaddr);
     let pde = get32 (pd_entry vaddr pdt) s;
     if attr_of pde AND MM_ATTR_P = 0 then Some 0
     else Some (pt_slot vaddr (base_addr pde))
   }"

definition mm_frame_from_page :: "u32 \<Rightarrow> u32 \<Rightarrow> 'a mm_state_scheme \<Rightarrow> u32 option" where
  "mm_frame_from_page virt_addr pdt s = do {
     e \<leftarrow> mm_pt_entry_for virt_addr pdt s;
     kassert (e \<noteq> 0);
     Some (base_addr (get32 e s))
   }"

definition mm_pl_of_vaddr :: "u32 \<Rightarrow> u32 \<Rightarrow> 'a mm_state_scheme \<Rightarrow> u32 option" where
  "mm_pl_of_vaddr vaddr pdt s = do {
     entry \<leftarrow> mm_pt_entry_for (vaddr AND NOT 0xFFF) pdt s;
     if entry = 0 then Some PL_KERNEL
     else if attr_of (get32 entry s) AND MM_ATTR_US_U \<noteq> 0 \<or>
             (attr_of (get32 entry s) AND MM_ATTR_P = 0 \<and> get32 entry s AND PAGE_REQUESTED \<noteq> 0)
          then Some PL_USER else Some PL_KERNEL
   }"

text \<open>
  The two functions that install a table where the directory has none share this part; a
  frame 0 is not mapped, so clearing the table it should be faults in the kernel.
\<close>

definition install_table :: "u32 \<Rightarrow> u32 \<Rightarrow> 'a mm_state_scheme \<Rightarrow> 'a mm_state_scheme option" where
  "install_table pde frame s = do {
     let s = put32 pde frame s;
     let s = put32 pde (with_attr (MM_ATTR_P OR MM_ATTR_RW OR MM_ATTR_US_U) (get32 pde s)) s;
     kassert (base_addr (get32 pde s) \<noteq> 0);
     Some (zero_page (base_addr (get32 pde s)) s)
   }"

definition mm_map_frame :: "u32 \<Rightarrow> u32 \<Rightarrow> u32 \<Rightarrow> u32 \<Rightarrow> 'a mm_state_scheme \<Rightarrow> 'a mm_state_scheme option" where
  "mm_map_frame phys_addr virt_addr pdt pl s = do {
     kassert (aligned phys_addr);
     kassert (aligned virt_addr);
     let pde = pd_entry virt_addr pdt;
     s \<leftarrow> (if attr_of (get32 pde s) AND MM_ATTR_P = 0 then do {
             (frame, s) \<leftarrow> mm_mem_kalloc s;
             install_table pde frame s
           } else Some s);
     let slot = pt_slot virt_addr (base_addr (get32 pde s));
     let s = put32 slot (with_base (drop_bit 12 phys_addr) (get32 slot s)) s;
     let s = put32 slot (with_attr (MM_ATTR_P OR MM_ATTR_RW OR
               (if pl = PL_KERNEL then MM_ATTR_US_S else MM_ATTR_US_U)) (get32 slot s)) s;
     Some s
   }"

definition mm_unmap_page :: "u32 \<Rightarrow> u32 \<Rightarrow> 'a mm_state_scheme \<Rightarrow> 'a mm_state_scheme option" where
  "mm_unmap_page virt_addr pdt s = do {
     kassert (aligned virt_addr);
     let pde = pd_entry virt_addr pdt;
     kassert (attr_of (get32 pde s) AND MM_ATTR_P \<noteq> 0);
     Some (put32 (pt_slot virt_addr (base_addr (get32 pde s))) 0 s)
   }"

definition mm_dir_new :: "'a mm_state_scheme \<Rightarrow> (u32 \<times> 'a mm_state_scheme) option" where
  "mm_dir_new s = do {
     (cr3, s) \<leftarrow> mm_mem_kalloc s;
     kassert (cr3 \<noteq> 0);
     let s = zero_page cr3 s;
     let s = put32 cr3 (with_base (drop_bit 12 (kernel_pagetable s)) (get32 cr3 s)) s;
     let s = put32 cr3 (with_attr (MM_ATTR_US_S OR MM_ATTR_RW OR MM_ATTR_P) (get32 cr3 s)) s;
     Some (cr3, s)
   }"

fun fill_kernel_table :: "nat \<Rightarrow> u32 \<Rightarrow> 'a mm_state_scheme \<Rightarrow> 'a mm_state_scheme" where
  "fill_kernel_table 0 pte s = s"
| "fill_kernel_table (Suc n) pte s =
     (let slot = kernel_pagetable s + 4 * pte;
          s = put32 slot (with_base pte (get32 slot s)) s;
          s = put32 slot (with_attr (MM_ATTR_P OR MM_ATTR_RW OR MM_ATTR_US_S) (get32 slot s)) s
      in fill_kernel_table n (pte + 1) s)"

definition mm_init_kernel_pagetable :: "'a mm_state_scheme \<Rightarrow> 'a mm_state_scheme option" where
  "mm_init_kernel_pagetable s = do {
     (frame, s) \<leftarrow> mm_mem_kalloc s;
     let s = s\<lparr>kernel_pagetable := frame\<rparr>;
     let s = put32 (kernel_pagetable s) 0 s;
     Some (fill_kernel_table 1023 1 s)
   }"

text \<open>The registration of the page fault handler is left to the interrupt model.\<close>

definition mm_init :: "mmap_entry list \<Rightarrow> 'a mm_state_scheme \<Rightarrow> 'a mm_state_scheme option" where
  "mm_init es s = do {
     let s = s\<lparr>mmap := es\<rparr>;
     s \<leftarrow> mm_setup_bitmap es s;
     mm_init_kernel_pagetable s
   }"

definition mm_set_pt_entry :: "u32 \<Rightarrow> u32 \<Rightarrow> u32 \<Rightarrow> 'a mm_state_scheme \<Rightarrow> (bool \<times> 'a mm_state_scheme) option" where
  "mm_set_pt_entry vaddr entry_value pdt s = do {
     kassert (aligned vaddr);
     kassert (entry_value AND MM_ATTR_P = 0);
     let pde = pd_entry vaddr pdt;
     if attr_of (get32 pde s) AND MM_ATTR_P = 0 then do {
       (frame, s) \<leftarrow> mm_mem_kalloc s;
       if frame = 0 then Some (False, s)
       else do {
         s \<leftarrow> install_table pde frame s;
         Some (True, put32 (pt_slot vaddr (base_addr (get32 pde s))) entry_value s)
       }
     } else Some (True, put32 (pt_slot vaddr (base_addr (get32 pde s))) entry_value s)
   }"

definition set_as_requested :: "u32 \<Rightarrow> u32 \<Rightarrow> 'a mm_state_scheme \<Rightarrow> (bool \<times> 'a mm_state_scheme) option" where
  "set_as_requested page pdt s = do {
     kassert (aligned page);
     e \<leftarrow> mm_pt_entry_for page pdt s;
     if e = 0 then mm_set_pt_entry page PAGE_REQUESTED pdt s
     else mm_set_pt_entry page (get32 e s OR PAGE_REQUESTED) pdt s
   }"

definition is_requested :: "u32 \<Rightarrow> u32 \<Rightarrow> 'a mm_state_scheme \<Rightarrow> bool option" where
  "is_requested page pdt s = do {
     e \<leftarrow> mm_pt_entry_for page pdt s;
     if e = 0 \<or> get32 e s AND MM_ATTR_P \<noteq> 0 then Some False
     else Some (get32 e s AND PAGE_REQUESTED \<noteq> 0)
   }"

definition is_to_be_copied_on_write :: "u32 \<Rightarrow> u32 \<Rightarrow> 'a mm_state_scheme \<Rightarrow> bool option" where
  "is_to_be_copied_on_write page pdt s = do {
     e \<leftarrow> mm_pt_entry_for page pdt s;
     if e = 0 then Some False
     else Some (attr_of (get32 e s) AND MM_ATTR_RW = 0 \<and>
                attr_of (get32 e s) AND (MM_ATTR_P OR MM_ATTR_USR_COR) \<noteq> 0)
   }"

definition palloc :: "'a mm_state_scheme \<Rightarrow> (u32 \<times> 'a mm_state_scheme) option" where
  "palloc s = do {
     p \<leftarrow> aget (processes s) (cur_pid s);
     let page = p_next_empty_page_addr p;
     ps \<leftarrow> aupd (cur_pid s) (\<lambda>p. p\<lparr>p_next_empty_page_addr := p_next_empty_page_addr p + 4096\<rparr>) (processes s);
     let s = s\<lparr>processes := ps\<rparr>;
     pdt \<leftarrow> cur_pdt s;
     (ok, s) \<leftarrow> set_as_requested page pdt s;
     if \<not> ok then Some (0, s) else Some (page, s)
   }"

text \<open>The loops over the other processes: does one of them satisfy the test?\<close>

fun any_other :: "nat \<Rightarrow> int \<Rightarrow> (pcb \<Rightarrow> bool option) \<Rightarrow> 'a proc_state_scheme \<Rightarrow> bool option" where
  "any_other 0 i test s = Some False"
| "any_other (Suc n) i test s = do {
     p \<leftarrow> aget (processes s) i;
     if p_id p = FREE_PCB_PID \<or> i = cur_pid s then any_other n (i + 1) test s
     else do {
       b \<leftarrow> test p;
       if b then Some True else any_other n (i + 1) test s
     }
   }"

definition shared_with_other_processes :: "u32 \<Rightarrow> 'a mm_state_scheme \<Rightarrow> bool option" where
  "shared_with_other_processes vaddr s = any_other MAX_PID 0 (\<lambda>p. do {
     entry \<leftarrow> mm_pt_entry_for vaddr (p_cr3 p) s;
     Some (entry \<noteq> 0 \<and> attr_of (get32 entry s) AND MM_ATTR_USR_SHARED \<noteq> 0)
   }) s"

definition is_to_be_copied_on_write_by_other_processes :: "u32 \<Rightarrow> 'a mm_state_scheme \<Rightarrow> bool option" where
  "is_to_be_copied_on_write_by_other_processes vaddr s = any_other MAX_PID 0 (\<lambda>p. do {
     entry \<leftarrow> mm_pt_entry_for vaddr (p_cr3 p) s;
     Some (entry \<noteq> 0 \<and> attr_of (get32 entry s) AND (MM_ATTR_P OR MM_ATTR_USR_COR) \<noteq> 0 \<and>
           attr_of (get32 entry s) AND NOT MM_ATTR_RW \<noteq> 0)
   }) s"

definition dir_free_pte :: "u32 \<Rightarrow> u32 \<Rightarrow> u32 \<Rightarrow> 'a mm_state_scheme \<Rightarrow> 'a mm_state_scheme option" where
  "dir_free_pte table pde pte s = do {
     let vaddr = push_bit 22 pde + push_bit 12 pte;
     let slot = table + 4 * pte;
     if attr_of (get32 slot s) AND MM_ATTR_P \<noteq> 0 then do {
       cow \<leftarrow> is_to_be_copied_on_write_by_other_processes vaddr s;
       if cow then do {
         let s = put32 slot (with_attr (attr_of (get32 slot s) AND NOT MM_ATTR_USR_COR) (get32 slot s)) s;
         Some (put32 slot (with_attr (attr_of (get32 slot s) OR MM_ATTR_RW) (get32 slot s)) s)
       } else do {
         sh \<leftarrow> shared_with_other_processes vaddr s;
         if sh then Some s else mm_mem_free (base_addr (get32 slot s)) s
       }
     } else Some s
   }"

fun dir_free_table :: "nat \<Rightarrow> u32 \<Rightarrow> u32 \<Rightarrow> u32 \<Rightarrow> 'a mm_state_scheme \<Rightarrow> 'a mm_state_scheme option" where
  "dir_free_table 0 table pde pte s = Some s"
| "dir_free_table (Suc n) table pde pte s = do {
     s \<leftarrow> dir_free_pte table pde pte s;
     dir_free_table n table pde (pte + 1) s
   }"

fun dir_free_tables :: "nat \<Rightarrow> u32 \<Rightarrow> u32 \<Rightarrow> 'a mm_state_scheme \<Rightarrow> 'a mm_state_scheme option" where
  "dir_free_tables 0 directory pde s = Some s"
| "dir_free_tables (Suc n) directory pde s = do {
     let e = get32 (directory + 4 * pde) s;
     s \<leftarrow> (if attr_of e AND MM_ATTR_P \<noteq> 0 then do {
             let table = base_addr e;
             s \<leftarrow> dir_free_table 1024 table pde 0 s;
             mm_mem_free table s
           } else Some s);
     dir_free_tables n directory (pde + 1) s
   }"

definition mm_dir_free :: "u32 \<Rightarrow> 'a mm_state_scheme \<Rightarrow> 'a mm_state_scheme option" where
  "mm_dir_free directory s = do {
     let directory = WITHOUT_ATTRS directory;
     s \<leftarrow> dir_free_tables 1023 directory 1 s;
     mm_mem_free directory s
   }"

subsection \<open>Addresses inside pages and words\<close>

lemma add_low:
  fixes a k :: "'a::len word"
  assumes a: "take_bit n a = 0" and k: "take_bit n k = k"
  shows "a + k = a OR k" "drop_bit n (a + k) = drop_bit n a" "take_bit n (a + k) = k"
proof -
  have "\<not> bit a i \<or> \<not> bit k i" for i
  proof (cases "i < n")
    case True
    have "bit (take_bit n a) i = (i < n \<and> bit a i)" by (simp add: bit_take_bit_iff)
    then show ?thesis using True a by simp
  next
    case False
    have "bit (take_bit n k) i = (i < n \<and> bit k i)" by (simp add: bit_take_bit_iff)
    then show ?thesis using False k by simp
  qed
  then show e: "a + k = a OR k" by (rule disjunctive_add)
  have "drop_bit n k = 0" using k by (metis drop_bit_take_bit diff_self_eq_0 take_bit_0)
  then show "drop_bit n (a + k) = drop_bit n a" by (simp add: e)
  show "take_bit n (a + k) = k" using a k by (simp add: e)
qed

lemma low_high: "push_bit n (drop_bit n x) OR take_bit n x = (x :: 'a::len word)"
  by (simp add: bit_eq_iff bit_simps) auto

lemma split_low:
  fixes x :: "'a::len word"
  shows "take_bit n x = 0 \<Longrightarrow> push_bit n (drop_bit n x) = x"
  using low_high [of n x] by simp

lemma small_take_bit: "k < 2 ^ n \<Longrightarrow> n < LENGTH('a) \<Longrightarrow> take_bit n (k :: 'a::len word) = k"
  using less_mask_eq [of k n] by (simp add: take_bit_eq_mask)

definition aligned4 :: "u32 \<Rightarrow> bool" where
  "aligned4 a \<longleftrightarrow> take_bit 2 a = 0"

lemma aligned_def': "aligned a \<longleftrightarrow> take_bit 12 a = 0"
  by (simp add: aligned_def and_fff)

lemma in_word: "aligned4 a \<Longrightarrow> k < 4 \<Longrightarrow> drop_bit 2 (a + k) = drop_bit 2 a"
  using add_low(2) [of 2 a k] small_take_bit [of k 2] by (simp add: aligned4_def)

lemma words_disjoint:
  assumes "aligned4 a" "aligned4 b" "a \<noteq> b" "k < 4" "l < 4"
  shows "a + k \<noteq> b + l"
proof
  assume "a + k = b + l"
  then have "drop_bit 2 a = drop_bit 2 b" using in_word assms by metis
  then have "a = b" using assms(1,2) split_low [of 2] by (metis aligned4_def)
  then show False using assms(3) by simp
qed

lemma four: "(1 :: u32) < 4" "(2 :: u32) < 4" "(3 :: u32) < 4" "(0 :: u32) < 4"
  by simp_all

lemma ld32_st32_same: "ld32 (st32 a v m) a = v"
proof -
  have "a \<noteq> a + 1" "a \<noteq> a + 2" "a \<noteq> a + 3" "a + 1 \<noteq> a + 2" "a + 1 \<noteq> a + 3" "a + 2 \<noteq> a + 3" for a :: u32
    by simp_all
  then have "ld32 (st32 a v m) a = ucast (ucast v :: u8) OR push_bit 8 (ucast (ucast (drop_bit 8 v) :: u8)) OR
    push_bit 16 (ucast (ucast (drop_bit 16 v) :: u8)) OR push_bit 24 (ucast (ucast (drop_bit 24 v) :: u8))"
    by (simp add: ld32_def st32_def)
  also have "\<dots> = v"
  proof (rule bit_word_eqI)
    fix n :: nat assume "n < LENGTH(32)"
    then have "n < 32" by simp
    then consider "n < 8" | "8 \<le> n" "n < 16" | "16 \<le> n" "n < 24" | "24 \<le> n" "n < 32" by linarith
    then show "bit (ucast (ucast v :: u8) OR push_bit 8 (ucast (ucast (drop_bit 8 v) :: u8)) OR
      push_bit 16 (ucast (ucast (drop_bit 16 v) :: u8)) OR push_bit 24 (ucast (ucast (drop_bit 24 v) :: u8)) :: u32) n = bit v n"
      by cases (auto simp: bit_simps)
  qed
  finally show ?thesis .
qed

lemma ld32_cong: "(\<And>k. k < 4 \<Longrightarrow> m' (a + k) = m (a + k)) \<Longrightarrow> ld32 m' a = ld32 m a"
  using four by (metis (no_types, lifting) add.right_neutral ld32_def)

lemma ld32_st32_other:
  assumes "aligned4 a" "aligned4 b" "a \<noteq> b"
  shows "ld32 (st32 b v m) a = ld32 m a"
proof (rule ld32_cong)
  fix k :: u32 assume "k < 4"
  then have "a + k \<noteq> b + l" if "l < 4" for l using words_disjoint [OF assms _ that] by blast
  from this [OF four(1)] this [OF four(2)] this [OF four(3)] this [OF four(4)]
  show "st32 b v m (a + k) = m (a + k)" by (simp add: st32_def)
qed

lemma get_put:
  "aligned4 a \<Longrightarrow> aligned4 b \<Longrightarrow> get32 a (put32 b v s) = (if a = b then v else get32 a s)"
  by (simp add: get32_def put32_def ld32_st32_same ld32_st32_other)

text \<open>Which page an address is in.\<close>

definition page_of :: "u32 \<Rightarrow> u32" where
  "page_of x = push_bit 12 (drop_bit 12 x)"

lemma page_of_aligned: "aligned p \<Longrightarrow> page_of p = p"
  by (simp add: page_of_def aligned_def' split_low)

lemma page_of_idem [simp]: "page_of (page_of x) = page_of x" "aligned (page_of x)"
proof -
  show "aligned (page_of x)" by (simp add: page_of_def aligned_def' take_bit_push_bit)
  then show "page_of (page_of x) = page_of x" by (simp add: page_of_def aligned_def' split_low)
qed

lemma page_of_add: "aligned p \<Longrightarrow> k < 4096 \<Longrightarrow> page_of (p + k) = p"
  using add_low(2) [of 12 p k] small_take_bit [of k 12] by (simp add: page_of_def aligned_def' split_low)

lemma in_page: "aligned p \<Longrightarrow> x - p < 4096 \<longleftrightarrow> page_of x = p"
proof
  assume p: "aligned p" and "x - p < 4096"
  then show "page_of x = p" using page_of_add [OF p, of "x - p"] by simp
next
  assume p: "aligned p" and x: "page_of x = p"
  have "take_bit 12 p = 0" using p by (simp add: aligned_def')
  moreover have "take_bit 12 (take_bit 12 x) = take_bit 12 x" by simp
  ultimately have "p + take_bit 12 x = p OR take_bit 12 x" by (rule add_low(1))
  also have "\<dots> = x" using x low_high [of 12 x] by (simp add: page_of_def)
  finally have "x - p = take_bit 12 x" by (metis add_diff_cancel_left')
  moreover have "uint (take_bit 12 x) < 2 ^ 12" by (simp only: take_bit_eq_mask and_mask_lt_2p)
  then have "take_bit 12 x < 4096" by (simp add: word_less_def)
  ultimately show "x - p < 4096" by simp
qed

lemma page_of_word: "aligned4 a \<Longrightarrow> k < 4 \<Longrightarrow> page_of (a + k) = page_of a"
proof -
  assume "aligned4 a" "k < 4"
  then have "drop_bit 2 (a + k) = drop_bit 2 a" by (rule in_word)
  then have "drop_bit 10 (drop_bit 2 (a + k)) = drop_bit 10 (drop_bit 2 a)" by simp
  then show ?thesis by (simp add: page_of_def)
qed

lemma get_zero:
  assumes a: "aligned4 a" and p: "aligned p"
  shows "get32 a (zero_page p s) = (if page_of a = p then 0 else get32 a s)"
proof (cases "page_of a = p")
  case True
  have "(a + k) - p < 4096" if "k < 4" for k using in_page [OF p] page_of_word [OF a that] True by simp
  from this [OF four(1)] this [OF four(2)] this [OF four(3)] this [OF four(4)]
  show ?thesis using True by (simp add: get32_def zero_page_def ld32_def)
next
  case False
  have "ld32 (\<lambda>x. if x - p < 4096 then 0 else phys s x) a = ld32 (phys s) a"
    by (rule ld32_cong) (use in_page [OF p] page_of_word [OF a] False in auto)
  then show ?thesis using False by (simp add: get32_def zero_page_def)
qed


subsection \<open>Entries of directories and tables\<close>

lemma index_addr:
  assumes p: "aligned p" and i: "i < (1024 :: u32)"
  shows "page_of (p + 4 * i) = p" "aligned4 (p + 4 * i)"
proof -
  have i4: "4 * i = push_bit 2 i" by (simp add: push_bit_eq_mult mult.commute)
  have "uint (4 * i) < 4096" using i by (simp add: word_less_def uint_word_ariths)
  then have lt: "4 * i < 4096" by (simp add: word_less_def)
  show "page_of (p + 4 * i) = p" by (rule page_of_add [OF p lt])
  have "take_bit 12 (4 * i) = 4 * i" using small_take_bit [of "4 * i" 12] lt by simp
  then have "p + 4 * i = p OR 4 * i" using add_low(1) p by (simp add: aligned_def')
  moreover have "take_bit 2 p = 0" 
  proof -
    have "take_bit 2 p = take_bit 2 (take_bit 12 p)" by simp
    also have "take_bit 12 p = 0" using p by (simp add: aligned_def')
    finally show ?thesis by simp
  qed
  ultimately show "aligned4 (p + 4 * i)" by (simp add: aligned4_def i4 take_bit_push_bit)
qed

lemma index_inj: "i < (1024 :: u32) \<Longrightarrow> j < 1024 \<Longrightarrow> p + 4 * i = p + 4 * j \<longleftrightarrow> i = j"
proof -
  assume "i < 1024" "j < 1024"
  then have "uint (4 * i) = 4 * uint i" "uint (4 * j) = 4 * uint j"
    by (simp_all add: word_less_def uint_word_ariths)
  then have "4 * i = 4 * j \<longleftrightarrow> i = j" by (auto simp: word_uint_eq_iff)
  then show ?thesis by simp
qed

lemma index_small: "PD_ENTRY_FOR v < 1024" "PT_ENTRY_FOR v < 1024"
proof -
  have "uint (PD_ENTRY_FOR v) < 1024"
    using uint_bounded [of v] by (simp add: PD_ENTRY_FOR_def drop_bit_eq_div uint_div)
  then show "PD_ENTRY_FOR v < 1024" by (simp add: word_less_def)
  have "uint (v AND 0x3FF000) \<le> 0x3FF000" by (simp add: uint_and AND_upper2')
  then have "uint (PT_ENTRY_FOR v) < 1024"
    by (simp add: PT_ENTRY_FOR_def drop_bit_eq_div uint_div)
  then show "PT_ENTRY_FOR v < 1024" by (simp add: word_less_def)
qed

lemma entry_addrs:
  assumes "aligned p"
  shows "aligned4 (pd_entry v p)" "page_of (pd_entry v p) = p" "aligned4 (pt_slot v p)" "page_of (pt_slot v p) = p"
    "pd_entry v p = pd_entry w p \<longleftrightarrow> PD_ENTRY_FOR v = PD_ENTRY_FOR w"
    "pt_slot v p = pt_slot w p \<longleftrightarrow> PT_ENTRY_FOR v = PT_ENTRY_FOR w"
  using index_addr [OF assms] index_small index_inj by (simp_all add: pd_entry_def pt_slot_def)

text \<open>A page address is determined by its two indices.\<close>

lemma page_indices:
  assumes "aligned v" "aligned w" "PD_ENTRY_FOR v = PD_ENTRY_FOR w" "PT_ENTRY_FOR v = PT_ENTRY_FOR w"
  shows "v = w"
proof (rule bit_word_eqI)
  fix n :: nat assume "n < LENGTH(32)"
  then have n: "n < 32" by simp
  have low: "\<not> bit v n" "\<not> bit w n" if "n < 12"
    using assms(1,2) that by (metis aligned_def' bit_take_bit_iff bit_0_eq bot_fun_def bot_bool_def)+
  have mid: "bit v n = bit w n" if "12 \<le> n" "n < 22"
  proof -
    have m: "(0x3FF000 :: u32) = push_bit 12 (mask 10)" by (simp add: mask_eq_exp_minus_1)
    have "bit (PT_ENTRY_FOR v) (n - 12) = bit (PT_ENTRY_FOR w) (n - 12)" using assms(4) by simp
    moreover have "n - 12 < 10" "n - 12 < 32" using that by simp_all
    ultimately show ?thesis using that by (simp add: PT_ENTRY_FOR_def m bit_simps)
  qed
  have "bit v n = bit w n" if "22 \<le> n"
  proof -
    have "bit (PD_ENTRY_FOR v) (n - 22) = bit (PD_ENTRY_FOR w) (n - 22)" using assms(3) by simp
    then show ?thesis using that n by (simp add: PD_ENTRY_FOR_def bit_drop_bit_eq)
  qed
  with low mid show "bit v n = bit w n" by (cases "n < 12"; cases "n < 22") auto
qed

lemma entry_parts:
  "base_addr (with_attr a e) = base_addr e" "attr_of (with_attr a e) = a AND 0xFFF"
  "base_addr (with_base b e) = push_bit 12 b" "attr_of (with_base b e) = attr_of e"
  "aligned (base_addr e)" "base_addr e OR attr_of e = e"
proof -
  have m: "(0xFFF :: u32) = mask 12" by (simp add: mask_eq_exp_minus_1)
  show "base_addr (with_attr a e) = base_addr e" "attr_of (with_attr a e) = a AND 0xFFF"
    "base_addr (with_base b e) = push_bit 12 b" "attr_of (with_base b e) = attr_of e"
    "base_addr e OR attr_of e = e"
    unfolding m base_addr_def with_attr_def with_base_def attr_of_def
    by (rule bit_word_eqI; auto simp: bit_simps)+
  show "aligned (base_addr e)" by (simp add: base_addr_def aligned_def' take_bit_push_bit)
qed

subsection \<open>Translation\<close>

definition present :: "u32 \<Rightarrow> u32 \<Rightarrow> 'a mm_state_scheme \<Rightarrow> bool" where
  "present pdt v s \<longleftrightarrow> attr_of (get32 (pd_entry v pdt) s) AND MM_ATTR_P \<noteq> 0"

definition table_for :: "u32 \<Rightarrow> u32 \<Rightarrow> 'a mm_state_scheme \<Rightarrow> u32" where
  "table_for pdt v s = base_addr (get32 (pd_entry v pdt) s)"

text \<open>The entry that a directory has for a page, 0 when it has no table there.\<close>

definition pte :: "u32 \<Rightarrow> u32 \<Rightarrow> 'a mm_state_scheme \<Rightarrow> u32" where
  "pte v pdt s = (if present pdt v s then get32 (pt_slot v (table_for pdt v s)) s else 0)"

text \<open>The frames that a directory is made of.\<close>

definition owned :: "u32 \<Rightarrow> 'a mm_state_scheme \<Rightarrow> u32 set" where
  "owned pdt s = insert pdt {table_for pdt v s | v. present pdt v s}"

definition dir_ok :: "u32 \<Rightarrow> 'a mm_state_scheme \<Rightarrow> bool" where
  "dir_ok pdt s \<longleftrightarrow> aligned pdt \<and> owned pdt s \<subseteq> taken_frames s \<and>
     (\<forall>v. present pdt v s \<longrightarrow> table_for pdt v s \<noteq> pdt) \<and>
     (\<forall>v w. present pdt v s \<and> present pdt w s \<and> table_for pdt v s = table_for pdt w s \<longrightarrow>
        PD_ENTRY_FOR v = PD_ENTRY_FOR w)"

lemma dir_okD:
  assumes "dir_ok pdt s"
  shows "aligned pdt" "pdt \<in> taken_frames s" "\<And>v. present pdt v s \<Longrightarrow> table_for pdt v s \<noteq> pdt"
    "\<And>v. present pdt v s \<Longrightarrow> table_for pdt v s \<in> taken_frames s"
    "\<And>v w. present pdt v s \<Longrightarrow> present pdt w s \<Longrightarrow> table_for pdt v s = table_for pdt w s \<Longrightarrow> PD_ENTRY_FOR v = PD_ENTRY_FOR w"
  using assms unfolding dir_ok_def owned_def by blast+

lemma phys_frame [simp]:
  "taken_frames (put32 a v s) = taken_frames s" "frames r (put32 a v s) = frames r s"
  "frames_ok (put32 a v s) = frames_ok s" "taken_frames (zero_page p s) = taken_frames s"
  "frames r (zero_page p s) = frames r s" "frames_ok (zero_page p s) = frames_ok s"
  "get32 a (s\<lparr>mm_bitmap := b\<rparr>) = get32 a s" "processes (put32 a v s) = processes s" "cur_pid (put32 a v s) = cur_pid s"
proof -
  have z: "zone r (put32 a v s) = zone r s" "zone r (zero_page p s) = zone r s"
    by (cases r; simp add: put32_def zero_page_def)+
  then show "frames r (put32 a v s) = frames r s" "frames r (zero_page p s) = frames r s"
    by (simp_all add: frames_def zone_bits_def)
qed (simp_all add: taken_frames_def frames_ok_def put32_def zero_page_def get32_def)

lemma dir_at:
  "PD_ENTRY_FOR v = PD_ENTRY_FOR w \<Longrightarrow> present pdt v s = present pdt w s \<and> table_for pdt v s = table_for pdt w s"
  by (simp add: present_def table_for_def pd_entry_def)

lemma kalloc_Some:
  assumes "frames_ok s" "frames MM_REQUEST_KERNEL s - taken_frames s \<noteq> {}"
  obtains f b where "mm_mem_kalloc s = Some (f, s\<lparr>mm_bitmap := b\<rparr>)" "f \<notin> taken_frames s" "f \<noteq> 0" "aligned f"
    "f \<in> frames MM_REQUEST_KERNEL s" "taken_frames (s\<lparr>mm_bitmap := b\<rparr>) = insert f (taken_frames s)"
proof -
  obtain f s' where f: "mm_mem_kalloc s = Some (f, s')" "f \<in> frames MM_REQUEST_KERNEL s - taken_frames s"
    "taken_frames s' = insert f (taken_frames s)"
    using kf.alloc [OF assms] by blast
  have "f \<noteq> 0" using f(2) frames_nonzero [OF assms(1)] by auto
  moreover have "aligned f" using f(2) by (auto simp: frames_def aligned_def)
  moreover have "\<exists>b. s' = s\<lparr>mm_bitmap := b\<rparr>"
    using mem_seek_spec [OF assms(1), of MM_REQUEST_KERNEL] f(1) \<open>f \<noteq> 0\<close> by (auto simp: kalloc_seek)
  ultimately show thesis using that f by blast
qed

lemma base_addr_aligned: "aligned f \<Longrightarrow> base_addr f = f" "aligned f \<Longrightarrow> attr_of f = 0"
  by (simp_all add: base_addr_def aligned_def' split_low attr_of_def and_fff)

lemma and1: "(x :: u32) AND 1 \<noteq> 0 \<longleftrightarrow> bit x 0"
  by (simp add: and_one_eq bit_0 odd_iff_mod_2_eq_one)

lemma install_table_spec:
  assumes p: "aligned pdt" and f: "aligned f" "f \<noteq> 0" "f \<noteq> pdt"
  obtains s' where "install_table (pd_entry v pdt) f s = Some s'"
    "\<And>a. aligned4 a \<Longrightarrow> get32 a s' = (if page_of a = f then 0 else if a = pd_entry v pdt then f OR 7 else get32 a s)"
    "taken_frames s' = taken_frames s" "frames_ok s' = frames_ok s" "\<And>r. frames r s' = frames r s"
    "present pdt v s'" "table_for pdt v s' = f"
proof -
  note e = entry_addrs [OF p]
  define s1 where "s1 = put32 (pd_entry v pdt) (with_attr 7
      (get32 (pd_entry v pdt) (put32 (pd_entry v pdt) f s))) (put32 (pd_entry v pdt) f s)"
  have g: "get32 a s1 = (if a = pd_entry v pdt then with_attr 7 f else get32 a s)" if "aligned4 a" for a
    using that e(1) by (simp add: s1_def get_put)
  have w: "with_attr 7 f = f OR 7" by (simp add: with_attr_def base_addr_aligned f)
  have b: "base_addr (get32 (pd_entry v pdt) s1) = f" using g e(1) by (simp add: entry_parts base_addr_aligned f)
  have i: "install_table (pd_entry v pdt) f s = Some (zero_page f s1)"
    using b f by (simp add: install_table_def s1_def [symmetric] Let_def)
  have r: "get32 a (zero_page f s1) = (if page_of a = f then 0 else if a = pd_entry v pdt then f OR 7 else get32 a s)"
    if "aligned4 a" for a using that g by (simp add: get_zero f w)
  have n: "get32 (pd_entry v pdt) (zero_page f s1) = with_attr 7 f"
    using r e(1,2) f(3) by (simp add: w)
  show thesis
    by (rule that [OF i r])
      (simp_all add: s1_def present_def table_for_def n [unfolded s1_def] entry_parts base_addr_aligned f)
qed

lemma pte_write:
  fixes x :: u32
  assumes p: "dir_ok pdt s" and pr: "present pdt va s" and va: "aligned va"
  defines "s' \<equiv> put32 (pt_slot va (table_for pdt va s)) x s"
  shows "pte va pdt s' = x" "\<And>v. aligned v \<Longrightarrow> v \<noteq> va \<Longrightarrow> pte v pdt s' = pte v pdt s" "dir_ok pdt s'" "owned pdt s' = owned pdt s"
proof -
  have al: "aligned pdt" "\<And>v. present pdt v s \<Longrightarrow> table_for pdt v s \<noteq> pdt"
    "\<And>v w. present pdt v s \<Longrightarrow> present pdt w s \<Longrightarrow> table_for pdt v s = table_for pdt w s \<Longrightarrow> PD_ENTRY_FOR v = PD_ENTRY_FOR w"
    using dir_okD [OF p] by blast+
  have ta: "aligned (table_for pdt v s)" for v by (simp add: table_for_def entry_parts)
  have g: "get32 a s' = (if a = pt_slot va (table_for pdt va s) then x else get32 a s)" if "aligned4 a" for a
    using that entry_addrs(3) [OF ta] by (simp add: s'_def get_put)
  have pd: "get32 (pd_entry v pdt) s' = get32 (pd_entry v pdt) s" for v
  proof -
    have "page_of (pd_entry v pdt) \<noteq> page_of (pt_slot va (table_for pdt va s))"
      using entry_addrs [OF al(1)] entry_addrs [OF ta] al(2) [OF pr] by simp
    then show ?thesis using g entry_addrs(1) [OF al(1)] by auto
  qed
  have same: "present pdt v s' = present pdt v s" "table_for pdt v s' = table_for pdt v s" for v
    by (simp_all add: present_def table_for_def pd)
  show "owned pdt s' = owned pdt s" by (simp add: owned_def same)
  then show "dir_ok pdt s'" using p by (simp add: dir_ok_def same) (simp add: s'_def)
  show "pte va pdt s' = x" using pr g entry_addrs(3) [OF ta] by (simp add: pte_def same)
  show "pte v pdt s' = pte v pdt s" if v: "aligned v" "v \<noteq> va" for v
  proof (cases "present pdt v s")
    case True
    have "pt_slot v (table_for pdt v s) \<noteq> pt_slot va (table_for pdt va s)"
    proof
      assume eq: "pt_slot v (table_for pdt v s) = pt_slot va (table_for pdt va s)"
      then have "table_for pdt v s = table_for pdt va s" using entry_addrs(4) [OF ta] by metis
      moreover from this have "PT_ENTRY_FOR v = PT_ENTRY_FOR va" using eq entry_addrs(6) [OF ta] by metis
      ultimately show False using al(3) [OF True pr] page_indices [OF v(1) va] v(2) by blast
    qed
    then show ?thesis using g entry_addrs(3) [OF ta] by (simp add: pte_def same)
  qed (simp add: pte_def same)
qed


lemma two_puts:
  "get32 a (put32 k (f (get32 k (put32 k v s))) (put32 k v s)) = get32 a (put32 k (f v) s)" if "aligned4 k" "aligned4 a"
  using that by (simp add: get_put)

lemma put_put: "put32 k x (put32 k y s) = put32 k x s"
proof -
  have "st32 k x (st32 k y m) = st32 k x m" for m :: "u32 \<Rightarrow> u8"
    by (rule ext) (auto simp: st32_def fun_upd_def)
  then show ?thesis by (simp add: put32_def)
qed

lemma map_entry:
  assumes "aligned4 slot" "aligned pa"
  shows "put32 slot (with_attr a (get32 slot (put32 slot (with_base (drop_bit 12 pa) e) s)))
     (put32 slot (with_base (drop_bit 12 pa) e) s) = put32 slot (pa OR (a AND 0xFFF)) s"
proof -
  have "with_attr a (with_base (drop_bit 12 pa) e) = pa OR (a AND 0xFFF)"
    using assms(2) by (simp add: with_attr_def entry_parts) (simp add: aligned_def' split_low)
  then show ?thesis using assms(1) by (simp add: get_put put_put)
qed

definition map_attrs :: "u32 \<Rightarrow> u32" where
  "map_attrs pl = (if pl = PL_KERNEL then 3 else 7)"

lemma dir_ok_install:
  assumes ok: "dir_ok pdt s" and f: "f \<notin> taken_frames s" "f \<noteq> 0" "aligned f"
    and t: "taken_frames s1 = insert f (taken_frames s)" "\<And>a. get32 a s1 = get32 a s"
    and np: "\<not> present pdt va s"
    and i: "install_table (pd_entry va pdt) f s1 = Some s'"
  shows "dir_ok pdt s'" "\<And>v. pte v pdt s' = pte v pdt s" "owned pdt s' = insert f (owned pdt s)" "present pdt va s'"
    "table_for pdt va s' = f" "taken_frames s' = insert f (taken_frames s)"
    "\<And>a. aligned4 a \<Longrightarrow> page_of a \<noteq> pdt \<Longrightarrow> page_of a \<noteq> f \<Longrightarrow> get32 a s' = get32 a s"
proof -
  have al: "aligned pdt" "pdt \<in> taken_frames s" "\<And>v. present pdt v s \<Longrightarrow> table_for pdt v s \<noteq> pdt"
    "\<And>v. present pdt v s \<Longrightarrow> table_for pdt v s \<in> taken_frames s"
    "\<And>v w. present pdt v s \<Longrightarrow> present pdt w s \<Longrightarrow> table_for pdt v s = table_for pdt w s \<Longrightarrow> PD_ENTRY_FOR v = PD_ENTRY_FOR w"
    using dir_okD [OF ok] by blast+
  have fp: "f \<noteq> pdt" using f(1) al(2) by auto
  note e = entry_addrs [OF al(1)]
  obtain s2 where I: "install_table (pd_entry va pdt) f s1 = Some s2"
    "\<And>a. aligned4 a \<Longrightarrow> get32 a s2 = (if page_of a = f then 0 else if a = pd_entry va pdt then f OR 7 else get32 a s1)"
    "taken_frames s2 = taken_frames s1" "present pdt va s2" "table_for pdt va s2 = f"
    using install_table_spec [OF al(1) f(3,2) fp] by metis
  have g: "get32 a s' = (if page_of a = f then 0 else if a = pd_entry va pdt then f OR 7 else get32 a s)" if "aligned4 a" for a
    using I(1,2) i that t(2) by simp
  show pr: "present pdt va s'" "table_for pdt va s' = f" "taken_frames s' = insert f (taken_frames s)"
    using I i t by simp_all
  have other: "present pdt v s' = present pdt v s" "table_for pdt v s' = table_for pdt v s"
    if "PD_ENTRY_FOR v \<noteq> PD_ENTRY_FOR va" for v
    using g [OF e(1) [of v]] e that fp by (simp_all add: present_def table_for_def)
  have here: "present pdt v s'" "table_for pdt v s' = f" "\<not> present pdt v s" if "PD_ENTRY_FOR v = PD_ENTRY_FOR va" for v
    using dir_at [OF that, of pdt s'] dir_at [OF that, of pdt s] pr np by simp_all
  have tin: "table_for pdt v s' = (if PD_ENTRY_FOR v = PD_ENTRY_FOR va then f else table_for pdt v s)"
    "present pdt v s' = (PD_ENTRY_FOR v = PD_ENTRY_FOR va \<or> present pdt v s)" for v
    using other here by auto
  have np': "PD_ENTRY_FOR v \<noteq> PD_ENTRY_FOR va" if "present pdt v s" for v
    using here(3) [of v] that by blast
  show own: "owned pdt s' = insert f (owned pdt s)"
  proof (rule set_eqI)
    fix x
    have "(\<exists>v. x = table_for pdt v s' \<and> present pdt v s') \<longleftrightarrow> x = f \<or> (\<exists>v. x = table_for pdt v s \<and> present pdt v s)"
      unfolding tin using np' by metis
    then show "x \<in> owned pdt s' \<longleftrightarrow> x \<in> insert f (owned pdt s)" by (auto simp: owned_def)
  qed
  show "dir_ok pdt s'"
  proof -
    have "insert f (owned pdt s) \<subseteq> insert f (taken_frames s)" using ok by (auto simp: dir_ok_def)
    moreover have "f \<noteq> table_for pdt v s" if "present pdt v s" for v using al(4) [OF that] f(1) by metis
    ultimately show ?thesis unfolding dir_ok_def own pr(3) tin using fp al(1,3,5) by metis
  qed
  show "get32 a s' = get32 a s" if "aligned4 a" "page_of a \<noteq> pdt" "page_of a \<noteq> f" for a
    using g that e(2) by auto
  show "pte v pdt s' = pte v pdt s" for v
  proof (cases "PD_ENTRY_FOR v = PD_ENTRY_FOR va")
    case True
    then show ?thesis using here g entry_addrs(3,4) [OF f(3)] by (simp add: pte_def)
  next
    case False
    have ta: "aligned (table_for pdt v s)" by (simp add: table_for_def entry_parts)
    have t: "table_for pdt v s \<noteq> f" "table_for pdt v s \<noteq> pdt" if "present pdt v s" using al(3,4) [OF that] f(1) by auto
    then have "pt_slot v (table_for pdt v s) \<noteq> pd_entry va pdt" if "present pdt v s"
      using t entry_addrs(4) [OF ta, of v] e(2) [of va] that by metis
    then show ?thesis using t other [OF False] g entry_addrs(3,4) [OF ta] by (auto simp: pte_def)
  qed
qed

lemma map_frame_spec:
  assumes fok: "frames_ok s" and ok: "dir_ok pdt s" and pa: "aligned pa" and va: "aligned va"
    and room: "present pdt va s \<or> frames MM_REQUEST_KERNEL s - taken_frames s \<noteq> {}"
  obtains s' where "mm_map_frame pa va pdt pl s = Some s'" "pte va pdt s' = pa OR map_attrs pl"
    "\<And>v. aligned v \<Longrightarrow> v \<noteq> va \<Longrightarrow> pte v pdt s' = pte v pdt s" "dir_ok pdt s'" "frames_ok s'"
    "taken_frames s \<subseteq> taken_frames s'" "owned pdt s' \<subseteq> owned pdt s \<union> - taken_frames s" "owned pdt s \<subseteq> owned pdt s'"
    "\<And>a. aligned4 a \<Longrightarrow> page_of a \<notin> owned pdt s' \<Longrightarrow> get32 a s' = get32 a s"
    "processes s' = processes s" "cur_pid s' = cur_pid s"
proof -
  have at: "(MM_ATTR_P OR MM_ATTR_RW OR (if pl = PL_KERNEL then MM_ATTR_US_S else MM_ATTR_US_U)) AND 0xFFF = map_attrs pl"
    by (simp add: map_attrs_def)
  have "\<exists>s1. (if attr_of (get32 (pd_entry va pdt) s) AND MM_ATTR_P = 0 then do {
             (frame, s) \<leftarrow> mm_mem_kalloc s;
             install_table (pd_entry va pdt) frame s
           } else Some s) = Some s1 \<and> dir_ok pdt s1 \<and> present pdt va s1 \<and> (\<forall>v. pte v pdt s1 = pte v pdt s) \<and> frames_ok s1 \<and>
      taken_frames s \<subseteq> taken_frames s1 \<and> owned pdt s1 \<subseteq> owned pdt s \<union> - taken_frames s \<and> owned pdt s \<subseteq> owned pdt s1 \<and>
      (\<forall>a. aligned4 a \<longrightarrow> page_of a \<notin> owned pdt s1 \<longrightarrow> get32 a s1 = get32 a s) \<and>
      processes s1 = processes s \<and> cur_pid s1 = cur_pid s"
  proof (cases "present pdt va s")
    case True
    then show ?thesis using ok fok by (auto simp: present_def)
  next
    case False
    obtain f b where f: "mm_mem_kalloc s = Some (f, s\<lparr>mm_bitmap := b\<rparr>)" "f \<notin> taken_frames s" "f \<noteq> 0" "aligned f"
      "taken_frames (s\<lparr>mm_bitmap := b\<rparr>) = insert f (taken_frames s)"
      using kalloc_Some [OF fok] room False by metis
    have fp: "f \<noteq> pdt" "aligned pdt" using f(2) dir_okD(1,2) [OF ok] by auto
    obtain s1 where s1: "install_table (pd_entry va pdt) f (s\<lparr>mm_bitmap := b\<rparr>) = Some s1" "frames_ok s1 = frames_ok (s\<lparr>mm_bitmap := b\<rparr>)"
      using install_table_spec [OF fp(2) f(4,3) fp(1), of va "s\<lparr>mm_bitmap := b\<rparr>"] by metis
    note I = dir_ok_install [OF ok f(2-5) _ False s1(1)]
    have "processes s1 = processes s" "cur_pid s1 = cur_pid s"
      using s1(1) by (auto simp: install_table_def Let_def put32_def zero_page_def split: if_splits)
    moreover have "owned pdt s1 = insert f (owned pdt s)" using I(3) by simp
    moreover have "pdt \<in> owned pdt s1" by (simp add: owned_def)
    moreover have "attr_of (get32 (pd_entry va pdt) s) AND MM_ATTR_P = 0" using False by (simp add: present_def)
    ultimately show ?thesis using f(1,2) s1 I False fok by auto
  qed
  then obtain s1 where s1: "(if attr_of (get32 (pd_entry va pdt) s) AND MM_ATTR_P = 0 then do {
             (frame, s) \<leftarrow> mm_mem_kalloc s;
             install_table (pd_entry va pdt) frame s
           } else Some s) = Some s1" "dir_ok pdt s1" "present pdt va s1" "\<And>v. pte v pdt s1 = pte v pdt s" "frames_ok s1"
      "taken_frames s \<subseteq> taken_frames s1" "owned pdt s1 \<subseteq> owned pdt s \<union> - taken_frames s" "owned pdt s \<subseteq> owned pdt s1"
      "\<And>a. aligned4 a \<Longrightarrow> page_of a \<notin> owned pdt s1 \<Longrightarrow> get32 a s1 = get32 a s"
      "processes s1 = processes s" "cur_pid s1 = cur_pid s" by blast
  define slot where "slot = pt_slot va (table_for pdt va s1)"
  have ta: "aligned (table_for pdt va s1)" by (simp add: table_for_def entry_parts)
  have slot: "aligned4 slot" "page_of slot = table_for pdt va s1" using entry_addrs(3,4) [OF ta] by (simp_all add: slot_def)
  define s2 where "s2 = put32 slot (pa OR map_attrs pl) s1"
  have run: "mm_map_frame pa va pdt pl s = Some s2"
    unfolding mm_map_frame_def using pa va s1(1)
    by (simp add: map_entry [OF slot(1) pa, unfolded slot_def] at Let_def flip: table_for_def slot_def s2_def)
      (simp add: map_entry [OF slot(1) pa] map_attrs_def s2_def)
  note W = pte_write [OF s1(2,3) va, where x = "pa OR map_attrs pl", folded slot_def s2_def]
  show thesis
  proof (rule that [OF run W(1) _ W(3)])
    show "pte v pdt s2 = pte v pdt s" if "aligned v" "v \<noteq> va" for v using W(2) [OF that] s1(4) by simp
    show "get32 a s2 = get32 a s" if "aligned4 a" "page_of a \<notin> owned pdt s2" for a
    proof -
      have "table_for pdt va s1 \<in> owned pdt s1" using s1(3) by (auto simp: owned_def)
      then have "a \<noteq> slot" using that(2) slot(2) W(4) by auto
      then show ?thesis using that W(4) s1(9) slot(1) by (simp add: s2_def get_put)
    qed
  qed (use s1(2,3,5-8,10,11) W(4) in \<open>simp_all add: s2_def\<close>)
qed

lemma pte_isolated:
  assumes p: "aligned pdt2" and n: "pdt2 \<notin> X" "present pdt2 v s \<Longrightarrow> table_for pdt2 v s \<notin> X"
    and g: "\<And>a. aligned4 a \<Longrightarrow> page_of a \<notin> X \<Longrightarrow> get32 a s' = get32 a s"
  shows "pte v pdt2 s' = pte v pdt2 s"
proof -
  have e: "get32 (pd_entry v pdt2) s' = get32 (pd_entry v pdt2) s"
    by (rule g) (use entry_addrs [OF p] n in simp_all)
  have ta: "aligned (table_for pdt2 v s)" by (simp add: table_for_def entry_parts)
  have "get32 (pt_slot v (table_for pdt2 v s)) s' = get32 (pt_slot v (table_for pdt2 v s)) s" if "present pdt2 v s"
    by (rule g) (use entry_addrs [OF ta] n that in simp_all)
  then show ?thesis by (simp add: pte_def present_def table_for_def e)
qed

text \<open>C4: Mapping a frame at a page (with a table for it already there or a kernel frame free
  to make one) makes the directory translate that page to that frame with the right
  privilege, leaves the translation of every other page of the directory as it was, and
  does not change what any other directory translates through frames of its own.\<close>

theorem map_frame_translates:
  assumes "frames_ok s" and "dir_ok pdt s" and "aligned pa" and "aligned va"
    and "present pdt va s \<or> frames MM_REQUEST_KERNEL s - taken_frames s \<noteq> {}"
  shows "\<exists>s'. mm_map_frame pa va pdt pl s = Some s' \<and> dir_ok pdt s' \<and> frames_ok s' \<and>
    mm_frame_from_page va pdt s' = Some pa \<and> pte va pdt s' = pa OR map_attrs pl \<and>
    (\<forall>v. aligned v \<and> v \<noteq> va \<longrightarrow> pte v pdt s' = pte v pdt s) \<and>
    (\<forall>pdt2 v. dir_ok pdt2 s \<and> pdt2 \<notin> owned pdt s \<and> (present pdt2 v s \<longrightarrow> table_for pdt2 v s \<notin> owned pdt s) \<longrightarrow>
       pte v pdt2 s' = pte v pdt2 s)"
proof -
  obtain s' where s': "mm_map_frame pa va pdt pl s = Some s'" "pte va pdt s' = pa OR map_attrs pl"
    "\<And>v. aligned v \<Longrightarrow> v \<noteq> va \<Longrightarrow> pte v pdt s' = pte v pdt s" "dir_ok pdt s'" "frames_ok s'"
    "owned pdt s' \<subseteq> owned pdt s \<union> - taken_frames s"
    "\<And>a. aligned4 a \<Longrightarrow> page_of a \<notin> owned pdt s' \<Longrightarrow> get32 a s' = get32 a s"
    using map_frame_spec [OF assms, of pl] by metis
  have m: "map_attrs pl = 3 \<or> map_attrs pl = 7" by (simp add: map_attrs_def)
  have ma: "map_attrs pl AND 0xFFF = map_attrs pl" using m by auto
  have pa0: "take_bit 12 pa = 0" using assms(3) by (simp add: aligned_def')
  have bit0: "pte va pdt s' \<noteq> 0" using m unfolding s'(2) by (auto simp: or_eq_0_iff)
  then have pr: "present pdt va s'" by (auto simp: pte_def split: if_splits)
  have b: "base_addr (pa OR map_attrs pl) = pa"
  proof -
    have "with_attr (map_attrs pl) pa = pa OR map_attrs pl"
      using assms(3) ma by (simp add: with_attr_def base_addr_aligned)
    then have "base_addr (pa OR map_attrs pl) = base_addr (with_attr (map_attrs pl) pa)" by simp
    then show ?thesis using assms(3) by (simp only: entry_parts base_addr_aligned)
  qed
  have slot: "pt_slot va (table_for pdt va s') \<noteq> 0"
  proof
    assume z: "pt_slot va (table_for pdt va s') = 0"
    have ta: "aligned (table_for pdt va s')" by (simp add: table_for_def entry_parts)
    have "table_for pdt va s' = 0" using entry_addrs(4) [OF ta, of va] z by (simp add: page_of_def)
    moreover have "table_for pdt va s' \<in> taken_frames s'" using dir_okD(4) [OF s'(4) pr] .
    ultimately show False using s'(5) frame_at_nonzero by (force simp: taken_frames_def frames_ok_def)
  qed
  have "mm_frame_from_page va pdt s' = Some pa"
    using assms(4) slot pr s'(2) b
    by (simp add: mm_frame_from_page_def mm_pt_entry_for_def Let_def pte_def present_def table_for_def)
  moreover have "pte v pdt2 s' = pte v pdt2 s"
    if d: "dir_ok pdt2 s" "pdt2 \<notin> owned pdt s" "present pdt2 v s \<longrightarrow> table_for pdt2 v s \<notin> owned pdt s" for pdt2 v
  proof (rule pte_isolated [OF dir_okD(1) [OF d(1)] _ _ s'(7)])
    show "pdt2 \<notin> owned pdt s'" using d(2) s'(6) dir_okD(2) [OF d(1)] by auto
    show "present pdt2 v s \<Longrightarrow> table_for pdt2 v s \<notin> owned pdt s'" using d(3) s'(6) dir_okD(4) [OF d(1)] by blast
  qed
  ultimately show ?thesis using s' by blast
qed

text \<open>Reserving a page for a process.\<close>

lemma set_pt_entry_spec:
  assumes fok: "frames_ok s" and ok: "dir_ok pdt s" and va: "aligned va" and np: "x AND MM_ATTR_P = 0"
  shows "(present pdt va s \<or> frames MM_REQUEST_KERNEL s - taken_frames s \<noteq> {}) \<Longrightarrow>
      \<exists>s'. mm_set_pt_entry va x pdt s = Some (True, s') \<and> pte va pdt s' = x \<and>
        (\<forall>v. aligned v \<and> v \<noteq> va \<longrightarrow> pte v pdt s' = pte v pdt s) \<and> dir_ok pdt s' \<and> frames_ok s' \<and> present pdt va s'"
    and "\<not> present pdt va s \<Longrightarrow> frames MM_REQUEST_KERNEL s - taken_frames s = {} \<Longrightarrow>
      mm_set_pt_entry va x pdt s = Some (False, s)"
proof -
  have pd: "attr_of (get32 (pd_entry va pdt) s) AND MM_ATTR_P = 0 \<longleftrightarrow> \<not> present pdt va s"
    by (simp add: present_def)
  {
    assume pr: "present pdt va s"
    define s' where "s' = put32 (pt_slot va (table_for pdt va s)) x s"
    have "mm_set_pt_entry va x pdt s = Some (True, s')"
      using va np pr pd by (simp add: mm_set_pt_entry_def s'_def table_for_def Let_def)
    moreover have "present pdt va s'"
    proof -
      have ta: "aligned (table_for pdt va s)" by (simp add: table_for_def entry_parts)
      have "pt_slot va (table_for pdt va s) \<noteq> pd_entry va pdt"
        using entry_addrs(4) [OF ta, of va] entry_addrs(2) [OF dir_okD(1) [OF ok], of va] dir_okD(3) [OF ok pr] by metis
      then show ?thesis using pr entry_addrs(1) [OF dir_okD(1) [OF ok]] entry_addrs(3) [OF ta]
        by (simp add: present_def s'_def get_put)
    qed
    ultimately have "\<exists>s'. mm_set_pt_entry va x pdt s = Some (True, s') \<and> pte va pdt s' = x \<and>
        (\<forall>v. aligned v \<and> v \<noteq> va \<longrightarrow> pte v pdt s' = pte v pdt s) \<and> dir_ok pdt s' \<and> frames_ok s' \<and> present pdt va s'"
      using pte_write [OF ok pr va, where x = x, folded s'_def] fok by (auto simp: s'_def)
  } note here = this
  {
    assume room: "frames MM_REQUEST_KERNEL s - taken_frames s \<noteq> {}" and npr: "\<not> present pdt va s"
    obtain f b where f: "mm_mem_kalloc s = Some (f, s\<lparr>mm_bitmap := b\<rparr>)" "f \<notin> taken_frames s" "f \<noteq> 0" "aligned f"
      "taken_frames (s\<lparr>mm_bitmap := b\<rparr>) = insert f (taken_frames s)"
      using kalloc_Some [OF fok room] by metis
    have fp: "f \<noteq> pdt" using f(2) dir_okD(2) [OF ok] by auto
    obtain s1 where s1: "install_table (pd_entry va pdt) f (s\<lparr>mm_bitmap := b\<rparr>) = Some s1"
      "frames_ok s1 = frames_ok (s\<lparr>mm_bitmap := b\<rparr>)"
      using install_table_spec [OF dir_okD(1) [OF ok] f(4,3) fp, of va "s\<lparr>mm_bitmap := b\<rparr>"] by metis
    note I = dir_ok_install [OF ok f(2-5) _ npr s1(1)]
    define s' where "s' = put32 (pt_slot va (table_for pdt va s1)) x s1"
    have pr1: "present pdt va s1" using I(4) by simp
    have ok1: "dir_ok pdt s1" using I(1) by simp
    have run: "mm_set_pt_entry va x pdt s = Some (True, s')"
      using va np npr pd f(1,3) s1(1) by (simp add: mm_set_pt_entry_def s'_def table_for_def Let_def)
    have "present pdt va s'"
    proof -
      have ta: "aligned (table_for pdt va s1)" by (simp add: table_for_def entry_parts)
      have "pt_slot va (table_for pdt va s1) \<noteq> pd_entry va pdt"
        using entry_addrs(4) [OF ta, of va] entry_addrs(2) [OF dir_okD(1) [OF ok], of va] dir_okD(3) [OF ok1 pr1] by metis
      then show ?thesis using pr1 entry_addrs(1) [OF dir_okD(1) [OF ok]] entry_addrs(3) [OF ta]
        by (simp add: present_def s'_def get_put)
    qed
    then have "\<exists>s'. mm_set_pt_entry va x pdt s = Some (True, s') \<and> pte va pdt s' = x \<and>
        (\<forall>v. aligned v \<and> v \<noteq> va \<longrightarrow> pte v pdt s' = pte v pdt s) \<and> dir_ok pdt s' \<and> frames_ok s' \<and> present pdt va s'"
      using run pte_write [OF ok1 pr1 va, where x = x, folded s'_def] I(2) fok s1(2) by (auto simp: s'_def)
  } note fresh = this
  show "(present pdt va s \<or> frames MM_REQUEST_KERNEL s - taken_frames s \<noteq> {}) \<Longrightarrow>
      \<exists>s'. mm_set_pt_entry va x pdt s = Some (True, s') \<and> pte va pdt s' = x \<and>
        (\<forall>v. aligned v \<and> v \<noteq> va \<longrightarrow> pte v pdt s' = pte v pdt s) \<and> dir_ok pdt s' \<and> frames_ok s' \<and> present pdt va s'"
    using here fresh by blast
  show "\<not> present pdt va s \<Longrightarrow> frames MM_REQUEST_KERNEL s - taken_frames s = {} \<Longrightarrow>
      mm_set_pt_entry va x pdt s = Some (False, s)"
    using va np pd seek_contract(2) [OF fok, of MM_REQUEST_KERNEL]
    by (simp add: mm_set_pt_entry_def kalloc_seek Let_def)
qed

lemma processes_frame [simp]:
  "taken_frames (s\<lparr>processes := ps\<rparr>) = taken_frames s" "frames r (s\<lparr>processes := ps\<rparr>) = frames r s"
  "frames_ok (s\<lparr>processes := ps\<rparr>) = frames_ok s" "get32 a (s\<lparr>processes := ps\<rparr>) = get32 a s"
  "present pdt v (s\<lparr>processes := ps\<rparr>) = present pdt v s" "table_for pdt v (s\<lparr>processes := ps\<rparr>) = table_for pdt v s"
  "pte v pdt (s\<lparr>processes := ps\<rparr>) = pte v pdt s" "dir_ok pdt (s\<lparr>processes := ps\<rparr>) = dir_ok pdt s"
proof -
  have "zone r (s\<lparr>processes := ps\<rparr>) = zone r s" by (cases r) simp_all
  then show "frames r (s\<lparr>processes := ps\<rparr>) = frames r s" by (simp add: frames_def zone_bits_def)
qed (simp_all add: taken_frames_def frames_ok_def get32_def present_def table_for_def pte_def dir_ok_def owned_def)

lemma cur_pid_frame [simp]:
  "taken_frames (s\<lparr>cur_pid := c\<rparr>) = taken_frames s" "frames r (s\<lparr>cur_pid := c\<rparr>) = frames r s"
  "frames_ok (s\<lparr>cur_pid := c\<rparr>) = frames_ok s" "get32 a (s\<lparr>cur_pid := c\<rparr>) = get32 a s"
  "present pdt v (s\<lparr>cur_pid := c\<rparr>) = present pdt v s" "table_for pdt v (s\<lparr>cur_pid := c\<rparr>) = table_for pdt v s"
  "pte v pdt (s\<lparr>cur_pid := c\<rparr>) = pte v pdt s" "dir_ok pdt (s\<lparr>cur_pid := c\<rparr>) = dir_ok pdt s"
proof -
  have "zone r (s\<lparr>cur_pid := c\<rparr>) = zone r s" by (cases r) simp_all
  then show "frames r (s\<lparr>cur_pid := c\<rparr>) = frames r s" by (simp add: frames_def zone_bits_def)
qed (simp_all add: taken_frames_def frames_ok_def get32_def present_def table_for_def pte_def dir_ok_def owned_def)

lemma set_bit_more: "set_bit_op p s = Some s' \<Longrightarrow> \<exists>b. s' = s\<lparr>mm_bitmap := b\<rparr>"
  by (auto simp: set_bit_op_def Let_def split: if_splits)

lemma seek_bit_more: "seek_bit n i s = Some (f, s') \<Longrightarrow> \<exists>b. s' = s\<lparr>mm_bitmap := b\<rparr>"
proof (induction n arbitrary: i)
  case 0
  then show ?case by (auto intro: exI [of _ "mm_bitmap s"])
next
  case (Suc n)
  then show ?case by (auto split: if_splits dest: set_bit_more)
qed

lemma mem_seek_more: "mm_mem_seek r s = Some (f, s') \<Longrightarrow> \<exists>b. s' = s\<lparr>mm_bitmap := b\<rparr>"
  by (auto simp: mm_mem_seek_def Let_def split: if_splits prod.splits dest: seek_bit_more
      intro: exI [of _ "mm_bitmap s"])

lemma install_table_frame:
  "install_table y f s = Some s1 \<Longrightarrow> processes s1 = processes s \<and> cur_pid s1 = cur_pid s"
  by (auto simp: install_table_def Let_def put32_def zero_page_def split: if_splits)

lemma mem_seek_frame: "mm_mem_seek r s = Some (f, s') \<Longrightarrow> processes s' = processes s \<and> cur_pid s' = cur_pid s"
  using mem_seek_more by fastforce

lemma set_pt_entry_frame:
  assumes "mm_set_pt_entry v x pdt s = Some (ok, s')"
  shows "processes s' = processes s" "cur_pid s' = cur_pid s"
  using assms
  by (auto simp: mm_set_pt_entry_def Let_def kalloc_seek split: if_splits
      dest!: mem_seek_frame install_table_frame)

lemma table_nonzero: "frames_ok s \<Longrightarrow> dir_ok pdt s \<Longrightarrow> present pdt v s \<Longrightarrow> pt_slot v (table_for pdt v s) \<noteq> 0"
proof
  assume a: "frames_ok s" "dir_ok pdt s" "present pdt v s" and z: "pt_slot v (table_for pdt v s) = 0"
  have ta: "aligned (table_for pdt v s)" by (simp add: table_for_def entry_parts)
  have "table_for pdt v s = 0" using entry_addrs(4) [OF ta, of v] z by (simp add: page_of_def)
  moreover have "table_for pdt v s \<in> taken_frames s" using dir_okD(4) a by blast
  ultimately show False using a(1) frame_at_nonzero by (force simp: taken_frames_def frames_ok_def)
qed

lemma pt_entry_for_eq:
  "aligned v \<Longrightarrow> mm_pt_entry_for v pdt s = Some (if present pdt v s then pt_slot v (table_for pdt v s) else 0)"
  by (simp add: mm_pt_entry_for_def present_def table_for_def Let_def)

text \<open>C21: The \<^verbatim>\<open>palloc\<close> system call hands a process the pages of its heap one after the other: it
  returns the next one, marked in the page table as requested (so that the first access to
  it will allocate a frame), and touches no other page; without kernel memory for a page
  table it returns 0 and reserves nothing.\<close>

theorem palloc_reserves:
  assumes "frames_ok s" and "dir_ok pdt s" and "aget (processes s) (cur_pid s) = Some p" and "p_cr3 p = pdt"
    and "aligned (p_next_empty_page_addr p)" and "pte (p_next_empty_page_addr p) pdt s AND MM_ATTR_P = 0"
  defines "a \<equiv> p_next_empty_page_addr p"
  shows "\<exists>q s'. palloc s = Some (q, s') \<and> dir_ok pdt s' \<and> frames_ok s' \<and>
    map_option p_next_empty_page_addr (aget (processes s') (cur_pid s')) = Some (a + 4096) \<and>
    (if present pdt a s \<or> frames MM_REQUEST_KERNEL s - taken_frames s \<noteq> {}
     then q = a \<and> is_requested a pdt s' = Some True \<and> (\<forall>v. aligned v \<and> v \<noteq> a \<longrightarrow> pte v pdt s' = pte v pdt s)
     else q = 0 \<and> (\<forall>v. pte v pdt s' = pte v pdt s))"
proof -
  let ?c = "cur_pid s"
  define ps where "ps = (processes s)[nat ?c := (processes s ! nat ?c)\<lparr>p_next_empty_page_addr := a + 4096\<rparr>]"
  let ?s = "s\<lparr>processes := ps\<rparr>"
  have c: "0 \<le> ?c" "?c < int (length (processes s))" "processes s ! nat ?c = p" using assms(3) by (auto simp: aget_eq_Some)
  have cp: "cur_pdt ?s = Some pdt" using c assms(4) by (simp add: cur_pdt_def aget_def ps_def)
  have nx: "map_option p_next_empty_page_addr (aget ps ?c) = Some (a + 4096)" using c by (simp add: aget_def ps_def)
  define x where "x = (if present pdt a s then pte a pdt s OR PAGE_REQUESTED else PAGE_REQUESTED)"
  have xp: "x AND MM_ATTR_P = 0"
  proof (rule bit_word_eqI)
    fix n :: nat
    have "\<not> bit (pte a pdt s) 0" using assms(6) and1 [of "pte a pdt s"] by (simp add: a_def)
    moreover have "\<not> bit (2 :: u32) 0" using bit_exp_iff [of 1 0, where 'a = u32] by simp
    ultimately have "\<not> bit x 0" by (simp add: x_def bit_or_iff)
    then show "bit (x AND MM_ATTR_P) n = bit (0 :: u32) n" by (cases n) (simp_all add: bit_and_iff bit_1_iff)
  qed
  have xr: "x AND PAGE_REQUESTED \<noteq> 0"
  proof -
    have b2: "bit (2 :: u32) 1" using bit_exp_iff [of 1 1, where 'a = u32] by simp
    then have "bit (x AND PAGE_REQUESTED) 1" by (simp add: x_def bit_or_iff bit_and_iff)
    then show ?thesis by (metis bit_0_eq bot_apply bot_bool_def)
  qed
  have al: "aligned a" using assms(5) by (simp add: a_def)
  have sr: "set_as_requested a pdt ?s = mm_set_pt_entry a x pdt ?s"
    using al table_nonzero [OF assms(1,2), of a] by (simp add: set_as_requested_def pt_entry_for_eq x_def pte_def)
  have upd: "aupd ?c (\<lambda>p. p\<lparr>p_next_empty_page_addr := p_next_empty_page_addr p + 4096\<rparr>) (processes s) = Some ps"
    using c by (simp add: aupd_def ps_def a_def)
  have run: "palloc s = Option.bind (mm_set_pt_entry a x pdt ?s) (\<lambda>(ok, s). if \<not> ok then Some (0, s) else Some (a, s))"
    using assms(3) cp by (simp add: palloc_def upd sr flip: a_def)
  have ok': "frames_ok ?s" "dir_ok pdt ?s" using assms(1,2) by simp_all
  show ?thesis
  proof (cases "present pdt a s \<or> frames MM_REQUEST_KERNEL s - taken_frames s \<noteq> {}")
    case True
    then have "present pdt a ?s \<or> frames MM_REQUEST_KERNEL ?s - taken_frames ?s \<noteq> {}" by simp
    from set_pt_entry_spec(1) [OF ok' al xp this] obtain s' where s': "mm_set_pt_entry a x pdt ?s = Some (True, s')"
      "pte a pdt s' = x" "\<forall>v. aligned v \<and> v \<noteq> a \<longrightarrow> pte v pdt s' = pte v pdt ?s" "dir_ok pdt s'" "frames_ok s'"
      "present pdt a s'" by blast
    have "is_requested a pdt s' = Some True"
      using al s'(2,6) xp xr table_nonzero [OF s'(5,4,6)] by (simp add: is_requested_def pt_entry_for_eq pte_def)
    then show ?thesis using True run s' nx set_pt_entry_frame [OF s'(1)] by simp
  next
    case False
    then have n: "\<not> present pdt a ?s" "frames MM_REQUEST_KERNEL ?s - taken_frames ?s = {}" by simp_all
    have "palloc s = Some (0, ?s)" using run set_pt_entry_spec(2) [OF ok' al xp n] by simp
    then show ?thesis using False ok' nx by simp
  qed
qed

lemma put32_kp: "kernel_pagetable (put32 a v s) = kernel_pagetable s"
  by (simp add: put32_def)

lemma dir_new_pages:
  assumes s: "frames_ok s" and room: "frames MM_REQUEST_KERNEL s - taken_frames s \<noteq> {}"
    and k: "kernel_pagetable s \<in> taken_frames s" "aligned (kernel_pagetable s)"
  obtains cr3 s' where "mm_dir_new s = Some (cr3, s')" "aligned cr3" "cr3 \<notin> taken_frames s" "frames_ok s'"
    "taken_frames s' = insert cr3 (taken_frames s)" "kernel_pagetable s' = kernel_pagetable s"
    "\<And>r. frames r s' = frames r s"
    "\<And>a. aligned4 a \<Longrightarrow> get32 a s' = (if a = cr3 then kernel_pagetable s OR 3 else if page_of a = cr3 then 0 else get32 a s)"
proof -
  obtain f b where f: "mm_mem_kalloc s = Some (f, s\<lparr>mm_bitmap := b\<rparr>)" "f \<notin> taken_frames s" "f \<noteq> 0" "aligned f"
    "taken_frames (s\<lparr>mm_bitmap := b\<rparr>) = insert f (taken_frames s)"
    using kalloc_Some [OF s room] by metis
  define s1 where "s1 = zero_page f (s\<lparr>mm_bitmap := b\<rparr>)"
  have a4: "aligned4 f" using index_addr(2) [OF f(4), of 0] by simp
  have kp: "kernel_pagetable s1 = kernel_pagetable s" by (simp add: s1_def zero_page_def)
  have e: "put32 f (with_attr 3 (get32 f (put32 f (with_base (drop_bit 12 (kernel_pagetable s)) (get32 f s1)) s1)))
      (put32 f (with_base (drop_bit 12 (kernel_pagetable s)) (get32 f s1)) s1) = put32 f (kernel_pagetable s OR 3) s1"
    using map_entry [OF a4 k(2), of 3] by simp
  have run: "mm_dir_new s = Some (f, put32 f (kernel_pagetable s OR 3) s1)"
    using f(1,3) e by (simp add: mm_dir_new_def Let_def kp flip: s1_def)
  have fp: "page_of f = f" using f(4) by (rule page_of_aligned)
  have g: "get32 a (put32 f (kernel_pagetable s OR 3) s1) =
      (if a = f then kernel_pagetable s OR 3 else if page_of a = f then 0 else get32 a s)" if "aligned4 a" for a
    using that a4 by (simp add: get_put s1_def get_zero f(4))
  show thesis
    by (rule that [OF run f(4,2) _ _ _ _ g]) (use s f(5) kp in \<open>simp_all add: s1_def put32_kp\<close>)
qed


lemma dir_new_spec:
  assumes "frames_ok s" and "frames MM_REQUEST_KERNEL s - taken_frames s \<noteq> {}"
    and "kernel_pagetable s \<in> taken_frames s" and "aligned (kernel_pagetable s)"
  shows "\<exists>cr3 s'. mm_dir_new s = Some (cr3, s') \<and> cr3 \<notin> taken_frames s \<and>
    taken_frames s' = insert cr3 (taken_frames s) \<and> dir_ok cr3 s' \<and> frames_ok s' \<and>
    (\<forall>v. aligned v \<longrightarrow> pte v cr3 s' =
       (if PD_ENTRY_FOR v = 0 then get32 (pt_slot v (kernel_pagetable s)) s else 0))"
proof -
  obtain cr3 s' where n: "mm_dir_new s = Some (cr3, s')" "aligned cr3" "cr3 \<notin> taken_frames s" "frames_ok s'"
    "taken_frames s' = insert cr3 (taken_frames s)"
    "\<And>a. aligned4 a \<Longrightarrow> get32 a s' = (if a = cr3 then kernel_pagetable s OR 3 else if page_of a = cr3 then 0 else get32 a s)"
    using dir_new_pages [OF assms] by metis
  note e = entry_addrs [OF n(2)]
  have w: "kernel_pagetable s OR 3 = with_attr 3 (kernel_pagetable s)"
    using assms(4) by (simp add: with_attr_def base_addr_aligned)
  have pd: "get32 (pd_entry v cr3) s' = (if PD_ENTRY_FOR v = 0 then with_attr 3 (kernel_pagetable s) else 0)" for v
  proof -
    have "pd_entry 0 cr3 = cr3" by (simp add: pd_entry_def PD_ENTRY_FOR_def)
    then have "pd_entry v cr3 = cr3 \<longleftrightarrow> PD_ENTRY_FOR v = 0"
      using e(5) [of v 0] by (simp add: PD_ENTRY_FOR_def)
    then show ?thesis using n(6) [OF e(1) [of v]] e(2) [of v] by (auto simp: w)
  qed
  have attr: "attr_of (with_attr 3 (kernel_pagetable s)) = 3" "base_addr (with_attr 3 (kernel_pagetable s)) = kernel_pagetable s"
    "attr_of 0 = 0" using assms(4) by (simp_all add: entry_parts base_addr_aligned) (simp add: attr_of_def)
  have pr: "present cr3 v s' \<longleftrightarrow> PD_ENTRY_FOR v = 0" "PD_ENTRY_FOR v = 0 \<Longrightarrow> table_for cr3 v s' = kernel_pagetable s" for v
    by (simp_all add: present_def table_for_def pd attr)
  have kne: "kernel_pagetable s \<noteq> cr3" using assms(3) n(3) by auto
  have "owned cr3 s' \<subseteq> taken_frames s'" using pr n(5) assms(3) by (auto simp: owned_def)
  then have "dir_ok cr3 s'" using n(2) pr kne by (auto simp: dir_ok_def)
  moreover have "pte v cr3 s' = (if PD_ENTRY_FOR v = 0 then get32 (pt_slot v (kernel_pagetable s)) s else 0)" for v
  proof -
    have k: "aligned4 (pt_slot v (kernel_pagetable s))" "page_of (pt_slot v (kernel_pagetable s)) = kernel_pagetable s"
      using entry_addrs(3,4) [OF assms(4)] by simp_all
    then have "pt_slot v (kernel_pagetable s) \<noteq> cr3" using kne page_of_aligned [OF n(2)] by metis
    then show ?thesis using n(6) [OF k(1)] k(2) kne pr by (simp add: pte_def)
  qed
  ultimately show ?thesis using n by blast
qed

text \<open>A new address space shares the kernel's first 4 MB and has nothing else in it: its
  directory is a fresh kernel frame, pages below 4 MB translate through the kernel's own
  page table and no page from 4 MB up is present or requested.\<close>

theorem dir_new_empty:
  assumes "frames_ok s" and "frames MM_REQUEST_KERNEL s - taken_frames s \<noteq> {}"
    and "kernel_pagetable s \<in> taken_frames s" and "aligned (kernel_pagetable s)"
  shows "\<exists>cr3 s'. mm_dir_new s = Some (cr3, s') \<and> cr3 \<notin> taken_frames s \<and>
    taken_frames s' = insert cr3 (taken_frames s) \<and> dir_ok cr3 s' \<and> frames_ok s' \<and>
    (\<forall>v. aligned v \<longrightarrow> pte v cr3 s' =
       (if PD_ENTRY_FOR v = 0 then get32 (pt_slot v (kernel_pagetable s)) s else 0))"
  by (rule dir_new_spec [OF assms])

subsection \<open>Witnesses\<close>

text \<open>The first kernel frame is the kernel's page table, the next ones are free.\<close>

definition mm_booted :: mm_state where
  "mm_booted = mm_demo\<lparr>mm_bitmap := with_bit 0 True (mm_bitmap mm_demo), kernel_pagetable := frame_at 0\<rparr>"

definition dir_demo :: "u32 \<times> mm_state" where
  "dir_demo = the (mm_dir_new mm_booted)"

lemma mm_booted_facts: "frames_ok mm_booted" "frames MM_REQUEST_KERNEL mm_booted - taken_frames mm_booted \<noteq> {}"
  "kernel_pagetable mm_booted \<in> taken_frames mm_booted" "aligned (kernel_pagetable mm_booted)"
  "frame_at 2 \<in> frames MM_REQUEST_KERNEL mm_booted - taken_frames mm_booted"
  "frame_at 3 \<in> frames MM_REQUEST_KERNEL mm_booted - taken_frames mm_booted"
proof -
  show ok: "frames_ok mm_booted" using mm_demo_ok by (simp add: mm_booted_def frames_ok_def)
  have bm: "mm_bitmap mm_demo = (\<lambda>_. 0)" "mm_bitmap_byte_len mm_booted = 256"
    by (simp_all add: mm_booted_def mm_demo_def mm_state.fields_def proc_state.extend_def)
  have u: "used_bit (mm_bitmap mm_booted) p \<longleftrightarrow> p = 0" for p
    by (simp add: mm_booted_def bm) (simp add: used_bit_def)
  have f: "frame_at p \<in> frames MM_REQUEST_KERNEL mm_booted - taken_frames mm_booted" if "0 < p" "p < 768" for p
    using taken_iff [OF ok, of p] that bm u by (auto simp: frames_def zone_bits_def)
  show "frame_at 2 \<in> frames MM_REQUEST_KERNEL mm_booted - taken_frames mm_booted"
    "frame_at 3 \<in> frames MM_REQUEST_KERNEL mm_booted - taken_frames mm_booted"
    "frames MM_REQUEST_KERNEL mm_booted - taken_frames mm_booted \<noteq> {}"
    using f [of 2] f [of 3] by auto
  have "frame_at 0 \<in> taken_frames mm_booted" using taken_iff [OF ok, of 0] bm u by simp
  then show "kernel_pagetable mm_booted \<in> taken_frames mm_booted" by (simp add: mm_booted_def)
  show "aligned (kernel_pagetable mm_booted)" by (simp add: mm_booted_def aligned_def)
qed

lemma dir_demo_facts: "dir_ok (fst dir_demo) (snd dir_demo)" "frames_ok (snd dir_demo)"
  "frames MM_REQUEST_KERNEL (snd dir_demo) - taken_frames (snd dir_demo) \<noteq> {}"
  "\<And>v. aligned v \<Longrightarrow> PD_ENTRY_FOR v \<noteq> 0 \<Longrightarrow> pte v (fst dir_demo) (snd dir_demo) = 0"
proof -
  obtain c s' where n: "mm_dir_new mm_booted = Some (c, s')" "taken_frames s' = insert c (taken_frames mm_booted)"
    "dir_ok c s'" "frames_ok s'" "\<forall>v. aligned v \<longrightarrow> pte v c s' =
       (if PD_ENTRY_FOR v = 0 then get32 (pt_slot v (kernel_pagetable mm_booted)) mm_booted else 0)"
    using dir_new_spec [OF mm_booted_facts(1-4)] by blast
  have fr: "frames r s' = frames r mm_booted" for r
    using dir_new_pages [OF mm_booted_facts(1-4)] n(1) by (metis (no_types, lifting) option.inject prod.inject)
  have d: "fst dir_demo = c" "snd dir_demo = s'" by (simp_all add: dir_demo_def n(1))
  have "frame_at 2 \<noteq> frame_at 3" by (simp add: frame_at_inj)
  then have "frame_at 2 \<in> frames MM_REQUEST_KERNEL s' - taken_frames s' \<or>
    frame_at 3 \<in> frames MM_REQUEST_KERNEL s' - taken_frames s'"
    using mm_booted_facts(5,6) n(2) unfolding fr by auto
  then show "dir_ok (fst dir_demo) (snd dir_demo)" "frames_ok (snd dir_demo)"
    "frames MM_REQUEST_KERNEL (snd dir_demo) - taken_frames (snd dir_demo) \<noteq> {}"
    "\<And>v. aligned v \<Longrightarrow> PD_ENTRY_FOR v \<noteq> 0 \<Longrightarrow> pte v (fst dir_demo) (snd dir_demo) = 0"
    using n(3-5) unfolding d by auto
qed

definition palloc_demo :: mm_state where
  "palloc_demo = (snd dir_demo)\<lparr>cur_pid := 1, processes := replicate MAX_PID
     (blank_pcb\<lparr>p_cr3 := fst dir_demo, p_next_empty_page_addr := 0x800000\<rparr>)\<rparr>"

theorem dir_new_empty_witness:
  "\<exists>cr3 s'. mm_dir_new mm_booted = Some (cr3, s') \<and> cr3 \<notin> taken_frames mm_booted \<and>
    taken_frames s' = insert cr3 (taken_frames mm_booted) \<and> dir_ok cr3 s' \<and> frames_ok s' \<and> pte 0x800000 cr3 s' = 0"
proof -
  have "aligned 0x800000" "PD_ENTRY_FOR 0x800000 \<noteq> 0" by (simp_all add: aligned_def PD_ENTRY_FOR_def)
  then show ?thesis using dir_new_empty [OF mm_booted_facts(1-4)] by fastforce
qed

theorem map_frame_translates_witness:
  "\<exists>s'. mm_map_frame 0x400000 0x800000 (fst dir_demo) 3 (snd dir_demo) = Some s' \<and>
     mm_frame_from_page 0x800000 (fst dir_demo) s' = Some 0x400000"
proof -
  have "aligned 0x400000" "aligned 0x800000" by (simp_all add: aligned_def)
  from map_frame_translates [OF dir_demo_facts(2,1) this disjI2 [OF dir_demo_facts(3)], of 3]
  show ?thesis by blast
qed

theorem palloc_reserves_witness:
  "\<exists>q s'. palloc palloc_demo = Some (q, s') \<and> q = 0x800000 \<and>
     is_requested 0x800000 (fst dir_demo) s' = Some True"
proof -
  define p where "p = blank_pcb\<lparr>p_cr3 := fst dir_demo, p_next_empty_page_addr := 0x800000\<rparr>"
  have g: "aget (processes palloc_demo) (cur_pid palloc_demo) = Some p"
    by (simp add: palloc_demo_def aget_def p_def)
  have ok: "frames_ok palloc_demo" "dir_ok (fst dir_demo) palloc_demo"
    "frames MM_REQUEST_KERNEL palloc_demo - taken_frames palloc_demo \<noteq> {}"
    using dir_demo_facts by (simp_all add: palloc_demo_def)
  have a: "aligned (p_next_empty_page_addr p)" "p_cr3 p = fst dir_demo" by (simp_all add: p_def aligned_def)
  have "pte (p_next_empty_page_addr p) (fst dir_demo) palloc_demo = 0"
    using dir_demo_facts(4) [OF a(1)] by (simp add: palloc_demo_def p_def PD_ENTRY_FOR_def)
  then have z: "pte (p_next_empty_page_addr p) (fst dir_demo) palloc_demo AND MM_ATTR_P = 0" by simp
  from palloc_reserves [OF ok(1,2) g a(2,1) z] ok(3)
  show ?thesis by (simp add: p_def) metis
qed

end
