(* ===== verification/Umem.thy ===== *)
theory Umem
  imports Paging
begin

section \<open>Copying between the kernel and its processes\<close>

text \<open>
  \<^verbatim>\<open>memcpy\<close> and \<^verbatim>\<open>memset\<close> of \<^verbatim>\<open>kernel/lib.c\<close> and
  \<^verbatim>\<open>copy2user\<close> of \<^verbatim>\<open>kernel/common.c\<close>, on bytes of memory. A kernel
  pointer is a physical address; an address of the running process goes through its page
  directory. The kernel runs with \<^verbatim>\<open>CR0.WP\<close> clear, so its own accesses are not
  stopped by a read-only or privileged entry, only by an absent one; such an access would
  raise a page fault inside the copy, which is outside this model (\<open>None\<close>).
\<close>

subsection \<open>The code\<close>

fun memcpy_bytes :: "nat \<Rightarrow> u32 \<Rightarrow> u32 \<Rightarrow> (u32 \<Rightarrow> u8) \<Rightarrow> u32 \<Rightarrow> u8" where
  "memcpy_bytes 0 src dst m = m"
| "memcpy_bytes (Suc n) src dst m = memcpy_bytes n (src + 1) (dst + 1) (m(dst := m src))"

text \<open>\<^verbatim>\<open>memcpy\<close> between two kernel addresses.\<close>

definition memcpy :: "u32 \<Rightarrow> u32 \<Rightarrow> u32 \<Rightarrow> 'a mm_state_scheme \<Rightarrow> 'a mm_state_scheme" where
  "memcpy src dst sz s = s\<lparr>phys := memcpy_bytes (unat sz) src dst (phys s)\<rparr>"

fun memset_bytes :: "nat \<Rightarrow> u32 \<Rightarrow> u8 \<Rightarrow> (u32 \<Rightarrow> u8) \<Rightarrow> u32 \<Rightarrow> u8" where
  "memset_bytes 0 addr v m = m"
| "memset_bytes (Suc n) addr v m = memset_bytes n (addr + 1) v (m(addr := v))"

definition memset :: "u32 \<Rightarrow> u8 \<Rightarrow> u32 \<Rightarrow> 'a mm_state_scheme \<Rightarrow> 'a mm_state_scheme" where
  "memset addr v sz s = s\<lparr>phys := memset_bytes (unat sz) addr v (phys s)\<rparr>"

text \<open>The physical address of a byte of the running process.\<close>

definition user_phys :: "u32 \<Rightarrow> 'a mm_state_scheme \<Rightarrow> u32 option" where
  "user_phys v s = do {
     pdt \<leftarrow> cur_pdt s;
     e \<leftarrow> mm_pt_entry_for (page_of v) pdt s;
     kassert (e \<noteq> 0);
     kassert (attr_of (get32 e s) AND MM_ATTR_P \<noteq> 0);
     Some (base_addr (get32 e s) OR take_bit 12 v)
   }"

text \<open>\<^verbatim>\<open>memcpy\<close> from the kernel to the process, and from the process to the kernel.\<close>

fun memcpy_to_user :: "nat \<Rightarrow> u32 \<Rightarrow> u32 \<Rightarrow> 'a mm_state_scheme \<Rightarrow> 'a mm_state_scheme option" where
  "memcpy_to_user 0 src dst s = Some s"
| "memcpy_to_user (Suc n) src dst s = do {
     a \<leftarrow> user_phys dst s;
     memcpy_to_user n (src + 1) (dst + 1) (s\<lparr>phys := (phys s)(a := phys s src)\<rparr>)
   }"

fun memcpy_from_user :: "nat \<Rightarrow> u32 \<Rightarrow> u32 \<Rightarrow> 'a mm_state_scheme \<Rightarrow> 'a mm_state_scheme option" where
  "memcpy_from_user 0 src dst s = Some s"
| "memcpy_from_user (Suc n) src dst s = do {
     a \<leftarrow> user_phys src s;
     memcpy_from_user n (src + 1) (dst + 1) (s\<lparr>phys := (phys s)(dst := phys s a)\<rparr>)
   }"

definition copy2user :: "u32 \<Rightarrow> u32 \<Rightarrow> u32 \<Rightarrow> 'a mm_state_scheme \<Rightarrow> (int \<times> 'a mm_state_scheme) option" where
  "copy2user src dst_usr sz s = do {
     pdt \<leftarrow> cur_pdt s;
     pl \<leftarrow> mm_pl_of_vaddr dst_usr pdt s;
     if pl = PL_KERNEL then Some (-1, s)
     else do {
       s \<leftarrow> memcpy_to_user (unat sz) src dst_usr s;
       Some (sint sz, s)
     }
   }"

subsection \<open>What the copies do\<close>

lemma memcpy_bytes_other:
  "(\<And>i. i < n \<Longrightarrow> x \<noteq> dst + of_nat i) \<Longrightarrow> memcpy_bytes n src dst m x = m x"
proof (induction n arbitrary: src dst m)
  case (Suc n)
  have "x \<noteq> dst + 1 + of_nat i" if "i < n" for i
    using Suc.prems [of "Suc i"] that by (simp add: add.assoc)
  then show ?case using Suc.IH Suc.prems [of 0] by simp
qed simp

text \<open>Regions of memory that do not overlap.\<close>

definition region :: "u32 \<Rightarrow> nat \<Rightarrow> u32 set" where
  "region a n = (\<lambda>i. a + of_nat i) ` {..<n}"

lemma region_Suc: "region a (Suc n) = insert a (region (a + 1) n)"
proof -
  have "{..<Suc n} = insert 0 (Suc ` {..<n})" by (auto simp: less_Suc_eq_0_disj)
  then show ?thesis by (simp add: region_def image_image algebra_simps)
qed

lemma in_region: "i < n \<Longrightarrow> a + of_nat i \<in> region a n"
  by (auto simp: region_def)

definition bytes_at :: "u32 \<Rightarrow> nat \<Rightarrow> (u32 \<Rightarrow> u8) \<Rightarrow> u8 list" where
  "bytes_at a n m = map (\<lambda>i. m (a + of_nat i)) [0..<n]"

lemma bytes_at_simps [simp]:
  "bytes_at a 0 m = []" "bytes_at a (Suc n) m = m a # bytes_at (a + 1) n m" "length (bytes_at a n m) = n"
  by (simp_all add: bytes_at_def upt_conv_Cons map_Suc_upt [symmetric] algebra_simps del: upt_Suc)

lemma bytes_at_cong: "(\<And>x. x \<in> region a n \<Longrightarrow> m' x = m x) \<Longrightarrow> bytes_at a n m' = bytes_at a n m"
  by (simp add: bytes_at_def region_def)

lemma of_nat_inj_small: "i < 2 ^ 32 \<Longrightarrow> j < 2 ^ 32 \<Longrightarrow> (of_nat i :: u32) = of_nat j \<longleftrightarrow> i = j"
proof -
  assume "i < 2 ^ 32" "j < 2 ^ 32"
  then have "unat (of_nat i :: u32) = i" "unat (of_nat j :: u32) = j"
    by (simp_all add: unat_of_nat take_bit_nat_eq_self)
  then show ?thesis by metis
qed

lemma head_not_in_region: "n < 2 ^ 32 \<Longrightarrow> a \<notin> region (a + 1) n"
proof
  assume n: "n < 2 ^ 32" and "a \<in> region (a + 1) n"
  then obtain i where "i < n" "a = a + 1 + of_nat i" by (auto simp: region_def)
  then have "(of_nat (Suc i) :: u32) = of_nat 0" by simp
  then show False using \<open>i < n\<close> n of_nat_inj_small [of "Suc i" 0] by simp
qed

lemma memcpy_bytes_region: "x \<notin> region dst n \<Longrightarrow> memcpy_bytes n src dst m x = m x"
  by (rule memcpy_bytes_other) (auto simp: region_def)

lemma memcpy_bytes_copies:
  "n < 2 ^ 32 \<Longrightarrow> region src n \<inter> region dst n = {} \<Longrightarrow> bytes_at dst n (memcpy_bytes n src dst m) = bytes_at src n m"
proof (induction n arbitrary: src dst m)
  case (Suc n)
  define m' where "m' = m(dst := m src)"
  have d: "region (src + 1) n \<inter> region (dst + 1) n = {}" "dst \<notin> region (src + 1) n"
    using Suc.prems(2) by (auto simp: region_Suc)
  have "memcpy_bytes n (src + 1) (dst + 1) m' dst = m' dst"
    by (rule memcpy_bytes_region) (rule head_not_in_region, use Suc.prems(1) in simp)
  moreover have "bytes_at (src + 1) n m' = bytes_at (src + 1) n m"
    by (rule bytes_at_cong) (use d(2) in \<open>auto simp: m'_def\<close>)
  ultimately show ?case using Suc.IH [of "src + 1" "dst + 1" m'] Suc.prems(1) d(1) by (simp flip: m'_def) (simp add: m'_def)
qed simp

lemma memset_bytes_eq: "memset_bytes n addr v m x = (if x \<in> region addr n then v else m x)"
  by (induction n arbitrary: addr m) (auto simp: region_Suc, simp_all add: region_def)


subsection \<open>Through the page tables of a process\<close>

text \<open>
  A buffer of the process that is mapped: its bytes have physical places outside the
  process's own page tables, and no two of them the same.
\<close>

definition user_buffer :: "u32 \<Rightarrow> nat \<Rightarrow> u32 list \<Rightarrow> 'a mm_state_scheme \<Rightarrow> bool" where
  "user_buffer v n as s \<longleftrightarrow> length as = n \<and> distinct as \<and>
     (\<forall>i<n. user_phys (v + of_nat i) s = Some (as ! i)) \<and>
     (\<exists>pdt. cur_pdt s = Some pdt \<and> dir_ok pdt s \<and> (\<forall>a\<in>set as. page_of a \<notin> owned pdt s))"

definition may_write :: "u32 \<Rightarrow> 'a mm_state_scheme \<Rightarrow> bool" where
  "may_write v s \<longleftrightarrow> (\<exists>pdt pl. cur_pdt s = Some pdt \<and> mm_pl_of_vaddr v pdt s = Some pl \<and> pl \<noteq> PL_KERNEL)"

lemma cur_pdt_phys [simp]: "cur_pdt (s\<lparr>phys := m\<rparr>) = cur_pdt s"
  by (simp add: cur_pdt_def)

lemma get32_phys_cong:
  assumes "aligned4 a" "\<And>x. page_of x = page_of a \<Longrightarrow> m x = phys s x"
  shows "get32 a (s\<lparr>phys := m\<rparr>) = get32 a s"
  unfolding get32_def by (simp, rule ld32_cong) (use assms page_of_word in auto)

text \<open>What a process sees depends on the frames of its directory only.\<close>

lemma user_phys_cong:
  assumes p: "cur_pdt s = Some pdt" "dir_ok pdt s" and m: "\<And>x. page_of x \<in> owned pdt s \<Longrightarrow> m x = phys s x"
  shows "user_phys v (s\<lparr>phys := m\<rparr>) = user_phys v s"
    "dir_ok pdt (s\<lparr>phys := m\<rparr>)" "owned pdt (s\<lparr>phys := m\<rparr>) = owned pdt s"
    "mm_pl_of_vaddr v pdt (s\<lparr>phys := m\<rparr>) = mm_pl_of_vaddr v pdt s"
proof -
  let ?s = "s\<lparr>phys := m\<rparr>"
  note al = dir_okD(1) [OF p(2)]
  have pd: "get32 (pd_entry w pdt) ?s = get32 (pd_entry w pdt) s" for w
    by (rule get32_phys_cong) (use entry_addrs [OF al] m in \<open>auto simp: owned_def\<close>)
  then have same: "present pdt w ?s = present pdt w s" "table_for pdt w ?s = table_for pdt w s" for w
    by (simp_all add: present_def table_for_def)
  have ta: "aligned (table_for pdt w s)" for w by (simp add: table_for_def entry_parts)
  have pt: "get32 (pt_slot w (table_for pdt w s)) ?s = get32 (pt_slot w (table_for pdt w s)) s" if "present pdt w s" for w
  proof (rule get32_phys_cong)
    have "table_for pdt w s \<in> owned pdt s" using that by (auto simp: owned_def)
    then show "m x = phys s x" if "page_of x = page_of (pt_slot w (table_for pdt w s))" for x
      using m that entry_addrs(4) [OF ta] by simp
  qed (rule entry_addrs [OF ta])
  show own: "owned pdt ?s = owned pdt s" by (simp add: owned_def same)
  show "dir_ok pdt ?s" using p(2) by (simp add: dir_ok_def same own) (simp add: taken_frames_def)
  show "user_phys v ?s = user_phys v s"
  proof (cases "present pdt (page_of v) s")
    case True
    then show ?thesis by (simp add: user_phys_def p(1) pt_entry_for_eq same pt cong: if_cong)
  qed (simp add: user_phys_def p(1) pt_entry_for_eq same)
  have "v AND NOT (mask 12) = page_of v" by (rule bit_word_eqI) (auto simp: page_of_def bit_simps)
  moreover have "mask 12 = (0xFFF :: u32)" by (simp add: mask_eq_exp_minus_1)
  ultimately have v: "v AND NOT 0xFFF = page_of v" "aligned (page_of v)" by simp_all
  then have "mm_pt_entry_for (v AND NOT 0xFFF) pdt ?s = mm_pt_entry_for (v AND NOT 0xFFF) pdt s"
    by (simp add: pt_entry_for_eq same)
  moreover have "get32 (pt_slot (page_of v) (table_for pdt (page_of v) s)) ?s = get32 (pt_slot (page_of v) (table_for pdt (page_of v) s)) s"
    if "present pdt (page_of v) s" using pt that by blast
  ultimately show "mm_pl_of_vaddr v pdt ?s = mm_pl_of_vaddr v pdt s"
    using v by (cases "present pdt (page_of v) s") (simp_all add: mm_pl_of_vaddr_def pt_entry_for_eq same)
qed

lemma user_buffer_cong:
  assumes "user_buffer v n as s" "\<And>pdt x. cur_pdt s = Some pdt \<Longrightarrow> page_of x \<in> owned pdt s \<Longrightarrow> m x = phys s x"
  shows "user_buffer v n as (s\<lparr>phys := m\<rparr>)"
proof -
  obtain pdt where p: "cur_pdt s = Some pdt" "dir_ok pdt s" using assms(1) by (auto simp: user_buffer_def)
  show ?thesis using assms(1) user_phys_cong [OF p assms(2) [OF p(1)]] p(1) by (auto simp: user_buffer_def)
qed

lemma user_phys_upd:
  assumes p: "cur_pdt s = Some pdt" "dir_ok pdt s" and b: "page_of b \<notin> owned pdt s"
  shows "user_phys v (s\<lparr>phys := (phys s)(b := x)\<rparr>) = user_phys v s"
    "dir_ok pdt (s\<lparr>phys := (phys s)(b := x)\<rparr>)" "owned pdt (s\<lparr>phys := (phys s)(b := x)\<rparr>) = owned pdt s"
  by (rule user_phys_cong [OF p]; use b in auto)+

lemma user_buffer_take: "user_buffer v n as s \<Longrightarrow> k \<le> n \<Longrightarrow> user_buffer v k (take k as) s"
  unfolding user_buffer_def by (auto dest: in_set_takeD)

lemma user_buffer_tl:
  assumes "user_buffer v (Suc n) (a # as) s" "cur_pdt s = Some pdt"
  shows "user_phys v s = Some a" "user_buffer (v + 1) n as (s\<lparr>phys := (phys s)(b := x)\<rparr>) \<or> page_of b \<in> owned pdt s"
proof -
  have u: "\<forall>i<Suc n. user_phys (v + of_nat i) s = Some ((a # as) ! i)" "distinct as" "length as = n"
    "dir_ok pdt s" "\<forall>a\<in>set as. page_of a \<notin> owned pdt s"
    using assms by (auto simp: user_buffer_def)
  show "user_phys v s = Some a" using u(1) [rule_format, of 0] by simp
  have "user_phys (v + 1 + of_nat i) s = Some (as ! i)" if "i < n" for i
    using u(1) [rule_format, of "Suc i"] that by (simp add: algebra_simps)
  then show "user_buffer (v + 1) n as (s\<lparr>phys := (phys s)(b := x)\<rparr>) \<or> page_of b \<in> owned pdt s"
    using u(2-5) user_phys_upd [OF assms(2) u(4)] assms(2)
    by (cases "page_of b \<in> owned pdt s") (auto simp: user_buffer_def)
qed

lemma to_user_copies:
  assumes "user_buffer v n as s" "n < 2 ^ 32" "region src n \<inter> set as = {}"
  shows "\<exists>m. memcpy_to_user n src v s = Some (s\<lparr>phys := m\<rparr>) \<and> map m as = bytes_at src n (phys s) \<and>
    (\<forall>x. x \<notin> set as \<longrightarrow> m x = phys s x)"
  using assms
proof (induction n arbitrary: src v as s)
  case 0
  then show ?case by (intro exI [of _ "phys s"]) (simp add: user_buffer_def)
next
  case (Suc n)
  then obtain a as' where as: "as = a # as'" by (cases as) (auto simp: user_buffer_def)
  obtain pdt where pdt: "cur_pdt s = Some pdt" "\<forall>a\<in>set as. page_of a \<notin> owned pdt s"
    using Suc.prems(1) by (auto simp: user_buffer_def)
  let ?s = "s\<lparr>phys := (phys s)(a := phys s src)\<rparr>"
  note t = user_buffer_tl [OF Suc.prems(1) [unfolded as] pdt(1)]
  have ub: "user_buffer (v + 1) n as' ?s" using t(2) [of a] pdt(2) as by auto
  have na: "a \<notin> set as'" using Suc.prems(1) as by (auto simp: user_buffer_def)
  have d: "region (src + 1) n \<inter> set as' = {}" "a \<notin> region (src + 1) n" using Suc.prems(3) as by (auto simp: region_Suc)
  have "\<exists>m. memcpy_to_user n (src + 1) (v + 1) ?s = Some (?s\<lparr>phys := m\<rparr>) \<and>
      map m as' = bytes_at (src + 1) n (phys ?s) \<and> (\<forall>x. x \<notin> set as' \<longrightarrow> m x = phys ?s x)"
    by (rule Suc.IH [OF ub _ d(1)]) (use Suc.prems(2) in simp)
  then obtain m where m: "memcpy_to_user n (src + 1) (v + 1) ?s = Some (?s\<lparr>phys := m\<rparr>)"
    "map m as' = bytes_at (src + 1) n (phys ?s)" "\<forall>x. x \<notin> set as' \<longrightarrow> m x = phys ?s x" by blast
  have "bytes_at (src + 1) n (phys ?s) = bytes_at (src + 1) n (phys s)"
    by (rule bytes_at_cong) (use d(2) in auto)
  then show ?case using m t(1) as na by (intro exI [of _ m]) auto
qed

lemma from_user_copies:
  assumes "user_buffer v n as s" "n < 2 ^ 32" "region dst n \<inter> set as = {}"
    and "\<And>pdt. cur_pdt s = Some pdt \<Longrightarrow> \<forall>x\<in>region dst n. page_of x \<notin> owned pdt s"
  shows "\<exists>m. memcpy_from_user n v dst s = Some (s\<lparr>phys := m\<rparr>) \<and> bytes_at dst n m = map (phys s) as \<and>
    (\<forall>x. x \<notin> region dst n \<longrightarrow> m x = phys s x)"
  using assms
proof (induction n arbitrary: dst v as s)
  case 0
  then show ?case by (intro exI [of _ "phys s"]) (simp add: user_buffer_def)
next
  case (Suc n)
  then obtain a as' where as: "as = a # as'" by (cases as) (auto simp: user_buffer_def)
  obtain pdt where pdt: "cur_pdt s = Some pdt" "dir_ok pdt s" using Suc.prems(1) by (auto simp: user_buffer_def)
  let ?s = "s\<lparr>phys := (phys s)(dst := phys s a)\<rparr>"
  have no: "\<forall>x\<in>region dst (Suc n). page_of x \<notin> owned pdt s" using Suc.prems(4) [OF pdt(1)] .
  then have nd: "page_of dst \<notin> owned pdt s" by (simp add: region_Suc)
  note t = user_buffer_tl [OF Suc.prems(1) [unfolded as] pdt(1)]
  have ub: "user_buffer (v + 1) n as' ?s" using t(2) [of dst] nd by auto
  have d: "region (dst + 1) n \<inter> set as' = {}" "dst \<notin> set as'" using Suc.prems(3) as by (auto simp: region_Suc)
  have "\<exists>m. memcpy_from_user n (v + 1) (dst + 1) ?s = Some (?s\<lparr>phys := m\<rparr>) \<and>
      bytes_at (dst + 1) n m = map (phys ?s) as' \<and> (\<forall>x. x \<notin> region (dst + 1) n \<longrightarrow> m x = phys ?s x)"
  proof (rule Suc.IH [OF ub _ d(1)])
    fix pdt' assume "cur_pdt ?s = Some pdt'"
    then show "\<forall>x\<in>region (dst + 1) n. page_of x \<notin> owned pdt' ?s"
      using no pdt user_phys_upd(3) [OF pdt nd] by (simp add: region_Suc)
  qed (use Suc.prems(2) in simp)
  then obtain m where m: "memcpy_from_user n (v + 1) (dst + 1) ?s = Some (?s\<lparr>phys := m\<rparr>)"
    "bytes_at (dst + 1) n m = map (phys ?s) as'" "\<forall>x. x \<notin> region (dst + 1) n \<longrightarrow> m x = phys ?s x" by blast
  have "map (phys ?s) as' = map (phys s) as'" using d(2) by auto
  moreover have "m dst = phys s a"
    using m(3) head_not_in_region [of n dst] Suc.prems(2) by simp
  ultimately show ?case using m t(1) as by (intro exI [of _ m]) (auto simp: region_Suc)
qed

lemma user_phys_pte:
  assumes "frames_ok s" "dir_ok pdt s" "cur_pdt s = Some pdt" "attr_of (pte (page_of v) pdt s) AND MM_ATTR_P \<noteq> 0"
  shows "user_phys v s = Some (base_addr (pte (page_of v) pdt s) OR take_bit 12 v)"
proof -
  have "present pdt (page_of v) s" using assms(4) by (auto simp: pte_def attr_of_def split: if_splits)
  then show ?thesis using assms table_nonzero by (simp add: user_phys_def pt_entry_for_eq pte_def)
qed

lemma mapped_buffer:
  assumes "frames_ok s" "dir_ok pdt s" "cur_pdt s = Some pdt" "aligned v" "n \<le> 4096"
    and "attr_of (pte v pdt s) AND MM_ATTR_P \<noteq> 0" "base_addr (pte v pdt s) = f" "f \<notin> owned pdt s"
  shows "user_buffer v n (map (\<lambda>i. f + of_nat i) [0..<n]) s"
proof -
  have fa: "aligned f" using assms(7) entry_parts by metis
  have k: "(of_nat i :: u32) < 4096" if "i < n" for i
    using that assms(5) by (simp add: word_less_nat_alt unat_of_nat take_bit_nat_eq_self)
  have low: "take_bit 12 (v + of_nat i) = of_nat i" "f OR of_nat i = f + of_nat i" if "i < n" for i
    using small_take_bit [of "of_nat i :: u32" 12] k [OF that] assms(4) fa by (simp_all add: aligned_def' add_low)
  have "user_phys (v + of_nat i) s = Some (f + of_nat i)" if "i < n" for i
    using user_phys_pte [OF assms(1-3), of "v + of_nat i"] assms(4,6,7) low [OF that] page_of_add [OF assms(4) k [OF that]] by simp
  moreover have "inj_on (\<lambda>i. f + of_nat i :: u32) {0..<n}"
    using assms(5) by (auto intro!: inj_onI simp: of_nat_inj_small)
  moreover have "page_of (f + of_nat i) = f" if "i < n" for i using page_of_add [OF fa k [OF that]] .
  ultimately show ?thesis using assms(2,3,8) by (auto simp: user_buffer_def distinct_map)
qed

text \<open>\<^verbatim>\<open>copy2user\<close> refuses with -1, leaving memory alone, a destination whose first page
  is the kernel's; for a mapped buffer of the process it returns the size, the buffer then
  holds the bytes of the kernel's source and no other byte of memory has changed.\<close>

theorem copy2user_copies:
  assumes "cur_pdt s = Some pdt" and "user_buffer v (unat sz) as s" and "region src (unat sz) \<inter> set as = {}"
    and "mm_pl_of_vaddr v pdt s = Some pl"
  shows "if pl = PL_KERNEL then copy2user src v sz s = Some (-1, s)
    else \<exists>m. copy2user src v sz s = Some (sint sz, s\<lparr>phys := m\<rparr>) \<and> map m as = bytes_at src (unat sz) (phys s) \<and>
      (\<forall>x. x \<notin> set as \<longrightarrow> m x = phys s x)"
proof -
  have "unat sz < 2 ^ 32" using unsigned_less [of sz] by simp
  from to_user_copies [OF assms(2) this assms(3)]
  show ?thesis using assms(1,4) by (auto simp: copy2user_def)
qed

subsection \<open>Witnesses\<close>

text \<open>The page of the video memory mapped at 8 MB.\<close>

lemma mapped_demo:
  obtains s where "cur_pdt s = Some (fst dir_demo)"
    "user_buffer 0x800000 2 [0xB8000, 0xB8001] (s :: mm_state)" "mm_pl_of_vaddr 0x800000 (fst dir_demo) s = Some PL_USER"
proof -
  have al: "aligned 0xB8000" "aligned 0x800000" by (simp_all add: aligned_def)
  have ok: "frames_ok palloc_demo" "dir_ok (fst dir_demo) palloc_demo"
    "frames MM_REQUEST_KERNEL palloc_demo - taken_frames palloc_demo \<noteq> {}"
    using dir_demo_facts by (simp_all add: palloc_demo_def)
  obtain s :: mm_state where s: "pte 0x800000 (fst dir_demo) s = 0xB8000 OR map_attrs PL_USER" "dir_ok (fst dir_demo) s"
    "frames_ok s" "processes s = processes palloc_demo" "cur_pid s = cur_pid palloc_demo"
    by (rule map_frame_spec [OF ok(1,2) al disjI2 [OF ok(3)], of PL_USER]) blast
  have c: "cur_pdt s = Some (fst dir_demo)" by (simp add: cur_pdt_def s(4,5)) (simp add: palloc_demo_def aget_def)
  have e: "0xB8000 OR map_attrs PL_USER = (0xB8007 :: u32)" by (simp add: map_attrs_def)
  have "0xB8000 \<notin> owned (fst dir_demo) s"
  proof
    assume "0xB8000 \<in> owned (fst dir_demo) s"
    then obtain p where p: "0xB8000 = frame_at p" "0 \<le> p" "p < 524288"
      using s(2,3) by (auto simp: dir_ok_def taken_frames_def frames_ok_def)
    then have "uint (0xB8000 :: u32) = HIMEM_BEGIN + p * PAGE_SIZE" using frame_at_uint by metis
    then show False using p(2) by simp
  qed
  with s c e have "user_buffer 0x800000 2 (map (\<lambda>i. 0xB8000 + of_nat i) [0..<2]) s"
    by (intro mapped_buffer) (auto simp: al attr_of_def base_addr_def)
  moreover have "mm_pl_of_vaddr 0x800000 (fst dir_demo) s = Some PL_USER"
    using s(1-3) table_nonzero [OF s(3,2)] al(2)
    by (auto simp: mm_pl_of_vaddr_def pt_entry_for_eq pte_def e attr_of_def split: if_splits)
  ultimately show thesis using that c by (simp add: upt_rec)
qed

theorem copy2user_copies_witness:
  "\<exists>(s :: mm_state) m. copy2user 0x1000 0x800000 2 s = Some (2, s\<lparr>phys := m\<rparr>) \<and>
     m 0xB8000 = phys s 0x1000 \<and> m 0xB8001 = phys s 0x1001"
proof -
  obtain s where s: "cur_pdt s = Some (fst dir_demo)" "user_buffer 0x800000 2 [0xB8000, 0xB8001] (s :: mm_state)"
    "mm_pl_of_vaddr 0x800000 (fst dir_demo) s = Some PL_USER" by (rule mapped_demo)
  have "region 0x1000 2 = {0x1000, 0x1001 :: u32}" by (simp add: region_def lessThan_nat_numeral lessThan_Suc insert_commute)
  then have r: "region 0x1000 (unat (2 :: u32)) \<inter> set [0xB8000, 0xB8001 :: u32] = {}" by simp
  have "user_buffer 0x800000 (unat (2 :: u32)) [0xB8000, 0xB8001] s" using s(2) by simp
  from copy2user_copies [OF s(1) this r s(3)]
  obtain m where m: "copy2user 0x1000 0x800000 2 s = Some (2, s\<lparr>phys := m\<rparr>)"
    "map m [0xB8000, 0xB8001] = bytes_at 0x1000 2 (phys s)" by auto
  have "bytes_at 0x1000 2 (phys s) = [phys s 0x1000, phys s 0x1001]"
    by (simp add: bytes_at_def upt_rec)
  then show ?thesis using m by (intro exI [of _ s] exI [of _ m]) simp
qed

end
