(* ===== verification/Vga.thy ===== *)
theory Vga
  imports Lib Umem
begin

section \<open>The screen\<close>

text \<open>
  \<^verbatim>\<open>kernel/vga.c\<close>: the text screen as 25 rows of 80 cells of two bytes in memory, the
  cursor and the colours, and the bytes sent to the video controller. Every operation works
  on the video memory at \<open>vga_addr\<close> with the global \<open>vga_state\<close>, or on the saved screen of a
  console with the console's own state; the record holds the state the operation is given.
  Formats and strings lie outside the screen they are printed on. The second half relates
  the bytes in memory to a grid of cells: each character does on the grid what a terminal
  does, text runs over the rows and scrolls, and printing a format is putting the
  characters that \<^verbatim>\<open>vsnprintf\<close> makes of it.
\<close>

record screen =
  scr_x :: u8
  scr_y :: u8
  scr_attr :: u8

record display =
  scr :: screen
  vmem :: "u32 \<Rightarrow> u8"
  outs :: "(u16 \<times> u8) list"

abbreviation (input) vga_addr :: u32 where "vga_addr \<equiv> 0xB8000"
abbreviation (input) TAB_WIDTH :: u8 where "TAB_WIDTH \<equiv> 4"
abbreviation (input) WHITE_SPACE :: u16 where "WHITE_SPACE \<equiv> 0x0720"
abbreviation (input) vga_cols :: u8 where "vga_cols \<equiv> 80"
abbreviation (input) vga_rows :: u8 where "vga_rows \<equiv> 25"
abbreviation (input) VGA_FC_WHITE :: u8 where "VGA_FC_WHITE \<equiv> 0x07"
abbreviation (input) VGA_BC_BLACK :: u8 where "VGA_BC_BLACK \<equiv> 0x00"

subsection \<open>Cells\<close>

definition ld16 :: "u32 \<Rightarrow> (u32 \<Rightarrow> u8) \<Rightarrow> u16" where
  "ld16 a m = ucast (m a) OR push_bit 8 (ucast (m (a + 1)))"

definition st16 :: "u32 \<Rightarrow> u16 \<Rightarrow> (u32 \<Rightarrow> u8) \<Rightarrow> u32 \<Rightarrow> u8" where
  "st16 a v m = m(a := ucast v, a + 1 := ucast (drop_bit 8 v))"

definition location :: "screen \<Rightarrow> u32" where
  "location st = ucast (scr_y st) * 80 + ucast (scr_x st)"

definition put_cell :: "u32 \<Rightarrow> u16 \<Rightarrow> display \<Rightarrow> display" where
  "put_cell buff v d = d\<lparr>vmem := st16 (buff + 2 * location (scr d)) v (vmem d)\<rparr>"

definition outb :: "u16 \<Rightarrow> u8 \<Rightarrow> display \<Rightarrow> display" where
  "outb port v d = d\<lparr>outs := outs d @ [(port, v)]\<rparr>"

definition vga_update_cursor :: "display \<Rightarrow> display" where
  "vga_update_cursor d =
     (let loc = location (scr d);
          d = put_cell vga_addr WHITE_SPACE d;
          d = outb 0x3D4 0x0E d;
          d = outb 0x3D5 (ucast (drop_bit 8 loc AND 0xFF)) d;
          d = outb 0x3D4 0x0F d
      in outb 0x3D5 (ucast (loc AND 0xFF)) d)"

subsection \<open>Characters\<close>

fun copy_cells :: "nat \<Rightarrow> u32 \<Rightarrow> u32 \<Rightarrow> (u32 \<Rightarrow> u8) \<Rightarrow> u32 \<Rightarrow> u8" where
  "copy_cells 0 pos cur_pos m = m"
| "copy_cells (Suc n) pos cur_pos m = copy_cells n (pos + 2) (cur_pos + 2) (st16 pos (ld16 cur_pos m) m)"

fun zero_cells :: "nat \<Rightarrow> u32 \<Rightarrow> (u32 \<Rightarrow> u8) \<Rightarrow> u32 \<Rightarrow> u8" where
  "zero_cells 0 pos m = m"
| "zero_cells (Suc n) pos m = zero_cells n (pos + 2) (st16 pos 0 m)"

definition scroll :: "u32 \<Rightarrow> display \<Rightarrow> display" where
  "scroll buff d =
     d\<lparr>vmem := zero_cells 80 (buff + 2 * (24 * 80)) (copy_cells (24 * 80) buff (buff + 2 * 80) (vmem d))\<rparr>"

definition putln :: "u32 \<Rightarrow> display \<Rightarrow> display" where
  "putln buff d =
     (let d = d\<lparr>scr := (scr d)\<lparr>scr_x := 0, scr_y := scr_y (scr d) + 1\<rparr>\<rparr>;
          d = (if scr_y (scr d) = vga_rows
               then (scroll buff d)\<lparr>scr := (scr d)\<lparr>scr_y := scr_y (scr d) - 1\<rparr>\<rparr> else d)
      in if buff = vga_addr then vga_update_cursor d else d)"

definition putbs :: "u32 \<Rightarrow> display \<Rightarrow> display" where
  "putbs buff d =
     (let d = put_cell buff (0x20 OR push_bit 8 (ucast (scr_attr (scr d)))) d; st = scr d
      in if 0 < scr_x st then d\<lparr>scr := st\<lparr>scr_x := scr_x st - 1\<rparr>\<rparr>
         else if 0 < scr_y st then d\<lparr>scr := st\<lparr>scr_x := vga_cols - 1, scr_y := scr_y st - 1\<rparr>\<rparr>
         else d)"

text \<open>The character is a signed \<^verbatim>\<open>char\<close> and spreads its sign over the attribute.\<close>

definition cell_of :: "u8 \<Rightarrow> u8 \<Rightarrow> u16" where
  "cell_of c attr = scast c OR push_bit 8 (ucast attr)"

definition putchar :: "u32 \<Rightarrow> u8 \<Rightarrow> bool \<Rightarrow> display \<Rightarrow> display" where
  "putchar buff c raw d =
     (let d = (if c = 0x0A \<and> \<not> raw then putln buff d
               else if c = 0x09 \<and> \<not> raw then d\<lparr>scr := (scr d)\<lparr>scr_x := scr_x (scr d) + TAB_WIDTH\<rparr>\<rparr>
               else if c = 0x08 \<and> \<not> raw then putbs buff d
               else (put_cell buff (cell_of c (scr_attr (scr d))) d)\<lparr>scr := (scr d)\<lparr>scr_x := scr_x (scr d) + 1\<rparr>\<rparr>)
      in if vga_cols \<le> scr_x (scr d) then putln buff d else d)"

definition put_chars :: "u32 \<Rightarrow> bool \<Rightarrow> u8 list \<Rightarrow> display \<Rightarrow> display" where
  "put_chars buff raw cs d = fold (\<lambda>c. putchar buff c raw) cs d"

subsection \<open>Operations on the whole screen\<close>

definition vga_reset_pos :: "display \<Rightarrow> display" where
  "vga_reset_pos d = vga_update_cursor (d\<lparr>scr := (scr d)\<lparr>scr_x := 0, scr_y := 0\<rparr>\<rparr>)"

definition vga_clear :: "display \<Rightarrow> display" where
  "vga_clear d = vga_reset_pos (d\<lparr>vmem := memset_bytes (80 * 25 * 2) vga_addr 0 (vmem d)\<rparr>)"

definition vga_reset_colors :: "display \<Rightarrow> display" where
  "vga_reset_colors d = d\<lparr>scr := (scr d)\<lparr>scr_attr := VGA_BC_BLACK OR VGA_FC_WHITE\<rparr>\<rparr>"

text \<open>The bit fields of the attribute: three bits of foreground, one of light, three of background, one of blink.\<close>

definition set_forecolor :: "u8 \<Rightarrow> u8 \<Rightarrow> u8" where
  "set_forecolor v attr = (attr AND NOT 0x07) OR (v AND 0x07)"

definition set_backcolor :: "u8 \<Rightarrow> u8 \<Rightarrow> u8" where
  "set_backcolor v attr = (attr AND NOT 0x70) OR push_bit 4 (v AND 0x07)"

definition vga_init :: "display \<Rightarrow> display" where
  "vga_init d =
     (let d = vga_clear d
      in d\<lparr>scr := (scr d)\<lparr>scr_attr := set_backcolor VGA_BC_BLACK (set_forecolor VGA_FC_WHITE (scr_attr (scr d)))\<rparr>\<rparr>)"

definition vga_putchar :: "u8 \<Rightarrow> display \<Rightarrow> int \<times> display" where
  "vga_putchar c d = (sint c, vga_update_cursor (putchar vga_addr c True d))"

subsection \<open>Text\<close>

definition scan_uhex :: "u8 \<Rightarrow> u32" where
  "scan_uhex value =
     (let tmp = scast value :: u32
      in if 48 \<le> tmp \<and> tmp \<le> 57 then tmp - 48
         else if 97 \<le> tmp \<and> tmp \<le> 102 then tmp - 87
         else if 65 \<le> tmp \<and> tmp \<le> 70 then tmp - 55
         else tmp)"

text \<open>\<^verbatim>\<open>(back << n) | fore\<close> of two signed characters, cut down to the byte of the attribute.\<close>

definition attr_byte :: "nat \<Rightarrow> u8 \<Rightarrow> u8 \<Rightarrow> u8" where
  "attr_byte n b f =
     (let back = ucast (scan_uhex b) :: u8; fore = ucast (scan_uhex f) :: u8
      in ucast (push_bit n (scast back :: u32) OR scast fore))"

definition set_attr :: "u8 \<Rightarrow> display \<Rightarrow> display" where
  "set_attr v d = d\<lparr>scr := (scr d)\<lparr>scr_attr := v\<rparr>\<rparr>"

text \<open>
  The loop over a string of a given size; \<open>rd i\<close> is the byte at index \<open>i\<close>, which is
  \<^verbatim>\<open>None\<close> where there is no memory to read.
\<close>

partial_function (option) writebuf_loop :: "u32 \<Rightarrow> (u32 \<Rightarrow> u8 option) \<Rightarrow> u32 \<Rightarrow> u32 \<Rightarrow> display \<Rightarrow> (u32 \<times> display) option" where
  "writebuf_loop buff rd n sz d =
     (if sz < n then
        (case rd sz of None \<Rightarrow> None
         | Some c \<Rightarrow>
             if c = 0 then Some (sz + 1, d)
             else if c = 0x5C then
               (case rd (sz + 1) of None \<Rightarrow> None
                | Some e \<Rightarrow>
                    if e = 0x63 then
                      (case rd (sz + 2) of None \<Rightarrow> None
                       | Some b \<Rightarrow> (case rd (sz + 3) of None \<Rightarrow> None
                           | Some f \<Rightarrow> writebuf_loop buff rd n (sz + 4) (set_attr (attr_byte 8 b f) d)))
                    else writebuf_loop buff rd n (sz + 2) (putchar buff 0x5C False d))
             else writebuf_loop buff rd n (sz + 1) (putchar buff c False d))
      else Some (sz, d))"

definition vga_writebuf :: "u32 \<Rightarrow> (u32 \<Rightarrow> u8 option) \<Rightarrow> u32 \<Rightarrow> display \<Rightarrow> (int \<times> display) option" where
  "vga_writebuf buff rd n d =
     (case writebuf_loop buff rd n 0 d of None \<Rightarrow> None
      | Some (sz, d') \<Rightarrow> Some (sint sz, set_attr (scr_attr (scr d)) d'))"

subsection \<open>Formats\<close>

text \<open>The number printers put the digits that those of \<^verbatim>\<open>lib.c\<close> write; the loops are the same.\<close>

definition vga_print_dec :: "int \<Rightarrow> display \<Rightarrow> (int \<times> display) option" where
  "vga_print_dec number d = do {
     (cs, n) \<leftarrow> put_dec number;
     Some (n, put_chars vga_addr False cs d)
   }"

definition vga_print_udec :: "u32 \<Rightarrow> display \<Rightarrow> (int \<times> display) option" where
  "vga_print_udec number d = do {
     (cs, n) \<leftarrow> print_udec number;
     Some (n, put_chars vga_addr False cs d)
   }"

definition vga_print_uhex :: "u32 \<Rightarrow> display \<Rightarrow> (int \<times> display) option" where
  "vga_print_uhex number d = do {
     (cs, n) \<leftarrow> put_uhex number;
     Some (n, put_chars vga_addr False cs d)
   }"

text \<open>
  The loop of both printers; \<open>alpha\<close> is the one that leaves the cells under blanks alone. A
  format that ends inside a directive is read past its terminator: \<open>None\<close>.
\<close>

fun printf_loop :: "bool \<Rightarrow> (u32 \<Rightarrow> u8 list) \<Rightarrow> u8 list \<Rightarrow> u32 list \<Rightarrow> u32 \<Rightarrow> display \<Rightarrow> (u32 \<times> display) option" where
  "printf_loop alpha str format args sz d =
     (case format of
        [] \<Rightarrow> Some (sz, d)
      | c # format \<Rightarrow>
          if c = 0 then Some (sz, d)
          else if c = 0x25 then
            (case format of
               [] \<Rightarrow> None
             | e # format \<Rightarrow>
                 if e = 0x63 then
                   (case args of [] \<Rightarrow> None
                    | a # args \<Rightarrow> printf_loop alpha str format args (sz + 1) (putchar vga_addr (ucast a) False d))
                 else if e = 0x73 then
                   (case args of [] \<Rightarrow> None
                    | a # args \<Rightarrow> printf_loop alpha str format args (sz + of_nat (length (takeWhile ((\<noteq>) 0) (str a))))
                        (put_chars vga_addr True (takeWhile ((\<noteq>) 0) (str a)) d))
                 else if e = 0x64 then
                   (case args of [] \<Rightarrow> None
                    | a # args \<Rightarrow> (case vga_print_dec (sint a) d of None \<Rightarrow> None
                        | Some (n, d) \<Rightarrow> printf_loop alpha str format args (sz + word_of_int n) d))
                 else if e = 0x75 then
                   (case args of [] \<Rightarrow> None
                    | a # args \<Rightarrow> (case vga_print_udec a d of None \<Rightarrow> None
                        | Some (n, d) \<Rightarrow> printf_loop alpha str format args (sz + word_of_int n) d))
                 else if e = 0x78 \<or> e = 0x70 then
                   (case args of [] \<Rightarrow> None
                    | a # args \<Rightarrow> (case vga_print_uhex a d of None \<Rightarrow> None
                        | Some (n, d) \<Rightarrow> printf_loop alpha str format args (sz + word_of_int n) d))
                 else if e = 0x25 then printf_loop alpha str format args (sz + 1) (putchar vga_addr 0x25 False d)
                 else if e = 0 then None
                 else printf_loop alpha str format args sz d)
          else if c = 0x5C then
            (case format of
               [] \<Rightarrow> printf_loop alpha str format args sz (putchar vga_addr 0x5C False d)
             | e # rest \<Rightarrow>
                 if e = 0x63 then
                   (case rest of
                      b # f # rest \<Rightarrow>
                        if b = 0 \<or> f = 0 then None
                        else printf_loop alpha str rest args sz (set_attr (attr_byte 4 b f) d)
                    | _ \<Rightarrow> None)
                 else printf_loop alpha str format args sz (putchar vga_addr 0x5C False d))
          else if alpha \<and> c = 0x20 then
            printf_loop alpha str format args (sz + 1) (d\<lparr>scr := (scr d)\<lparr>scr_x := scr_x (scr d) + 1\<rparr>\<rparr>)
          else printf_loop alpha str format args (sz + 1) (putchar vga_addr c False d))"

declare printf_loop.simps [simp del]

definition vga_printf_fixed_args :: "(u32 \<Rightarrow> u8 list) \<Rightarrow> u8 list \<Rightarrow> u32 list \<Rightarrow> display \<Rightarrow> (int \<times> display) option" where
  "vga_printf_fixed_args str format args d =
     (case printf_loop False str format args 0 d of None \<Rightarrow> None
      | Some (sz, d') \<Rightarrow> Some (sint sz, vga_update_cursor (set_attr (scr_attr (scr d)) d')))"

definition vga_alpha_printf_fixed_args :: "(u32 \<Rightarrow> u8 list) \<Rightarrow> u8 list \<Rightarrow> u32 list \<Rightarrow> display \<Rightarrow> (int \<times> display) option" where
  "vga_alpha_printf_fixed_args str format args d =
     (case printf_loop True str format args 0 d of None \<Rightarrow> None
      | Some (sz, d') \<Rightarrow> Some (sint sz, vga_update_cursor (set_attr (scr_attr (scr d)) d')))"

definition vga_printf :: "(u32 \<Rightarrow> u8 list) \<Rightarrow> u8 list \<Rightarrow> u32 list \<Rightarrow> display \<Rightarrow> (int \<times> display) option" where
  "vga_printf str format args d = vga_printf_fixed_args str format args d"

definition vga_loc_printf_fixed_args :: "(u32 \<Rightarrow> u8 list) \<Rightarrow> u32 \<Rightarrow> u32 \<Rightarrow> u8 list \<Rightarrow> u32 list \<Rightarrow> display \<Rightarrow> (int \<times> display) option" where
  "vga_loc_printf_fixed_args str row col format args d =
     (if 25 < row \<or> 80 < col then Some (0, d)
      else do {
        let old_x = scr_x (scr d);
        let old_y = scr_y (scr d);
        (ret, d) \<leftarrow> vga_printf_fixed_args str format args (d\<lparr>scr := (scr d)\<lparr>scr_x := ucast col, scr_y := ucast row\<rparr>\<rparr>);
        Some (ret, vga_update_cursor (d\<lparr>scr := (scr d)\<lparr>scr_x := old_x, scr_y := old_y\<rparr>\<rparr>))
      })"

definition vga_loc_alpha_printf_fixed_args :: "(u32 \<Rightarrow> u8 list) \<Rightarrow> u32 \<Rightarrow> u32 \<Rightarrow> u8 list \<Rightarrow> u32 list \<Rightarrow> display \<Rightarrow> (int \<times> display) option" where
  "vga_loc_alpha_printf_fixed_args str row col format args d =
     (if 25 < row \<or> 80 < col then Some (0, d)
      else do {
        let old_x = scr_x (scr d);
        let old_y = scr_y (scr d);
        (ret, d) \<leftarrow> vga_alpha_printf_fixed_args str format args (d\<lparr>scr := (scr d)\<lparr>scr_x := ucast col, scr_y := ucast row\<rparr>\<rparr>);
        Some (ret, vga_update_cursor (d\<lparr>scr := (scr d)\<lparr>scr_x := old_x, scr_y := old_y\<rparr>\<rparr>))
      })"

subsection \<open>The grid\<close>

lemma ld16_st16_same: "ld16 a (st16 a v m) = v"
proof -
  have "ucast (ucast v :: u8) OR push_bit 8 (ucast (ucast (drop_bit 8 v) :: u8)) = (v :: u16)"
    by (rule bit_word_eqI) (auto simp: bit_simps)
  then show ?thesis by (simp add: ld16_def st16_def)
qed

lemma ld16_st16_other: "b \<noteq> a \<Longrightarrow> b \<noteq> a + 1 \<Longrightarrow> b + 1 \<noteq> a \<Longrightarrow> ld16 b (st16 a v m) = ld16 b m"
  by (simp add: ld16_def st16_def)

definition cell_at :: "u32 \<Rightarrow> nat \<Rightarrow> u32" where
  "cell_at buff i = buff + 2 * of_nat i"

definition grid :: "u32 \<Rightarrow> (u32 \<Rightarrow> u8) \<Rightarrow> u16 list" where
  "grid buff m = map (\<lambda>i. ld16 (cell_at buff i) m) [0..<2000]"

lemma grid_length [simp]: "length (grid buff m) = 2000"
  and grid_nth: "i < 2000 \<Longrightarrow> grid buff m ! i = ld16 (cell_at buff i) m"
  by (simp_all add: grid_def)

lemma cells_apart:
  assumes "i < 2000" "j < 2000" "i \<noteq> j"
  shows "cell_at buff i \<noteq> cell_at buff j" "cell_at buff i \<noteq> cell_at buff j + 1"
proof -
  have "cell_at buff i = buff + of_nat (2 * i)" "cell_at buff j = buff + of_nat (2 * j)"
    "cell_at buff j + 1 = buff + of_nat (Suc (2 * j))" by (simp_all add: cell_at_def)
  moreover have "(of_nat (2 * i) :: u32) \<noteq> of_nat (2 * j)" "(of_nat (2 * i) :: u32) \<noteq> of_nat (Suc (2 * j))"
    using assms by (subst of_nat_inj_small; simp)+
  ultimately show "cell_at buff i \<noteq> cell_at buff j" "cell_at buff i \<noteq> cell_at buff j + 1"
    by (simp_all add: add.assoc add.commute [of 1])
qed

lemma grid_st16: "q < 2000 \<Longrightarrow> grid buff (st16 (cell_at buff q) v m) = (grid buff m)[q := v]"
  by (rule nth_equalityI)
    (auto simp: grid_nth nth_list_update ld16_st16_same ld16_st16_other cells_apart cells_apart [symmetric])

lemma st16_outside: "q < 2000 \<Longrightarrow> x \<notin> region buff 4000 \<Longrightarrow> st16 (cell_at buff q) v m x = m x"
proof -
  assume q: "q < 2000" and x: "x \<notin> region buff 4000"
  have "cell_at buff q = buff + of_nat (2 * q)" "cell_at buff q + 1 = buff + of_nat (Suc (2 * q))"
    by (simp_all add: cell_at_def)
  then have "cell_at buff q \<in> region buff 4000" "cell_at buff q + 1 \<in> region buff 4000"
    using q in_region [of "2 * q" 4000 buff] in_region [of "Suc (2 * q)" 4000 buff] by (simp_all add: ac_simps)
  then show ?thesis using x by (auto simp: st16_def)
qed

lemma cell_at_add: "cell_at buff i + 2 = cell_at buff (Suc i)"
  by (simp add: cell_at_def algebra_simps)

lemma grid_copy:
  "i + k + n \<le> 2000 \<Longrightarrow> 0 < k \<Longrightarrow>
   grid buff (copy_cells n (cell_at buff i) (cell_at buff (i + k)) m) =
     take i (grid buff m) @ take n (drop (i + k) (grid buff m)) @ drop (i + n) (grid buff m) \<and>
   (\<forall>x. x \<notin> region buff 4000 \<longrightarrow> copy_cells n (cell_at buff i) (cell_at buff (i + k)) m x = m x)"
proof (induction n arbitrary: i m)
  case (Suc n)
  let ?g = "grid buff m" and ?m = "st16 (cell_at buff i) (ld16 (cell_at buff (i + k)) m) m"
  have g: "grid buff ?m = ?g[i := ?g ! (i + k)]" using Suc.prems by (simp add: grid_st16 grid_nth)
  have IH: "grid buff (copy_cells n (cell_at buff (Suc i)) (cell_at buff (Suc i + k)) ?m) =
      take (Suc i) (grid buff ?m) @ take n (drop (Suc i + k) (grid buff ?m)) @ drop (Suc i + n) (grid buff ?m)"
    "\<forall>x. x \<notin> region buff 4000 \<longrightarrow> copy_cells n (cell_at buff (Suc i)) (cell_at buff (Suc i + k)) ?m x = ?m x"
    using Suc.IH [of "Suc i" ?m] Suc.prems by simp_all
  have "take (Suc i) (?g[i := v]) = take i ?g @ [v]" for v
    using Suc.prems by (simp add: take_Suc_conv_app_nth)
  moreover have "take (Suc n) (drop (i + k) ?g) = ?g ! (i + k) # take n (drop (Suc i + k) ?g)"
    using Suc.prems by (simp add: Cons_nth_drop_Suc [symmetric])
  ultimately show ?case
    using IH Suc.prems by (auto simp: cell_at_add g st16_outside)
qed simp

lemma grid_zero:
  "i + n \<le> 2000 \<Longrightarrow>
   grid buff (zero_cells n (cell_at buff i) m) = take i (grid buff m) @ replicate n 0 @ drop (i + n) (grid buff m) \<and>
   (\<forall>x. x \<notin> region buff 4000 \<longrightarrow> zero_cells n (cell_at buff i) m x = m x)"
proof (induction n arbitrary: i m)
  case (Suc n)
  let ?g = "grid buff m" and ?m = "st16 (cell_at buff i) 0 m"
  have IH: "grid buff (zero_cells n (cell_at buff (Suc i)) ?m) =
      take (Suc i) (grid buff ?m) @ replicate n 0 @ drop (Suc i + n) (grid buff ?m)"
    "\<forall>x. x \<notin> region buff 4000 \<longrightarrow> zero_cells n (cell_at buff (Suc i)) ?m x = ?m x"
    using Suc.IH [of "Suc i" ?m] Suc.prems by simp_all
  have "take (Suc i) (?g[i := 0]) = take i ?g @ [0]" using Suc.prems by (simp add: take_Suc_conv_app_nth)
  then show ?case using IH Suc.prems by (auto simp: cell_at_add grid_st16 st16_outside)
qed simp

lemma grid_scroll:
  "grid buff (vmem (scroll buff d)) = drop 80 (grid buff (vmem d)) @ replicate 80 0"
  "x \<notin> region buff 4000 \<Longrightarrow> vmem (scroll buff d) x = vmem d x"
  "scr (scroll buff d) = scr d" "outs (scroll buff d) = outs d"
proof -
  have a: "buff + 2 * (24 * 80) = cell_at buff 1920" "buff = cell_at buff 0" "buff + 2 * 80 = cell_at buff (0 + 80)"
    by (simp_all add: cell_at_def)
  let ?m = "copy_cells 1920 (cell_at buff 0) (cell_at buff (0 + 80)) (vmem d)"
  have v: "vmem (scroll buff d) = zero_cells 80 (cell_at buff 1920) ?m"
    unfolding scroll_def a(1) [symmetric] a(2) [symmetric] a(3) [symmetric] by simp
  have c: "grid buff ?m = take 0 (grid buff (vmem d)) @ take 1920 (drop (0 + 80) (grid buff (vmem d))) @ drop (0 + 1920) (grid buff (vmem d))"
    "\<forall>x. x \<notin> region buff 4000 \<longrightarrow> ?m x = vmem d x"
    by (rule conjunct1 [OF grid_copy] conjunct2 [OF grid_copy]; simp)+
  have z: "grid buff (zero_cells 80 (cell_at buff 1920) ?m) = take 1920 (grid buff ?m) @ replicate 80 0 @ drop (1920 + 80) (grid buff ?m)"
    "\<forall>x. x \<notin> region buff 4000 \<longrightarrow> zero_cells 80 (cell_at buff 1920) ?m x = ?m x"
    by (rule conjunct1 [OF grid_zero] conjunct2 [OF grid_zero]; simp)+
  show "grid buff (vmem (scroll buff d)) = drop 80 (grid buff (vmem d)) @ replicate 80 0"
    unfolding v z(1) c(1) by simp
  show "x \<notin> region buff 4000 \<Longrightarrow> vmem (scroll buff d) x = vmem d x" using v z(2) c(2) by simp
qed (simp_all add: scroll_def)

subsection \<open>The terminal\<close>

record terminal =
  t_cells :: "u16 list"
  t_pos :: nat

definition term_newline :: "bool \<Rightarrow> terminal \<Rightarrow> terminal" where
  "term_newline live t =
     (let row = t_pos t div 80 + 1;
          t = (if row = 25 then \<lparr>t_cells = drop 80 (t_cells t) @ replicate 80 0, t_pos = 1920\<rparr>
               else t\<lparr>t_pos := 80 * row\<rparr>)
      in if live then t\<lparr>t_cells := (t_cells t)[t_pos t := 0x0720]\<rparr> else t)"

definition term_advance :: "bool \<Rightarrow> nat \<Rightarrow> terminal \<Rightarrow> terminal" where
  "term_advance live n t =
     (if t_pos t mod 80 + n < 80 then t\<lparr>t_pos := t_pos t + n\<rparr> else term_newline live t)"

definition term_put :: "bool \<Rightarrow> u8 \<Rightarrow> bool \<Rightarrow> u8 \<Rightarrow> terminal \<Rightarrow> terminal" where
  "term_put live c raw attr t =
     (if c = 0x0A \<and> \<not> raw then term_newline live t
      else if c = 0x09 \<and> \<not> raw then term_advance live 4 t
      else if c = 0x08 \<and> \<not> raw then \<lparr>t_cells = (t_cells t)[t_pos t := cell_of 0x20 attr], t_pos = t_pos t - 1\<rparr>
      else term_advance live 1 (t\<lparr>t_cells := (t_cells t)[t_pos t := cell_of c attr]\<rparr>))"

definition scr_ok :: "screen \<Rightarrow> bool" where
  "scr_ok st \<longleftrightarrow> scr_x st < 80 \<and> scr_y st < 25"

definition scr_pos :: "screen \<Rightarrow> nat" where
  "scr_pos st = 80 * unat (scr_y st) + unat (scr_x st)"

definition terminal_of :: "u32 \<Rightarrow> display \<Rightarrow> terminal" where
  "terminal_of buff d = \<lparr>t_cells = grid buff (vmem d), t_pos = scr_pos (scr d)\<rparr>"

lemma scr_okD: "scr_ok st \<Longrightarrow> unat (scr_x st) < 80" "scr_ok st \<Longrightarrow> unat (scr_y st) < 25"
  by (auto simp: scr_ok_def word_less_nat_alt)

lemma scr_pos_parts:
  assumes "scr_ok st"
  shows "scr_pos st < 2000" "scr_pos st mod 80 = unat (scr_x st)" "scr_pos st div 80 = unat (scr_y st)"
  using scr_okD [OF assms] by (auto simp: scr_pos_def)

lemma location_pos: "location st = of_nat (scr_pos st)"
proof -
  have "(ucast w :: u32) = of_nat (unat w)" for w :: u8 by simp
  then show ?thesis by (simp add: location_def scr_pos_def)
qed

lemma put_cell_terminal:
  assumes "scr_ok (scr d)"
  shows "terminal_of buff (put_cell buff v d) = (terminal_of buff d)\<lparr>t_cells := (t_cells (terminal_of buff d))[t_pos (terminal_of buff d) := v]\<rparr>"
    "x \<notin> region buff 4000 \<Longrightarrow> vmem (put_cell buff v d) x = vmem d x"
    "scr (put_cell buff v d) = scr d" "outs (put_cell buff v d) = outs d"
proof -
  have e: "put_cell buff v d = d\<lparr>vmem := st16 (cell_at buff (scr_pos (scr d))) v (vmem d)\<rparr>"
    by (simp add: put_cell_def location_pos cell_at_def)
  note p = scr_pos_parts(1) [OF assms]
  show "terminal_of buff (put_cell buff v d) = (terminal_of buff d)\<lparr>t_cells := (t_cells (terminal_of buff d))[t_pos (terminal_of buff d) := v]\<rparr>"
    by (simp add: e terminal_of_def grid_st16 p)
  show "x \<notin> region buff 4000 \<Longrightarrow> vmem (put_cell buff v d) x = vmem d x" by (simp add: e st16_outside p)
qed (simp_all add: put_cell_def)

lemma cursor_terminal:
  assumes "scr_ok (scr d)"
  shows "terminal_of vga_addr (vga_update_cursor d) =
      (terminal_of vga_addr d)\<lparr>t_cells := (t_cells (terminal_of vga_addr d))[t_pos (terminal_of vga_addr d) := WHITE_SPACE]\<rparr>"
    "x \<notin> region vga_addr 4000 \<Longrightarrow> vmem (vga_update_cursor d) x = vmem d x"
    "scr (vga_update_cursor d) = scr d"
  using put_cell_terminal [OF assms, where buff = vga_addr and v = WHITE_SPACE]
  by (simp_all add: vga_update_cursor_def outb_def Let_def terminal_of_def)


text \<open>What a character on the screen at \<open>buff\<close> leaves of everything else.\<close>

definition only_screen :: "u32 \<Rightarrow> display \<Rightarrow> display \<Rightarrow> bool" where
  "only_screen buff d d' \<longleftrightarrow> scr_attr (scr d') = scr_attr (scr d) \<and> (\<forall>x. x \<notin> region buff 4000 \<longrightarrow> vmem d' x = vmem d x)"

lemma only_screen_trans: "only_screen buff d d' \<Longrightarrow> only_screen buff d' d'' \<Longrightarrow> only_screen buff d d''"
  by (simp add: only_screen_def)

lemma putln_terminal:
  assumes "unat (scr_y (scr d)) < 25"
    and r: "t_cells t = grid buff (vmem d)" "t_pos t div 80 = unat (scr_y (scr d))"
  shows "terminal_of buff (putln buff d) = term_newline (buff = vga_addr) t" "scr_ok (scr (putln buff d))"
    "only_screen buff d (putln buff d)"
proof -
  let ?st = "(scr d)\<lparr>scr_x := 0, scr_y := scr_y (scr d) + 1\<rparr>"
  define d1 where "d1 = (if scr_y ?st = 25 then (scroll buff (d\<lparr>scr := ?st\<rparr>))\<lparr>scr := ?st\<lparr>scr_y := scr_y ?st - 1\<rparr>\<rparr> else d\<lparr>scr := ?st\<rparr>)"
  have p: "putln buff d = (if buff = vga_addr then vga_update_cursor d1 else d1)"
    by (simp add: putln_def d1_def Let_def)
  have y: "unat (scr_y (scr d) + 1) = unat (scr_y (scr d)) + 1" using assms(1) by (simp add: unat_word_ariths)
  then have last: "scr_y ?st = 25 \<longleftrightarrow> t_pos t div 80 + 1 = 25" using r(2) by (simp add: word_unat_eq_iff)
  have ok: "scr_ok (scr d1)" using assms(1) y by (auto simp: d1_def scr_ok_def word_less_nat_alt word_unat_eq_iff)
  have t1: "terminal_of buff d1 = (if t_pos t div 80 + 1 = 25 then \<lparr>t_cells = drop 80 (t_cells t) @ replicate 80 0, t_pos = 1920\<rparr>
      else t\<lparr>t_pos := 80 * (t_pos t div 80 + 1)\<rparr>)"
    using last r y by (auto simp: d1_def terminal_of_def grid_scroll scr_pos_def)
  have o1: "only_screen buff d d1" by (simp add: d1_def only_screen_def grid_scroll)
  show "terminal_of buff (putln buff d) = term_newline (buff = vga_addr) t"
    using t1 cursor_terminal(1) [OF ok] p by (cases "buff = vga_addr") (auto simp: term_newline_def Let_def)
  show "scr_ok (scr (putln buff d))" using ok cursor_terminal(3) [OF ok] by (simp add: p)
  show "only_screen buff d (putln buff d)"
    using o1 cursor_terminal(2,3) [OF ok] by (simp add: p only_screen_def)
qed

text \<open>Moving the cursor by \<open>n\<close> columns, with a new line where the row ends.\<close>

lemma advance_terminal:
  assumes ok: "scr_ok (scr d)" and n: "unat n < 100" and d': "d' = d\<lparr>scr := (scr d)\<lparr>scr_x := scr_x (scr d) + n\<rparr>\<rparr>"
  shows "terminal_of buff (if vga_cols \<le> scr_x (scr d') then putln buff d' else d') =
      term_advance (buff = vga_addr) (unat n) (terminal_of buff d)"
    "scr_ok (scr (if vga_cols \<le> scr_x (scr d') then putln buff d' else d'))"
    "only_screen buff d (if vga_cols \<le> scr_x (scr d') then putln buff d' else d')"
proof -
  note p = scr_pos_parts [OF ok] and xy = scr_okD [OF ok]
  have x: "unat (scr_x (scr d) + n) = unat (scr_x (scr d)) + unat n" using xy(1) n by (simp add: unat_word_ariths)
  have lt: "vga_cols \<le> scr_x (scr d') \<longleftrightarrow> \<not> t_pos (terminal_of buff d) mod 80 + unat n < 80"
    using x p by (simp add: d' terminal_of_def word_le_nat_alt not_less)
  have o: "only_screen buff d d'" by (simp add: d' only_screen_def)
  have ln: "terminal_of buff (putln buff d') = term_newline (buff = vga_addr) (terminal_of buff d)"
    "scr_ok (scr (putln buff d'))" "only_screen buff d' (putln buff d')"
    by (rule putln_terminal [where t = "terminal_of buff d"]; use xy p x n in \<open>simp add: d' terminal_of_def\<close>)+
  have s: "terminal_of buff d' = (terminal_of buff d)\<lparr>t_pos := t_pos (terminal_of buff d) + unat n\<rparr>"
    using x by (simp add: d' terminal_of_def scr_pos_def)
  have ok': "t_pos (terminal_of buff d) mod 80 + unat n < 80 \<Longrightarrow> scr_ok (scr d')"
    using p xy x by (simp add: d' terminal_of_def scr_ok_def word_less_nat_alt)
  show "terminal_of buff (if vga_cols \<le> scr_x (scr d') then putln buff d' else d') =
      term_advance (buff = vga_addr) (unat n) (terminal_of buff d)"
    using ln(1) s unfolding lt by (simp add: term_advance_def)
  show "scr_ok (scr (if vga_cols \<le> scr_x (scr d') then putln buff d' else d'))"
    using ln(2) ok' unfolding lt by simp
  show "only_screen buff d (if vga_cols \<le> scr_x (scr d') then putln buff d' else d')"
    using ln(3) o only_screen_trans by (simp split: if_splits)
qed

lemma putchar_terminal:
  assumes ok: "scr_ok (scr d)"
  shows "terminal_of buff (putchar buff c raw d) =
      term_put (buff = vga_addr) c raw (scr_attr (scr d)) (terminal_of buff d) \<and>
    scr_ok (scr (putchar buff c raw d)) \<and> only_screen buff d (putchar buff c raw d)"
proof -
  note xy = scr_okD [OF ok] and p = scr_pos_parts [OF ok]
  have le: "\<not> vga_cols \<le> scr_x st" if "scr_ok st" for st using that by (simp add: scr_ok_def not_le)
  consider (nl) "c = 0x0A" "\<not> raw" | (tab) "c = 0x09" "\<not> raw" | (bs) "c = 0x08" "\<not> raw"
    | (ch) "\<not> (c \<in> {0x0A, 0x09, 0x08} \<and> \<not> raw)" by auto
  then show ?thesis
  proof cases
    case nl
    have "terminal_of buff (putln buff d) = term_newline (buff = vga_addr) (terminal_of buff d)"
      "scr_ok (scr (putln buff d))" "only_screen buff d (putln buff d)"
      by (rule putln_terminal [where t = "terminal_of buff d"]; use xy p in \<open>simp add: terminal_of_def\<close>)+
    then show ?thesis using nl le by (simp add: putchar_def term_put_def)
  next
    case tab
    then show ?thesis using advance_terminal [OF ok _ refl, of 4] by (simp add: putchar_def term_put_def Let_def)
  next
    case bs
    let ?v = "0x20 OR push_bit 8 (ucast (scr_attr (scr d))) :: u16" and ?st = "scr d"
    have v: "?v = cell_of 0x20 (scr_attr ?st)" by (simp add: cell_of_def)
    note c = put_cell_terminal [OF ok, where buff = buff and v = ?v]
    have c': "grid buff (vmem (put_cell buff ?v d)) = (grid buff (vmem d))[scr_pos ?st := ?v]"
      using c(1) by (simp add: terminal_of_def)
    define st' where "st' = (if 0 < scr_x ?st then ?st\<lparr>scr_x := scr_x ?st - 1\<rparr>
        else if 0 < scr_y ?st then ?st\<lparr>scr_x := 79, scr_y := scr_y ?st - 1\<rparr> else ?st)"
    have b: "putbs buff d = (put_cell buff ?v d)\<lparr>scr := st'\<rparr>"
      using c(3) by (simp add: putbs_def st'_def Let_def)
    have pred: "\<exists>k. unat w = Suc k \<and> unat (w - 1) = k" if "0 < w" for w :: u8
      using unat_pred [OF that] that by (cases "unat w") (auto simp: unat_eq_0)
    have "scr_pos st' = scr_pos ?st - 1 \<and> scr_ok st'"
    proof (cases "0 < scr_x ?st")
      case True
      then show ?thesis using pred [of "scr_x ?st"] xy by (auto simp: st'_def scr_pos_def scr_ok_def word_less_nat_alt)
    next
      case False
      then show ?thesis using pred [of "scr_y ?st"] xy ok
        by (cases "0 < scr_y ?st") (auto simp: st'_def scr_pos_def scr_ok_def word_less_nat_alt)
    qed
    then have st': "scr_pos st' = scr_pos ?st - 1" "scr_ok st'" "scr_attr st' = scr_attr ?st" by (auto simp: st'_def)
    have "putchar buff c raw d = putbs buff d" using bs b le [OF st'(2)] by (simp add: putchar_def)
    moreover have "terminal_of buff (putbs buff d) = \<lparr>t_cells = (grid buff (vmem d))[scr_pos ?st := ?v], t_pos = scr_pos ?st - 1\<rparr>"
      using c' st'(1) by (simp add: b terminal_of_def)
    moreover have "only_screen buff d (putbs buff d)" using c(2) st'(3) by (simp add: b only_screen_def)
    ultimately show ?thesis using bs st'(2) v by (simp add: b term_put_def terminal_of_def)
  next
    case ch
    let ?v = "cell_of c (scr_attr (scr d))"
    note e = put_cell_terminal [OF ok, where buff = buff and v = ?v]
    have ok': "scr_ok (scr (put_cell buff ?v d))" using ok e(3) by simp
    let ?d = "(put_cell buff ?v d)\<lparr>scr := (scr d)\<lparr>scr_x := scr_x (scr d) + 1\<rparr>\<rparr>"
    have pc: "putchar buff c raw d = (if vga_cols \<le> scr_x (scr ?d) then putln buff ?d else ?d)"
      using ch by (auto simp: putchar_def Let_def)
    note adv = advance_terminal [OF ok' _ refl, of 1 buff, unfolded e(3), folded pc]
    have "terminal_of buff (putchar buff c raw d) = term_advance (buff = vga_addr) 1 (terminal_of buff (put_cell buff ?v d))"
      "scr_ok (scr (putchar buff c raw d))" "only_screen buff (put_cell buff ?v d) (putchar buff c raw d)"
      using adv by simp_all
    moreover have "only_screen buff d (put_cell buff ?v d)" using e(2,3) by (simp add: only_screen_def)
    moreover have "term_put (buff = vga_addr) c raw (scr_attr (scr d)) (terminal_of buff d) =
        term_advance (buff = vga_addr) 1 (terminal_of buff (put_cell buff ?v d))"
      using ch by (auto simp: term_put_def e(1))
    ultimately show ?thesis using only_screen_trans by metis
  qed
qed

text \<open>C29: On a screen at any address, with the cursor inside it, each character does on the grid of
  cells what it does on a terminal of 25 rows (a plain one is stored with the colours and
  advances, tab, backspace and newline move, the end of the last row scrolls), keeps the
  cursor inside and touches no byte outside the screen.\<close>

theorem putchar_refines_terminal:
  assumes "scr_ok (scr d)"
  shows "terminal_of buff (putchar buff c raw d) =
      term_put (buff = vga_addr) c raw (scr_attr (scr d)) (terminal_of buff d) \<and>
    scr_ok (scr (putchar buff c raw d)) \<and> scr_attr (scr (putchar buff c raw d)) = scr_attr (scr d) \<and>
    (\<forall>x. x \<notin> region buff 4000 \<longrightarrow> vmem (putchar buff c raw d) x = vmem d x)"
  using putchar_terminal [OF assms] unfolding only_screen_def by blast


subsection \<open>Typing\<close>

text \<open>
  What a screen with the cursor at \<open>p\<close> shows after the plain cells \<open>t\<close> have been typed: the
  cells follow each other from row to row, and as many rows have left at the top as the
  text needs behind the last one.
\<close>

definition typed :: "nat \<Rightarrow> u16 list \<Rightarrow> u16 list \<Rightarrow> u16 list" where
  "typed p t cells =
     map (\<lambda>i. let j = i + 80 * ((p + length t) div 80 - 24) in
            if j < p then cells ! j else if j < p + length t then t ! (j - p) else if j < 2000 then cells ! j else 0)
       [0..<2000]"

definition typed_pos :: "nat \<Rightarrow> nat \<Rightarrow> nat" where
  "typed_pos p n = p + n - 80 * ((p + n) div 80 - 24)"

definition plain_char :: "u8 \<Rightarrow> bool" where
  "plain_char c \<longleftrightarrow> c \<notin> {0x0A, 0x09, 0x08}"

lemma typed_pos_less: "typed_pos p n < 2000"
proof -
  have "(p + n) mod 80 < 80" "80 * ((p + n) div 80) + (p + n) mod 80 = p + n" by simp_all
  then show ?thesis unfolding typed_pos_def by linarith
qed

lemma typed_length [simp]: "length (typed p t cells) = 2000"
  by (simp add: typed_def)

lemma typed_nth: "i < 2000 \<Longrightarrow> typed p t cells ! i =
    (let j = i + 80 * ((p + length t) div 80 - 24) in
     if j < p then cells ! j else if j < p + length t then t ! (j - p) else if j < 2000 then cells ! j else 0)"
  by (simp add: typed_def)

lemma row_Suc: "Suc n div 80 = (if n mod 80 + 1 < 80 then n div 80 else Suc (n div 80))"
  using mod_less_divisor [of 80 n] by (auto simp: div_Suc mod_Suc)

lemma typed_snoc:
  assumes "p < 2000" and q: "q = typed_pos p (length t)"
  shows "q mod 80 + 1 < 80 \<or> q div 80 + 1 \<noteq> 25 \<Longrightarrow>
      typed p (t @ [x]) cells = (typed p t cells)[q := x] \<and> typed_pos p (Suc (length t)) = q + 1"
    "\<not> q mod 80 + 1 < 80 \<Longrightarrow> q div 80 + 1 = 25 \<Longrightarrow>
      typed p (t @ [x]) cells = drop 80 ((typed p t cells)[q := x]) @ replicate 80 0 \<and> typed_pos p (Suc (length t)) = 1920"
    "\<not> q mod 80 + 1 < 80 \<Longrightarrow> q + 1 = 80 * (q div 80 + 1)"
proof -
  define N where "N = p + length t"
  define k where "k = N div 80 - 24"
  have d: "N = 80 * (N div 80) + N mod 80" "N mod 80 < 80" by simp_all
  have qk: "q = N - 80 * k" "80 * k \<le> N" using d by (simp_all add: q typed_pos_def N_def k_def)
  then have qN: "q + 80 * k = N" by simp
  have qd: "q mod 80 = N mod 80" "q div 80 + k = N div 80" using qN by (metis mod_mult_self2, metis div_mult_self2 zero_neq_numeral add.commute)
  have k0: "0 < k \<Longrightarrow> 2000 \<le> N" using d by (simp add: k_def)
  show "\<not> q mod 80 + 1 < 80 \<Longrightarrow> q + 1 = 80 * (q div 80 + 1)" using div_mult_mod_eq [of q 80] mod_less_divisor [of 80 q] by arith
  {
    assume a: "q mod 80 + 1 < 80 \<or> q div 80 + 1 \<noteq> 25"
    have k': "Suc N div 80 - 24 = k" using a qd d by (auto simp: k_def row_Suc)
    have "typed p (t @ [x]) cells ! i = (typed p t cells)[q := x] ! i" if i: "i < 2000" for i
      using i k' qN k0 by (auto simp: typed_nth nth_list_update Let_def N_def [symmetric] k_def [symmetric] nth_append)
        (auto simp: N_def)
    then have "typed p (t @ [x]) cells = (typed p t cells)[q := x]" by (intro nth_equalityI) simp_all
    moreover have "typed_pos p (Suc (length t)) = q + 1" using k' qN by (simp add: typed_pos_def N_def [symmetric])
    ultimately show "typed p (t @ [x]) cells = (typed p t cells)[q := x] \<and> typed_pos p (Suc (length t)) = q + 1" ..
  }
  assume a: "\<not> q mod 80 + 1 < 80" "q div 80 + 1 = 25"
  have "24 \<le> N div 80" using a qd(2) by linarith
  moreover have "Suc N div 80 = Suc (N div 80)" using a qd(1) by (simp add: row_Suc)
  ultimately have k': "Suc N div 80 - 24 = Suc k" by (simp only: k_def Suc_diff_le)
  have q': "q = 1999" using a div_mult_mod_eq [of q 80] d(2) qd(1) by linarith
  have "typed p (t @ [x]) cells ! i = (drop 80 ((typed p t cells)[q := x]) @ replicate 80 0) ! i" if i: "i < 2000" for i
    using i k' qN k0 q' \<open>p < 2000\<close>
    by (auto simp: typed_nth nth_list_update Let_def N_def [symmetric] k_def [symmetric] nth_append)
      (auto simp: N_def ac_simps)
  then have "typed p (t @ [x]) cells = drop 80 ((typed p t cells)[q := x]) @ replicate 80 0" by (intro nth_equalityI) simp_all
  moreover have "typed_pos p (Suc (length t)) = 1920" using k' qN q' by (simp add: typed_pos_def N_def [symmetric])
  ultimately show "typed p (t @ [x]) cells = drop 80 ((typed p t cells)[q := x]) @ replicate 80 0 \<and> typed_pos p (Suc (length t)) = 1920" ..
qed


lemma term_put_plain:
  assumes "raw \<or> plain_char c" and p: "p < 2000" and q: "q = typed_pos p (length t)"
    and T: "t_pos T = q" "length (t_cells T) = 2000" "\<And>v. (t_cells T)[q := v] = (typed p t cells)[q := v]"
  shows "t_pos (term_put live c raw attr T) = typed_pos p (Suc (length t)) \<and>
    length (t_cells (term_put live c raw attr T)) = 2000 \<and>
    (\<forall>v. (t_cells (term_put live c raw attr T))[typed_pos p (Suc (length t)) := v] =
       (typed p (t @ [cell_of c attr]) cells)[typed_pos p (Suc (length t)) := v])"
proof -
  note s = typed_snoc(1,2) [OF p q, where x = "cell_of c attr" and cells = cells] typed_snoc(3) [OF p q]
  have put: "term_put live c raw attr T = term_advance live 1 (T\<lparr>t_cells := (typed p t cells)[q := cell_of c attr]\<rparr>)"
    using assms(1) T by (auto simp: term_put_def plain_char_def)
  show ?thesis
  proof (cases "q mod 80 + 1 < 80")
    case True
    then show ?thesis using s(1) T(1) by (simp add: put term_advance_def)
  next
    case False
    then show ?thesis
    proof (cases "q div 80 + 1 = 25")
      case True
      then show ?thesis using False s(2) T(1) by (simp add: put term_advance_def term_newline_def Let_def)
    next
      case scroll: False
      have q1: "80 * Suc (q div 80) = Suc q" using s(3) [OF False] by simp
      show ?thesis using False scroll s(1) T(1)
        unfolding put term_advance_def term_newline_def Let_def by (simp add: q1 del: mult_Suc_right add_mult_distrib2)
    qed
  qed
qed

lemma put_chars_typed:
  assumes ok: "scr_ok (scr d)" and c: "\<forall>c\<in>set cs. raw \<or> plain_char c"
  shows "scr_ok (scr (put_chars buff raw cs d)) \<and> only_screen buff d (put_chars buff raw cs d) \<and>
    scr_pos (scr (put_chars buff raw cs d)) = typed_pos (scr_pos (scr d)) (length cs) \<and>
    (\<forall>v. (grid buff (vmem (put_chars buff raw cs d)))[typed_pos (scr_pos (scr d)) (length cs) := v] =
       (typed (scr_pos (scr d)) (map (\<lambda>c. cell_of c (scr_attr (scr d))) cs) (grid buff (vmem d)))
         [typed_pos (scr_pos (scr d)) (length cs) := v])"
  using c
proof (induction cs rule: rev_induct)
  case Nil
  have p: "typed_pos (scr_pos (scr d)) 0 = scr_pos (scr d)" "(scr_pos (scr d)) div 80 - 24 = 0"
    using scr_pos_parts [OF ok] scr_okD [OF ok] by (simp_all add: typed_pos_def)
  have "typed (scr_pos (scr d)) [] (grid buff (vmem d)) = grid buff (vmem d)"
    by (rule nth_equalityI) (simp_all add: typed_nth p)
  then show ?case using ok p by (simp add: put_chars_def only_screen_def)
next
  case (snoc c cs)
  let ?d = "put_chars buff raw cs d" and ?attr = "scr_attr (scr d)"
  have IH: "scr_ok (scr ?d)" "only_screen buff d ?d"
    "scr_pos (scr ?d) = typed_pos (scr_pos (scr d)) (length cs)"
    "\<And>v. (grid buff (vmem ?d))[typed_pos (scr_pos (scr d)) (length cs) := v] =
       (typed (scr_pos (scr d)) (map (\<lambda>c. cell_of c ?attr) cs) (grid buff (vmem d)))[typed_pos (scr_pos (scr d)) (length cs) := v]"
    using snoc by auto
  have e: "put_chars buff raw (cs @ [c]) d = putchar buff c raw ?d" by (simp add: put_chars_def)
  have attr: "scr_attr (scr ?d) = ?attr" using IH(2) by (simp add: only_screen_def)
  have "t_pos (term_put (buff = vga_addr) c raw ?attr (terminal_of buff ?d)) = typed_pos (scr_pos (scr d)) (Suc (length (map (\<lambda>c. cell_of c ?attr) cs))) \<and>
    length (t_cells (term_put (buff = vga_addr) c raw ?attr (terminal_of buff ?d))) = 2000 \<and>
    (\<forall>v. (t_cells (term_put (buff = vga_addr) c raw ?attr (terminal_of buff ?d)))[typed_pos (scr_pos (scr d)) (Suc (length (map (\<lambda>c. cell_of c ?attr) cs))) := v] =
       (typed (scr_pos (scr d)) (map (\<lambda>c. cell_of c ?attr) cs @ [cell_of c ?attr]) (grid buff (vmem d)))[typed_pos (scr_pos (scr d)) (Suc (length (map (\<lambda>c. cell_of c ?attr) cs))) := v])"
    by (rule term_put_plain [OF _ scr_pos_parts(1) [OF ok] refl]) (use snoc.prems IH in \<open>auto simp: terminal_of_def\<close>)
  note tp = this
  have pt: "terminal_of buff (putchar buff c raw ?d) = term_put (buff = vga_addr) c raw ?attr (terminal_of buff ?d)"
    "scr_ok (scr (putchar buff c raw ?d))" "only_screen buff ?d (putchar buff c raw ?d)"
    using putchar_terminal [OF IH(1), of buff c raw] attr by simp_all
  have f: "t_pos (terminal_of buff x) = scr_pos (scr x)" "t_cells (terminal_of buff x) = grid buff (vmem x)" for x
    by (simp_all add: terminal_of_def)
  show ?case using tp [folded pt(1)] pt(2) only_screen_trans [OF IH(2) pt(3)]
    unfolding e f by (simp only: length_map length_append length_Cons list.size(3) map_append list.map simp_thms add_Suc_right add_0_right)
qed

lemma writebuf_plain:
  assumes "\<forall>c\<in>set cs. plain_char c \<and> c \<noteq> 0 \<and> c \<noteq> 0x5C" "\<And>i. i < length cs \<Longrightarrow> rd (sz + of_nat i) = Some (cs ! i)"
    and "unat n = unat sz + length cs"
  shows "writebuf_loop buff rd n sz d = Some (n, put_chars buff False cs d)"
  using assms
proof (induction cs arbitrary: sz d)
  case Nil
  then have "n = sz" by (simp add: word_unat_eq_iff)
  then show ?case by (subst writebuf_loop.simps) (simp add: put_chars_def)
next
  case (Cons c cs)
  have "unat n < 2 ^ 32" using unsigned_less [of n] by simp
  then have u: "unat (sz + 1) = unat sz + 1" using Cons.prems(3) by (simp add: unat_word_ariths)
  have r: "rd sz = Some c" using Cons.prems(2) [of 0] by simp
  have "writebuf_loop buff rd n (sz + 1) (putchar buff c False d) = Some (n, put_chars buff False cs (putchar buff c False d))"
    by (rule Cons.IH) (use Cons.prems u Cons.prems(2) [of "Suc _"] in \<open>auto simp: algebra_simps\<close>)
  moreover have "sz < n" using Cons.prems(3) by (simp add: word_less_nat_alt)
  ultimately show ?case using Cons.prems(1) r by (subst writebuf_loop.simps) (simp add: put_chars_def)
qed


text \<open>Writing plain text of the given size to a screen types it: the cells follow the cursor
  from row to row in the current colours, the rows that have no place any more leave at the
  top, every character is counted and no byte outside the screen changes. Only the cell
  that the cursor ends on may show something else, the cursor of the shown screen.\<close>

theorem vga_writebuf_types:
  assumes "scr_ok (scr d)" and "unat n = length cs"
    and "\<forall>c\<in>set cs. plain_char c \<and> c \<noteq> 0 \<and> c \<noteq> 0x5C" and "\<And>i. i < length cs \<Longrightarrow> rd (of_nat i) = Some (cs ! i)"
  shows "\<exists>d'. vga_writebuf buff rd n d = Some (sint n, d') \<and> scr_ok (scr d') \<and> scr_attr (scr d') = scr_attr (scr d) \<and>
    scr_pos (scr d') = typed_pos (scr_pos (scr d)) (length cs) \<and>
    (\<forall>v. (grid buff (vmem d'))[scr_pos (scr d') := v] =
      (typed (scr_pos (scr d)) (map (\<lambda>c. cell_of c (scr_attr (scr d))) cs) (grid buff (vmem d)))[scr_pos (scr d') := v]) \<and>
    (\<forall>x. x \<notin> region buff 4000 \<longrightarrow> vmem d' x = vmem d x)"
proof -
  have w: "writebuf_loop buff rd n 0 d = Some (n, put_chars buff False cs d)"
    by (rule writebuf_plain) (use assms(2-4) in simp_all)
  have "\<forall>c\<in>set cs. False \<or> plain_char c" using assms(3) by blast
  note p = put_chars_typed [OF assms(1) this, where buff = buff]
  have same: "set_attr (scr_attr (scr d)) (put_chars buff False cs d) = put_chars buff False cs d"
    using p by (simp add: set_attr_def only_screen_def)
  have "vga_writebuf buff rd n d = Some (sint n, put_chars buff False cs d)" using w same by (simp add: vga_writebuf_def)
  then show ?thesis using p by (intro exI [of _ "put_chars buff False cs d"]) (simp add: only_screen_def)
qed

text \<open>Showing the cursor sends the controller, register by register, the number of the cell the
  cursor is on, and puts a blank there.\<close>

lemma vga_update_cursor_shows:
  assumes "scr_ok (scr d)"
  shows "\<exists>hi lo. outs (vga_update_cursor d) = outs d @ [(0x3D4, 0x0E), (0x3D5, hi), (0x3D4, 0x0F), (0x3D5, lo)] \<and>
    256 * unat hi + unat lo = scr_pos (scr d) \<and> scr (vga_update_cursor d) = scr d \<and>
    grid vga_addr (vmem (vga_update_cursor d)) = (grid vga_addr (vmem d))[scr_pos (scr d) := WHITE_SPACE]"
proof -
  let ?l = "location (scr d)"
  have n: "unat ?l = scr_pos (scr d)"
    using scr_pos_parts(1) [OF assms] by (simp add: location_pos unat_of_nat take_bit_nat_eq_self)
  have unat_mod: "unat w mod 4294967296 = unat w" for w :: u32
  proof -
    have "unat w < 2 ^ 32" using unsigned_less [of w] by simp
    then show ?thesis by simp
  qed
  have ff: "(0xFF :: u32) = mask 8" by (simp add: mask_eq_exp_minus_1)
  have "unat (ucast (?l AND 0xFF) :: u8) = scr_pos (scr d) mod 256"
    unfolding ff take_bit_eq_mask [symmetric] n [symmetric]
    by (simp only: unsigned_ucast_eq unsigned_take_bit_eq) (simp add: take_bit_eq_mod)
  moreover have "unat (ucast (drop_bit 8 ?l AND 0xFF) :: u8) = scr_pos (scr d) div 256 mod 256"
    unfolding ff take_bit_eq_mask [symmetric] n [symmetric]
    by (simp only: unsigned_ucast_eq unsigned_take_bit_eq unsigned_drop_bit_eq)
      (simp add: take_bit_eq_mod drop_bit_eq_div unat_mod)
  moreover have "scr_pos (scr d) div 256 mod 256 = scr_pos (scr d) div 256" using scr_pos_parts(1) [OF assms] by simp
  ultimately have s: "256 * unat (ucast (drop_bit 8 ?l AND 0xFF) :: u8) + unat (ucast (?l AND 0xFF) :: u8) = scr_pos (scr d)" by simp
  have "outs (vga_update_cursor d) = outs d @ [(0x3D4, 0x0E), (0x3D5, ucast (drop_bit 8 ?l AND 0xFF)), (0x3D4, 0x0F), (0x3D5, ucast (?l AND 0xFF))]"
    by (simp add: vga_update_cursor_def outb_def put_cell_def Let_def)
  then show ?thesis using s cursor_terminal [OF assms] by (auto simp: terminal_of_def)
qed

subsection \<open>Printing a format\<close>

fun known_format :: "u8 list \<Rightarrow> bool" where
  "known_format [] = True"
| "known_format (c # fmt) =
     (c \<noteq> 0 \<and> c \<noteq> 0x5C \<and>
      (if c = 0x25 then
         (case fmt of [] \<Rightarrow> False
          | e # fmt \<Rightarrow> e \<in> {0x63, 0x73, 0x64, 0x75, 0x78, 0x70, 0x25} \<and> known_format fmt)
       else known_format fmt))"

lemma put_chars_append: "put_chars buff raw (cs @ cs') d = put_chars buff raw cs' (put_chars buff raw cs d)"
  and put_chars_one: "put_chars buff raw [c] d = putchar buff c raw d"
  by (simp_all add: put_chars_def)

lemma put_chars_raw: "\<forall>c\<in>set cs. plain_char c \<Longrightarrow> put_chars buff True cs d = put_chars buff False cs d"
  by (induction cs arbitrary: d) (auto simp: put_chars_def putchar_def plain_char_def)

lemma room_unlimited: "has_room (- 1) sz"
  by (simp add: has_room_def word_sless_alt)

lemma put_str_unlimited: "0 \<notin> set s \<Longrightarrow> put_str (- 1) s sz out = (sz + of_nat (length s), out @ s)"
  by (induction s arbitrary: sz out) (auto simp: room_unlimited algebra_simps)

lemma printf_vsn:
  assumes str: "\<forall>a. \<forall>c\<in>set (str a). plain_char c \<and> c \<noteq> 0"
  shows "known_format fmt \<Longrightarrow> vsn_loop str (- 1) fmt args sz out = Some (n, out') \<Longrightarrow>
    \<exists>s sz'. out' = out @ s @ [0] \<and> sint sz' = n \<and> printf_loop False str fmt args sz d = Some (sz', put_chars vga_addr False s d)"
proof (induction fmt arbitrary: args sz out d rule: known_format.induct)
  case 1
  then show ?case by (intro exI [of _ "[]"] exI [of _ sz]) (simp add: vsn_loop.simps room_unlimited printf_loop.simps put_chars_def)
next
  case (2 c fmt)
  have step: "\<exists>s sz'. out' = out @ s @ [0] \<and> sint sz' = n \<and> printf_loop False str (c # fmt) args sz d = Some (sz', put_chars vga_addr False s d)"
    if e: "vsn_loop str (- 1) f as sz1 (out @ s1) = Some (n, out')"
      and p: "printf_loop False str (c # fmt) args sz d = printf_loop False str f as sz1 (put_chars vga_addr False s1 d)"
      and IH: "\<And>args sz out d. vsn_loop str (- 1) f args sz out = Some (n, out') \<Longrightarrow>
        \<exists>s sz'. out' = out @ s @ [0] \<and> sint sz' = n \<and> printf_loop False str f args sz d = Some (sz', put_chars vga_addr False s d)"
    for f as sz1 s1
  proof -
    from IH [OF e, of "put_chars vga_addr False s1 d"] obtain s sz' where "out' = (out @ s1) @ s @ [0]" "sint sz' = n"
      "printf_loop False str f as sz1 (put_chars vga_addr False s1 d) = Some (sz', put_chars vga_addr False s (put_chars vga_addr False s1 d))" by blast
    then show ?thesis using p by (intro exI [of _ "s1 @ s"] exI [of _ sz']) (simp add: put_chars_append)
  qed
  have c: "c \<noteq> 0" "c \<noteq> 0x5C" using 2(3) by auto
  show ?case
  proof (cases "c = 0x25")
    case False
    then have "vsn_loop str (- 1) fmt args (sz + 1) (out @ [c]) = Some (n, out')"
      using 2(4) c by (simp add: vsn_loop.simps [of _ _ "c # fmt"] room_unlimited)
    then show ?thesis using 2(2) [OF False] 2(3) False c
      by (intro step [of fmt args "sz + 1" "[c]"]) (simp_all add: printf_loop.simps [of _ _ "c # fmt"] put_chars_one)
  next
    case True
    then obtain e f where f: "fmt = e # f" using 2(3) by (cases fmt) auto
    have known: "known_format f" "e \<in> {0x63, 0x73, 0x64, 0x75, 0x78, 0x70, 0x25}" using 2(3) True f by auto
    note IH = 2(1) [OF True f known(1)]
    note v = vsn_loop.simps [of str "- 1" "0x25 # _ # f"] and p = printf_loop.simps [of False str "0x25 # _ # f"]
    consider "e = 0x63" | "e = 0x73" | "e = 0x64" | "e = 0x75" | "e = 0x78 \<or> e = 0x70" | "e = 0x25" using known(2) by auto
    then show ?thesis
    proof cases
      case e: 1
      then obtain a as where "args = a # as" using 2(4) True f by (cases args) (simp_all add: v room_unlimited)
      then show ?thesis using 2(4) True f e
        by (intro step [of f as "sz + 1" "[ucast a]", OF _ _ IH]) (simp_all add: v p room_unlimited put_chars_one)
    next
      case e: 2
      then obtain a as where a: "args = a # as" using 2(4) True f by (cases args) (simp_all add: v room_unlimited)
      have s: "0 \<notin> set (str a)" "\<forall>c\<in>set (str a). plain_char c" and tw: "takeWhile (\<lambda>c. c \<noteq> 0) (str a) = str a"
        using str by (auto simp: takeWhile_eq_all_conv)
      show ?thesis using 2(4) True f e a s
        by (intro step [of f as "sz + of_nat (length (str a))" "str a", OF _ _ IH])
          (simp_all add: v p room_unlimited put_str_unlimited put_chars_raw tw)
    next
      case e: 3
      then obtain a as where a: "args = a # as" using 2(4) True f by (cases args) (simp_all add: v room_unlimited)
      then obtain cs k where k: "put_dec (sint a) = Some (cs, k)" using 2(4) True f e by (auto simp: v room_unlimited split: option.splits)
      show ?thesis using 2(4) True f e a k
        by (intro step [of f as "sz + word_of_int k" cs, OF _ _ IH]) (simp_all add: v p room_unlimited vga_print_dec_def)
    next
      case e: 4
      then obtain a as where a: "args = a # as" using 2(4) True f by (cases args) (simp_all add: v room_unlimited)
      then obtain cs k where k: "print_udec a = Some (cs, k)" using 2(4) True f e by (auto simp: v room_unlimited split: option.splits)
      show ?thesis using 2(4) True f e a k
        by (intro step [of f as "sz + word_of_int k" cs, OF _ _ IH]) (simp_all add: v p room_unlimited vga_print_udec_def)
    next
      case e: 5
      then obtain a as where a: "args = a # as" using 2(4) True f by (cases args) (auto simp: v room_unlimited)
      then obtain cs k where k: "put_uhex a = Some (cs, k)" using 2(4) True f e by (auto simp: v room_unlimited split: option.splits)
      show ?thesis using 2(4) True f e a k
        by (intro step [of f as "sz + word_of_int k" cs, OF _ _ IH]) (auto simp: v p room_unlimited vga_print_uhex_def)
    next
      case e: 6
      then show ?thesis using 2(4) True f
        by (intro step [of f args "sz + 1" "[0x25]", OF _ _ IH]) (simp_all add: v p room_unlimited put_chars_one)
    qed
  qed
qed



text \<open>
  Blanks printed by the \<^verbatim>\<open>alpha\<close> variant move the cursor along without ever starting
  a new row: after 80 of them in an empty row the column is 80 and the cursor is not inside
  the screen any more.
\<close>

lemma alpha_blanks:
  "vga_alpha_printf_fixed_args str (replicate n 0x20) [] d =
     Some (sint (of_nat n :: u32), vga_update_cursor (d\<lparr>scr := (scr d)\<lparr>scr_x := scr_x (scr d) + of_nat n\<rparr>\<rparr>))"
proof -
  have "printf_loop True str (replicate n 0x20) [] sz d = Some (sz + of_nat n, d\<lparr>scr := (scr d)\<lparr>scr_x := scr_x (scr d) + of_nat n\<rparr>\<rparr>)" for sz
  proof (induction n arbitrary: sz d)
    case (Suc n)
    have "printf_loop True str (replicate (Suc n) 0x20) [] sz d =
        printf_loop True str (replicate n 0x20) [] (sz + 1) (d\<lparr>scr := (scr d)\<lparr>scr_x := scr_x (scr d) + 1\<rparr>\<rparr>)"
      by (simp add: printf_loop.simps [of True str "0x20 # _"])
    then show ?case by (simp add: Suc.IH ac_simps)
  qed (simp add: printf_loop.simps)
  then show ?thesis by (simp add: vga_alpha_printf_fixed_args_def set_attr_def)
qed

lemma alpha_leaves_screen:
  "\<not> scr_ok (scr (snd (the (vga_alpha_printf_fixed_args str (replicate 80 0x20) [] (d\<lparr>scr := \<lparr>scr_x = 0, scr_y = 0, scr_attr = 7\<rparr>\<rparr>)))))"
  by (simp only: alpha_blanks) (simp add: scr_ok_def vga_update_cursor_def put_cell_def outb_def Let_def)

subsection \<open>Witnesses\<close>

definition blank_display :: "nat \<Rightarrow> display" where
  "blank_display p = \<lparr>scr = \<lparr>scr_x = of_nat (p mod 80), scr_y = of_nat (p div 80), scr_attr = 7\<rparr>, vmem = (\<lambda>_. 0), outs = []\<rparr>"

lemma blank_grid: "grid buff (vmem (blank_display p)) = replicate 2000 0"
  by (rule nth_equalityI) (simp_all add: grid_nth ld16_def blank_display_def)

theorem putchar_refines_terminal_witness:
  "terminal_of vga_addr (putchar vga_addr 0x41 False (blank_display 79)) =
     \<lparr>t_cells = (replicate 2000 0)[79 := 0x0741, 80 := WHITE_SPACE], t_pos = 80\<rparr>"
proof -
  have "scr_ok (scr (blank_display 79))" by (simp add: scr_ok_def blank_display_def)
  from putchar_refines_terminal [OF this, of vga_addr "0x41" False] show ?thesis
    using blank_grid [of vga_addr 79]
    by (simp add: terminal_of_def term_put_def term_advance_def term_newline_def scr_pos_def)
      (simp add: blank_display_def cell_of_def)
qed

theorem vga_writebuf_types_witness:
  "\<exists>d. vga_writebuf 0x200000 (\<lambda>i. if i = 0 then Some 0x68 else if i = 1 then Some 0x69 else None) 2 (blank_display 1998) = Some (2, d) \<and>
     scr_pos (scr d) = 1920 \<and> grid 0x200000 (vmem d) ! 1918 = 0x0768 \<and> grid 0x200000 (vmem d) ! 1919 = 0x0769"
proof -
  let ?rd = "\<lambda>i :: u32. if i = 0 then Some 0x68 else if i = 1 then Some (0x69 :: u8) else None"
  have ok: "scr_ok (scr (blank_display 1998))" by (simp add: scr_ok_def blank_display_def)
  have n: "unat (2 :: u32) = length [0x68, 0x69 :: u8]" by simp
  have c: "\<forall>c\<in>set [0x68, 0x69 :: u8]. plain_char c \<and> c \<noteq> 0 \<and> c \<noteq> 0x5C" by (simp add: plain_char_def)
  have r: "?rd (of_nat i) = Some ([0x68, 0x69] ! i)" if "i < length [0x68, 0x69 :: u8]" for i
    using that by (auto simp: less_Suc_eq)
  have p: "scr_pos (scr (blank_display 1998)) = 1998" by (simp add: blank_display_def scr_pos_def)
  obtain d' where d': "vga_writebuf 0x200000 ?rd 2 (blank_display 1998) = Some (sint (2 :: u32), d')"
    "scr_pos (scr d') = typed_pos 1998 2"
    "\<forall>v. (grid 0x200000 (vmem d'))[1920 := v] = (typed 1998 (map (\<lambda>c. cell_of c 7) [0x68, 0x69]) (replicate 2000 0))[1920 := v]"
    using vga_writebuf_types [OF ok n c, of ?rd "0x200000", unfolded p, OF r]
    by (auto simp: blank_grid typed_pos_def) (auto simp: blank_display_def)
  have "grid 0x200000 (vmem d') ! i = typed 1998 (map (\<lambda>c. cell_of c 7) [0x68, 0x69]) (replicate 2000 0) ! i" if "i < 1920" for i
    using spec [OF d'(3), of 0, THEN arg_cong [where f = "\<lambda>l. l ! i"]] that by simp
  then show ?thesis using d'(1,2)
    by (intro exI [of _ d']) (simp add: typed_pos_def typed_nth cell_of_def)
qed


end
