(* ===== verification/Dev.thy ===== *)
theory Dev
  imports Umem
begin

section \<open>Devices: headers and function tables\<close>

text \<open>
  The part that every driver's structure starts with (\<^verbatim>\<open>include/device.h\<close>): class,
  reference count and the table of the operations. A pointer to an operation is the
  name of that operation or \<^verbatim>\<open>NULL\<close>; a pointer to a device is the driver's array
  and the index in it.
\<close>

datatype flush_fn = Con_flush | Serial_flush | Ext2_file_flush | Pipe_flush
datatype read_fn = Proc_cpuid_read | Con_read | Serial_read | Ext2_file_read | Pipe_read
datatype write_fn = Con_write | Serial_write | Pipe_write
datatype seek_fn = Ext2_file_seek

record chardev =
  klass :: u32
  refcount :: u32
  dv_flush :: "flush_fn option"
  dv_read :: "read_fn option"
  dv_write :: "write_fn option"
  dv_seek :: "seek_fn option"

datatype dev_ptr = Proc_cpuid_dev nat | Con_dev nat | Serial_dev nat | Ext2_dev nat | Pipe_dev nat

abbreviation (input) CLASS_DEV_NONE :: u32 where "CLASS_DEV_NONE \<equiv> 0"
abbreviation (input) CLASS_DEV_PROC_CPUID :: u32 where "CLASS_DEV_PROC_CPUID \<equiv> 1"
abbreviation (input) CLASS_DEV_CONSOLE :: u32 where "CLASS_DEV_CONSOLE \<equiv> 2"
abbreviation (input) CLASS_DEV_SERIAL :: u32 where "CLASS_DEV_SERIAL \<equiv> 3"
abbreviation (input) CLASS_DEV_HDD :: u32 where "CLASS_DEV_HDD \<equiv> 4"
abbreviation (input) CLASS_DEV_EXT2_FILE :: u32 where "CLASS_DEV_EXT2_FILE \<equiv> 5"
abbreviation (input) CLASS_DEV_PIPE :: u32 where "CLASS_DEV_PIPE \<equiv> 6"

abbreviation (input) MAX_FD :: nat where "MAX_FD \<equiv> 32"

abbreviation (input) ENOSYS :: int where "ENOSYS \<equiv> 1"
abbreviation (input) EINVALID :: int where "EINVALID \<equiv> 2"
abbreviation (input) ENOFUNC :: int where "ENOFUNC \<equiv> 3"
abbreviation (input) ENOMEM :: int where "ENOMEM \<equiv> 5"
abbreviation (input) ENOFILE :: int where "ENOFILE \<equiv> 6"
abbreviation (input) EFILEERROR :: int where "EFILEERROR \<equiv> 7"
abbreviation (input) ENOTYPE :: int where "ENOTYPE \<equiv> 8"
abbreviation (input) ENOPID :: int where "ENOPID \<equiv> 9"

text \<open>
  What a call that may block comes to: it returns a value, or the caller has been put in a
  wait queue and will go on, once woken, with what it has done so far (the number of bytes).
\<close>

datatype io = Done int | Blocked u32

end
