(* ===== verification/Demo.thy ===== *)
theory Demo
  imports Dev
begin

section \<open>A concrete kernel state\<close>

text \<open>
  The state at which the witnesses of the device theories apply their theorems, open at the
  end for the fields of each driver: processes 1 and 2 are ready and run in an address space
  whose first page is the video memory; frames 0 and 1 are its directory and its table, the
  other frames are free and no process waits.
\<close>

definition demo_phys :: "u32 \<Rightarrow> u8" where
  "demo_phys = st32 0x101000 0xB8007 (st32 0x100000 0x101007 (\<lambda>_. 0))"

definition demo_bitmap :: "int \<Rightarrow> u8" where
  "demo_bitmap = with_bit 1 True (with_bit 0 True (\<lambda>_. 0))"

definition demo :: "'a \<Rightarrow> 'a mm_state_scheme" where
  "demo x = \<lparr>tasks = tasks sched_demo, sc_actual = sc_actual sched_demo, sc_first = sc_first sched_demo,
     sc_last = sc_last sched_demo, running_tasks = running_tasks sched_demo,
     processes = replicate MAX_PID (blank_pcb\<lparr>p_cr3 := 0x100000\<rparr>),
     cur_pid = the (running_pid sched_demo), tmp_pid = 0,
     sleeping = replicate MAX_PID \<lparr>s_id = FREE_PCB_PID, s_time = 0, s_next = FREE_PCB_PID\<rparr>,
     first_slept = FREE_PCB_PID, timer_count = 0, esp_reg = 0, cr3_reg = 0, tss_esp0 = 0,
     mmap = [], mm_bitmap = demo_bitmap, mm_bitmap_byte_len = 256, phys = demo_phys, kernel_pagetable = 0x101000, \<dots> = x\<rparr>"

lemma demo_fields [simp]:
  "mm_bitmap (demo x) = demo_bitmap" "mm_bitmap_byte_len (demo x) = 256" "phys (demo x) = demo_phys"
  by (simp_all add: demo_def)

lemma demo_processes: "processes (demo x) = replicate MAX_PID (blank_pcb\<lparr>p_cr3 := 0x100000\<rparr>)"
  by (simp add: demo_def)

lemma demo_sched: "ready_pids (demo x) = [1, 2]" "\<exists>p. running_pid (demo x) = Some p \<and> cur_pid (demo x) = p"
  "sched_ok (demo x)"
proof -
  have slots: "ready_slots (demo x) = ready_slots sched_demo" by (simp add: ready_slots_def demo_def)
  show "ready_pids (demo x) = [1, 2]"
    using sched_demo_facts(2) by (simp add: ready_pids_def slots) (simp add: demo_def)
  have "running_pid (demo x) = running_pid sched_demo" by (simp add: running_pid_def demo_def)
  moreover have "running_pid sched_demo \<noteq> None" using sched_demo_facts(3) by (auto simp: running_pid_def)
  ultimately show "\<exists>p. running_pid (demo x) = Some p \<and> cur_pid (demo x) = p" by (auto simp: demo_def)
  show "sched_ok (demo x)"
    using sched_demo_facts(1) unfolding sched_ok_def slots by (simp add: sched_rel_def demo_def)
qed

lemma demo_placed: "placed (demo x) (replicate k FREE_QUEUE) (replicate k []) []"
proof -
  have "proc_ok (demo x)"
    using demo_sched [of x] by (auto simp: proc_ok_def cpu_ok_def) (simp_all add: demo_def)
  moreover have "sleep_rel (demo x) []" by (simp add: sleep_rel_def delta_ok_def demo_def)
  moreover have "unlinked (processes (demo x)) 1" "unlinked (processes (demo x)) 2"
    by (simp_all add: unlinked_def demo_processes blank_pcb_def)
  moreover have "list_all2 (wait_queue (processes (demo x))) (replicate k FREE_QUEUE) (replicate k [])"
    by (simp add: list_all2_conv_all_nth)
  moreover have "concat (replicate k ([] :: int list)) = []" by simp
  ultimately show ?thesis by (simp add: placed_def demo_sched(1))
qed

lemma demo_running: "cur_pid (demo x) \<in> {1, 2}"
proof -
  obtain p where p: "running_pid (demo x) = Some p" "cur_pid (demo x) = p" using demo_sched(2) [of x] by auto
  then have "p \<in> set (ready_pids (demo x))" using rq.running_ready [OF demo_sched(3) p(1)] by simp
  then show ?thesis using p demo_sched(1) [of x] by simp
qed

lemma demo_cur_pdt: "cur_pdt (demo x) = Some 0x100000"
  using demo_running [of x] by (auto simp: cur_pdt_def aget_def demo_processes)

lemma demo_frames: "frames_ok (demo x)" "taken_frames (demo x) = {0x100000, 0x101000}"
  "frames MM_REQUEST_KERNEL (demo x) - taken_frames (demo x) \<noteq> {}"
  "2 \<le> p \<Longrightarrow> p < 768 \<Longrightarrow> frame_at p \<in> frames MM_REQUEST_KERNEL (demo x)"
proof -
  show ok: "frames_ok (demo x)" by (simp add: frames_ok_def)
  have u: "used_bit demo_bitmap p \<longleftrightarrow> p = 0 \<or> p = 1" for p
    by (simp add: demo_bitmap_def) (simp add: used_bit_def)
  have "{p \<in> {0..<2048}. used_bit demo_bitmap p} = {0, 1 :: int}" by (auto simp: u)
  then show t: "taken_frames (demo x) = {0x100000, 0x101000}" by (simp add: taken_frames_def frame_at_def)
  show in_k: "frame_at p \<in> frames MM_REQUEST_KERNEL (demo x)" if "2 \<le> p" "p < 768" for p
    using that by (auto simp: frames_def zone_bits_def)
  have "frame_at 2 \<notin> taken_frames (demo x)" using t by (simp add: frame_at_def)
  then show "frames MM_REQUEST_KERNEL (demo x) - taken_frames (demo x) \<noteq> {}" using in_k [of 2] by auto
qed

lemma demo_words: "get32 0x100000 (demo x) = 0x101007" "get32 0x101000 (demo x) = 0xB8007"
  "aligned4 a \<Longrightarrow> a \<noteq> 0x100000 \<Longrightarrow> a \<noteq> 0x101000 \<Longrightarrow> get32 a (demo x) = 0"
proof -
  have al: "aligned4 0x100000" "aligned4 0x101000" by (simp_all add: aligned4_def)
  show "get32 0x101000 (demo x) = 0xB8007" by (simp add: get32_def demo_phys_def ld32_st32_same)
  show "get32 0x100000 (demo x) = 0x101007"
    using ld32_st32_other [OF al] by (simp add: get32_def demo_phys_def ld32_st32_same)
  show "get32 a (demo x) = 0" if "aligned4 a" "a \<noteq> 0x100000" "a \<noteq> 0x101000"
    using ld32_st32_other [OF that(1) al(1)] ld32_st32_other [OF that(1) al(2)] that
    by (simp add: get32_def demo_phys_def) (simp add: ld32_def)
qed

lemma demo_present: "present 0x100000 v (demo x) \<longleftrightarrow> PD_ENTRY_FOR v = 0"
  "PD_ENTRY_FOR v = 0 \<Longrightarrow> table_for 0x100000 v (demo x) = 0x101000"
proof -
  have al: "aligned 0x100000" "aligned 0x101000" by (simp_all add: aligned_def)
  note e = entry_addrs [OF al(1)]
  have z: "pd_entry v 0x100000 = 0x100000 \<longleftrightarrow> PD_ENTRY_FOR v = 0"
    using e(5) [of v 0] by (simp add: pd_entry_def PD_ENTRY_FOR_def)
  have "pd_entry v 0x100000 \<noteq> 0x101000" using e(2) [of v] page_of_aligned [OF al(2)] by auto
  then show "present 0x100000 v (demo x) \<longleftrightarrow> PD_ENTRY_FOR v = 0"
    using z e(1) [of v] by (cases "PD_ENTRY_FOR v = 0") (simp_all add: present_def demo_words attr_of_def)
  show "PD_ENTRY_FOR v = 0 \<Longrightarrow> table_for 0x100000 v (demo x) = 0x101000"
    using z by (simp add: table_for_def demo_words base_addr_def)
qed

lemma demo_owned: "owned 0x100000 (demo x) = {0x100000, 0x101000}"
proof -
  have "PD_ENTRY_FOR 0 = 0" by (simp add: PD_ENTRY_FOR_def)
  then have "table_for 0x100000 0 (demo x) = 0x101000" by (rule demo_present(2))
  then have "{table_for 0x100000 v (demo x) | v. PD_ENTRY_FOR v = 0} = {0x101000}"
    using \<open>PD_ENTRY_FOR 0 = 0\<close> demo_present(2) [of _ x] by (fastforce simp del: demo_present(2))
  then show ?thesis by (simp add: owned_def demo_present(1))
qed

lemma demo_dir: "dir_ok 0x100000 (demo x)"
  by (auto simp: dir_ok_def demo_owned demo_frames(2) demo_present) (simp add: aligned_def)

lemma demo_pte: "pte 0 0x100000 (demo x) = 0xB8007"
proof -
  have z: "PD_ENTRY_FOR 0 = 0" "pt_slot 0 0x101000 = 0x101000" by (simp_all add: PD_ENTRY_FOR_def PT_ENTRY_FOR_def pt_slot_def)
  then show ?thesis by (simp add: pte_def demo_present demo_words)
qed

lemma demo_buffer: "n \<le> 4096 \<Longrightarrow> user_buffer 0 n (map (\<lambda>i. 0xB8000 + of_nat i) [0..<n]) (demo x)"
  by (rule mapped_buffer [OF demo_frames(1) demo_dir demo_cur_pdt])
    (simp_all add: demo_pte demo_owned attr_of_def base_addr_def, simp_all add: aligned_def)

lemma demo_may_write: "may_write 0 (demo x)"
proof -
  have "present 0x100000 0 (demo x)" by (simp add: demo_present PD_ENTRY_FOR_def)
  then have "mm_pl_of_vaddr 0 0x100000 (demo x) = Some PL_USER"
    using demo_pte [of x] table_nonzero [OF demo_frames(1) demo_dir, of 0 x]
    by (simp add: mm_pl_of_vaddr_def pt_entry_for_eq pte_def aligned_def attr_of_def)
  then show ?thesis using demo_cur_pdt [of x] by (simp add: may_write_def)
qed

end
