(* ===== verification/Pipe.thy ===== *)
theory Pipe
  imports Demo
begin

section \<open>Pipes\<close>

text \<open>
  \<^verbatim>\<open>kernel/pipe.c\<close>: a pipe is two endpoints that share a page of kernel memory used
  as a ring of bytes; each keeps its own position and its own count of the bytes available.
  The second half shows that the two counts always agree, that the bytes between the two
  positions form a queue and what each operation does to that queue and to the waiting
  processes.
\<close>

subsection \<open>The code\<close>

abbreviation (input) BUFFER_SIZE :: u32 where "BUFFER_SIZE \<equiv> 4096"
abbreviation (input) MAX_ENDPOINTS :: nat where "MAX_ENDPOINTS \<equiv> 64"

record endpoint = chardev +
  ep_pair :: "nat option"
  ep_buffer :: u32
  bytes_available :: u32
  ep_pos :: u32
  ep_queue :: int

record pipe_state = mm_state +
  endpoints :: "endpoint list"

definition upd_ep :: "nat \<Rightarrow> (endpoint \<Rightarrow> endpoint) \<Rightarrow> 'a pipe_state_scheme \<Rightarrow> 'a pipe_state_scheme" where
  "upd_ep i f s = s\<lparr>endpoints := (endpoints s)[i := f (endpoints s ! i)]\<rparr>"

definition pipe_init :: "'a pipe_state_scheme \<Rightarrow> 'a pipe_state_scheme" where
  "pipe_init s = s\<lparr>endpoints := map (\<lambda>e. e\<lparr>klass := CLASS_DEV_NONE\<rparr>) (endpoints s)\<rparr>"

definition init_endpoint :: "endpoint \<Rightarrow> endpoint option" where
  "init_endpoint p = do {
     kassert (klass p = CLASS_DEV_NONE);
     Some (p\<lparr>klass := CLASS_DEV_PIPE, refcount := 0, dv_flush := Some Pipe_flush, dv_read := None,
       dv_write := None, dv_seek := None, ep_buffer := 0, bytes_available := 0, ep_pos := 0,
       ep_queue := FREE_QUEUE, ep_pair := None\<rparr>)
   }"

text \<open>The scan of \<^verbatim>\<open>pipe_open\<close> for two free endpoints.\<close>

fun find_two :: "nat \<Rightarrow> nat option \<Rightarrow> endpoint list \<Rightarrow> (nat \<times> nat) option" where
  "find_two i found [] = None"
| "find_two i found (e # es) =
     (if klass e = CLASS_DEV_NONE then
        (case found of None \<Rightarrow> find_two (Suc i) (Some i) es | Some k \<Rightarrow> Some (k, i))
      else find_two (Suc i) found es)"

text \<open>The result is the error code and, when it is 0, the two devices.\<close>

definition pipe_open :: "'a pipe_state_scheme \<Rightarrow> (int \<times> (dev_ptr \<times> dev_ptr) option \<times> 'a pipe_state_scheme) option" where
  "pipe_open s =
     (case find_two 0 None (endpoints s) of
        None \<Rightarrow> Some (- ENOMEM, None, s)
      | Some (inn, out) \<Rightarrow> do {
          kassert (inn < MAX_ENDPOINTS);
          kassert (inn < MAX_ENDPOINTS);
          (buffer, s) \<leftarrow> mm_mem_kalloc s;
          if buffer = 0 then Some (- ENOMEM, None, s)
          else do {
            p \<leftarrow> init_endpoint (endpoints s ! inn);
            let s = upd_ep inn (\<lambda>_. p\<lparr>ep_buffer := buffer, dv_read := Some Pipe_read, ep_pair := Some out\<rparr>) s;
            p \<leftarrow> init_endpoint (endpoints s ! out);
            let s = upd_ep out (\<lambda>_. p\<lparr>ep_buffer := buffer, dv_write := Some Pipe_write, ep_pair := Some inn\<rparr>) s;
            Some (0, Some (Pipe_dev inn, Pipe_dev out), s)
          }
        })"

text \<open>\<^verbatim>\<open>while (*queue != FREE_QUEUE) loader_unqueue(queue);\<close> is the loop of \<^verbatim>\<open>sem_broadcast\<close> too.\<close>

definition wake_all :: "nat \<Rightarrow> 'a pipe_state_scheme \<Rightarrow> 'a pipe_state_scheme option" where
  "wake_all i s = do {
     (q, s) \<leftarrow> broadcast_loop (ep_queue (endpoints s ! i)) s;
     Some (upd_ep i (\<lambda>e. e\<lparr>ep_queue := q\<rparr>) s)
   }"

text \<open>Going to sleep on the endpoint's own queue.\<close>

definition ep_wait :: "nat \<Rightarrow> 'a pipe_state_scheme \<Rightarrow> 'a pipe_state_scheme option" where
  "ep_wait i s = do {
     (q, s) \<leftarrow> loader_enqueue (ep_queue (endpoints s ! i)) s;
     Some (upd_ep i (\<lambda>e. e\<lparr>ep_queue := q\<rparr>) s)
   }"

text \<open>The two copies of a chunk that may run past the end of the buffer.\<close>

definition copy_out :: "endpoint \<Rightarrow> u32 \<Rightarrow> u32 \<Rightarrow> 'a pipe_state_scheme \<Rightarrow> 'a pipe_state_scheme option" where
  "copy_out e buf eff_size s =
     (if ep_pos e + eff_size > BUFFER_SIZE then do {
        let tmp = BUFFER_SIZE - ep_pos e;
        (_, s) \<leftarrow> copy2user (ep_buffer e + ep_pos e) buf tmp s;
        (_, s) \<leftarrow> copy2user (ep_buffer e) buf (eff_size - tmp) s;
        Some s
      } else do {
        (_, s) \<leftarrow> copy2user (ep_buffer e + ep_pos e) buf eff_size s;
        Some s
      })"

definition copy_in :: "endpoint \<Rightarrow> u32 \<Rightarrow> u32 \<Rightarrow> 'a pipe_state_scheme \<Rightarrow> 'a pipe_state_scheme option" where
  "copy_in e buf eff_size s =
     (if ep_pos e + eff_size > BUFFER_SIZE then do {
        let tmp = BUFFER_SIZE - ep_pos e;
        s \<leftarrow> memcpy_from_user (unat tmp) buf (ep_buffer e + ep_pos e) s;
        memcpy_from_user (unat (eff_size - tmp)) buf (ep_buffer e) s
      } else memcpy_from_user (unat eff_size) buf (ep_buffer e + ep_pos e) s)"

text \<open>A round that moves \<open>min a (sz0 - sz)\<close> bytes makes progress.\<close>

lemma chunk_progress:
  fixes sz sz0 a :: u32
  assumes "sz < sz0" "a \<noteq> 0"
  shows "unat (sz0 - (sz + min a (sz0 - sz))) < unat (sz0 - sz)"
    "unat (sz + min a (sz0 - sz)) = unat sz + unat (min a (sz0 - sz))"
    "sz + min a (sz0 - sz) \<le> sz0"
proof -
  define e where "e = min a (sz0 - sz)"
  have e: "0 < e" "e \<le> sz0 - sz" using assms by (auto simp: e_def word_gt_0 min_def)
  have d: "unat (sz0 - sz) = unat sz0 - unat sz" using assms(1) by (simp add: unat_sub)
  have ue: "0 < unat e" "unat e \<le> unat sz0 - unat sz" using e d by (simp_all add: word_le_nat_alt unat_gt_0)
  have lt: "unat sz < unat sz0" using assms(1) by (simp add: word_less_nat_alt)
  have b: "unat sz0 < 2 ^ 32" using unsigned_less [of sz0] by simp
  have s: "unat (sz + e) = unat sz + unat e" using ue lt b by (simp add: unat_word_ariths)
  have le: "sz + e \<le> sz0" using s ue lt by (simp add: word_le_nat_alt)
  then have "unat (sz0 - (sz + e)) = unat sz0 - (unat sz + unat e)" using s by (simp add: unat_sub)
  then show "unat (sz0 - (sz + min a (sz0 - sz))) < unat (sz0 - sz)"
    "unat (sz + min a (sz0 - sz)) = unat sz + unat (min a (sz0 - sz))" "sz + min a (sz0 - sz) \<le> sz0"
    using s le ue d lt by (simp_all flip: e_def)
qed

text \<open>
  The loops, from the point where \<open>sz\<close> bytes are done. A process that was blocked goes on
  from there; \<open>self\<close> is the endpoint. A round moves at least one byte or leaves the loop.
\<close>

function (sequential) pipe_read_loop ::
  "nat \<Rightarrow> u32 \<Rightarrow> u32 \<Rightarrow> u32 \<Rightarrow> 'a pipe_state_scheme \<Rightarrow> (io \<times> 'a pipe_state_scheme) option" where
  "pipe_read_loop self buf sz0 sz s =
     (if sz < sz0 then
        Option.bind (ep_pair (endpoints s ! self)) (\<lambda>pair.
          if klass (endpoints s ! pair) = CLASS_DEV_NONE \<and> bytes_available (endpoints s ! self) = 0
          then Some (Done (sint sz), s)
          else if bytes_available (endpoints s ! self) = 0
          then Option.bind (ep_wait self s) (\<lambda>s. Some (Blocked sz, s))
          else let eff_size = min (bytes_available (endpoints s ! self)) (sz0 - sz) in
            Option.bind (copy_out (endpoints s ! self) buf eff_size s) (\<lambda>s.
            let s = upd_ep self (\<lambda>e. e\<lparr>ep_pos := (ep_pos e + eff_size) mod BUFFER_SIZE\<rparr>) s;
                s = upd_ep self (\<lambda>e. e\<lparr>bytes_available := bytes_available e - eff_size\<rparr>) s;
                s = upd_ep pair (\<lambda>e. e\<lparr>bytes_available := bytes_available e - eff_size\<rparr>) s
            in Option.bind (wake_all pair s) (\<lambda>s. pipe_read_loop self buf sz0 (sz + eff_size) s)))
      else Some (Done (sint sz), s))"
  by pat_completeness auto

termination
  by (relation "measure (\<lambda>(self, buf, sz0, sz, s). unat (sz0 - sz))") (auto simp: chunk_progress)

definition pipe_read :: "nat \<Rightarrow> u32 \<Rightarrow> u32 \<Rightarrow> 'a pipe_state_scheme \<Rightarrow> (io \<times> 'a pipe_state_scheme) option" where
  "pipe_read self buf sz0 s = pipe_read_loop self buf sz0 0 s"

function (sequential) pipe_write_loop ::
  "nat \<Rightarrow> u32 \<Rightarrow> u32 \<Rightarrow> u32 \<Rightarrow> 'a pipe_state_scheme \<Rightarrow> (io \<times> 'a pipe_state_scheme) option" where
  "pipe_write_loop self buf sz0 sz s =
     (if sz < sz0 then
        Option.bind (ep_pair (endpoints s ! self)) (\<lambda>pair.
          if klass (endpoints s ! pair) = CLASS_DEV_NONE then Some (Done 0, s)
          else if bytes_available (endpoints s ! self) = BUFFER_SIZE
          then Option.bind (ep_wait self s) (\<lambda>s. Some (Blocked sz, s))
          else let eff_size = min (BUFFER_SIZE - bytes_available (endpoints s ! self)) (sz0 - sz) in
            Option.bind (copy_in (endpoints s ! self) buf eff_size s) (\<lambda>s.
            let s = upd_ep self (\<lambda>e. e\<lparr>ep_pos := (ep_pos e + eff_size) mod BUFFER_SIZE\<rparr>) s;
                s = upd_ep self (\<lambda>e. e\<lparr>bytes_available := bytes_available e + eff_size\<rparr>) s;
                s = upd_ep pair (\<lambda>e. e\<lparr>bytes_available := bytes_available e + eff_size\<rparr>) s
            in Option.bind (wake_all pair s) (\<lambda>s. pipe_write_loop self buf sz0 (sz + eff_size) s)))
      else Some (Done (sint sz), s))"
  by pat_completeness auto

termination
  by (relation "measure (\<lambda>(self, buf, sz0, sz, s). unat (sz0 - sz))") (auto simp: chunk_progress)

declare pipe_read_loop.simps [simp del] pipe_write_loop.simps [simp del]

definition pipe_write :: "nat \<Rightarrow> u32 \<Rightarrow> u32 \<Rightarrow> 'a pipe_state_scheme \<Rightarrow> (io \<times> 'a pipe_state_scheme) option" where
  "pipe_write self buf sz0 s = pipe_write_loop self buf sz0 0 s"

definition pipe_flush :: "nat \<Rightarrow> 'a pipe_state_scheme \<Rightarrow> (u32 \<times> 'a pipe_state_scheme) option" where
  "pipe_flush self s = do {
     let s = upd_ep self (\<lambda>e. e\<lparr>klass := CLASS_DEV_NONE\<rparr>) s;
     pair \<leftarrow> ep_pair (endpoints s ! self);
     s \<leftarrow> wake_all pair s;
     s \<leftarrow> (if klass (endpoints s ! pair) = CLASS_DEV_NONE
           then mm_mem_free (ep_buffer (endpoints s ! self)) s else Some s);
     Some (0, s)
   }"

subsection \<open>The ring of bytes\<close>

text \<open>The bytes of the page at \<open>b\<close>, from position \<open>p\<close> on and round its end.\<close>

definition ring_bytes :: "u32 \<Rightarrow> nat \<Rightarrow> nat \<Rightarrow> (u32 \<Rightarrow> u8) \<Rightarrow> u8 list" where
  "ring_bytes b p n m = map (\<lambda>i. m (b + of_nat ((p + i) mod 4096))) [0..<n]"

lemma length_ring_bytes [simp]: "length (ring_bytes b p n m) = n"
  by (simp add: ring_bytes_def)

lemma slot_inj: "i < 4096 \<Longrightarrow> j < 4096 \<Longrightarrow> b + of_nat i = (b + of_nat j :: u32) \<longleftrightarrow> i = j"
  by (simp add: of_nat_inj_small)

lemma ring_bytes_append:
  assumes "k + length xs \<le> 4096" and w: "w = (p + k) mod 4096"
    and new: "\<And>i. i < length xs \<Longrightarrow> m' (b + of_nat ((w + i) mod 4096)) = xs ! i"
    and old: "\<And>j. j < 4096 \<Longrightarrow> (\<And>i. i < length xs \<Longrightarrow> j \<noteq> (w + i) mod 4096) \<Longrightarrow> m' (b + of_nat j) = m (b + of_nat j)"
  shows "ring_bytes b p (k + length xs) m' = ring_bytes b p k m @ xs"
proof (rule nth_equalityI)
  fix i assume i: "i < length (ring_bytes b p (k + length xs) m')"
  show "ring_bytes b p (k + length xs) m' ! i = (ring_bytes b p k m @ xs) ! i"
  proof (cases "i < k")
    case True
    have ne: "(p + i) mod 4096 \<noteq> (w + j) mod 4096" if j: "j < length xs" for j
    proof
      assume "(p + i) mod 4096 = (w + j) mod 4096"
      then have "(p + i) mod 4096 = (p + (k + j)) mod 4096" by (simp add: w mod_add_left_eq add.assoc)
      then have "4096 dvd (p + (k + j)) - (p + i)" using True by (subst mod_eq_dvd_iff_nat [symmetric]) simp_all
      then have "4096 dvd k + j - i" by simp
      moreover have "0 < k + j - i" "k + j - i < 4096" using True j assms(1) by simp_all
      ultimately show False by (simp add: nat_dvd_not_less)
    qed
    then show ?thesis using True i old [of "(p + i) mod 4096"] by (simp add: ring_bytes_def nth_append)
  next
    case False
    then have e: "p + i = (p + k) + (i - k)" by simp
    have "(p + i) mod 4096 = (w + (i - k)) mod 4096" by (simp only: e w mod_add_left_eq)
    then show ?thesis using False i new [of "i - k"] by (simp add: ring_bytes_def nth_append)
  qed
qed simp

lemma ring_bytes_take: "k \<le> n \<Longrightarrow> take k (ring_bytes b p n m) = ring_bytes b p k m"
  by (simp add: ring_bytes_def take_map take_upt)

lemma ring_bytes_drop: "drop k (ring_bytes b p n m) = ring_bytes b ((p + k) mod 4096) (n - k) m"
proof (rule nth_equalityI)
  fix i assume "i < length (drop k (ring_bytes b p n m))"
  then have "k + i < n" "i < n - k" by simp_all
  then show "drop k (ring_bytes b p n m) ! i = ring_bytes b ((p + k) mod 4096) (n - k) m ! i"
    by (simp add: ring_bytes_def mod_add_left_eq add.assoc)
qed simp

lemma ring_bytes_region: "p + n \<le> 4096 \<Longrightarrow> ring_bytes b p n m = bytes_at (b + of_nat p) n m"
  by (auto simp: ring_bytes_def bytes_at_def add.assoc)

text \<open>
  What a chunk of bytes comes to in the ring when the writer is at \<open>w\<close>. The part behind the
  end of the page is copied from the beginning of the data again.
\<close>

definition ring_chunk :: "nat \<Rightarrow> 'a list \<Rightarrow> 'a list" where
  "ring_chunk w xs = (let t = 4096 - w in take t xs @ take (length xs - t) xs)"

lemma length_ring_chunk [simp]: "length xs \<le> 4096 \<Longrightarrow> w \<le> 4096 \<Longrightarrow> length (ring_chunk w xs) = length xs"
  by (auto simp: ring_chunk_def Let_def)

lemma ring_chunk_fits: "w + length xs \<le> 4096 \<Longrightarrow> ring_chunk w xs = xs"
  by (simp add: ring_chunk_def)

subsection \<open>Copying a chunk\<close>

lemma page_region:
  assumes "aligned b" "p + n \<le> 4096"
  shows "x \<in> region (b + of_nat p) n \<longleftrightarrow> (\<exists>j. p \<le> j \<and> j < p + n \<and> x = b + of_nat j)"
    "x \<in> region (b + of_nat p) n \<Longrightarrow> page_of x = b"
proof -
  show 1: "x \<in> region (b + of_nat p) n \<longleftrightarrow> (\<exists>j. p \<le> j \<and> j < p + n \<and> x = b + of_nat j)"
  proof
    assume "x \<in> region (b + of_nat p) n"
    then obtain i where "i < n" "x = b + of_nat (p + i)" by (auto simp: region_def add.assoc)
    then show "\<exists>j. p \<le> j \<and> j < p + n \<and> x = b + of_nat j" by (intro exI [of _ "p + i"]) simp
  next
    assume "\<exists>j. p \<le> j \<and> j < p + n \<and> x = b + of_nat j"
    then obtain j where j: "p \<le> j" "j < p + n" "x = b + of_nat j" by blast
    then obtain i where "j = p + i" using le_Suc_ex by blast
    then show "x \<in> region (b + of_nat p) n" using j in_region [of i n "b + of_nat p"] by (simp add: add.assoc)
  qed
  assume "x \<in> region (b + of_nat p) n"
  then obtain j where "p \<le> j" "j < p + n" and x: "x = b + of_nat j" using 1 by blast
  then have j: "j < 4096" "x = b + of_nat j" using assms(2) by simp_all
  then have "(of_nat j :: u32) < 4096" by (simp add: word_less_nat_alt unat_of_nat take_bit_nat_eq_self)
  then show "page_of x = b" using page_of_add assms(1) j by simp
qed

text \<open>The page of the ring is neither the process's buffer nor one of its page tables.\<close>

definition apart :: "u32 \<Rightarrow> u32 list \<Rightarrow> 'a mm_state_scheme \<Rightarrow> bool" where
  "apart b as s \<longleftrightarrow> aligned b \<and> b \<notin> page_of ` set as \<and> (\<forall>pdt. cur_pdt s = Some pdt \<longrightarrow> b \<notin> owned pdt s)"

lemma apart_take: "apart b as s \<Longrightarrow> apart b (take k as) s"
  by (auto simp: apart_def dest: in_set_takeD)

lemma segment_in:
  assumes "user_buffer v n as s" "apart b as s" "p + n \<le> 4096"
  shows "\<exists>m. memcpy_from_user n v (b + of_nat p) s = Some (s\<lparr>phys := m\<rparr>) \<and>
    (\<forall>i<n. m (b + of_nat (p + i)) = phys s (as ! i)) \<and>
    (\<forall>x. (\<forall>j. p \<le> j \<and> j < p + n \<longrightarrow> x \<noteq> b + of_nat j) \<longrightarrow> m x = phys s x)"
proof -
  have b: "aligned b" "b \<notin> page_of ` set as" "\<And>pdt. cur_pdt s = Some pdt \<Longrightarrow> b \<notin> owned pdt s"
    using assms(2) by (auto simp: apart_def)
  note R = page_region [OF b(1) assms(3)]
  have "region (b + of_nat p) n \<inter> set as = {}" using R(2) b(2) by auto
  moreover have "\<forall>x\<in>region (b + of_nat p) n. page_of x \<notin> owned pdt s" if "cur_pdt s = Some pdt" for pdt
    using R(2) b(3) [OF that] by auto
  moreover have "n < 2 ^ 32" using assms(3) by simp
  ultimately obtain m where m: "memcpy_from_user n v (b + of_nat p) s = Some (s\<lparr>phys := m\<rparr>)"
    "bytes_at (b + of_nat p) n m = map (phys s) as" "\<forall>x. x \<notin> region (b + of_nat p) n \<longrightarrow> m x = phys s x"
    using from_user_copies [OF assms(1), of "b + of_nat p"] by blast
  have l: "length as = n" using assms(1) by (simp add: user_buffer_def)
  have "m (b + of_nat (p + i)) = phys s (as ! i)" if "i < n" for i
    using arg_cong [OF m(2), of "\<lambda>xs. xs ! i"] that l by (simp add: bytes_at_def add.assoc)
  then show ?thesis using m(1,3) R(1) by blast
qed

lemma of_nat_unat: "unat (x :: u32) = n \<Longrightarrow> x = of_nat n"
  by auto

lemma past_end:
  fixes a e :: u32
  assumes "unat a \<le> 4096" "unat e \<le> 4096"
  shows "a + e > 4096 \<longleftrightarrow> unat a + unat e > 4096" "unat (4096 - a) = 4096 - unat a"
    "unat a + unat e > 4096 \<Longrightarrow> unat (e - (4096 - a)) = unat a + unat e - 4096"
proof -
  have "unat (a + e) = unat a + unat e" using assms by (simp add: unat_word_ariths)
  then show "a + e > 4096 \<longleftrightarrow> unat a + unat e > 4096" by (simp add: word_less_nat_alt)
  have "a \<le> 4096" using assms by (simp add: word_le_nat_alt)
  then show d: "unat (4096 - a) = 4096 - unat a" by (simp add: unat_sub)
  assume "unat a + unat e > 4096"
  then have "4096 - a \<le> e" using d by (simp add: word_le_nat_alt)
  then show "unat (e - (4096 - a)) = unat a + unat e - 4096" using d assms \<open>unat a + unat e > 4096\<close> by (simp add: unat_sub)
qed

lemma copy_in_ring:
  assumes ub: "user_buffer v n as s" and ap: "apart (ep_buffer e) as s" and w: "unat (ep_pos e) = w" "w < 4096"
    and n: "unat eff = n" "n \<le> 4096"
  shows "\<exists>m. copy_in e v eff s = Some (s\<lparr>phys := m\<rparr>) \<and>
    (\<forall>i<n. m (ep_buffer e + of_nat ((w + i) mod 4096)) = ring_chunk w (map (phys s) as) ! i) \<and>
    (\<forall>x. (\<forall>i<n. x \<noteq> ep_buffer e + of_nat ((w + i) mod 4096)) \<longrightarrow> m x = phys s x)"
proof -
  let ?b = "ep_buffer e"
  have l: "length as = n" using ub by (simp add: user_buffer_def)
  have P: "ep_pos e + eff > 4096 \<longleftrightarrow> w + n > 4096" "unat (4096 - ep_pos e) = 4096 - w"
    "w + n > 4096 \<Longrightarrow> unat (eff - (4096 - ep_pos e)) = w + n - 4096"
    using past_end [of "ep_pos e" eff] w n by simp_all
  have pos: "ep_pos e = of_nat w" using w(1) of_nat_unat by blast
  show ?thesis
  proof (cases "w + n \<le> 4096")
    case True
    obtain m where m: "memcpy_from_user n v (?b + of_nat w) s = Some (s\<lparr>phys := m\<rparr>)"
      "\<forall>i<n. m (?b + of_nat (w + i)) = phys s (as ! i)"
      "\<forall>x. (\<forall>j. w \<le> j \<and> j < w + n \<longrightarrow> x \<noteq> ?b + of_nat j) \<longrightarrow> m x = phys s x"
      using segment_in [OF ub ap True] by blast
    have mod: "(w + i) mod 4096 = w + i" if "i < n" for i using that True by simp
    have c: "copy_in e v eff s = Some (s\<lparr>phys := m\<rparr>)" using P(1) True m(1) n pos by (simp add: copy_in_def)
    have k: "ring_chunk w (map (phys s) as) = map (phys s) as" using True l by (simp add: ring_chunk_fits)
    show ?thesis
    proof (intro exI conjI allI impI)
      show "copy_in e v eff s = Some (s\<lparr>phys := m\<rparr>)" by (rule c)
      show "m (?b + of_nat ((w + i) mod 4096)) = ring_chunk w (map (phys s) as) ! i" if "i < n" for i
        using m(2) that l by (simp add: mod [OF that] k)
      fix x assume x: "\<forall>i<n. x \<noteq> ?b + of_nat ((w + i) mod 4096)"
      have "x \<noteq> ?b + of_nat j" if "w \<le> j" "j < w + n" for j
        using x [rule_format, of "j - w"] mod [of "j - w"] that by simp
      then show "m x = phys s x" using m(3) by blast
    qed
  next
    case False
    define t where "t = 4096 - w"
    have t: "t < n" "w + t = 4096" "n - t \<le> w" "n - t \<le> 4096" using False w n by (auto simp: t_def)
    obtain m1 where m1: "memcpy_from_user t v (?b + of_nat w) s = Some (s\<lparr>phys := m1\<rparr>)"
      "\<forall>i<t. m1 (?b + of_nat (w + i)) = phys s (take t as ! i)"
      "\<forall>x. (\<forall>j. w \<le> j \<and> j < w + t \<longrightarrow> x \<noteq> ?b + of_nat j) \<longrightarrow> m1 x = phys s x"
      using segment_in [OF user_buffer_take [OF ub, of t], of ?b w] ap t by (auto simp: apart_def dest: in_set_takeD)
    have same: "m1 x = phys s x" if "page_of x \<noteq> ?b" for x
    proof -
      have "x \<noteq> ?b + of_nat j" if "w \<le> j" "j < w + t" for j
        using page_region [of ?b w t x] ap that \<open>page_of x \<noteq> ?b\<close> t(2) by (auto simp: apart_def)
      then show ?thesis using m1(3) by blast
    qed
    let ?s = "s\<lparr>phys := m1\<rparr>"
    have ub2: "user_buffer v (n - t) (take (n - t) as) ?s"
      by (rule user_buffer_cong [OF user_buffer_take [OF ub]], simp, rule same) (use ap in \<open>auto simp: apart_def\<close>)
    have ap2: "apart ?b (take (n - t) as) ?s"
    proof -
      obtain pdt where p: "cur_pdt s = Some pdt" "dir_ok pdt s" using ub by (auto simp: user_buffer_def)
      have "owned pdt ?s = owned pdt s" by (rule user_phys_cong(3) [OF p], rule same) (use ap p in \<open>auto simp: apart_def\<close>)
      then show ?thesis using ap p by (auto simp: apart_def dest: in_set_takeD)
    qed
    have nt: "0 + (n - t) \<le> 4096" using t by simp
    obtain m where m: "memcpy_from_user (n - t) v (?b + of_nat 0) ?s = Some (?s\<lparr>phys := m\<rparr>)"
      "\<forall>i<n - t. m (?b + of_nat (0 + i)) = phys ?s (take (n - t) as ! i)"
      "\<forall>x. (\<forall>j. 0 \<le> j \<and> j < 0 + (n - t) \<longrightarrow> x \<noteq> ?b + of_nat j) \<longrightarrow> m x = phys ?s x"
      using segment_in [OF ub2 ap2 nt] by blast
    have c: "copy_in e v eff s = Some (s\<lparr>phys := m\<rparr>)"
      using P m1(1) m(1) False t pos by (simp add: copy_in_def t_def Let_def add.commute)
    have as_page: "page_of (as ! i) \<noteq> ?b" if "i < n" for i using ap that l by (metis apart_def imageI nth_mem)
    show ?thesis
    proof (intro exI conjI allI impI)
      show "copy_in e v eff s = Some (s\<lparr>phys := m\<rparr>)" by (rule c)
      show "m (?b + of_nat ((w + i) mod 4096)) = ring_chunk w (map (phys s) as) ! i" if i: "i < n" for i
      proof (cases "i < t")
        case True
        then have "?b + of_nat (w + i) \<noteq> ?b + of_nat j" if "j < n - t" for j
          using that t slot_inj [of "w + i" j ?b] by simp
        then have "m (?b + of_nat (w + i)) = m1 (?b + of_nat (w + i))" using m(3) by auto
        then show ?thesis using m1(2) True t l by (simp add: ring_chunk_def nth_append flip: t_def)
      next
        case False
        have "w + i = (i - t) + 4096" using False t by simp
        then have e: "(w + i) mod 4096 = i - t" using i n by (simp only: mod_add_self2) simp
        have "phys ?s (as ! (i - t)) = phys s (as ! (i - t))" using same as_page [of "i - t"] i by simp
        then show ?thesis using m(2) [rule_format, of "i - t"] e False i t l by (simp add: ring_chunk_def nth_append flip: t_def)
      qed
      fix x assume x: "\<forall>i<n. x \<noteq> ?b + of_nat ((w + i) mod 4096)"
      have x1: "x \<noteq> ?b + of_nat j" if "w \<le> j" "j < w + t" for j
        using x [rule_format, of "j - w"] that t by simp
      have x2: "x \<noteq> ?b + of_nat j" if "j < n - t" for j
      proof -
        have "w + (j + t) = j + 4096" using t by simp
        then have "(w + (j + t)) mod 4096 = j" using that t by (simp only: mod_add_self2) simp
        then show ?thesis using x [rule_format, of "j + t"] that by simp
      qed
      show "m x = phys s x" using m(3) m1(3) x1 x2 by simp
    qed
  qed
qed

text \<open>Bytes written over the beginning of a buffer.\<close>

definition overlay :: "'a list \<Rightarrow> 'a list \<Rightarrow> 'a list" where
  "overlay xs ys = xs @ drop (length xs) ys"

lemma overlay_simps [simp]: "overlay [] ys = ys" "length xs \<le> length ys \<Longrightarrow> length (overlay xs ys) = length ys"
  "length xs = length ys \<Longrightarrow> overlay xs ys = xs"
  by (auto simp: overlay_def)

lemma user_buffer_owned:
  "user_buffer v n as s \<Longrightarrow> cur_pdt s = Some pdt \<Longrightarrow> page_of x \<in> owned pdt s \<Longrightarrow> x \<notin> set as"
  by (auto simp: user_buffer_def)

lemma user_write_frame:
  assumes "user_buffer v n as s" "apart b as s" "may_write v s" "\<forall>x. x \<notin> set as \<longrightarrow> m x = phys s x"
  shows "user_buffer v n as (s\<lparr>phys := m\<rparr>)" "apart b as (s\<lparr>phys := m\<rparr>)" "may_write v (s\<lparr>phys := m\<rparr>)"
proof -
  have same: "m x = phys s x" if "cur_pdt s = Some pdt" "page_of x \<in> owned pdt s" for x pdt
    using assms(4) user_buffer_owned [OF assms(1) that] by blast
  obtain pdt where p: "cur_pdt s = Some pdt" "dir_ok pdt s" using assms(1) by (auto simp: user_buffer_def)
  note C = user_phys_cong [OF p same [OF p(1)]]
  show "user_buffer v n as (s\<lparr>phys := m\<rparr>)" by (rule user_buffer_cong [OF assms(1) same])
  show "apart b as (s\<lparr>phys := m\<rparr>)" using assms(2) C(3) p(1) by (simp add: apart_def)
  show "may_write v (s\<lparr>phys := m\<rparr>)" using assms(3) C(4) p(1) by (simp add: may_write_def)
qed

lemma segment_out:
  assumes ub: "user_buffer v n as s" and ap: "apart b as s" and pl: "may_write v s" and p: "p + k \<le> 4096" "k \<le> n"
    and sz: "unat sz = k"
  shows "\<exists>r m. copy2user (b + of_nat p) v sz s = Some (r, s\<lparr>phys := m\<rparr>) \<and>
    map m as = overlay (bytes_at (b + of_nat p) k (phys s)) (map (phys s) as) \<and> (\<forall>x. x \<notin> set as \<longrightarrow> m x = phys s x)"
proof -
  have l: "length as = n" "distinct as" using ub by (auto simp: user_buffer_def)
  have "region (b + of_nat p) k \<inter> set (take k as) = {}"
    using page_region(2) [OF _ p(1), of b] ap by (auto simp: apart_def dest!: in_set_takeD)
  moreover have "k < 2 ^ 32" using p(1) by simp
  ultimately obtain m where m: "memcpy_to_user k (b + of_nat p) v s = Some (s\<lparr>phys := m\<rparr>)"
    "map m (take k as) = bytes_at (b + of_nat p) k (phys s)" "\<forall>x. x \<notin> set (take k as) \<longrightarrow> m x = phys s x"
    using to_user_copies [OF user_buffer_take [OF ub p(2)]] by blast
  have "set (drop k as) \<inter> set (take k as) = {}" using set_take_disj_set_drop_if_distinct [OF l(2), of k k] by auto
  then have "map m (drop k as) = map (phys s) (drop k as)" using m(3) by (intro map_cong) auto
  then have "map m as = bytes_at (b + of_nat p) k (phys s) @ map (phys s) (drop k as)"
    using m(2) by (metis append_take_drop_id map_append)
  then have "map m as = overlay (bytes_at (b + of_nat p) k (phys s)) (map (phys s) as)"
    by (simp add: overlay_def drop_map)
  moreover have "copy2user (b + of_nat p) v sz s = Some (sint sz, s\<lparr>phys := m\<rparr>)"
    using pl m(1) sz by (auto simp: copy2user_def may_write_def)
  ultimately show ?thesis using m(3) by (meson in_set_takeD)
qed

lemma copy_out_ring:
  assumes ub: "user_buffer v N as s" and ap: "apart (ep_buffer e) as s" and pl: "may_write v s"
    and r: "unat (ep_pos e) = r" "r < 4096" and n: "unat eff = n" "n \<le> 4096" "n \<le> N"
  defines "bs \<equiv> ring_bytes (ep_buffer e) r n (phys s)"
  shows "\<exists>m. copy_out e v eff s = Some (s\<lparr>phys := m\<rparr>) \<and>
    map m as = overlay (drop (4096 - r) bs) (overlay (take (4096 - r) bs) (map (phys s) as)) \<and>
    (\<forall>x. x \<notin> set as \<longrightarrow> m x = phys s x)"
proof -
  let ?b = "ep_buffer e"
  have P: "ep_pos e + eff > 4096 \<longleftrightarrow> r + n > 4096" "unat (4096 - ep_pos e) = 4096 - r"
    "r + n > 4096 \<Longrightarrow> unat (eff - (4096 - ep_pos e)) = r + n - 4096"
    using past_end [of "ep_pos e" eff] r n by simp_all
  have pos: "ep_pos e = of_nat r" using r(1) of_nat_unat by blast
  show ?thesis
  proof (cases "r + n \<le> 4096")
    case True
    have b: "drop (4096 - r) bs = []" "take (4096 - r) bs = bs" using True by (simp_all add: bs_def)
    obtain q m where m: "copy2user (?b + of_nat r) v eff s = Some (q, s\<lparr>phys := m\<rparr>)"
      "map m as = overlay bs (map (phys s) as)" "\<forall>x. x \<notin> set as \<longrightarrow> m x = phys s x"
      using segment_out [OF ub ap pl True n(3,1)] True by (auto simp: bs_def ring_bytes_region)
    then have "copy_out e v eff s = Some (s\<lparr>phys := m\<rparr>)" using P(1) True pos by (simp add: copy_out_def)
    then show ?thesis using m by (intro exI [of _ m]) (simp add: b)
  next
    case False
    define t where "t = 4096 - r"
    have t: "t < n" "r + t = 4096" "n - t \<le> r" "r + t \<le> 4096" "t \<le> N" "n - t \<le> N" "0 + (n - t) \<le> 4096" "r + n - 4096 = n - t"
      using False r n by (auto simp: t_def)
    have b: "take t bs = bytes_at (?b + of_nat r) t (phys s)" "drop t bs = bytes_at (?b + of_nat 0) (n - t) (phys s)"
      using t r(2) by (simp_all add: bs_def ring_bytes_take ring_bytes_drop ring_bytes_region)
    obtain r1 m1 where m1: "copy2user (?b + of_nat r) v (4096 - ep_pos e) s = Some (r1, s\<lparr>phys := m1\<rparr>)"
      "map m1 as = overlay (take t bs) (map (phys s) as)" "\<forall>x. x \<notin> set as \<longrightarrow> m1 x = phys s x"
      using segment_out [OF ub ap pl t(4,5)] P(2) b by (metis t_def)
    let ?s = "s\<lparr>phys := m1\<rparr>"
    note F = user_write_frame [OF ub ap pl m1(3)]
    have "unat (eff - (4096 - ep_pos e)) = n - t" using P(3) False t(8) by simp
    from segment_out [OF F t(7,6) this]
    obtain r2 m where m: "copy2user (?b + of_nat 0) v (eff - (4096 - ep_pos e)) ?s = Some (r2, ?s\<lparr>phys := m\<rparr>)"
      "map m as = overlay (bytes_at (?b + of_nat 0) (n - t) (phys ?s)) (map (phys ?s) as)"
      "\<forall>x. x \<notin> set as \<longrightarrow> m x = phys ?s x" by blast
    have "bytes_at (?b + of_nat 0) (n - t) m1 = drop t bs"
      unfolding b(2)
    proof (rule bytes_at_cong)
      fix x assume "x \<in> region (?b + of_nat 0) (n - t)"
      then have "page_of x = ?b" using page_region(2) [OF _ t(7)] ap by (auto simp: apart_def)
      then have "x \<notin> set as" using ap by (metis apart_def imageI)
      then show "m1 x = phys s x" using m1(3) by blast
    qed
    then have "map m as = overlay (drop t bs) (overlay (take t bs) (map (phys s) as))" using m(2) m1(2) by simp
    moreover have "copy_out e v eff s = Some (s\<lparr>phys := m\<rparr>)"
      using P(1) m1(1) m(1) False pos by (simp add: copy_out_def Let_def)
    ultimately show ?thesis using m(3) m1(3) by (auto simp: t_def)
  qed
qed

subsection \<open>Endpoints\<close>

lemma upd_ep_fields [simp]:
  "phys (upd_ep i f s) = phys s" "mm_bitmap (upd_ep i f s) = mm_bitmap s" "processes (upd_ep i f s) = processes s"
  "cur_pid (upd_ep i f s) = cur_pid s" "length (endpoints (upd_ep i f s)) = length (endpoints s)"
  "ready_pids (upd_ep i f s) = ready_pids s" "running_pid (upd_ep i f s) = running_pid s"
  "endpoints (upd_ep i f s) = (endpoints s)[i := f (endpoints s ! i)]"
  by (simp_all add: upd_ep_def ready_pids_def ready_slots_def running_pid_def)

text \<open>The queues of the endpoints among all wait queues.\<close>

definition ep_placed :: "int list \<Rightarrow> int list list \<Rightarrow> (int \<times> u32) list \<Rightarrow> 'a pipe_state_scheme \<Rightarrow> bool" where
  "ep_placed hs qss ds s \<longleftrightarrow> placed s (map ep_queue (endpoints s) @ hs) qss ds"

lemma ep_placed_len: "ep_placed hs qss ds s \<Longrightarrow> i < length (endpoints s) \<Longrightarrow> i < length qss"
  using placedD(3) by (fastforce simp: ep_placed_def)

lemma endpoints_more:
  assumes "proc_state.more s' = proc_state.more s"
  shows "endpoints s' = endpoints s" "phys s' = phys s" "mm_bitmap s' = mm_bitmap s"
    "mm_bitmap_byte_len s' = mm_bitmap_byte_len s" "kernel_pagetable s' = kernel_pagetable s"
  using assms by (cases s; cases s'; simp)+

lemma ep_placed_same:
  assumes "ep_placed hs qss ds s" "map ep_queue eps = map ep_queue (endpoints s)"
  shows "ep_placed hs qss ds (s\<lparr>endpoints := eps\<rparr>)" "ep_placed hs qss ds (s\<lparr>phys := m\<rparr>)"
  using assms placed_cong [of "s\<lparr>endpoints := eps\<rparr>" s] placed_cong [of "s\<lparr>phys := m\<rparr>" s]
  by (simp_all add: ep_placed_def sched_state.defs)

lemma map_ep_queue_upd:
  "i < length es \<Longrightarrow> map ep_queue (es[i := e]) @ hs = (map ep_queue es @ hs)[i := ep_queue e]"
  by (simp add: map_update list_update_append1)

lemma wake_all_spec:
  assumes P: "ep_placed hs qss ds s" and i: "i < length (endpoints s)"
  obtains s' where "wake_all i s = Some s'" "ep_placed hs (qss[i := []]) ds s'"
    "ready_pids s' = ready_pids s @ qss ! i" "running_pid s' = running_pid s" "phys s' = phys s"
    "endpoints s' = (endpoints s)[i := (endpoints s ! i)\<lparr>ep_queue := FREE_QUEUE\<rparr>]"
    "mm_bitmap s' = mm_bitmap s" "mm_bitmap_byte_len s' = mm_bitmap_byte_len s"
proof -
  let ?hs = "map ep_queue (endpoints s) @ hs"
  have k: "i < length ?hs" "?hs ! i = ep_queue (endpoints s ! i)" using i by (simp_all add: nth_append)
  obtain s1 where s1: "broadcast_loop (ep_queue (endpoints s ! i)) s = Some (-1, s1)"
    "placed s1 (?hs[i := -1]) (qss[i := []]) ds" "ready_pids s1 = ready_pids s @ qss ! i" "running_pid s1 = running_pid s"
    "proc_state.more s1 = proc_state.more s"
    using broadcast_loop_placed [of s ?hs qss ds i] P k unfolding ep_placed_def by metis
  note M = endpoints_more [OF s1(5)]
  define s2 where "s2 = upd_ep i (\<lambda>e. e\<lparr>ep_queue := -1\<rparr>) s1"
  have "placed s2 (?hs[i := -1]) (qss[i := []]) ds"
    using s1(2) placed_cong [of s2 s1] by (simp add: s2_def upd_ep_def sched_state.defs)
  then have "ep_placed hs (qss[i := []]) ds s2" using i M(1) by (simp add: ep_placed_def s2_def map_ep_queue_upd)
  then show thesis
    by (rule that [rotated]) (use s1 M in \<open>simp_all add: s2_def wake_all_def upd_ep_def ready_pids_def ready_slots_def running_pid_def\<close>)
qed

lemma ep_wait_spec:
  assumes P: "ep_placed hs qss ds s" and i: "i < length (endpoints s)" and run: "running_pid s = Some p"
  obtains s' q where "ep_wait i s = Some s'" "ep_placed hs (qss[i := qss ! i @ [p]]) ds s'"
    "ready_pids s' = remove1 p (ready_pids s)" "phys s' = phys s"
    "endpoints s' = (endpoints s)[i := (endpoints s ! i)\<lparr>ep_queue := q\<rparr>]"
proof -
  let ?hs = "map ep_queue (endpoints s) @ hs"
  have k: "i < length ?hs" "?hs ! i = ep_queue (endpoints s ! i)" using i by (simp_all add: nth_append)
  obtain q s1 where s1: "loader_enqueue (ep_queue (endpoints s ! i)) s = Some (q, s1)"
    "placed s1 (?hs[i := q]) (qss[i := qss ! i @ [p]]) ds" "ready_pids s1 = remove1 p (ready_pids s)"
    "proc_state.more s1 = proc_state.more s"
    using placed_enqueue [of s ?hs qss ds i p] P k run unfolding ep_placed_def by metis
  note M = endpoints_more [OF s1(4)]
  define s2 where "s2 = upd_ep i (\<lambda>e. e\<lparr>ep_queue := q\<rparr>) s1"
  have "placed s2 (?hs[i := q]) (qss[i := qss ! i @ [p]]) ds"
    using s1(2) placed_cong [of s2 s1] by (simp add: s2_def upd_ep_def sched_state.defs)
  then have "ep_placed hs (qss[i := qss ! i @ [p]]) ds s2" using i M(1) by (simp add: ep_placed_def s2_def map_ep_queue_upd)
  then show thesis
    by (rule that [rotated]) (use s1 M in \<open>simp_all add: s2_def ep_wait_def upd_ep_def ready_pids_def ready_slots_def\<close>)
qed

subsection \<open>A pipe is a queue of bytes\<close>

definition pipe_ok :: "nat \<Rightarrow> nat \<Rightarrow> 'a pipe_state_scheme \<Rightarrow> bool" where
  "pipe_ok r w s \<longleftrightarrow> r \<noteq> w \<and> r < length (endpoints s) \<and> w < length (endpoints s) \<and>
     (let R = endpoints s ! r; W = endpoints s ! w in
        ep_pair R = Some w \<and> ep_pair W = Some r \<and> ep_buffer W = ep_buffer R \<and>
        bytes_available W = bytes_available R \<and> bytes_available R \<le> BUFFER_SIZE \<and>
        ep_pos R < BUFFER_SIZE \<and> ep_pos W < BUFFER_SIZE \<and>
        unat (ep_pos W) = (unat (ep_pos R) + unat (bytes_available R)) mod 4096)"

definition pipe_content :: "nat \<Rightarrow> 'a pipe_state_scheme \<Rightarrow> u8 list" where
  "pipe_content r s = (let R = endpoints s ! r in
     ring_bytes (ep_buffer R) (unat (ep_pos R)) (unat (bytes_available R)) (phys s))"

lemma pipe_okD:
  assumes "pipe_ok r w s"
  shows "r \<noteq> w" "r < length (endpoints s)" "w < length (endpoints s)" "ep_pair (endpoints s ! r) = Some w"
    "ep_pair (endpoints s ! w) = Some r" "ep_buffer (endpoints s ! w) = ep_buffer (endpoints s ! r)"
    "bytes_available (endpoints s ! w) = bytes_available (endpoints s ! r)"
    "unat (bytes_available (endpoints s ! r)) \<le> 4096" "unat (ep_pos (endpoints s ! r)) < 4096"
    "unat (ep_pos (endpoints s ! w)) < 4096"
    "unat (ep_pos (endpoints s ! w)) = (unat (ep_pos (endpoints s ! r)) + unat (bytes_available (endpoints s ! r))) mod 4096"
  using assms by (simp_all add: pipe_ok_def Let_def word_less_nat_alt word_le_nat_alt)

lemma advance:
  fixes a e :: u32
  assumes "unat a < 4096" "unat e \<le> 4096"
  shows "unat ((a + e) mod 4096) = (unat a + unat e) mod 4096" "(a + e) mod 4096 < 4096"
proof -
  have "unat (a + e) = unat a + unat e" using assms by (simp add: unat_word_ariths)
  then show u: "unat ((a + e) mod 4096) = (unat a + unat e) mod 4096" by (simp add: unat_mod)
  show "(a + e) mod 4096 < 4096" unfolding word_less_nat_alt u by simp
qed

lemma min_unat: "unat (min a b :: u32) = min (unat a) (unat b)"
  by (simp add: min_def word_le_nat_alt)

text \<open>One round of the writer that moves \<open>k\<close> bytes.\<close>

lemma write_round:
  assumes ok: "pipe_ok r w s" and open_r: "klass (endpoints s ! r) \<noteq> CLASS_DEV_NONE" and P: "ep_placed hs qss ds s"
    and ub: "user_buffer v n as s" and ap: "apart (ep_buffer (endpoints s ! r)) as s"
    and sz: "unat size0 = n" "0 < n" and room: "bytes_available (endpoints s ! r) \<noteq> BUFFER_SIZE"
  defines "k \<equiv> min n (4096 - unat (bytes_available (endpoints s ! r)))"
  obtains s' where "pipe_write_loop w v size0 0 s = pipe_write_loop w v size0 (of_nat k) s'" "0 < k" "pipe_ok r w s'"
    "pipe_content r s' = pipe_content r s @ ring_chunk (unat (ep_pos (endpoints s ! w))) (map (phys s) (take k as))"
    "ep_placed hs (qss[r := []]) ds s'" "ready_pids s' = ready_pids s @ qss ! r" "running_pid s' = running_pid s"
    "klass (endpoints s' ! r) = klass (endpoints s ! r)" "length (endpoints s') = length (endpoints s)"
    "unat (bytes_available (endpoints s' ! r)) = unat (bytes_available (endpoints s ! r)) + k"
proof -
  note D = pipe_okD [OF ok]
  let ?R = "endpoints s ! r" and ?W = "endpoints s ! w"
  define e where "e = min (BUFFER_SIZE - bytes_available ?W) (size0 - 0)"
  have av: "unat (4096 - bytes_available ?R) = 4096 - unat (bytes_available ?R)" using past_end(2) [OF D(8), of 0] by simp
  then have "unat e = k" using sz D(7) by (simp add: e_def k_def min_unat min.commute)
  note ek = this of_nat_unat [OF this]
  have a4: "unat (bytes_available ?R) < 4096" using room D(8) by (metis le_neq_implies_less of_nat_numeral of_nat_unat unat_numeral)
  have k: "0 < k" "k \<le> 4096" "k \<le> n" "unat (bytes_available ?R) + k \<le> 4096" using a4 sz by (auto simp: k_def)
  obtain m where m: "copy_in ?W v e s = Some (s\<lparr>phys := m\<rparr>)"
    "\<forall>i<k. m (ep_buffer ?W + of_nat ((unat (ep_pos ?W) + i) mod 4096)) = ring_chunk (unat (ep_pos ?W)) (map (phys s) (take k as)) ! i"
    "\<forall>x. (\<forall>i<k. x \<noteq> ep_buffer ?W + of_nat ((unat (ep_pos ?W) + i) mod 4096)) \<longrightarrow> m x = phys s x"
    using copy_in_ring [OF user_buffer_take [OF ub k(3)] apart_take [OF ap [folded D(6)]] refl D(10) ek(1) k(2)] by blast
  define W where "W = ?W\<lparr>ep_pos := (ep_pos ?W + e) mod BUFFER_SIZE, bytes_available := bytes_available ?W + e\<rparr>"
  define R where "R = ?R\<lparr>bytes_available := bytes_available ?R + e\<rparr>"
  define s1 where "s1 = s\<lparr>phys := m, endpoints := (endpoints s)[w := W, r := R]\<rparr>"
  have s1: "upd_ep r (\<lambda>x. x\<lparr>bytes_available := bytes_available x + e\<rparr>)
      (upd_ep w (\<lambda>x. x\<lparr>bytes_available := bytes_available x + e\<rparr>)
      (upd_ep w (\<lambda>x. x\<lparr>ep_pos := (ep_pos x + e) mod BUFFER_SIZE\<rparr>) (s\<lparr>phys := m\<rparr>))) = s1"
    using D(1-3) by (simp add: upd_ep_def s1_def W_def R_def)
  have "map ep_queue ((endpoints s)[w := W, r := R]) = map ep_queue (endpoints s)"
    by (rule nth_equalityI) (use D(1-3) in \<open>auto simp: nth_list_update W_def R_def\<close>)
  then have P1: "ep_placed hs qss ds s1"
    unfolding s1_def by (intro ep_placed_same(1)) (use ep_placed_same(2) [OF P] in simp_all)
  have l1: "length (endpoints s1) = length (endpoints s)" by (simp add: s1_def)
  obtain s2 where s2: "wake_all r s1 = Some s2" "ep_placed hs (qss[r := []]) ds s2" "ready_pids s2 = ready_pids s1 @ qss ! r"
    "running_pid s2 = running_pid s1" "phys s2 = phys s1"
    "endpoints s2 = (endpoints s1)[r := (endpoints s1 ! r)\<lparr>ep_queue := FREE_QUEUE\<rparr>]"
    using wake_all_spec [OF P1, of r] D(2) l1 by metis
  have run1: "ready_pids s1 = ready_pids s" "running_pid s1 = running_pid s"
    using placed_cong(2,3) [of s1 s] by (simp_all add: s1_def sched_state.defs)
  have E: "endpoints s2 ! r = R\<lparr>ep_queue := FREE_QUEUE\<rparr>" "endpoints s2 ! w = W" "length (endpoints s2) = length (endpoints s)"
    using D(1-3) by (simp_all add: s2(6) s1_def)
  have full: "bytes_available ?W \<noteq> BUFFER_SIZE" using room D(7) by simp
  have pos: "0 < size0" using sz by (simp add: word_less_nat_alt)
  have e0: "min (BUFFER_SIZE - bytes_available ?W) size0 = e" by (simp add: e_def)
  have loop: "pipe_write_loop w v size0 0 s = pipe_write_loop w v size0 (of_nat k) s2"
    using pos D(5) open_r full m(1) s2(1) by (subst pipe_write_loop.simps) (simp add: Let_def e0 s1 flip: ek(2))
  have sum: "unat (bytes_available ?R + e) = unat (bytes_available ?R) + k"
    using k(4) ek(1) by (simp add: unat_word_ariths)
  note A = advance [of "ep_pos ?W" e] and AB = advance [OF D(9,8)]
  have "pipe_ok r w s2"
    using D E sum A ek(1) k by (simp add: pipe_ok_def Let_def W_def R_def word_le_nat_alt word_less_nat_alt mod_add_left_eq add.assoc)
  moreover have "pipe_content r s2 = pipe_content r s @ ring_chunk (unat (ep_pos ?W)) (map (phys s) (take k as))"
  proof -
    define xs where "xs = ring_chunk (unat (ep_pos ?W)) (map (phys s) (take k as))"
    have "length as = n" using ub by (simp add: user_buffer_def)
    then have l: "length xs = k" using k D(10) by (simp add: xs_def)
    have "ring_bytes (ep_buffer ?R) (unat (ep_pos ?R)) (unat (bytes_available ?R) + length xs) m =
        ring_bytes (ep_buffer ?R) (unat (ep_pos ?R)) (unat (bytes_available ?R)) (phys s) @ xs"
      by (rule ring_bytes_append [OF _ D(11)])
        (use k l m(2,3) D(6) slot_inj in \<open>auto simp: xs_def\<close>)
    then show ?thesis using E(1) sum l s2(5) by (simp add: pipe_content_def R_def xs_def s1_def Let_def)
  qed
  ultimately show thesis
    by (rule that [OF loop k(1)]) (use s2 E sum run1 in \<open>simp_all add: R_def\<close>)
qed

text \<open>The writer on a full pipe goes to sleep.\<close>

lemma write_blocks:
  assumes ok: "pipe_ok r w s" and open_r: "klass (endpoints s ! r) \<noteq> CLASS_DEV_NONE" and P: "ep_placed hs qss ds s"
    and run: "running_pid s = Some p" and full: "bytes_available (endpoints s ! r) = BUFFER_SIZE" and sz: "sz < size0"
  obtains s' where "pipe_write_loop w v size0 sz s = Some (Blocked sz, s')" "pipe_ok r w s'"
    "pipe_content r s' = pipe_content r s" "ep_placed hs (qss[w := qss ! w @ [p]]) ds s'"
    "ready_pids s' = remove1 p (ready_pids s)"
proof -
  note D = pipe_okD [OF ok]
  obtain s' q where s': "ep_wait w s = Some s'" "ep_placed hs (qss[w := qss ! w @ [p]]) ds s'"
    "ready_pids s' = remove1 p (ready_pids s)" "phys s' = phys s"
    "endpoints s' = (endpoints s)[w := (endpoints s ! w)\<lparr>ep_queue := q\<rparr>]"
    using ep_wait_spec [OF P D(3) run] by metis
  have "pipe_write_loop w v size0 sz s = Some (Blocked sz, s')"
    using D(5,7) open_r full sz s'(1) by (subst pipe_write_loop.simps) simp
  moreover have "pipe_ok r w s'" using ok D(1-3) by (simp add: pipe_ok_def s'(5) Let_def)
  moreover have "pipe_content r s' = pipe_content r s" using D(1-3) by (simp add: pipe_content_def s'(4,5))
  ultimately show thesis using that s' by blast
qed

text \<open>
  What a write comes to: whether the caller blocks, the bytes moved, and the wait queues and
  the ready processes afterwards.
\<close>

definition write_blocked :: "nat \<Rightarrow> u32 \<Rightarrow> 'a pipe_state_scheme \<Rightarrow> bool" where
  "write_blocked r size0 s \<longleftrightarrow> unat size0 > 4096 - unat (bytes_available (endpoints s ! r))"

definition moved_in :: "nat \<Rightarrow> u32 \<Rightarrow> 'a pipe_state_scheme \<Rightarrow> nat" where
  "moved_in r size0 s = min (unat size0) (4096 - unat (bytes_available (endpoints s ! r)))"

text \<open>C13: Writing to a pipe whose reading end is open appends to its bytes as many as there is
  room for (those behind the end of the page taken from the start of the caller's buffer
  again, since the code never advances its pointer), wakes every process that waits to read
  when there were any, and then either returns the size asked for or, with the page full,
  leaves the caller at the end of the writers' queue with the bytes so far counted.\<close>

theorem pipe_write_appends:
  assumes "pipe_ok r w s" and "klass (endpoints s ! r) \<noteq> CLASS_DEV_NONE" and "ep_placed hs qss ds s"
    and "running_pid s = Some p" and "user_buffer v (unat size0) as s" and "apart (ep_buffer (endpoints s ! r)) as s"
  defines "k \<equiv> moved_in r size0 s" and "woken \<equiv> if moved_in r size0 s = 0 then [] else qss ! r"
    and "qss1 \<equiv> if moved_in r size0 s = 0 then qss else qss[r := []]"
  shows "\<exists>s'. pipe_ok r w s' \<and>
    pipe_content r s' = pipe_content r s @ ring_chunk (unat (ep_pos (endpoints s ! w))) (map (phys s) (take k as)) \<and>
    (if write_blocked r size0 s
     then pipe_write w v size0 s = Some (Blocked (of_nat k), s') \<and> ep_placed hs (qss1[w := qss ! w @ [p]]) ds s' \<and>
       ready_pids s' = remove1 p (ready_pids s @ woken)
     else pipe_write w v size0 s = Some (Done (sint size0), s') \<and> ep_placed hs qss1 ds s' \<and>
       ready_pids s' = ready_pids s @ woken)"
proof -
  note D = pipe_okD [OF assms(1)]
  have rw: "qss1 ! w = qss ! w" using D(1) by (simp add: qss1_def)
  have "\<exists>s1. pipe_write_loop w v size0 0 s = pipe_write_loop w v size0 (of_nat k) s1 \<and> pipe_ok r w s1 \<and>
    pipe_content r s1 = pipe_content r s @ ring_chunk (unat (ep_pos (endpoints s ! w))) (map (phys s) (take k as)) \<and>
    ep_placed hs qss1 ds s1 \<and> ready_pids s1 = ready_pids s @ woken \<and> running_pid s1 = running_pid s \<and>
    klass (endpoints s1 ! r) = klass (endpoints s ! r) \<and>
    unat (bytes_available (endpoints s1 ! r)) = unat (bytes_available (endpoints s ! r)) + k"
  proof (cases "k = 0")
    case True
    then show ?thesis using assms(1,3) by (intro exI [of _ s]) (simp add: qss1_def woken_def k_def ring_chunk_def)
  next
    case False
    then have n: "0 < unat size0" "bytes_available (endpoints s ! r) \<noteq> BUFFER_SIZE" by (auto simp: k_def moved_in_def)
    have e: "k = min (unat size0) (4096 - unat (bytes_available (endpoints s ! r)))" "qss1 = qss[r := []]" "woken = qss ! r"
      using False unfolding k_def qss1_def woken_def by simp_all (simp add: moved_in_def)
    show ?thesis unfolding e by (rule write_round [OF assms(1-3,5,6) refl n]) blast
  qed
  then obtain s1 where s1: "pipe_write_loop w v size0 0 s = pipe_write_loop w v size0 (of_nat k) s1" "pipe_ok r w s1"
    "pipe_content r s1 = pipe_content r s @ ring_chunk (unat (ep_pos (endpoints s ! w))) (map (phys s) (take k as))"
    "ep_placed hs qss1 ds s1" "ready_pids s1 = ready_pids s @ woken" "running_pid s1 = running_pid s"
    "klass (endpoints s1 ! r) = klass (endpoints s ! r)"
    "unat (bytes_available (endpoints s1 ! r)) = unat (bytes_available (endpoints s ! r)) + k" by blast
  have uk: "unat (of_nat k :: u32) = k" by (simp add: k_def moved_in_def unat_of_nat take_bit_nat_eq_self)
  show ?thesis
  proof (cases "write_blocked r size0 s")
    case True
    then have "k = 4096 - unat (bytes_available (endpoints s ! r))" by (simp add: k_def moved_in_def write_blocked_def)
    then have "unat (bytes_available (endpoints s1 ! r)) = 4096" using s1(8) D(8) by simp
    then have full: "bytes_available (endpoints s1 ! r) = BUFFER_SIZE" using of_nat_unat by fastforce
    have "(of_nat k :: u32) < size0" using True uk by (simp add: word_less_nat_alt k_def moved_in_def write_blocked_def)
    then show ?thesis
      using write_blocks [OF s1(2) _ s1(4) _ full, of p "of_nat k" size0 v] assms(2,4) s1 rw True
      by (simp add: pipe_write_def) metis
  next
    case False
    then have "k = unat size0" by (simp add: k_def moved_in_def write_blocked_def)
    then have "(of_nat k :: u32) = size0" by simp
    then show ?thesis using False s1 by (intro exI [of _ s1]) (simp add: pipe_write_def, simp add: pipe_write_loop.simps)
  qed
qed

subsection \<open>Reading\<close>

text \<open>What the caller's buffer holds after \<open>bs\<close> has been read with the reader at \<open>p\<close>.\<close>

definition received :: "nat \<Rightarrow> 'a list \<Rightarrow> 'a list \<Rightarrow> 'a list" where
  "received p bs old = overlay (drop (4096 - p) bs) (overlay (take (4096 - p) bs) old)"

lemma received_fits: "p + length bs \<le> 4096 \<Longrightarrow> received p bs old = overlay bs old"
  by (simp add: received_def)

lemma ring_bytes_apart:
  assumes "aligned b" "b \<notin> page_of ` X" "\<forall>x. x \<notin> X \<longrightarrow> m x = m0 x"
  shows "ring_bytes b p n m = ring_bytes b p n m0"
proof -
  have "m (b + of_nat j) = m0 (b + of_nat j)" if "j < 4096" for j
  proof -
    have "(of_nat j :: u32) < 4096" using that by (simp add: word_less_nat_alt unat_of_nat take_bit_nat_eq_self)
    then have "page_of (b + of_nat j) = b" using page_of_add assms(1) by blast
    then show ?thesis using assms(2,3) by (metis imageI)
  qed
  then show ?thesis by (simp add: ring_bytes_def)
qed

lemma read_round:
  assumes ok: "pipe_ok r w s" and P: "ep_placed hs qss ds s"
    and ub: "user_buffer v n as s" and ap: "apart (ep_buffer (endpoints s ! r)) as s" and pl: "may_write v s"
    and sz: "unat size0 = n" "0 < n" and some: "bytes_available (endpoints s ! r) \<noteq> 0"
  defines "k \<equiv> min n (unat (bytes_available (endpoints s ! r)))"
  obtains s' where "pipe_read_loop r v size0 0 s = pipe_read_loop r v size0 (of_nat k) s'" "0 < k" "pipe_ok r w s'"
    "pipe_content r s' = drop k (pipe_content r s)"
    "map (phys s') as = received (unat (ep_pos (endpoints s ! r))) (take k (pipe_content r s)) (map (phys s) as)"
    "ep_placed hs (qss[w := []]) ds s'" "ready_pids s' = ready_pids s @ qss ! w" "running_pid s' = running_pid s"
    "klass (endpoints s' ! w) = klass (endpoints s ! w)"
    "unat (bytes_available (endpoints s' ! r)) = unat (bytes_available (endpoints s ! r)) - k"
proof -
  note D = pipe_okD [OF ok]
  let ?R = "endpoints s ! r" and ?W = "endpoints s ! w"
  define e where "e = min (bytes_available ?R) (size0 - 0)"
  have "unat e = k" using sz by (simp add: e_def k_def min_unat min.commute)
  note ek = this of_nat_unat [OF this]
  have k: "0 < k" "k \<le> 4096" "k \<le> n" "k \<le> unat (bytes_available ?R)"
    using some D(8) sz by (auto simp: k_def unat_gt_0)
  define bs where "bs = ring_bytes (ep_buffer ?R) (unat (ep_pos ?R)) k (phys s)"
  obtain m where m: "copy_out ?R v e s = Some (s\<lparr>phys := m\<rparr>)"
    "map m as = received (unat (ep_pos ?R)) bs (map (phys s) as)" "\<forall>x. x \<notin> set as \<longrightarrow> m x = phys s x"
    using copy_out_ring [OF ub ap pl refl D(9) ek(1) k(2,3)] unfolding received_def bs_def by blast
  define R where "R = ?R\<lparr>ep_pos := (ep_pos ?R + e) mod BUFFER_SIZE, bytes_available := bytes_available ?R - e\<rparr>"
  define W where "W = ?W\<lparr>bytes_available := bytes_available ?W - e\<rparr>"
  define s1 where "s1 = s\<lparr>phys := m, endpoints := (endpoints s)[r := R, w := W]\<rparr>"
  have s1: "upd_ep w (\<lambda>x. x\<lparr>bytes_available := bytes_available x - e\<rparr>)
      (upd_ep r (\<lambda>x. x\<lparr>bytes_available := bytes_available x - e\<rparr>)
      (upd_ep r (\<lambda>x. x\<lparr>ep_pos := (ep_pos x + e) mod BUFFER_SIZE\<rparr>) (s\<lparr>phys := m\<rparr>))) = s1"
    using D(1-3) by (simp add: upd_ep_def s1_def W_def R_def)
  have "map ep_queue ((endpoints s)[r := R, w := W]) = map ep_queue (endpoints s)"
    by (rule nth_equalityI) (use D(1-3) in \<open>auto simp: nth_list_update W_def R_def\<close>)
  then have P1: "ep_placed hs qss ds s1"
    unfolding s1_def by (intro ep_placed_same(1)) (use ep_placed_same(2) [OF P] in simp_all)
  have l1: "length (endpoints s1) = length (endpoints s)" by (simp add: s1_def)
  obtain s2 where s2: "wake_all w s1 = Some s2" "ep_placed hs (qss[w := []]) ds s2" "ready_pids s2 = ready_pids s1 @ qss ! w"
    "running_pid s2 = running_pid s1" "phys s2 = phys s1"
    "endpoints s2 = (endpoints s1)[w := (endpoints s1 ! w)\<lparr>ep_queue := FREE_QUEUE\<rparr>]"
    using wake_all_spec [OF P1, of w] D(3) l1 by metis
  have run1: "ready_pids s1 = ready_pids s" "running_pid s1 = running_pid s"
    using placed_cong(2,3) [of s1 s] by (simp_all add: s1_def sched_state.defs)
  have E: "endpoints s2 ! w = W\<lparr>ep_queue := FREE_QUEUE\<rparr>" "endpoints s2 ! r = R" "length (endpoints s2) = length (endpoints s)"
    using D(1-3) by (simp_all add: s2(6) s1_def)
  have pos: "0 < size0" using sz by (simp add: word_less_nat_alt)
  have e0: "min (bytes_available ?R) size0 = e" by (simp add: e_def)
  have loop: "pipe_read_loop r v size0 0 s = pipe_read_loop r v size0 (of_nat k) s2"
    using pos D(4) some m(1) s2(1) by (subst pipe_read_loop.simps) (simp add: Let_def e0 s1 flip: ek(2))
  have "e \<le> bytes_available ?R" using k(4) ek(1) by (simp add: word_le_nat_alt)
  then have dif: "unat (bytes_available ?R - e) = unat (bytes_available ?R) - k" using ek(1) by (simp add: unat_sub)
  have e4: "unat e \<le> 4096" using ek(1) k(2) by simp
  note A = advance [OF D(9) e4]
  have split: "unat (ep_pos ?R) + unat (bytes_available ?R) = (unat (ep_pos ?R) + k) + (unat (bytes_available ?R) - k)"
    using k(4) by simp
  have c: "((unat (ep_pos ?R) + k) mod 4096 + (unat (bytes_available ?R) - k)) mod 4096 =
      (unat (ep_pos ?R) + unat (bytes_available ?R)) mod 4096"
    by (simp only: split mod_add_left_eq)
  have "pipe_ok r w s2"
    using D E dif A ek(1) k c by (simp add: pipe_ok_def Let_def W_def R_def word_le_nat_alt word_less_nat_alt)
  moreover have same: "ring_bytes (ep_buffer ?R) q j m = ring_bytes (ep_buffer ?R) q j (phys s)" for q j
    using ring_bytes_apart [OF _ _ m(3)] ap by (auto simp: apart_def)
  have "pipe_content r s2 = drop k (pipe_content r s)"
    using E(2) dif s2(5) A(1) ek(1)
    by (simp add: pipe_content_def R_def s1_def Let_def same ring_bytes_drop)
  moreover have "map (phys s2) as = received (unat (ep_pos ?R)) (take k (pipe_content r s)) (map (phys s) as)"
    using m(2) s2(5) k(4) by (simp add: pipe_content_def Let_def bs_def s1_def ring_bytes_take)
  ultimately show thesis
    by (intro that [OF loop k(1)]) (use s2 E dif run1 in \<open>simp_all add: R_def W_def\<close>)
qed

lemma read_blocks:
  assumes ok: "pipe_ok r w s" and open_w: "klass (endpoints s ! w) \<noteq> CLASS_DEV_NONE" and P: "ep_placed hs qss ds s"
    and run: "running_pid s = Some p" and empty: "bytes_available (endpoints s ! r) = 0" and sz: "sz < size0"
  obtains s' where "pipe_read_loop r v size0 sz s = Some (Blocked sz, s')" "pipe_ok r w s'"
    "pipe_content r s' = pipe_content r s" "phys s' = phys s" "ep_placed hs (qss[r := qss ! r @ [p]]) ds s'"
    "ready_pids s' = remove1 p (ready_pids s)"
proof -
  note D = pipe_okD [OF ok]
  obtain s' q where s': "ep_wait r s = Some s'" "ep_placed hs (qss[r := qss ! r @ [p]]) ds s'"
    "ready_pids s' = remove1 p (ready_pids s)" "phys s' = phys s"
    "endpoints s' = (endpoints s)[r := (endpoints s ! r)\<lparr>ep_queue := q\<rparr>]"
    using ep_wait_spec [OF P D(2) run] by metis
  have "pipe_read_loop r v size0 sz s = Some (Blocked sz, s')"
    using D(4) open_w empty sz s'(1) by (subst pipe_read_loop.simps) simp
  moreover have "pipe_ok r w s'" using ok D(1-3) by (simp add: pipe_ok_def s'(5) Let_def)
  moreover have "pipe_content r s' = pipe_content r s" using D(1-3) by (simp add: pipe_content_def s'(4,5) Let_def)
  ultimately show thesis using that s' by blast
qed

text \<open>C14: Reading from a pipe takes as many of its bytes, oldest first, as were asked for and are
  there, hands them to the caller's buffer (those behind the end of the page over the start
  of the buffer) and wakes every process that waits to write when there were any; it then
  returns the size asked for, or what there was when the writing end is closed, or leaves
  the caller at the end of the readers' queue.\<close>

theorem pipe_read_takes:
  assumes "pipe_ok r w s" and "ep_placed hs qss ds s" and "running_pid s = Some p"
    and "user_buffer v (unat size0) as s" and "apart (ep_buffer (endpoints s ! r)) as s" and "may_write v s"
  defines "k \<equiv> min (unat size0) (length (pipe_content r s))" and "qss1 \<equiv> if pipe_content r s = [] \<or> size0 = 0 then qss else qss[w := []]"
    and "woken \<equiv> if pipe_content r s = [] \<or> size0 = 0 then [] else qss ! w"
  shows "\<exists>s'. pipe_ok r w s' \<and> pipe_content r s' = drop k (pipe_content r s) \<and>
    map (phys s') as = received (unat (ep_pos (endpoints s ! r))) (take k (pipe_content r s)) (map (phys s) as) \<and>
    (if unat size0 \<le> length (pipe_content r s)
     then pipe_read r v size0 s = Some (Done (sint size0), s') \<and> ep_placed hs qss1 ds s' \<and> ready_pids s' = ready_pids s @ woken
     else if klass (endpoints s ! w) = CLASS_DEV_NONE
     then pipe_read r v size0 s = Some (Done (int k), s') \<and> ep_placed hs qss1 ds s' \<and> ready_pids s' = ready_pids s @ woken
     else pipe_read r v size0 s = Some (Blocked (of_nat k), s') \<and> ep_placed hs (qss1[r := qss ! r @ [p]]) ds s' \<and>
       ready_pids s' = remove1 p (ready_pids s @ woken))"
proof -
  note D = pipe_okD [OF assms(1)]
  have len: "length (pipe_content r s) = unat (bytes_available (endpoints s ! r))" by (simp add: pipe_content_def Let_def)
  have rw: "qss1 ! r = qss ! r" using D(1) by (simp add: qss1_def)
  have "\<exists>s1. pipe_read_loop r v size0 0 s = pipe_read_loop r v size0 (of_nat k) s1 \<and> pipe_ok r w s1 \<and>
    pipe_content r s1 = drop k (pipe_content r s) \<and>
    map (phys s1) as = received (unat (ep_pos (endpoints s ! r))) (take k (pipe_content r s)) (map (phys s) as) \<and>
    ep_placed hs qss1 ds s1 \<and> ready_pids s1 = ready_pids s @ woken \<and> running_pid s1 = running_pid s \<and>
    klass (endpoints s1 ! w) = klass (endpoints s ! w) \<and>
    unat (bytes_available (endpoints s1 ! r)) = unat (bytes_available (endpoints s ! r)) - k"
  proof (cases "pipe_content r s = [] \<or> size0 = 0")
    case True
    then show ?thesis using assms(1,2)
      by (intro exI [of _ s]) (auto simp: qss1_def woken_def k_def received_def overlay_def)
  next
    case False
    then have n: "0 < unat size0" "bytes_available (endpoints s ! r) \<noteq> 0" using len by (auto simp: unat_gt_0)
    have e: "k = min (unat size0) (unat (bytes_available (endpoints s ! r)))" "qss1 = qss[w := []]" "woken = qss ! w"
      using False len unfolding k_def qss1_def woken_def by simp_all
    show ?thesis unfolding e by (rule read_round [OF assms(1,2,4-6) refl n]) blast
  qed
  then obtain s1 where s1: "pipe_read_loop r v size0 0 s = pipe_read_loop r v size0 (of_nat k) s1" "pipe_ok r w s1"
    "pipe_content r s1 = drop k (pipe_content r s)"
    "map (phys s1) as = received (unat (ep_pos (endpoints s ! r))) (take k (pipe_content r s)) (map (phys s) as)"
    "ep_placed hs qss1 ds s1" "ready_pids s1 = ready_pids s @ woken" "running_pid s1 = running_pid s"
    "klass (endpoints s1 ! w) = klass (endpoints s ! w)"
    "unat (bytes_available (endpoints s1 ! r)) = unat (bytes_available (endpoints s ! r)) - k" by blast
  have k4: "k \<le> 4096" using D(8) len by (simp add: k_def)
  then have uk: "unat (of_nat k :: u32) = k" by (simp add: unat_of_nat take_bit_nat_eq_self)
  have sk: "sint (of_nat k :: u32) = int k"
    using sint_of_int_small [of "int k", where 'a = 32] k4 by simp
  show ?thesis
  proof (cases "unat size0 \<le> length (pipe_content r s)")
    case True
    then have "(of_nat k :: u32) = size0" by (simp add: k_def)
    then show ?thesis using True s1 by (intro exI [of _ s1]) (simp add: pipe_read_def, simp add: pipe_read_loop.simps)
  next
    case False
    then have lt: "(of_nat k :: u32) < size0" using uk by (simp add: word_less_nat_alt k_def)
    have "unat (bytes_available (endpoints s1 ! r)) = 0" using s1(9) False len by (simp add: k_def)
    then have empty: "bytes_available (endpoints s1 ! r) = 0" using of_nat_unat by fastforce
    show ?thesis
    proof (cases "klass (endpoints s ! w) = CLASS_DEV_NONE")
      case True
      have "pipe_read_loop r v size0 (of_nat k) s1 = Some (Done (int k), s1)"
        using lt True empty s1(8) pipe_okD(4) [OF s1(2)] sk by (subst pipe_read_loop.simps) simp
      then show ?thesis using True False s1 by (intro exI [of _ s1]) (simp add: pipe_read_def)
    next
      case c: False
      then show ?thesis
        using read_blocks [OF s1(2) _ s1(5) _ empty lt, of p v] assms(3) s1 rw False by (simp add: pipe_read_def) metis
    qed
  qed
qed

subsection \<open>Opening and closing\<close>

abbreviation (input) ep_free :: "endpoint \<Rightarrow> bool" where "ep_free e \<equiv> klass e = CLASS_DEV_NONE"

lemma find_one_Some:
  "find_two i (Some a) es = Some (x, y) \<longleftrightarrow>
     x = a \<and> i \<le> y \<and> y - i < length es \<and> ep_free (es ! (y - i)) \<and> (\<forall>j < y - i. \<not> ep_free (es ! j))"
proof (induction es arbitrary: i)
  case (Cons e es)
  show ?case
  proof (cases "ep_free e")
    case True
    then show ?thesis by (auto simp: nth_Cons' intro!: le_antisym)
  next
    case False
    have "(i \<le> y \<and> y - i < length (e # es) \<and> ep_free ((e # es) ! (y - i)) \<and> (\<forall>j<y - i. \<not> ep_free ((e # es) ! j))) \<longleftrightarrow>
      (Suc i \<le> y \<and> y - Suc i < length es \<and> ep_free (es ! (y - Suc i)) \<and> (\<forall>j<y - Suc i. \<not> ep_free (es ! j)))"
    proof (cases "Suc i \<le> y")
      case True
      then obtain d where d: "y - i = Suc d" "y - Suc i = d" by (metis Suc_diff_le diff_Suc_Suc)
      show ?thesis using True False by (auto simp: d less_Suc_eq_0_disj nth_Cons')
    next
      case le: False
      then show ?thesis using False by (cases "i = y") auto
    qed
    then show ?thesis using False Cons.IH [of "Suc i"] by auto
  qed
qed simp

lemma find_one_None: "find_two i (Some a) es = None \<longleftrightarrow> (\<forall>e\<in>set es. \<not> ep_free e)"
  by (induction es arbitrary: i) auto

lemma find_two_Some:
  "find_two i None es = Some (x, y) \<Longrightarrow>
     i \<le> x \<and> x < y \<and> y - i < length es \<and> ep_free (es ! (x - i)) \<and> ep_free (es ! (y - i)) \<and>
     (\<forall>j < y - i. j \<noteq> x - i \<longrightarrow> \<not> ep_free (es ! j))"
proof (induction es arbitrary: i)
  case (Cons e es)
  show ?case
  proof (cases "ep_free e")
    case True
    then have f: "x = i" "Suc i \<le> y" "y - Suc i < length es" "ep_free (es ! (y - Suc i))" "\<forall>j<y - Suc i. \<not> ep_free (es ! j)"
      using Cons.prems by (auto simp: find_one_Some)
    then obtain d where d: "y - i = Suc d" "y - Suc i = d" by (metis Suc_diff_le diff_Suc_Suc)
    show ?thesis using True f by (auto simp: d nth_Cons')
  next
    case False
    then have "Suc i \<le> x \<and> x < y \<and> y - Suc i < length es \<and> ep_free (es ! (x - Suc i)) \<and> ep_free (es ! (y - Suc i)) \<and>
      (\<forall>j < y - Suc i. j \<noteq> x - Suc i \<longrightarrow> \<not> ep_free (es ! j))" using Cons by simp
    moreover from this obtain c d where "x - i = Suc c" "x - Suc i = c" "y - i = Suc d" "y - Suc i = d"
      by (metis Suc_diff_le diff_Suc_Suc less_imp_le_nat order.strict_trans2 order.trans)
    ultimately show ?thesis using False by (auto simp: nth_Cons')
  qed
qed simp

lemma find_two_None:
  "find_two i None es = None \<Longrightarrow> j < k \<Longrightarrow> k < length es \<Longrightarrow> ep_free (es ! j) \<Longrightarrow> \<not> ep_free (es ! k)"
proof (induction es arbitrary: i j k)
  case (Cons e es)
  then show ?case by (cases k; cases j) (auto simp: find_one_None split: if_splits)
qed simp

text \<open>C23: Opening a pipe takes two free endpoints and a free kernel page and makes an empty pipe
  of them, with no reference to either end yet and every other endpoint (and so every other
  pipe) as it was; with fewer than two free endpoints or no free page it fails with
  \<^verbatim>\<open>-ENOMEM\<close> and changes nothing.\<close>

theorem pipe_open_makes:
  assumes "frames_ok s" and "length (endpoints s) = MAX_ENDPOINTS"
  shows "if (\<exists>i j. i < j \<and> j < MAX_ENDPOINTS \<and> ep_free (endpoints s ! i) \<and> ep_free (endpoints s ! j)) \<and>
      frames MM_REQUEST_KERNEL s - taken_frames s \<noteq> {}
    then \<exists>r w s'. pipe_open s = Some (0, Some (Pipe_dev r, Pipe_dev w), s') \<and> pipe_ok r w s' \<and> pipe_content r s' = [] \<and>
      ep_free (endpoints s ! r) \<and> ep_free (endpoints s ! w) \<and>
      (\<forall>i. i \<noteq> r \<and> i \<noteq> w \<longrightarrow> endpoints s' ! i = endpoints s ! i) \<and>
      (\<forall>i\<in>{r, w}. klass (endpoints s' ! i) = CLASS_DEV_PIPE \<and> refcount (endpoints s' ! i) = 0 \<and>
         ep_queue (endpoints s' ! i) = FREE_QUEUE \<and> dv_flush (endpoints s' ! i) = Some Pipe_flush) \<and>
      dv_read (endpoints s' ! r) = Some Pipe_read \<and> dv_write (endpoints s' ! r) = None \<and>
      dv_read (endpoints s' ! w) = None \<and> dv_write (endpoints s' ! w) = Some Pipe_write \<and>
      frames_ok s' \<and> ep_buffer (endpoints s' ! r) \<in> frames MM_REQUEST_KERNEL s' \<and>
      ep_buffer (endpoints s' ! r) \<notin> taken_frames s \<and>
      taken_frames s' = insert (ep_buffer (endpoints s' ! r)) (taken_frames s)
    else pipe_open s = Some (- ENOMEM, None, s)"
proof (cases "find_two 0 None (endpoints s)")
  case None
  then have "\<not> (\<exists>i j. i < j \<and> j < MAX_ENDPOINTS \<and> ep_free (endpoints s ! i) \<and> ep_free (endpoints s ! j))"
    using find_two_None assms(2) by metis
  moreover have "pipe_open s = Some (- ENOMEM, None, s)" by (simp add: pipe_open_def None)
  ultimately show ?thesis by simp
next
  case (Some rw)
  obtain r w where rw: "rw = (r, w)" by (cases rw)
  have F: "r < w" "w < MAX_ENDPOINTS" "ep_free (endpoints s ! r)" "ep_free (endpoints s ! w)"
    using find_two_Some [OF Some [unfolded rw]] assms(2) by auto
  then have two: "\<exists>i j. i < j \<and> j < MAX_ENDPOINTS \<and> ep_free (endpoints s ! i) \<and> ep_free (endpoints s ! j)" by blast
  show ?thesis
  proof (cases "frames MM_REQUEST_KERNEL s - taken_frames s = {}")
    case True
    then have "mm_mem_kalloc s = Some (0, s)" using seek_contract(2) [OF assms(1)] by (simp add: kalloc_seek)
    then have "pipe_open s = Some (- ENOMEM, None, s)" using Some rw F by (simp add: pipe_open_def)
    then show ?thesis using True by simp
  next
    case False
    obtain f b where f: "mm_mem_kalloc s = Some (f, s\<lparr>mm_bitmap := b\<rparr>)" "f \<notin> taken_frames s" "f \<noteq> 0"
      "f \<in> frames MM_REQUEST_KERNEL s" "taken_frames (s\<lparr>mm_bitmap := b\<rparr>) = insert f (taken_frames s)"
      using kalloc_Some [OF assms(1) False] by metis
    define e0 where "e0 p = (p :: endpoint)\<lparr>klass := CLASS_DEV_PIPE, refcount := 0, dv_flush := Some Pipe_flush, dv_read := None,
       dv_write := None, dv_seek := None, ep_buffer := 0, bytes_available := 0, ep_pos := 0,
       ep_queue := FREE_QUEUE, ep_pair := None\<rparr>" for p
    define eps where "eps = (endpoints s)[r := (e0 (endpoints s ! r))\<lparr>ep_buffer := f, dv_read := Some Pipe_read, ep_pair := Some w\<rparr>,
      w := (e0 (endpoints s ! w))\<lparr>ep_buffer := f, dv_write := Some Pipe_write, ep_pair := Some r\<rparr>]"
    define s' where "s' = s\<lparr>mm_bitmap := b, endpoints := eps\<rparr>"
    have run: "pipe_open s = Some (0, Some (Pipe_dev r, Pipe_dev w), s')"
      using Some rw F f(1,3) by (simp add: pipe_open_def init_endpoint_def upd_ep_def s'_def eps_def e0_def Let_def)
    have E: "endpoints s' ! r = (e0 (endpoints s ! r))\<lparr>ep_buffer := f, dv_read := Some Pipe_read, ep_pair := Some w\<rparr>"
      "endpoints s' ! w = (e0 (endpoints s ! w))\<lparr>ep_buffer := f, dv_write := Some Pipe_write, ep_pair := Some r\<rparr>"
      "\<And>i. i \<noteq> r \<Longrightarrow> i \<noteq> w \<Longrightarrow> endpoints s' ! i = endpoints s ! i" "length (endpoints s') = MAX_ENDPOINTS"
      using F assms(2) by (simp_all add: s'_def eps_def)
    have T: "taken_frames s' = insert f (taken_frames s)" "frames MM_REQUEST_KERNEL s' = frames MM_REQUEST_KERNEL s" "frames_ok s'"
    proof -
      show "taken_frames s' = insert f (taken_frames s)" using f(5) by (simp add: s'_def taken_frames_def)
      have "zone MM_REQUEST_KERNEL s' = zone MM_REQUEST_KERNEL s" by (simp add: s'_def)
      then show "frames MM_REQUEST_KERNEL s' = frames MM_REQUEST_KERNEL s" by (simp add: frames_def zone_bits_def)
      show "frames_ok s'" using assms(1) by (simp add: s'_def frames_ok_def)
    qed
    have "pipe_ok r w s'" using F E by (simp add: pipe_ok_def e0_def Let_def)
    moreover have "pipe_content r s' = []" by (simp add: pipe_content_def E e0_def ring_bytes_def)
    ultimately have "pipe_open s = Some (0, Some (Pipe_dev r, Pipe_dev w), s') \<and> pipe_ok r w s' \<and> pipe_content r s' = [] \<and>
      ep_free (endpoints s ! r) \<and> ep_free (endpoints s ! w) \<and>
      (\<forall>i. i \<noteq> r \<and> i \<noteq> w \<longrightarrow> endpoints s' ! i = endpoints s ! i) \<and>
      (\<forall>i\<in>{r, w}. klass (endpoints s' ! i) = CLASS_DEV_PIPE \<and> refcount (endpoints s' ! i) = 0 \<and>
         ep_queue (endpoints s' ! i) = FREE_QUEUE \<and> dv_flush (endpoints s' ! i) = Some Pipe_flush) \<and>
      dv_read (endpoints s' ! r) = Some Pipe_read \<and> dv_write (endpoints s' ! r) = None \<and>
      dv_read (endpoints s' ! w) = None \<and> dv_write (endpoints s' ! w) = Some Pipe_write \<and>
      frames_ok s' \<and> ep_buffer (endpoints s' ! r) \<in> frames MM_REQUEST_KERNEL s' \<and>
      ep_buffer (endpoints s' ! r) \<notin> taken_frames s \<and>
      taken_frames s' = insert (ep_buffer (endpoints s' ! r)) (taken_frames s)"
      using run F E f T by (simp add: e0_def)
    then show ?thesis using two False by (simp only: if_True simp_thms) blast
  qed
qed

text \<open>Closing an end of a pipe wakes every process that waits on the other end, frees the
  slot and, when the other end is closed already, gives the page of the pipe back; nothing
  else changes.\<close>

theorem pipe_flush_closes:
  assumes "ep_placed hs qss ds s" and "i < length (endpoints s)" and "j < length (endpoints s)" and "i \<noteq> j"
    and "ep_pair (endpoints s ! i) = Some j" and "frames_ok s" and "ep_buffer (endpoints s ! i) \<in> frames MM_REQUEST_KERNEL s"
  shows "\<exists>s'. pipe_flush i s = Some (0, s') \<and> ep_placed hs (qss[j := []]) ds s' \<and> ready_pids s' = ready_pids s @ qss ! j \<and>
    endpoints s' = (endpoints s)[i := (endpoints s ! i)\<lparr>klass := CLASS_DEV_NONE\<rparr>, j := (endpoints s ! j)\<lparr>ep_queue := FREE_QUEUE\<rparr>] \<and>
    taken_frames s' = (if klass (endpoints s ! j) = CLASS_DEV_NONE
      then taken_frames s - {ep_buffer (endpoints s ! i)} else taken_frames s) \<and> phys s' = phys s"
proof -
  define s1 where "s1 = upd_ep i (\<lambda>e. e\<lparr>klass := CLASS_DEV_NONE\<rparr>) s"
  have "map ep_queue ((endpoints s)[i := (endpoints s ! i)\<lparr>klass := CLASS_DEV_NONE\<rparr>]) = map ep_queue (endpoints s)"
    by (simp add: map_update) (metis assms(2) list_update_id nth_map)
  then have P1: "ep_placed hs qss ds s1" using ep_placed_same(1) [OF assms(1)] by (simp add: s1_def upd_ep_def)
  obtain s2 where s2: "wake_all j s1 = Some s2" "ep_placed hs (qss[j := []]) ds s2" "ready_pids s2 = ready_pids s1 @ qss ! j"
    "phys s2 = phys s1" "endpoints s2 = (endpoints s1)[j := (endpoints s1 ! j)\<lparr>ep_queue := FREE_QUEUE\<rparr>]"
    "mm_bitmap s2 = mm_bitmap s1" "mm_bitmap_byte_len s2 = mm_bitmap_byte_len s1"
    using wake_all_spec [OF P1, of j] assms(3) by (metis length_list_update s1_def upd_ep_fields(8))
  have E: "endpoints s2 = (endpoints s)[i := (endpoints s ! i)\<lparr>klass := CLASS_DEV_NONE\<rparr>, j := (endpoints s ! j)\<lparr>ep_queue := FREE_QUEUE\<rparr>]"
    "klass (endpoints s2 ! j) = klass (endpoints s ! j)" "ep_buffer (endpoints s2 ! i) = ep_buffer (endpoints s ! i)"
    "ep_pair (endpoints s1 ! i) = Some j"
    using assms(2-5) by (simp_all add: s2(5) s1_def)
  have mm: "mm_bitmap s2 = mm_bitmap s" "mm_bitmap_byte_len s2 = mm_bitmap_byte_len s" "phys s2 = phys s" "ready_pids s1 = ready_pids s"
    using s2 by (simp_all add: s1_def) (simp add: upd_ep_def)
  have T: "taken_frames s2 = taken_frames s" "frames_ok s2" "frames MM_REQUEST_KERNEL s2 = frames MM_REQUEST_KERNEL s"
    using mm assms(6) by (simp_all add: taken_frames_def frames_ok_def frames_def zone_bits_def)
  show ?thesis
  proof (cases "klass (endpoints s ! j) = CLASS_DEV_NONE")
    case True
    obtain p where p: "ep_buffer (endpoints s ! i) = frame_at p" "p \<in> zone_bits MM_REQUEST_KERNEL s2"
      using assms(7) T(3) by (auto simp: frames_def)
    note Z = zone_bits_range [OF T(2) p(2)]
    have free: "mm_mem_free (ep_buffer (endpoints s ! i)) s2 = Some (s2\<lparr>mm_bitmap := with_bit p False (mm_bitmap s2)\<rparr>)"
      using mem_free_frame [OF T(2) Z(1,4)] p(1) by simp
    have "ep_placed hs (qss[j := []]) ds (s2\<lparr>mm_bitmap := b\<rparr>)" for b
      using s2(2) placed_cong(1) [of "s2\<lparr>mm_bitmap := b\<rparr>" s2] by (simp add: ep_placed_def sched_state.defs)
    moreover have "ready_pids (s2\<lparr>mm_bitmap := b\<rparr>) = ready_pids s2" for b
      by (rule placed_cong(2)) (simp_all add: sched_state.defs)
    ultimately show ?thesis
      using free True E s2 mm T taken_upd(2) [OF T(2) Z(1,2)] p(1)
      by (intro exI [of _ "s2\<lparr>mm_bitmap := with_bit p False (mm_bitmap s2)\<rparr>"]) (simp add: pipe_flush_def Let_def flip: s1_def)
  next
    case False
    then show ?thesis using E s2 mm T by (intro exI [of _ s2]) (simp add: pipe_flush_def Let_def flip: s1_def)
  qed
qed

subsection \<open>Witnesses\<close>

text \<open>A pipe of endpoints 0 and 1, whose page is frame 2, with \<open>n\<close> bytes from position \<open>p\<close>.\<close>

definition no_endpoint :: endpoint where
  "no_endpoint = \<lparr>klass = CLASS_DEV_NONE, refcount = 0, dv_flush = None, dv_read = None, dv_write = None, dv_seek = None,
     ep_pair = None, ep_buffer = 0, bytes_available = 0, ep_pos = 0, ep_queue = FREE_QUEUE\<rparr>"

definition pipe_eps :: "u32 \<Rightarrow> u32 \<Rightarrow> endpoint list" where
  "pipe_eps p n = (let e = no_endpoint\<lparr>klass := CLASS_DEV_PIPE, ep_buffer := frame_at 2, bytes_available := n\<rparr> in
     e\<lparr>ep_pair := Some 1, dv_read := Some Pipe_read, ep_pos := p\<rparr> #
     e\<lparr>ep_pair := Some 0, dv_write := Some Pipe_write, ep_pos := (p + n) mod 4096\<rparr> # replicate 62 no_endpoint)"

definition pipe_demo :: "endpoint list \<Rightarrow> pipe_state" where
  "pipe_demo eps = demo \<lparr>endpoints = eps\<rparr>"

lemma pipe_demo_fields [simp]: "endpoints (pipe_demo eps) = eps" "phys (pipe_demo eps) = demo_phys"
  by (simp_all add: pipe_demo_def demo_def)

lemma pipe_demo_running: "\<exists>p. running_pid (pipe_demo eps) = Some p"
  using demo_sched(2) [of "\<lparr>endpoints = eps\<rparr>"] by (auto simp: pipe_demo_def)

lemma pipe_demo_placed:
  assumes "\<forall>e\<in>set eps. ep_queue e = FREE_QUEUE"
  shows "ep_placed [] (replicate (length eps) []) [] (pipe_demo eps)"
proof -
  have "map ep_queue eps = replicate (length eps) FREE_QUEUE" using assms by (intro replicate_eqI) auto
  then show ?thesis using demo_placed [of _ "length eps"] by (simp add: ep_placed_def pipe_demo_def [symmetric])
    (simp add: pipe_demo_def)
qed

lemma pipe_eps_queues: "\<forall>e\<in>set (pipe_eps p n). ep_queue e = FREE_QUEUE" "length (pipe_eps p n) = 64"
  by (auto simp: pipe_eps_def Let_def no_endpoint_def)

lemma demo_buffer2: "user_buffer 0 2 [0xB8000, 0xB8001] (demo x)"
  using demo_buffer [of 2 x] by (simp add: upt_rec)

lemma demo_apart: "apart (frame_at 2) [0xB8000, 0xB8001] (demo x)"
  by (simp add: apart_def demo_cur_pdt demo_owned frame_at_def aligned_def page_of_def)

theorem pipe_open_makes_witness:
  "\<exists>r w s'. pipe_open (pipe_demo (replicate 64 no_endpoint)) = Some (0, Some (Pipe_dev r, Pipe_dev w), s') \<and>
     pipe_ok r w s' \<and> pipe_content r s' = []"
proof -
  let ?s = "pipe_demo (replicate 64 no_endpoint)"
  have ok: "frames_ok ?s" "frames MM_REQUEST_KERNEL ?s - taken_frames ?s \<noteq> {}"
    using demo_frames by (simp_all add: pipe_demo_def)
  have "\<exists>i j. i < j \<and> j < MAX_ENDPOINTS \<and> ep_free (endpoints ?s ! i) \<and> ep_free (endpoints ?s ! j)"
    by (rule exI [of _ 0], rule exI [of _ 1]) (simp add: no_endpoint_def)
  moreover have "length (endpoints ?s) = MAX_ENDPOINTS" by simp
  ultimately show ?thesis using pipe_open_makes [OF ok(1)] ok(2) by (simp only: if_True simp_thms) blast
qed

lemma pipe_demo_ok: "p < 4096 \<Longrightarrow> n \<le> 4096 \<Longrightarrow> pipe_ok 0 1 (pipe_demo (pipe_eps p n))"
  by (simp add: pipe_ok_def pipe_eps_def Let_def no_endpoint_def advance word_less_nat_alt word_le_nat_alt)

theorem pipe_write_appends_witness:
  "\<exists>s'. pipe_write 1 0 2 (pipe_demo (pipe_eps 0 0)) = Some (Done 2, s') \<and>
     pipe_content 0 s' = [demo_phys 0xB8000, demo_phys 0xB8001]"
proof -
  let ?s = "pipe_demo (pipe_eps 0 0)"
  obtain p where p: "running_pid ?s = Some p" using pipe_demo_running by blast
  have E: "endpoints ?s ! 0 = no_endpoint\<lparr>klass := CLASS_DEV_PIPE, ep_buffer := frame_at 2, ep_pair := Some 1, dv_read := Some Pipe_read\<rparr>"
    "ep_pos (endpoints ?s ! 1) = 0"
    by (simp_all add: pipe_eps_def Let_def no_endpoint_def)
  have u: "user_buffer 0 (unat (2 :: u32)) [0xB8000, 0xB8001] ?s" using demo_buffer2 by (simp add: pipe_demo_def)
  have a: "apart (ep_buffer (endpoints ?s ! 0)) [0xB8000, 0xB8001] ?s" unfolding E using demo_apart by (simp add: pipe_demo_def)
  have k: "klass (endpoints ?s ! 0) \<noteq> CLASS_DEV_NONE" unfolding E by simp
  have m: "moved_in 0 2 ?s = 2" "\<not> write_blocked 0 2 ?s" "pipe_content 0 ?s = []"
    unfolding moved_in_def write_blocked_def pipe_content_def E by (simp_all add: no_endpoint_def ring_bytes_def Let_def)
  from pipe_write_appends [OF pipe_demo_ok k pipe_demo_placed [OF pipe_eps_queues(1)] p u a] m E(2)
  show ?thesis by (auto simp: ring_chunk_def)
qed

theorem pipe_read_takes_witness:
  "\<exists>s'. pipe_read 0 0 2 (pipe_demo (pipe_eps 0 2)) = Some (Done 2, s') \<and> pipe_content 0 s' = [] \<and>
     [phys s' 0xB8000, phys s' 0xB8001] = [demo_phys 0x102000, demo_phys 0x102001]"
proof -
  let ?s = "pipe_demo (pipe_eps 0 2)"
  obtain p where p: "running_pid ?s = Some p" using pipe_demo_running by blast
  have E: "endpoints ?s ! 0 = no_endpoint\<lparr>klass := CLASS_DEV_PIPE, ep_buffer := frame_at 2, bytes_available := 2, ep_pair := Some 1, dv_read := Some Pipe_read\<rparr>"
    by (simp add: pipe_eps_def Let_def no_endpoint_def)
  have u: "user_buffer 0 (unat (2 :: u32)) [0xB8000, 0xB8001] ?s" using demo_buffer2 by (simp add: pipe_demo_def)
  have a: "apart (ep_buffer (endpoints ?s ! 0)) [0xB8000, 0xB8001] ?s" unfolding E using demo_apart by (simp add: pipe_demo_def)
  have w: "may_write 0 ?s" using demo_may_write by (simp add: pipe_demo_def)
  have c: "pipe_content 0 ?s = [demo_phys 0x102000, demo_phys 0x102001]" "ep_pos (endpoints ?s ! 0) = 0"
    unfolding pipe_content_def E by (simp_all add: no_endpoint_def ring_bytes_def Let_def frame_at_def upt_rec)
  from pipe_read_takes [OF pipe_demo_ok pipe_demo_placed [OF pipe_eps_queues(1)] p u a w] c
  show ?thesis by (auto simp: received_def)
qed

theorem pipe_flush_closes_witness:
  "\<exists>s'. pipe_flush 0 (pipe_demo (pipe_eps 0 2)) = Some (0, s') \<and> klass (endpoints s' ! 0) = CLASS_DEV_NONE"
proof -
  let ?s = "pipe_demo (pipe_eps 0 2)"
  have E: "endpoints ?s ! 0 = no_endpoint\<lparr>klass := CLASS_DEV_PIPE, ep_buffer := frame_at 2, bytes_available := 2, ep_pair := Some 1, dv_read := Some Pipe_read\<rparr>"
    by (simp add: pipe_eps_def Let_def no_endpoint_def)
  have f: "frames_ok ?s" "ep_buffer (endpoints ?s ! 0) \<in> frames MM_REQUEST_KERNEL ?s"
    unfolding E using demo_frames(1) demo_frames(4) [of 2] by (simp_all add: pipe_demo_def)
  have l: "0 < length (endpoints ?s)" "1 < length (endpoints ?s)" "(0 :: nat) \<noteq> 1" "ep_pair (endpoints ?s ! 0) = Some 1"
    unfolding E by (simp_all add: pipe_eps_queues)
  from pipe_flush_closes [OF pipe_demo_placed [OF pipe_eps_queues(1)] l f] l(1)
  show ?thesis by fastforce
qed

end
