(* ===== verification/Machine.thy ===== *)
theory Machine
  imports Vga Pipe
begin

section \<open>The machine: ports, interrupt controllers, descriptor tables\<close>

text \<open>
  The state that the drivers share: the history of port accesses, the screen, the interrupt
  descriptor table with its handlers and the global descriptor table; with it
  \<^verbatim>\<open>kernel/pic.c\<close>, \<^verbatim>\<open>kernel/idt.c\<close>, \<^verbatim>\<open>kernel/gdt.c\<close>, the register frame of
  \<^verbatim>\<open>include/isr.h\<close>, \<^verbatim>\<open>timer_init\<close> and \<^verbatim>\<open>debug_log\<close>. What the hardware
  answers is a function of the accesses made so far, which no theorem restricts unless it
  says so. The addresses of the assembly stubs are what the linker made them.
\<close>

subsection \<open>Ports\<close>

datatype port_event = Outb u16 u8 | Outw u16 u16 | Inb u16 u8 | Inw u16 u16

datatype isr =
  Debug_kernelpanic | Page_fault_handler | Keyboard_handler | Com_1_3_handler | Com_2_4_handler
  | Hdd_primary_handler | Syscalls_handler

datatype asm_stub =
  Idt_exception nat | Irq nat | Sysint | Timer_handler | Spurious_master_handler | Spurious_slave_handler | Task_init

record gdt_entry =
  limit_0 :: u16
  base_01 :: u16
  base_2 :: u8
  gd_type :: "4 word"
  gd_s :: "1 word"
  gd_dpl :: "2 word"
  gd_p :: "1 word"
  limit_1 :: "4 word"
  gd_avl :: "1 word"
  gd_l :: "1 word"
  gd_db :: "1 word"
  gd_g :: "1 word"
  base_3 :: u8

record registers =
  r_edi :: u32
  r_esi :: u32
  r_ebp :: u32
  r_esp :: u32
  r_ebx :: u32
  r_edx :: u32
  r_ecx :: u32
  r_eax :: u32
  r_int_no :: u32
  r_err_code :: u32
  r_eip :: u32
  r_cs :: u32
  r_eflags :: u32
  r_user_esp :: u32
  r_user_ss :: u32

record hw_state = pipe_state +
  ports :: "port_event list"
  hardware :: "port_event list \<Rightarrow> u16 \<Rightarrow> u16"
  tsc :: "port_event list \<Rightarrow> u64"
  vga_state :: screen
  stub_addr :: "asm_stub \<Rightarrow> u32"
  idt_handlers :: "u32 list"
  interrupt_handlers :: "isr option list"
  idt :: "(u32 \<times> u32) list"
  gdt :: "gdt_entry list"
  the_tss :: u32

definition port_out :: "u16 \<Rightarrow> u8 \<Rightarrow> 'a hw_state_scheme \<Rightarrow> 'a hw_state_scheme" where
  "port_out port v s = s\<lparr>ports := ports s @ [Outb port v]\<rparr>"

definition inb :: "u16 \<Rightarrow> 'a hw_state_scheme \<Rightarrow> u8 \<times> 'a hw_state_scheme" where
  "inb port s = (let v = ucast (hardware s (ports s) port) in (v, s\<lparr>ports := ports s @ [Inb port v]\<rparr>))"

definition inw :: "u16 \<Rightarrow> 'a hw_state_scheme \<Rightarrow> u16 \<times> 'a hw_state_scheme" where
  "inw port s = (let v = hardware s (ports s) port in (v, s\<lparr>ports := ports s @ [Inw port v]\<rparr>))"

subsection \<open>The screen of the machine\<close>

definition display_of :: "'a hw_state_scheme \<Rightarrow> display" where
  "display_of s = \<lparr>scr = vga_state s, vmem = phys s, outs = []\<rparr>"

definition show_display :: "display \<Rightarrow> 'a hw_state_scheme \<Rightarrow> 'a hw_state_scheme" where
  "show_display d s = s\<lparr>vga_state := scr d, phys := vmem d, ports := ports s @ map (\<lambda>(p, v). Outb p v) (outs d)\<rparr>"

definition on_screen :: "(display \<Rightarrow> display) \<Rightarrow> 'a hw_state_scheme \<Rightarrow> 'a hw_state_scheme" where
  "on_screen f s = show_display (f (display_of s)) s"

text \<open>The characters of a string literal.\<close>

definition chars :: "string \<Rightarrow> u8 list" where
  "chars t = map of_char t"

definition printf :: "(u32 \<Rightarrow> u8 list) \<Rightarrow> u8 list \<Rightarrow> u32 list \<Rightarrow> 'a hw_state_scheme \<Rightarrow> (int \<times> 'a hw_state_scheme) option" where
  "printf str format args s =
     map_option (\<lambda>(n, d). (n, show_display d s)) (vga_printf str format args (display_of s))"

definition debug_log :: "u8 list \<Rightarrow> 'a hw_state_scheme \<Rightarrow> 'a hw_state_scheme option" where
  "debug_log message s =
     (let t = tsc s (ports s)
      in map_option snd (printf (\<lambda>_. message) (chars ''[%d.%d] %s'' @ [0x0A]) [ucast (drop_bit 32 t), ucast t, 0] s))"

subsection \<open>The interrupt controllers\<close>

abbreviation (input) PIC1_PORT :: u16 where "PIC1_PORT \<equiv> 0x20"
abbreviation (input) PIC2_PORT :: u16 where "PIC2_PORT \<equiv> 0xA0"
abbreviation (input) PIC_EOI :: u8 where "PIC_EOI \<equiv> 0x20"

definition pic_reset :: "u8 \<Rightarrow> u8 \<Rightarrow> 'a hw_state_scheme \<Rightarrow> 'a hw_state_scheme" where
  "pic_reset addr_pic1 addr_pic2 s =
     (let s = port_out (PIC1_PORT + 0) 0x11 s;
          s = port_out (PIC1_PORT + 1) addr_pic1 s;
          s = port_out (PIC1_PORT + 1) 0x04 s;
          s = port_out (PIC1_PORT + 1) 0x01 s;
          s = port_out (PIC1_PORT + 1) 0xFF s;
          s = port_out (PIC2_PORT + 0) 0x11 s;
          s = port_out (PIC2_PORT + 1) addr_pic2 s;
          s = port_out (PIC2_PORT + 1) 0x02 s;
          s = port_out (PIC2_PORT + 1) 0x01 s
      in port_out (PIC2_PORT + 1) 0xFF s)"

definition pic_enable :: "'a hw_state_scheme \<Rightarrow> 'a hw_state_scheme" where
  "pic_enable s = port_out (PIC2_PORT + 1) 0x00 (port_out (PIC1_PORT + 1) 0x00 s)"

definition pic_disable :: "'a hw_state_scheme \<Rightarrow> 'a hw_state_scheme" where
  "pic_disable s = port_out (PIC2_PORT + 1) 0xFF (port_out (PIC1_PORT + 1) 0xFF s)"

definition pic_set_irq_mask :: "u8 \<Rightarrow> 'a hw_state_scheme \<Rightarrow> 'a hw_state_scheme" where
  "pic_set_irq_mask irq s =
     (let (port, irq) = (if irq < 8 then (PIC1_PORT + 1, irq) else (PIC2_PORT + 1, irq - 8));
          (v, s) = inb port s
      in port_out port (v OR push_bit (unat irq) 1) s)"

definition pic_clear_irq_mask :: "u8 \<Rightarrow> 'a hw_state_scheme \<Rightarrow> 'a hw_state_scheme" where
  "pic_clear_irq_mask irq s =
     (let (port, irq) = (if irq < 8 then (PIC1_PORT + 1, irq) else (PIC2_PORT + 1, irq - 8));
          (v, s) = inb port s
      in port_out port (v AND NOT (push_bit (unat irq) 1)) s)"

definition send_EOI :: "u8 \<Rightarrow> 'a hw_state_scheme \<Rightarrow> 'a hw_state_scheme" where
  "send_EOI irq s =
     (let s = (if irq \<ge> 8 then port_out PIC2_PORT PIC_EOI s else s)
      in port_out PIC1_PORT PIC_EOI s)"

definition timer_init :: "u32 \<Rightarrow> 'a hw_state_scheme \<Rightarrow> 'a hw_state_scheme option" where
  "timer_init frequency s = do {
     kassert (frequency \<noteq> 0);
     let divisor = 1193180 div frequency;
     let s = port_out 0x43 0x36 s;
     let s = port_out 0x40 (ucast (divisor AND 0xFF)) s;
     let s = port_out 0x40 (ucast (drop_bit 8 divisor AND 0xFF)) s;
     Some (pic_clear_irq_mask 0 s)
   }"

subsection \<open>The interrupt descriptor table\<close>

abbreviation (input) SS_K_CODE :: u32 where "SS_K_CODE \<equiv> 0x8"
abbreviation (input) IDT_ATTR_P :: u32 where "IDT_ATTR_P \<equiv> 0x8000"
abbreviation (input) IDT_ATTR_DPL0 :: u32 where "IDT_ATTR_DPL0 \<equiv> 0x0000"
abbreviation (input) IDT_ATTR_DPL3 :: u32 where "IDT_ATTR_DPL3 \<equiv> 0x6000"
abbreviation (input) IDT_ATTR_S_ON :: u32 where "IDT_ATTR_S_ON \<equiv> 0x0000"
abbreviation (input) IDT_ATTR_D_32 :: u32 where "IDT_ATTR_D_32 \<equiv> 0x0800"
abbreviation (input) IDT_ATTR_TYPE_INT :: u32 where "IDT_ATTR_TYPE_INT \<equiv> 0x0600"
abbreviation (input) SYS_INT :: nat where "SYS_INT \<equiv> 0x30"
abbreviation (input) ISR_IRQ0 :: int where "ISR_IRQ0 \<equiv> 0x20"
abbreviation (input) ISR_IRQ1 :: int where "ISR_IRQ1 \<equiv> 0x21"
abbreviation (input) ISR_IRQ3 :: int where "ISR_IRQ3 \<equiv> 0x23"
abbreviation (input) ISR_IRQ4 :: int where "ISR_IRQ4 \<equiv> 0x24"
abbreviation (input) ISR_IRQ7 :: int where "ISR_IRQ7 \<equiv> 0x27"
abbreviation (input) ISR_IRQ14 :: int where "ISR_IRQ14 \<equiv> 0x2E"
abbreviation (input) ISR_IRQ15 :: int where "ISR_IRQ15 \<equiv> 0x2F"
abbreviation (input) ISR_PGFLT :: int where "ISR_PGFLT \<equiv> 14"

definition IDT_INT :: u32 where
  "IDT_INT = IDT_ATTR_P OR IDT_ATTR_S_ON OR IDT_ATTR_D_32 OR IDT_ATTR_TYPE_INT"

definition make_idt_entry :: "u32 \<Rightarrow> u32 \<Rightarrow> u32 \<Rightarrow> u32 \<times> u32" where
  "make_idt_entry offset select attr =
     ((offset AND 0xFFFF) OR push_bit 16 select, (attr AND 0xFFFF) OR (offset AND 0xFFFF0000))"

definition idt_stubs :: "(nat \<times> asm_stub) list" where
  "idt_stubs = map (\<lambda>i. (i, Idt_exception i)) ([0..<15] @ [16..<20]) @
     map (\<lambda>i. (0x20 + i, Irq i)) [0..<16] @ [(SYS_INT, Sysint)]"

definition idt_init :: "'a hw_state_scheme \<Rightarrow> 'a hw_state_scheme option" where
  "idt_init s = do {
     s \<leftarrow> debug_log (chars ''initializing interrupt handling'') s;
     let s = s\<lparr>idt_handlers := fold (\<lambda>(i, stub) hs. hs[i := stub_addr s stub]) idt_stubs (idt_handlers s)\<rparr>;
     let s = pic_reset 0x20 0x28 s;
     Some (s\<lparr>idt := replicate 256 (0, 0)\<rparr>)
   }"

definition idt_register_asm :: "int \<Rightarrow> u32 \<Rightarrow> u32 \<Rightarrow> 'a hw_state_scheme \<Rightarrow> 'a hw_state_scheme option" where
  "idt_register_asm intr asm_handler pl s = do {
     kassert (pl = PL_KERNEL \<or> pl = PL_USER);
     kassert (0 \<le> intr \<and> intr < 256);
     if pl = PL_KERNEL then do {
       t \<leftarrow> aupd intr (\<lambda>_. make_idt_entry asm_handler SS_K_CODE (IDT_INT OR IDT_ATTR_DPL0)) (idt s);
       Some (s\<lparr>idt := t\<rparr>)
     } else if pl = PL_USER then do {
       t \<leftarrow> aupd intr (\<lambda>_. make_idt_entry asm_handler SS_K_CODE (IDT_INT OR IDT_ATTR_DPL3)) (idt s);
       Some (s\<lparr>idt := t\<rparr>)
     } else Some s
   }"

definition idt_register :: "int \<Rightarrow> isr \<Rightarrow> u32 \<Rightarrow> 'a hw_state_scheme \<Rightarrow> 'a hw_state_scheme option" where
  "idt_register intr handler pl s = do {
     kassert (pl = PL_KERNEL \<or> pl = PL_USER);
     kassert (0 \<le> intr \<and> intr < 256);
     hs \<leftarrow> aupd intr (\<lambda>_. Some handler) (interrupt_handlers s);
     let s = s\<lparr>interrupt_handlers := hs\<rparr>;
     stub \<leftarrow> aget (idt_handlers s) intr;
     if pl = PL_KERNEL then do {
       t \<leftarrow> aupd intr (\<lambda>_. make_idt_entry stub SS_K_CODE (IDT_INT OR IDT_ATTR_DPL0)) (idt s);
       Some (s\<lparr>idt := t\<rparr>)
     } else if pl = PL_USER then do {
       t \<leftarrow> aupd intr (\<lambda>_. make_idt_entry stub SS_K_CODE (IDT_INT OR IDT_ATTR_DPL3)) (idt s);
       Some (s\<lparr>idt := t\<rparr>)
     } else Some s
   }"

subsection \<open>The global descriptor table\<close>

definition make_gdt_entry :: "u32 \<Rightarrow> u32 \<Rightarrow> u16 \<Rightarrow> gdt_entry" where
  "make_gdt_entry base limit attr = \<lparr>
     limit_0 = ucast (limit AND 0xFFFF), base_01 = ucast (base AND 0xFFFF),
     base_2 = ucast (drop_bit 16 base AND 0xFF), gd_type = ucast (attr AND 0xF),
     gd_s = ucast (drop_bit 4 attr AND 0x1), gd_dpl = ucast (drop_bit 5 attr AND 0x3),
     gd_p = ucast (drop_bit 7 attr AND 0x1), limit_1 = ucast (drop_bit 16 limit AND 0xF),
     gd_avl = ucast (drop_bit 8 attr AND 0x1), gd_l = ucast (drop_bit 9 attr AND 0x1),
     gd_db = ucast (drop_bit 10 attr AND 0x1), gd_g = ucast (drop_bit 11 attr AND 0x1),
     base_3 = ucast (drop_bit 24 base AND 0xFF)\<rparr>"

definition GDT_ATTR_SEG :: u16 where "GDT_ATTR_SEG = 0x800 OR 0x010 OR 0x400 OR 0x080"
definition GDT_ATTR_SEG_CODE :: u16 where "GDT_ATTR_SEG_CODE = 0x008 OR 0x002"
definition GDT_ATTR_SEG_DATA :: u16 where "GDT_ATTR_SEG_DATA = 0x002"

definition boot_gdt :: "gdt_entry list" where
  "boot_gdt = [
     make_gdt_entry 0 0 0,
     make_gdt_entry 0 0xFFFFF (GDT_ATTR_SEG OR GDT_ATTR_SEG_CODE OR 0x000),
     make_gdt_entry 0 0xFFFFF (GDT_ATTR_SEG OR GDT_ATTR_SEG_DATA OR 0x000),
     make_gdt_entry 0 0xFFFFF (GDT_ATTR_SEG OR GDT_ATTR_SEG_CODE OR 0x060),
     make_gdt_entry 0 0xFFFFF (GDT_ATTR_SEG OR GDT_ATTR_SEG_DATA OR 0x060),
     make_gdt_entry 0 0 0]"

text \<open>The structure of the task state segment has 104 bytes.\<close>

definition gdt_init :: "'a hw_state_scheme \<Rightarrow> 'a hw_state_scheme" where
  "gdt_init s = s\<lparr>gdt := (gdt s)[5 := make_gdt_entry (the_tss s) (104 - 1) (0x080 OR 0x060 OR 0x009)]\<rparr>"

subsection \<open>Registering a handler\<close>

text \<open>What the processor reads in an entry of the table.\<close>

definition gate_offset :: "u32 \<times> u32 \<Rightarrow> u32" where
  "gate_offset e = (fst e AND 0xFFFF) OR (snd e AND 0xFFFF0000)"

definition gate_selector :: "u32 \<times> u32 \<Rightarrow> u32" where
  "gate_selector e = drop_bit 16 (fst e)"

definition gate_attr :: "u32 \<times> u32 \<Rightarrow> u32" where
  "gate_attr e = snd e AND 0xFFFF"

lemma hi_mask: "(0xFFFF0000 :: u32) = push_bit 16 (mask 16)" and lo_mask: "(0xFFFF :: u32) = mask 16"
  by (simp_all add: mask_eq_exp_minus_1 push_bit_eq_mult)

lemma make_idt_entry_decodes:
  assumes "select < 0x10000"
  shows "gate_offset (make_idt_entry offset select attr) = offset"
    "gate_selector (make_idt_entry offset select attr) = select"
    "gate_attr (make_idt_entry offset select attr) = attr AND 0xFFFF"
proof -
  have "take_bit 16 select = select" using small_take_bit [of select 16] assms by simp
  then have s: "bit select n \<longleftrightarrow> n < 16 \<and> bit select n" for n
    using bit_take_bit_iff [of 16 select n] by simp
  show "gate_offset (make_idt_entry offset select attr) = offset"
    unfolding gate_offset_def make_idt_entry_def hi_mask lo_mask
    by (rule bit_word_eqI) (auto simp: bit_simps)
  show "gate_selector (make_idt_entry offset select attr) = select"
    unfolding gate_selector_def make_idt_entry_def lo_mask fst_conv
    by (rule bit_word_eqI, subst s) (auto simp: bit_simps)
  show "gate_attr (make_idt_entry offset select attr) = attr AND 0xFFFF"
    unfolding gate_attr_def make_idt_entry_def hi_mask lo_mask
    by (rule bit_word_eqI) (auto simp: bit_simps)
qed


lemma idt_entry_gate:
  assumes "pl = PL_KERNEL \<or> pl = PL_USER"
    and e: "e = make_idt_entry stub SS_K_CODE (IDT_INT OR (if pl = PL_KERNEL then IDT_ATTR_DPL0 else IDT_ATTR_DPL3))"
  shows "gate_offset e = stub" "gate_selector e = SS_K_CODE" "gate_attr e = (if pl = PL_KERNEL then 0x8E00 else 0xEE00)"
proof -
  have "(SS_K_CODE :: u32) < 0x10000" by simp
  note d = make_idt_entry_decodes [OF this]
  show "gate_offset e = stub" "gate_selector e = SS_K_CODE" by (simp_all only: e d)
  show "gate_attr e = (if pl = PL_KERNEL then 0x8E00 else 0xEE00)" by (simp only: e d) (simp add: IDT_INT_def)
qed

lemma idt_register_eq:
  assumes "length (idt s) = 256" and "length (interrupt_handlers s) = 256" and "length (idt_handlers s) = 256"
    and pl: "pl = PL_KERNEL \<or> pl = PL_USER" and r: "0 \<le> intr" "intr < 256"
  shows "\<exists>e. idt_register intr h pl s = Some (s\<lparr>interrupt_handlers := (interrupt_handlers s)[nat intr := Some h], idt := (idt s)[nat intr := e]\<rparr>) \<and>
    gate_offset e = idt_handlers s ! nat intr \<and> gate_selector e = SS_K_CODE \<and> gate_attr e = (if pl = PL_KERNEL then 0x8E00 else 0xEE00)"
proof -
  define e where "e = make_idt_entry (idt_handlers s ! nat intr) SS_K_CODE (IDT_INT OR (if pl = PL_KERNEL then IDT_ATTR_DPL0 else IDT_ATTR_DPL3))"
  have "idt_register intr h pl s = Some (s\<lparr>interrupt_handlers := (interrupt_handlers s)[nat intr := Some h], idt := (idt s)[nat intr := e]\<rparr>)"
    using assms by (cases "pl = PL_KERNEL") (simp_all add: idt_register_def aupd_def aget_def e_def)
  then show ?thesis using idt_entry_gate [OF pl e_def] by (intro exI conjI)
qed

lemma idt_register_asm_eq:
  assumes "length (idt s) = 256" and pl: "pl = PL_KERNEL \<or> pl = PL_USER" and r: "0 \<le> intr" "intr < 256"
  shows "\<exists>e. idt_register_asm intr stub pl s = Some (s\<lparr>idt := (idt s)[nat intr := e]\<rparr>) \<and>
    gate_offset e = stub \<and> gate_selector e = SS_K_CODE \<and> gate_attr e = (if pl = PL_KERNEL then 0x8E00 else 0xEE00)"
proof -
  define e where "e = make_idt_entry stub SS_K_CODE (IDT_INT OR (if pl = PL_KERNEL then IDT_ATTR_DPL0 else IDT_ATTR_DPL3))"
  have "idt_register_asm intr stub pl s = Some (s\<lparr>idt := (idt s)[nat intr := e]\<rparr>)"
    using assms by (cases "pl = PL_KERNEL") (simp_all add: idt_register_asm_def aupd_def aget_def e_def)
  then show ?thesis using idt_entry_gate [OF pl e_def] by (intro exI conjI)
qed

text \<open>Registering a handler makes it the C handler of its interrupt and makes the entry of the
  table an interrupt gate to the interrupt's assembly stub in the kernel's code segment, open
  to the kernel or to everybody as asked; every other entry stays. An interrupt number or a
  privilege level that does not exist stops the kernel.\<close>

theorem idt_register_installs:
  assumes "length (idt s) = 256" and "length (interrupt_handlers s) = 256" and "length (idt_handlers s) = 256"
  shows "if (pl = PL_KERNEL \<or> pl = PL_USER) \<and> 0 \<le> intr \<and> intr < 256
    then \<exists>s' e. idt_register intr h pl s = Some s' \<and>
      s' = s\<lparr>interrupt_handlers := (interrupt_handlers s)[nat intr := Some h], idt := (idt s)[nat intr := e]\<rparr> \<and>
      gate_offset e = idt_handlers s ! nat intr \<and> gate_selector e = SS_K_CODE \<and>
      gate_attr e = (if pl = PL_KERNEL then 0x8E00 else 0xEE00)
    else idt_register intr h pl s = None"
proof (cases "(pl = PL_KERNEL \<or> pl = PL_USER) \<and> 0 \<le> intr \<and> intr < 256")
  case True
  then show ?thesis unfolding if_P [OF True] using idt_register_eq [OF assms, of pl intr h] by blast
qed (auto simp: idt_register_def)

lemma pic_masks_both:
  assumes "irq < 16"
  shows "\<exists>port v w. port = (if irq < 8 then 0x21 else 0xA1) \<and> v = ucast (hardware s (ports s) port) \<and>
      pic_set_irq_mask irq s = s\<lparr>ports := ports s @ [Inb port v, Outb port w]\<rparr> \<and>
      (\<forall>n. bit w n \<longleftrightarrow> bit v n \<or> n = unat irq mod 8)"
    and "\<exists>port v w. port = (if irq < 8 then 0x21 else 0xA1) \<and> v = ucast (hardware s (ports s) port) \<and>
      pic_clear_irq_mask irq s = s\<lparr>ports := ports s @ [Inb port v, Outb port w]\<rparr> \<and>
      (\<forall>n. bit w n \<longleftrightarrow> bit v n \<and> n \<noteq> unat irq mod 8)"
proof -
  let ?port = "if irq < 8 then 0x21 else 0xA1 :: u16" and ?line = "if irq < 8 then irq else irq - 8"
  let ?v = "ucast (hardware s (ports s) ?port) :: u8"
  have u: "unat irq < 16" using assms by (simp add: word_less_nat_alt)
  have l: "unat ?line = unat irq mod 8"
  proof (cases "irq < 8")
    case True
    then show ?thesis by (simp add: word_less_nat_alt)
  next
    case False
    then have "unat (irq - 8) = unat irq - 8" by (simp add: unat_sub word_le_nat_alt not_less)
    moreover have "8 \<le> unat irq" using False by (simp add: word_le_nat_alt not_less)
    ultimately show ?thesis using False u by (simp add: mod_if)
  qed
  have b: "bit (push_bit k (1 :: u8)) n \<longleftrightarrow> n = k" if "k < 8" for k n using that by (auto simp: bit_simps)
  have "pic_set_irq_mask irq s = s\<lparr>ports := ports s @ [Inb ?port ?v, Outb ?port (?v OR push_bit (unat ?line) 1)]\<rparr>"
    by (simp add: pic_set_irq_mask_def port_out_def inb_def Let_def)
  moreover have "bit (?v OR push_bit (unat ?line) 1) n \<longleftrightarrow> bit ?v n \<or> n = unat irq mod 8" for n
    by (simp add: bit_or_iff b l del: push_bit_of_1)
  ultimately show "\<exists>port v w. port = (if irq < 8 then 0x21 else 0xA1) \<and> v = ucast (hardware s (ports s) port) \<and>
      pic_set_irq_mask irq s = s\<lparr>ports := ports s @ [Inb port v, Outb port w]\<rparr> \<and>
      (\<forall>n. bit w n \<longleftrightarrow> bit v n \<or> n = unat irq mod 8)" by blast
  have "pic_clear_irq_mask irq s = s\<lparr>ports := ports s @ [Inb ?port ?v, Outb ?port (?v AND NOT (push_bit (unat ?line) 1))]\<rparr>"
    by (simp add: pic_clear_irq_mask_def port_out_def inb_def Let_def)
  moreover have "bit (?v AND NOT (push_bit (unat ?line) 1)) n \<longleftrightarrow> bit ?v n \<and> n \<noteq> unat irq mod 8" for n
    using bit_imp_le_length [of ?v n] by (auto simp: bit_and_iff bit_not_iff b l simp del: push_bit_of_1)
  ultimately show "\<exists>port v w. port = (if irq < 8 then 0x21 else 0xA1) \<and> v = ucast (hardware s (ports s) port) \<and>
      pic_clear_irq_mask irq s = s\<lparr>ports := ports s @ [Inb port v, Outb port w]\<rparr> \<and>
      (\<forall>n. bit w n \<longleftrightarrow> bit v n \<and> n \<noteq> unat irq mod 8)" by blast
qed

text \<open>C31: Masking and unmasking an interrupt line reads the mask of the controller that the line
  belongs to and writes it back with the bit of that line set or cleared and no other changed.\<close>

theorem pic_masks_one_line:
  assumes "irq < 16"
  shows "(\<exists>port v w. port = (if irq < 8 then 0x21 else 0xA1) \<and> v = ucast (hardware s (ports s) port) \<and>
      pic_set_irq_mask irq s = s\<lparr>ports := ports s @ [Inb port v, Outb port w]\<rparr> \<and>
      (\<forall>n. bit w n \<longleftrightarrow> bit v n \<or> n = unat irq mod 8)) \<and>
    (\<exists>port v w. port = (if irq < 8 then 0x21 else 0xA1) \<and> v = ucast (hardware s (ports s) port) \<and>
      pic_clear_irq_mask irq s = s\<lparr>ports := ports s @ [Inb port v, Outb port w]\<rparr> \<and>
      (\<forall>n. bit w n \<longleftrightarrow> bit v n \<and> n \<noteq> unat irq mod 8))"
  using pic_masks_both [OF assms] by (rule conjI)

text \<open>A descriptor holds the base, the limit and the attributes it was made of.\<close>

definition gdt_base :: "gdt_entry \<Rightarrow> u32" where
  "gdt_base e = ucast (base_01 e) OR push_bit 16 (ucast (base_2 e)) OR push_bit 24 (ucast (base_3 e))"

definition gdt_limit :: "gdt_entry \<Rightarrow> u32" where
  "gdt_limit e = ucast (limit_0 e) OR push_bit 16 (ucast (limit_1 e))"

lemma gdt_entry_decodes: "gdt_base (make_gdt_entry base limit attr) = base" "gdt_limit (make_gdt_entry base limit attr) = limit AND 0xFFFFF"
proof -
  have m: "(0xFFFF :: u32) = mask 16" "(0xFF :: u32) = mask 8" "(0xF :: u32) = mask 4" "(0xFFFFF :: u32) = mask 20"
    by (simp_all add: mask_eq_exp_minus_1)
  show "gdt_base (make_gdt_entry base limit attr) = base"
    unfolding gdt_base_def make_gdt_entry_def gdt_entry.simps m
  proof (rule bit_word_eqI)
    fix n assume "n < LENGTH(32)"
    then consider "n < 16" | "16 \<le> n" "n < 24" | "24 \<le> n" "n < 32" by fastforce
    then show "bit (ucast (ucast (base AND mask 16) :: u16) OR push_bit 16 (ucast (ucast (drop_bit 16 base AND mask 8) :: u8))
        OR push_bit 24 (ucast (ucast (drop_bit 24 base AND mask 8) :: u8)) :: u32) n = bit base n"
      by cases (auto simp: bit_simps)
  qed
  show "gdt_limit (make_gdt_entry base limit attr) = limit AND 0xFFFFF"
    unfolding gdt_limit_def make_gdt_entry_def gdt_entry.simps m by (rule bit_word_eqI) (auto simp: bit_simps)
qed

subsection \<open>Witnesses\<close>

text \<open>A machine at rest on the kernel state of the other witnesses.\<close>

definition hw_demo :: "(port_event list \<Rightarrow> u16 \<Rightarrow> u16) \<Rightarrow> 'a \<Rightarrow> 'a hw_state_scheme" where
  "hw_demo h x = demo \<lparr>endpoints = [], ports = [], hardware = h, tsc = (\<lambda>_. 0),
     vga_state = \<lparr>scr_x = 0, scr_y = 0, scr_attr = 7\<rparr>, stub_addr = (\<lambda>_. 0x1000), idt_handlers = replicate 256 0x1000,
     interrupt_handlers = replicate 256 None, idt = replicate 256 (0, 0), gdt = boot_gdt, the_tss = 0, \<dots> = x\<rparr>"

theorem idt_register_installs_witness:
  "\<exists>s e. idt_register ISR_PGFLT Page_fault_handler PL_KERNEL (hw_demo (\<lambda>_ _. 0) ()) = Some s \<and>
     idt s = (replicate 256 (0, 0))[14 := e] \<and> gate_offset e = 0x1000 \<and> gate_attr e = 0x8E00"
proof -
  have f: "length (idt (hw_demo (\<lambda>_ _. 0) ())) = 256" "length (interrupt_handlers (hw_demo (\<lambda>_ _. 0) ())) = 256"
    "length (idt_handlers (hw_demo (\<lambda>_ _. 0) ())) = 256" by (simp_all add: hw_demo_def demo_def)
  have c: "((0 :: u32) = PL_KERNEL \<or> (0 :: u32) = PL_USER) \<and> 0 \<le> (14 :: int) \<and> (14 :: int) < 256" by simp
  obtain s e where e: "idt_register 14 Page_fault_handler 0 (hw_demo (\<lambda>_ _. 0) ()) = Some s"
    "s = (hw_demo (\<lambda>_ _. 0) ())\<lparr>interrupt_handlers := (interrupt_handlers (hw_demo (\<lambda>_ _. 0) ()))[nat 14 := Some Page_fault_handler],
      idt := (idt (hw_demo (\<lambda>_ _. 0) ()))[nat 14 := e]\<rparr>"
    "gate_offset e = idt_handlers (hw_demo (\<lambda>_ _. 0) ()) ! nat 14" "gate_attr e = (if (0 :: u32) = PL_KERNEL then 0x8E00 else 0xEE00)"
    using idt_register_installs [OF f, of 0 14 Page_fault_handler, unfolded if_P [OF c]] by metis
  show ?thesis using e(1,3,4) by (intro exI [of _ s] exI [of _ e]) (simp add: e(2) hw_demo_def demo_def)
qed

theorem pic_masks_one_line_witness:
  "\<exists>w. pic_clear_irq_mask 14 (hw_demo (\<lambda>_ _. 0xFF) ()) = (hw_demo (\<lambda>_ _. 0xFF) ())\<lparr>ports := [Inb 0xA1 0xFF, Outb 0xA1 w]\<rparr> \<and>
     \<not> bit w 6 \<and> bit w 7"
proof -
  have "(14 :: u8) < 16" by simp
  from pic_masks_one_line [OF this, THEN conjunct2, of "hw_demo (\<lambda>_ _. 0xFF) ()"] obtain port v w where
    w: "port = (if (14 :: u8) < 8 then 0x21 else 0xA1)" "v = ucast (hardware (hw_demo (\<lambda>_ _. 0xFF) ()) (ports (hw_demo (\<lambda>_ _. 0xFF) ())) port)"
      "pic_clear_irq_mask 14 (hw_demo (\<lambda>_ _. 0xFF) ()) =
        (hw_demo (\<lambda>_ _. 0xFF) ())\<lparr>ports := ports (hw_demo (\<lambda>_ _. 0xFF) ()) @ [Inb port v, Outb port w]\<rparr>"
      "\<forall>n. bit w n \<longleftrightarrow> bit v n \<and> n \<noteq> unat (14 :: u8) mod 8" by metis
  have pv: "port = 0xA1" "v = 0xFF" using w(1,2) by (simp_all add: hw_demo_def demo_def)
  have "bit (0xFF :: u8) 7" "unat (14 :: u8) mod 8 = 6" by simp_all
  then have "\<not> bit w 6" "bit w 7" using w(4) by (simp_all only: pv) simp_all
  moreover have "ports (hw_demo (\<lambda>_ _. 0xFF) ()) = []" by (simp add: hw_demo_def demo_def)
  ultimately show ?thesis using w(3) by (intro exI [of _ w]) (simp only: pv append_Nil simp_thms)
qed

end
