(* ===== verification/Console.thy ===== *)
theory Console
  imports Machine Ring
begin

section \<open>Consoles and the keyboard\<close>

text \<open>
  \<^verbatim>\<open>kernel/con.c\<close> and \<^verbatim>\<open>kernel/kbd.c\<close>: up to eight virtual consoles in a doubly linked
  ring, of which one is shown; each keeps its screen in a page of kernel memory while it is
  not. The keyboard interrupt follows the modifier keys, switches between neighbours in the
  ring and wakes the reader of the shown console. Closing the last console runs the screen
  saver, a program that the loader starts: the operation that does so is an argument here.
  The second half shows that opening, closing and switching do to the ring what they do to
  a list of consoles with the shown one first, that no console loses its screen, and which
  keys the modifier state stands for.
\<close>

subsection \<open>The keyboard\<close>

abbreviation (input) KBD_CTRL_PORT :: u16 where "KBD_CTRL_PORT \<equiv> 0x64"
abbreviation (input) KBD_DATA_PORT :: u16 where "KBD_DATA_PORT \<equiv> 0x60"
abbreviation (input) KBD_SC_ESCAPE :: u8 where "KBD_SC_ESCAPE \<equiv> 0xe0"
abbreviation (input) KBD_SC_CTRL :: u8 where "KBD_SC_CTRL \<equiv> 0x1d"
abbreviation (input) KBD_SC_ALT :: u8 where "KBD_SC_ALT \<equiv> 0x38"
abbreviation (input) KBD_SC_LSHIFT :: u8 where "KBD_SC_LSHIFT \<equiv> 0x2a"
abbreviation (input) KBD_SC_RSHIFT :: u8 where "KBD_SC_RSHIFT \<equiv> 0x36"
abbreviation (input) KBD_SC_LEFT :: u8 where "KBD_SC_LEFT \<equiv> 0x4b"
abbreviation (input) KBD_SC_RIGHT :: u8 where "KBD_SC_RIGHT \<equiv> 0x4d"
abbreviation (input) KBD_MD_LCTRL :: u8 where "KBD_MD_LCTRL \<equiv> 1"
abbreviation (input) KBD_MD_LSHIFT :: u8 where "KBD_MD_LSHIFT \<equiv> 2"
abbreviation (input) KBD_MD_LALT :: u8 where "KBD_MD_LALT \<equiv> 4"
abbreviation (input) KBD_MD_RCTRL :: u8 where "KBD_MD_RCTRL \<equiv> 8"
abbreviation (input) KBD_MD_RSHIFT :: u8 where "KBD_MD_RSHIFT \<equiv> 16"
abbreviation (input) KBD_MD_RALT :: u8 where "KBD_MD_RALT \<equiv> 32"

text \<open>The tables: the characters of the keys from a scan code on; all others are 0.\<close>

definition keys :: "nat \<Rightarrow> u8 list \<Rightarrow> u8 list \<Rightarrow> u8 list" where
  "keys i cs t = fold (\<lambda>(j, c) t. t[i + j := c]) (enumerate 0 cs) t"

definition KBD_LOWER_MAP :: "u8 list" where
  "KBD_LOWER_MAP =
     (keys 0x01 [0x1B] \<circ> keys 0x02 (chars ''1234567890-='') \<circ> keys 0x0e [0x08, 0x09] \<circ>
      keys 0x10 (chars ''qwertyuiop[]'') \<circ> keys 0x1c [0x0A] \<circ>
      keys 0x1e (chars ''asdfghjkl;'') \<circ> keys 0x28 [0x27, 0x60] \<circ> keys 0x2b [0x5C] \<circ>
      keys 0x2c (chars ''zxcvbnm,./'') \<circ> keys 0x39 [0x20]) (replicate 256 0)"

definition KBD_UPPER_MAP :: "u8 list" where
  "KBD_UPPER_MAP =
     (keys 0x01 [0x1B] \<circ> keys 0x02 (chars ''!@#$%^&*()_+'') \<circ> keys 0x0e [0x08, 0x09] \<circ>
      keys 0x10 (chars ''QWERTYUIOP{}'') \<circ> keys 0x1c [0x0A] \<circ>
      keys 0x1e (chars ''ASDFGHJKL:'') \<circ> keys 0x28 [0x22, 0x7E] \<circ> keys 0x2b [0x7C] \<circ>
      keys 0x2c (chars ''ZXCVBNM<>?'') \<circ> keys 0x39 [0x20]) (replicate 256 0)"

record con_device = chardev +
  kbd_queue :: int
  con_buffer :: u32
  con_scr :: screen
  con_prev :: "nat option"
  con_next :: "nat option"

record con_state = hw_state +
  consoles :: "con_device list"
  current :: "nat option"
  screen_saver_path :: "u8 list"
  kbd_sc_buf :: u8
  kbd_md_state :: u8
  kbd_escaped :: bool
  kbd_char_buf :: u8

definition KBD_SHIFT_ON :: "'a con_state_scheme \<Rightarrow> bool" where
  "KBD_SHIFT_ON s \<longleftrightarrow> kbd_md_state s AND (KBD_MD_LSHIFT OR KBD_MD_RSHIFT) \<noteq> 0"

definition KBD_ALT_ON :: "'a con_state_scheme \<Rightarrow> bool" where
  "KBD_ALT_ON s \<longleftrightarrow> kbd_md_state s AND (KBD_MD_LALT OR KBD_MD_RALT) \<noteq> 0"

partial_function (option) wait_byte :: "'a con_state_scheme \<Rightarrow> 'a con_state_scheme option" where
  "wait_byte s = (case inb KBD_CTRL_PORT s of (ctrl, s) \<Rightarrow> if ctrl AND 1 = 0 then wait_byte s else Some s)"

text \<open>The modifier keys, and the character of any other key; then what a scan code does to the state.\<close>

definition press :: "u8 \<Rightarrow> 'a con_state_scheme \<Rightarrow> 'a con_state_scheme" where
  "press m s = s\<lparr>kbd_md_state := kbd_md_state s OR m\<rparr>"

definition release :: "u8 \<Rightarrow> 'a con_state_scheme \<Rightarrow> 'a con_state_scheme" where
  "release m s = s\<lparr>kbd_md_state := kbd_md_state s AND NOT m\<rparr>"

definition kbd_switch :: "u8 \<Rightarrow> 'a con_state_scheme \<Rightarrow> 'a con_state_scheme" where
  "kbd_switch sc s =
     (if sc = KBD_SC_ESCAPE then s\<lparr>kbd_escaped := True\<rparr>
      else if sc = KBD_SC_LSHIFT then press KBD_MD_LSHIFT s
      else if sc = KBD_SC_LSHIFT OR 0x80 then release KBD_MD_LSHIFT s
      else if sc = KBD_SC_RSHIFT then press KBD_MD_RSHIFT s
      else if sc = KBD_SC_RSHIFT OR 0x80 then release KBD_MD_RSHIFT s
      else if sc = KBD_SC_CTRL then press (if kbd_escaped s then KBD_MD_RCTRL else KBD_MD_LCTRL) s
      else if sc = KBD_SC_CTRL OR 0x80 then release (if kbd_escaped s then KBD_MD_RCTRL else KBD_MD_LCTRL) s
      else if sc = KBD_SC_ALT then press (if kbd_escaped s then KBD_MD_RALT else KBD_MD_LALT) s
      else if sc = KBD_SC_ALT OR 0x80 then release (if kbd_escaped s then KBD_MD_RALT else KBD_MD_LALT) s
      else if sc AND 0x80 = 0
      then s\<lparr>kbd_char_buf := (if KBD_SHIFT_ON s then KBD_UPPER_MAP else KBD_LOWER_MAP) ! unat sc\<rparr>
      else s)"

definition kbd_step :: "u8 \<Rightarrow> 'a con_state_scheme \<Rightarrow> 'a con_state_scheme" where
  "kbd_step sc s =
     (let s = kbd_switch sc (s\<lparr>kbd_sc_buf := sc, kbd_char_buf := 0\<rparr>)
      in if kbd_escaped s \<and> sc \<noteq> KBD_SC_ESCAPE then s\<lparr>kbd_escaped := False\<rparr> else s)"

definition update_kbd_state :: "'a con_state_scheme \<Rightarrow> 'a con_state_scheme" where
  "update_kbd_state s = (case inb KBD_DATA_PORT s of (sc, s) \<Rightarrow> kbd_step sc s)"

subsection \<open>Consoles\<close>

abbreviation (input) MAX_CONSOLES :: nat where "MAX_CONSOLES \<equiv> 8"

definition upd_con :: "nat \<Rightarrow> (con_device \<Rightarrow> con_device) \<Rightarrow> 'a con_state_scheme \<Rightarrow> 'a con_state_scheme" where
  "upd_con i f s = s\<lparr>consoles := (consoles s)[i := f (consoles s ! i)]\<rparr>"

definition init_keyboard :: "'a con_state_scheme \<Rightarrow> 'a con_state_scheme option" where
  "init_keyboard s = do {
     s \<leftarrow> debug_log (chars ''setting up keyboard'') s;
     let s = pic_clear_irq_mask 1 s;
     idt_register ISR_IRQ1 Keyboard_handler PL_KERNEL s
   }"

definition con_init :: "u8 list \<Rightarrow> 'a con_state_scheme \<Rightarrow> 'a con_state_scheme option" where
  "con_init saver s = do {
     s \<leftarrow> debug_log (chars ''initializing console'') s;
     let s = s\<lparr>consoles := map (\<lambda>c. c\<lparr>klass := CLASS_DEV_NONE\<rparr>) (consoles s)\<rparr>;
     let s = s\<lparr>current := None, screen_saver_path := saver\<rparr>;
     init_keyboard s
   }"

definition switch_console :: "nat \<Rightarrow> 'a con_state_scheme \<Rightarrow> 'a con_state_scheme" where
  "switch_console new_con s =
     (if current s = Some new_con then s
      else let
        s = (case current s of None \<Rightarrow> s
             | Some c \<Rightarrow> let s = memcpy vga_addr (con_buffer (consoles s ! c)) 4096 s
                 in upd_con c (\<lambda>x. x\<lparr>con_scr := vga_state s\<rparr>) s);
        s = s\<lparr>current := Some new_con\<rparr>;
        s = memcpy (con_buffer (consoles s ! new_con)) vga_addr 4096 s;
        s = s\<lparr>vga_state := con_scr (consoles s ! new_con)\<rparr>
      in on_screen vga_update_cursor s)"

definition add_console_after_current :: "nat \<Rightarrow> 'a con_state_scheme \<Rightarrow> 'a con_state_scheme option" where
  "add_console_after_current new_con s =
     (case current s of
        Some c \<Rightarrow> do {
          let s = upd_con new_con (\<lambda>x. x\<lparr>con_prev := Some c\<rparr>) s;
          let s = upd_con new_con (\<lambda>x. x\<lparr>con_next := con_next (consoles s ! c)\<rparr>) s;
          n \<leftarrow> con_next (consoles s ! c);
          let s = upd_con n (\<lambda>x. x\<lparr>con_prev := Some new_con\<rparr>) s;
          Some (upd_con c (\<lambda>x. x\<lparr>con_next := Some new_con\<rparr>) s)
        }
      | None \<Rightarrow> Some (upd_con new_con (\<lambda>x. x\<lparr>con_prev := Some new_con, con_next := Some new_con\<rparr>) s))"

definition remove_console :: "nat \<Rightarrow> 'a con_state_scheme \<Rightarrow> 'a con_state_scheme option" where
  "remove_console con s =
     (if \<not> (con_prev (consoles s ! con) = Some con \<and> con_next (consoles s ! con) = Some con) then do {
        p \<leftarrow> con_prev (consoles s ! con);
        let s = upd_con p (\<lambda>x. x\<lparr>con_next := con_next (consoles s ! con)\<rparr>) s;
        n \<leftarrow> con_next (consoles s ! con);
        Some (upd_con n (\<lambda>x. x\<lparr>con_prev := con_prev (consoles s ! con)\<rparr>) s)
      } else Some s)"

definition con_open :: "'a con_state_scheme \<Rightarrow> (dev_ptr option \<times> 'a con_state_scheme) option" where
  "con_open s =
     (let i = index_where (\<lambda>c. klass c = CLASS_DEV_NONE) (consoles s)
      in if i < length (consoles s) then do {
        (buffer, s) \<leftarrow> mm_mem_kalloc s;
        let s = upd_con i (\<lambda>c. c\<lparr>con_buffer := buffer\<rparr>) s;
        if buffer = 0 then Some (None, s)
        else do {
          let s = (if current s = None
                   then upd_con i (\<lambda>c. c\<lparr>con_scr := vga_state s\<rparr>) (memcpy vga_addr buffer 4096 s)
                   else upd_con i (\<lambda>c. c\<lparr>con_scr := \<lparr>scr_x = 0, scr_y = 0, scr_attr = VGA_BC_BLACK OR VGA_FC_WHITE\<rparr>\<rparr>)
                     (memset buffer 0 4096 s));
          let s = upd_con i (\<lambda>c. c\<lparr>kbd_queue := FREE_QUEUE\<rparr>) s;
          let s = upd_con i (\<lambda>c. c\<lparr>klass := CLASS_DEV_CONSOLE, refcount := 0, dv_flush := Some Con_flush,
                dv_read := Some Con_read, dv_write := Some Con_write, dv_seek := None\<rparr>) s;
          s \<leftarrow> add_console_after_current i s;
          Some (Some (Con_dev i), switch_console i s)
        }
      } else Some (None, s))"

text \<open>
  \<^verbatim>\<open>copy2user(&kbd_char_buf, buf, 1)\<close>: a single byte to the process, from a variable of
  the kernel. The value returned is ignored.
\<close>

definition put_user_char :: "u8 \<Rightarrow> u32 \<Rightarrow> 'a mm_state_scheme \<Rightarrow> 'a mm_state_scheme option" where
  "put_user_char c dst s = do {
     pdt \<leftarrow> cur_pdt s;
     pl \<leftarrow> mm_pl_of_vaddr dst pdt s;
     if pl = PL_KERNEL then Some s
     else do {
       a \<leftarrow> user_phys dst s;
       Some (s\<lparr>phys := (phys s)(a := c)\<rparr>)
     }
   }"

text \<open>
  The loop of \<^verbatim>\<open>con_read\<close> with \<open>sz\<close> characters done: every round begins with
  \<^verbatim>\<open>loader_enqueue\<close>, so the reader blocks, and goes on in \<open>con_read_resume\<close> when the
  keyboard wakes it.
\<close>

definition con_read_from :: "nat \<Rightarrow> u32 \<Rightarrow> u32 \<Rightarrow> 'a con_state_scheme \<Rightarrow> (io \<times> 'a con_state_scheme) option" where
  "con_read_from self sz0 sz s =
     (if sz < sz0 then do {
        (q, s) \<leftarrow> loader_enqueue (kbd_queue (consoles s ! self)) s;
        Some (Blocked sz, upd_con self (\<lambda>c. c\<lparr>kbd_queue := q\<rparr>) s)
      } else Some (Done (sint sz), s))"

definition con_read :: "nat \<Rightarrow> u32 \<Rightarrow> u32 \<Rightarrow> 'a con_state_scheme \<Rightarrow> (io \<times> 'a con_state_scheme) option" where
  "con_read self buf sz0 s = con_read_from self sz0 0 s"

definition con_read_resume :: "nat \<Rightarrow> u32 \<Rightarrow> u32 \<Rightarrow> u32 \<Rightarrow> 'a con_state_scheme \<Rightarrow> (io \<times> 'a con_state_scheme) option" where
  "con_read_resume self buf sz0 sz s =
     (if kbd_char_buf s \<noteq> 0 then do {
        s \<leftarrow> put_user_char (kbd_char_buf s) buf s;
        con_read_from self sz0 (sz + 1) s
      } else con_read_from self sz0 sz s)"

text \<open>The bytes of the caller's buffer, read through the page tables of the running process.\<close>

definition user_byte :: "u32 \<Rightarrow> 'a mm_state_scheme \<Rightarrow> u8 option" where
  "user_byte v s = map_option (phys s) (user_phys v s)"

definition con_write :: "nat \<Rightarrow> u32 \<Rightarrow> u32 \<Rightarrow> 'a con_state_scheme \<Rightarrow> (io \<times> 'a con_state_scheme) option" where
  "con_write self buf sz0 s =
     (if current s = Some self then do {
        (sz, d) \<leftarrow> vga_writebuf vga_addr (\<lambda>i. user_byte (buf + i) s) sz0 (display_of s);
        Some (Done sz, show_display (vga_update_cursor d) s)
      } else do {
        (sz, d) \<leftarrow> vga_writebuf (con_buffer (consoles s ! self)) (\<lambda>i. user_byte (buf + i) s) sz0
          \<lparr>scr = con_scr (consoles s ! self), vmem = phys s, outs = []\<rparr>;
        Some (Done sz, upd_con self (\<lambda>c. c\<lparr>con_scr := scr d\<rparr>)
          (s\<lparr>phys := vmem d, ports := ports s @ map (\<lambda>(p, v). Outb p v) (outs d)\<rparr>))
      })"

definition run_screen_saver :: "(u8 list \<Rightarrow> 'a con_state_scheme \<Rightarrow> (int \<times> 'a con_state_scheme) option) \<Rightarrow>
    'a con_state_scheme \<Rightarrow> 'a con_state_scheme option" where
  "run_screen_saver run s = do {
     let s = on_screen vga_clear s;
     let s = on_screen vga_reset_pos s;
     let s = on_screen vga_reset_colors s;
     (_, s) \<leftarrow> run (screen_saver_path s) s;
     Some s
   }"

definition con_flush :: "(u8 list \<Rightarrow> 'a con_state_scheme \<Rightarrow> (int \<times> 'a con_state_scheme) option) \<Rightarrow>
    nat \<Rightarrow> 'a con_state_scheme \<Rightarrow> (u32 \<times> 'a con_state_scheme) option" where
  "con_flush run self s = do {
     s \<leftarrow> remove_console self s;
     s \<leftarrow> (if current s = Some self then do {
             let s = s\<lparr>current := None\<rparr>;
             if con_prev (consoles s ! self) = Some self \<and> con_next (consoles s ! self) = Some self
             then run_screen_saver run s
             else do {
               p \<leftarrow> con_prev (consoles s ! self);
               Some (switch_console p s)
             }
           } else Some s);
     s \<leftarrow> mm_mem_free (con_buffer (consoles s ! self)) s;
     Some (0, upd_con self (\<lambda>c. c\<lparr>klass := CLASS_DEV_NONE\<rparr>) s)
   }"

definition keyboard_handler :: "'a con_state_scheme \<Rightarrow> 'a con_state_scheme option" where
  "keyboard_handler s =
     (case current s of
        None \<Rightarrow> Some s
      | Some c \<Rightarrow> do {
          s \<leftarrow> wait_byte s;
          let s = update_kbd_state s;
          if KBD_ALT_ON s \<and> KBD_SHIFT_ON s \<and> kbd_sc_buf s = KBD_SC_LEFT then do {
            p \<leftarrow> con_prev (consoles s ! c);
            Some (switch_console p s)
          } else if KBD_ALT_ON s \<and> KBD_SHIFT_ON s \<and> kbd_sc_buf s = KBD_SC_RIGHT then do {
            n \<leftarrow> con_next (consoles s ! c);
            Some (switch_console n s)
          } else if kbd_queue (consoles s ! c) \<noteq> FREE_QUEUE then do {
            (q, s) \<leftarrow> loader_unqueue (kbd_queue (consoles s ! c)) s;
            Some (upd_con c (\<lambda>x. x\<lparr>kbd_queue := q\<rparr>) s)
          } else Some s
        })"


subsection \<open>The ring of consoles\<close>

definition c_nxt :: "con_device list \<Rightarrow> nat \<Rightarrow> nat option" where
  "c_nxt cs i = (if i < length cs then con_next (cs ! i) else None)"

definition c_prv :: "con_device list \<Rightarrow> nat \<Rightarrow> nat option" where
  "c_prv cs i = (if i < length cs then con_prev (cs ! i) else None)"

definition set_c_nxt :: "nat \<Rightarrow> nat option \<Rightarrow> con_device list \<Rightarrow> con_device list" where
  "set_c_nxt i v cs = cs[i := (cs ! i)\<lparr>con_next := v\<rparr>]"

definition set_c_prv :: "nat \<Rightarrow> nat option \<Rightarrow> con_device list \<Rightarrow> con_device list" where
  "set_c_prv i v cs = cs[i := (cs ! i)\<lparr>con_prev := v\<rparr>]"

lemmas c_link_defs = c_nxt_def c_prv_def set_c_nxt_def set_c_prv_def

interpretation cl: ring_store c_nxt c_prv set_c_nxt set_c_prv "\<lambda>cs i. i < length cs"
  by unfold_locales (auto simp: c_link_defs nth_list_update_field nth_list_update)

text \<open>
  \<open>con_ok s xs\<close>: the consoles in use are \<open>xs\<close>, linked in this order, the first one is
  shown, and each has a page of its own for its screen.
\<close>

definition con_ring :: "'a con_state_scheme \<Rightarrow> nat list \<Rightarrow> bool" where
  "con_ring s xs \<longleftrightarrow>
     ring_links (c_nxt (consoles s)) (c_prv (consoles s)) xs \<and> (\<forall>i\<in>set xs. i < length (consoles s)) \<and>
     (\<forall>i\<in>set xs. aligned (con_buffer (consoles s ! i)) \<and> con_buffer (consoles s ! i) \<noteq> vga_addr) \<and>
     inj_on (\<lambda>i. con_buffer (consoles s ! i)) (set xs)"

definition con_ok :: "'a con_state_scheme \<Rightarrow> nat list \<Rightarrow> bool" where
  "con_ok s xs \<longleftrightarrow> con_ring s xs \<and> set xs = {i. i < length (consoles s) \<and> klass (consoles s ! i) \<noteq> CLASS_DEV_NONE} \<and>
     current s = (case xs of [] \<Rightarrow> None | x # _ \<Rightarrow> Some x)"

lemma con_okD:
  assumes "con_ok s (c # xs)"
  shows "current s = Some c" "c < length (consoles s)" "distinct (c # xs)"
    "con_next (consoles s ! c) = Some (hd (xs @ [c]))" "con_prev (consoles s ! c) = Some (last (c # xs))"
proof -
  note r = assms [unfolded con_ok_def con_ring_def]
  show "current s = Some c" "c < length (consoles s)" using r by auto
  show "distinct (c # xs)" using r ring_links_distinct by blast
  have n: "c_nxt (consoles s) c = Some (hd (xs @ [c]))"
    using r ring_links_next [of "c_nxt (consoles s)" "c_prv (consoles s)" "c # xs" 0] by (cases xs) auto
  have p: "c_prv (consoles s) c = Some (last (c # xs))"
    using r ring_links_hd [of "c_nxt (consoles s)" "c_prv (consoles s)" "c # xs"] by simp
  show "con_next (consoles s ! c) = Some (hd (xs @ [c]))" "con_prev (consoles s ! c) = Some (last (c # xs))"
    using n p \<open>c < length (consoles s)\<close> by (simp_all add: c_nxt_def c_prv_def)
qed

text \<open>What a console shows, or would show if it were the shown one: its page and its cursor and colours.\<close>

definition con_page :: "nat \<Rightarrow> 'a con_state_scheme \<Rightarrow> u8 list" where
  "con_page i s = bytes_at (if current s = Some i then vga_addr else con_buffer (consoles s ! i)) 4096 (phys s)"

definition con_view :: "nat \<Rightarrow> 'a con_state_scheme \<Rightarrow> screen" where
  "con_view i s = (if current s = Some i then vga_state s else con_scr (consoles s ! i))"

text \<open>The page of a console after the cursor has been shown on it.\<close>

definition with_cursor :: "screen \<Rightarrow> u8 list \<Rightarrow> u8 list" where
  "with_cursor st page = page[2 * scr_pos st := ucast WHITE_SPACE, Suc (2 * scr_pos st) := ucast (drop_bit 8 WHITE_SPACE)]"

lemma pages_disjoint: "aligned a \<Longrightarrow> aligned b \<Longrightarrow> a \<noteq> b \<Longrightarrow> region a 4096 \<inter> region b 4096 = {}"
proof -
  assume al: "aligned a" "aligned b" "a \<noteq> b"
  have "page_of x = a" if "x \<in> region a 4096" "aligned a" for x a
    using page_region(2) [of a 0 4096 x] that by simp
  then show ?thesis using al by blast
qed

lemma bytes_at_memcpy:
  assumes "aligned a" "aligned b" "a \<noteq> b" "aligned c"
  shows "bytes_at c 4096 (memcpy_bytes 4096 a b m) = bytes_at (if c = b then a else c) 4096 m"
proof (cases "c = b")
  case True
  then show ?thesis using memcpy_bytes_copies [of 4096 a b m] pages_disjoint [OF assms(1-3)] by simp
next
  case False
  have "bytes_at c 4096 (memcpy_bytes 4096 a b m) = bytes_at c 4096 m"
    by (rule bytes_at_cong, rule memcpy_bytes_region) (use pages_disjoint [OF assms(4,2) False] in auto)
  then show ?thesis using False by simp
qed

lemma vga_aligned: "aligned vga_addr"
  by (simp add: aligned_def)

lemma bytes_at_cursor:
  assumes ok: "scr_ok (scr d)"
  shows "bytes_at vga_addr 4096 (vmem (vga_update_cursor d)) = with_cursor (scr d) (bytes_at vga_addr 4096 (vmem d))"
    "aligned c \<Longrightarrow> c \<noteq> vga_addr \<Longrightarrow> bytes_at c 4096 (vmem (vga_update_cursor d)) = bytes_at c 4096 (vmem d)"
proof -
  let ?p = "scr_pos (scr d)"
  have p: "?p < 2000" by (rule scr_pos_parts(1) [OF ok])
  have v: "vmem (vga_update_cursor d) = st16 (vga_addr + 2 * of_nat ?p) WHITE_SPACE (vmem d)"
    by (simp add: vga_update_cursor_def outb_def put_cell_def Let_def location_pos)
  have a: "vga_addr + 2 * of_nat ?p = vga_addr + of_nat (2 * ?p)" "vga_addr + 2 * of_nat ?p + 1 = vga_addr + of_nat (Suc (2 * ?p))"
    by (simp_all add: ac_simps)
  have e: "vga_addr + of_nat i = vga_addr + (of_nat j :: u32) \<longleftrightarrow> i = j" if "i < 4096" "j < 4096" for i j
    using that by (simp add: of_nat_inj_small)
  show "bytes_at vga_addr 4096 (vmem (vga_update_cursor d)) = with_cursor (scr d) (bytes_at vga_addr 4096 (vmem d))"
  proof (rule nth_equalityI)
    fix i assume "i < length (bytes_at vga_addr 4096 (vmem (vga_update_cursor d)))"
    then have "i < 4096" by simp
    then show "bytes_at vga_addr 4096 (vmem (vga_update_cursor d)) ! i = with_cursor (scr d) (bytes_at vga_addr 4096 (vmem d)) ! i"
      using p e [of i "2 * ?p"] e [of i "Suc (2 * ?p)"] unfolding v st16_def a
      by (simp add: bytes_at_def with_cursor_def nth_list_update)
  qed (simp add: with_cursor_def)
  show "bytes_at c 4096 (vmem (vga_update_cursor d)) = bytes_at c 4096 (vmem d)" if "aligned c" "c \<noteq> vga_addr"
  proof (rule bytes_at_cong)
    fix x assume "x \<in> region c 4096"
    then have "x \<notin> region vga_addr 4096" using pages_disjoint [OF that(1) vga_aligned that(2)] by blast
    moreover have "region vga_addr 4000 \<subseteq> region vga_addr 4096" by (auto simp: region_def)
    ultimately show "vmem (vga_update_cursor d) x = vmem d x" using cursor_terminal(2) [OF ok] by blast
  qed
qed


subsection \<open>Switching\<close>

lemma c_links_upd:
  assumes "\<And>x. con_next (f x) = con_next x" "\<And>x. con_prev (f x) = con_prev x"
  shows "c_nxt (consoles (upd_con i f s)) = c_nxt (consoles s)" "c_prv (consoles (upd_con i f s)) = c_prv (consoles s)"
  using assms by (auto simp: fun_eq_iff c_nxt_def c_prv_def upd_con_def nth_list_update_field)

lemma upd_con_fields [simp]:
  "current (upd_con i f s) = current s" "phys (upd_con i f s) = phys s" "vga_state (upd_con i f s) = vga_state s"
  "ports (upd_con i f s) = ports s" "length (consoles (upd_con i f s)) = length (consoles s)"
  by (simp_all add: upd_con_def)

lemma consoles_upd_con: "i < length (consoles s) \<Longrightarrow> consoles (upd_con i f s) ! j = (if j = i then f (consoles s ! i) else consoles s ! j)"
  by (simp add: upd_con_def nth_list_update)

text \<open>The pages and the cursors of all consoles before and after a switch to \<open>d\<close>.\<close>

definition views_kept :: "nat \<Rightarrow> nat set \<Rightarrow> 'a con_state_scheme \<Rightarrow> 'a con_state_scheme \<Rightarrow> bool" where
  "views_kept d is s s' \<longleftrightarrow>
     (\<forall>i\<in>is. con_view i s' = con_view i s \<and>
       con_page i s' = (if i = d \<and> current s \<noteq> Some d then with_cursor (con_view d s) (con_page d s) else con_page i s))"

lemma switch_console_ring:
  assumes ok: "con_ring s xs" and cur: "\<And>c. current s = Some c \<Longrightarrow> c \<in> set xs"
    and xs: "xs = us @ d # vs" and st: "scr_ok (con_view d s)" and ne: "current s \<noteq> Some d"
  shows "con_ring (switch_console d s) (d # vs @ us) \<and> views_kept d (set xs) s (switch_console d s) \<and>
    current (switch_console d s) = Some d \<and> length (consoles (switch_console d s)) = length (consoles s) \<and>
    (\<forall>i. klass (consoles (switch_console d s) ! i) = klass (consoles s ! i) \<and>
       con_buffer (consoles (switch_console d s) ! i) = con_buffer (consoles s ! i))"
proof -
  let ?cs = "consoles s" and ?b = "\<lambda>i. con_buffer (consoles s ! i)" and ?xs = "set xs"
  have len: "i < length ?cs" and al: "aligned (?b i)" "?b i \<noteq> vga_addr" if "i \<in> ?xs" for i
    using that ok by (auto simp: con_ring_def)
  have inj: "i \<in> ?xs \<Longrightarrow> j \<in> ?xs \<Longrightarrow> ?b i = ?b j \<longleftrightarrow> i = j" for i j using ok by (auto simp: con_ring_def inj_on_def)
  have d: "d \<in> ?xs" by (simp add: xs)
  define m1 where "m1 = (case current s of None \<Rightarrow> phys s | Some c \<Rightarrow> memcpy_bytes 4096 vga_addr (?b c) (phys s))"
  define cs' where "cs' = (case current s of None \<Rightarrow> ?cs | Some c \<Rightarrow> ?cs[c := (?cs ! c)\<lparr>con_scr := vga_state s\<rparr>])"
  define m2 where "m2 = memcpy_bytes 4096 (?b d) vga_addr m1"
  have same: "con_buffer (cs' ! i) = ?b i" "klass (cs' ! i) = klass (?cs ! i)" "length cs' = length ?cs" for i
    by (simp_all add: cs'_def nth_list_update_field split: option.split)
  have links: "c_nxt cs' = c_nxt ?cs" "c_prv cs' = c_prv ?cs"
    by (auto simp: fun_eq_iff c_nxt_def c_prv_def cs'_def nth_list_update_field split: option.split)
  have scr1: "con_scr (cs' ! i) = con_view i s" if "i \<in> ?xs" for i
    using len [OF that] len [OF cur] by (cases "current s") (auto simp: con_view_def cs'_def nth_list_update)
  have page1: "bytes_at (?b i) 4096 m1 = con_page i s" if "i \<in> ?xs" for i
  proof (cases "current s")
    case (Some c)
    have c: "c \<in> ?xs" by (rule cur [OF Some])
    show ?thesis
      using bytes_at_memcpy [OF vga_aligned al(1) [OF c] al(2) [OF c, symmetric] al(1) [OF that], of "phys s"] inj [OF that c] Some
      by (simp add: m1_def con_page_def)
  qed (simp add: m1_def con_page_def)
  define D where "D = \<lparr>scr = con_view d s, vmem = m2, outs = []\<rparr>"
  have ok': "scr_ok (scr D)" using st by (simp add: D_def)
  note cu = bytes_at_cursor [OF ok']
  have s': "consoles (switch_console d s) = cs'" "current (switch_console d s) = Some d"
    "phys (switch_console d s) = vmem (vga_update_cursor D)" "vga_state (switch_console d s) = con_view d s"
    using ne scr1 [OF d] same(1) [of d] cursor_terminal(3) [OF ok']
    by (cases "current s"; simp add: switch_console_def Let_def upd_con_def memcpy_def on_screen_def show_display_def
        display_of_def D_def m2_def m1_def cs'_def)+
  have page2: "bytes_at vga_addr 4096 m2 = con_page d s" "i \<in> ?xs \<Longrightarrow> bytes_at (?b i) 4096 m2 = con_page i s" for i
    using bytes_at_memcpy [OF al(1) [OF d] vga_aligned al(2) [OF d] vga_aligned, of m1] page1 [OF d]
      bytes_at_memcpy [OF al(1) [OF d] vga_aligned al(2) [OF d] al(1), of i m1] page1 [of i] al(2) [of i]
    by (simp_all add: m2_def)
  have "con_view i (switch_console d s) = con_view i s" if "i \<in> ?xs" for i
    using scr1 [OF that] by (cases "i = d") (simp_all add: con_view_def [of _ "switch_console d s"] s')
  moreover have "con_page i (switch_console d s) =
      (if i = d \<and> current s \<noteq> Some d then with_cursor (con_view d s) (con_page d s) else con_page i s)" if i: "i \<in> ?xs" for i
  proof (cases "i = d")
    case True
    then show ?thesis using ne cu(1) page2(1) by (simp add: con_page_def [of _ "switch_console d s"] s') (simp add: D_def)
  next
    case False
    then show ?thesis using cu(2) [OF al [OF i]] page2(2) [OF i] by (simp add: con_page_def [of _ "switch_console d s"] s' same) (simp add: D_def)
  qed
  ultimately have v: "views_kept d ?xs s (switch_console d s)" by (simp add: views_kept_def)
  have "ring_links (c_nxt ?cs) (c_prv ?cs) (d # vs @ us)"
    using ok ring_links_swap [of _ _ us "d # vs"] by (simp add: con_ring_def xs)
  moreover have "set (d # vs @ us) = set xs" by (auto simp: xs)
  ultimately have "con_ring (switch_console d s) (d # vs @ us)"
    using ok unfolding con_ring_def s' same links by (elim conjE) (intro conjI; simp only:)
  with v s'(1,2) same show ?thesis by simp
qed

lemma switch_console_ok:
  assumes ok: "con_ok s xs" and xs: "xs = us @ d # vs" and st: "scr_ok (con_view d s)"
  shows "con_ok (switch_console d s) (d # vs @ us) \<and> views_kept d (set xs) s (switch_console d s)"
proof (cases "current s = Some d")
  case True
  have "distinct xs" using ok ring_links_distinct unfolding con_ok_def con_ring_def by blast
  then have "us = []" using True ok by (cases us) (auto simp: xs con_ok_def)
  then show ?thesis using True ok by (simp add: xs switch_console_def views_kept_def)
next
  case False
  have "c \<in> set xs" if "current s = Some c" for c using ok that by (cases xs) (auto simp: con_ok_def)
  then have "con_ring (switch_console d s) (d # vs @ us) \<and> views_kept d (set xs) s (switch_console d s) \<and>
      current (switch_console d s) = Some d \<and> length (consoles (switch_console d s)) = length (consoles s) \<and>
      (\<forall>i. klass (consoles (switch_console d s) ! i) = klass (consoles s ! i) \<and>
         con_buffer (consoles (switch_console d s) ! i) = con_buffer (consoles s ! i))"
    by (intro switch_console_ring [OF _ _ xs st False]) (use ok in \<open>simp_all add: con_ok_def\<close>)
  moreover have "set (d # vs @ us) = set xs" by (auto simp: xs)
  ultimately show ?thesis using ok unfolding con_ok_def by simp
qed

subsection \<open>The keyboard interrupt\<close>

lemma wait_byte_ports: assumes "wait_byte s = Some s'" shows "\<exists>p. s' = s\<lparr>ports := p\<rparr>"
proof (rule wait_byte.raw_induct [OF _ assms])
  fix wb and s s' :: "'a con_state_scheme"
  assume IH: "\<And>s s'. wb s = Some s' \<Longrightarrow> \<exists>p. s' = s\<lparr>ports := p\<rparr>"
    and w: "(case inb KBD_CTRL_PORT s of (ctrl, s) \<Rightarrow> if ctrl AND 1 = 0 then wb s else Some s) = Some s'"
  let ?s = "s\<lparr>ports := ports s @ [Inb KBD_CTRL_PORT (ucast (hardware s (ports s) KBD_CTRL_PORT))]\<rparr>"
  have "wb ?s = Some s' \<or> s' = ?s" using w by (auto simp: inb_def Let_def split: if_splits)
  then show "\<exists>p. s' = s\<lparr>ports := p\<rparr>" using IH [of ?s s'] by auto
qed

lemma kbd_switch_fields [simp]:
  "consoles (kbd_switch sc s) = consoles s" "current (kbd_switch sc s) = current s"
  "vga_state (kbd_switch sc s) = vga_state s" "phys (kbd_switch sc s) = phys s" "kbd_sc_buf (kbd_switch sc s) = kbd_sc_buf s"
  by (simp_all add: kbd_switch_def press_def release_def)

lemma kbd_step_fields [simp]:
  "consoles (kbd_step sc s) = consoles s" "current (kbd_step sc s) = current s" "vga_state (kbd_step sc s) = vga_state s"
  "phys (kbd_step sc s) = phys s" "kbd_sc_buf (kbd_step sc s) = sc"
  by (simp_all add: kbd_step_def Let_def)

lemma update_kbd_fields [simp]:
  "consoles (update_kbd_state s) = consoles s" "current (update_kbd_state s) = current s"
  "vga_state (update_kbd_state s) = vga_state s" "phys (update_kbd_state s) = phys s"
  by (simp_all add: update_kbd_state_def inb_def Let_def)


lemma con_same:
  assumes "consoles s' = consoles s" "current s' = current s"
  shows "con_ok s' xs = con_ok s xs" "con_ring s' xs = con_ring s xs"
    "vga_state s' = vga_state s \<Longrightarrow> con_view i s' = con_view i s"
    "phys s' = phys s \<Longrightarrow> con_page i s' = con_page i s"
  using assms by (simp_all add: con_ok_def con_ring_def con_view_def con_page_def)

text \<open>C19: With Alt and a shift key held, the left and right arrow keys turn the ring of consoles one
  place: the neighbour on that side is shown, with its own cursor and its own screen, on
  which the cursor reappears; all other consoles keep their screens and cursors, the one
  that was shown included, and the ring stays well linked.\<close>

theorem keyboard_handler_switches:
  assumes ok: "con_ok s (c # cs)" and w: "wait_byte s = Some s1" and u: "s2 = update_kbd_state s1"
    and "KBD_ALT_ON s2" and "KBD_SHIFT_ON s2" and k: "kbd_sc_buf s2 \<in> {KBD_SC_LEFT, KBD_SC_RIGHT}"
    and ys: "ys = (if kbd_sc_buf s2 = KBD_SC_LEFT then last (c # cs) # butlast (c # cs) else cs @ [c])"
    and st: "scr_ok (con_view (hd ys) s)"
  shows "\<exists>s'. keyboard_handler s = Some s' \<and> con_ok s' ys \<and> views_kept (hd ys) (set (c # cs)) s s'"
proof -
  have f: "consoles s2 = consoles s" "current s2 = current s" "vga_state s2 = vga_state s" "phys s2 = phys s"
    using wait_byte_ports [OF w] u by auto
  note same = con_same [OF f(1,2)]
  have ok2: "con_ok s2 (c # cs)" using ok same by simp
  note D = con_okD [OF ok]
  have h: "keyboard_handler s = Some (switch_console (hd ys) s2)"
  proof (cases "kbd_sc_buf s2 = KBD_SC_LEFT")
    case True
    then show ?thesis using D assms(2-5) f by (simp add: keyboard_handler_def ys)
  next
    case False
    then have "kbd_sc_buf s2 = KBD_SC_RIGHT" using k by simp
    moreover have "hd ys = hd (cs @ [c])" using False by (simp add: ys)
    ultimately show ?thesis using D assms(2-5) f by (simp add: keyboard_handler_def)
  qed
  have st2: "scr_ok (con_view (hd ys) s2)" using st same(3) f by simp
  have "con_ok (switch_console (hd ys) s2) ys \<and> views_kept (hd ys) (set (c # cs)) s2 (switch_console (hd ys) s2)"
  proof (cases "kbd_sc_buf s2 = KBD_SC_LEFT")
    case True
    then have y: "ys = last (c # cs) # butlast (c # cs)" "c # cs = butlast (c # cs) @ last (c # cs) # []" by (simp_all add: ys)
    then show ?thesis using switch_console_ok [OF ok2 y(2)] st2 by simp
  next
    case False
    then have y: "ys = cs @ [c]" by (simp add: ys)
    show ?thesis
    proof (cases cs)
      case Nil
      then show ?thesis using switch_console_ok [OF ok2, of "[]" c "[]"] st2 y by simp
    next
      case (Cons d ds)
      then show ?thesis using switch_console_ok [OF ok2, of "[c]" d ds] st2 y by simp
    qed
  qed
  moreover have "views_kept d is s2 s' = views_kept d is s s'" for d "is" and s' :: "'a con_state_scheme"
    using same(3,4) f by (simp add: views_kept_def)
  ultimately show ?thesis using h by blast
qed


subsection \<open>Opening a console\<close>

text \<open>Linking a new console behind the shown one.\<close>

lemma add_console_ring:
  assumes r: "ring_links (c_nxt (consoles s)) (c_prv (consoles s)) (c # cs)" and cur: "current s = Some c"
    and v: "\<forall>i\<in>set (c # cs). i < length (consoles s)" "n < length (consoles s)" "n \<notin> set (c # cs)"
  shows "\<exists>cs'. add_console_after_current n s = Some (s\<lparr>consoles := cs'\<rparr>) \<and> length cs' = length (consoles s) \<and>
    ring_links (c_nxt cs') (c_prv cs') (c # n # cs) \<and>
    (\<forall>i. klass (cs' ! i) = klass (consoles s ! i) \<and> con_buffer (cs' ! i) = con_buffer (consoles s ! i) \<and>
       con_scr (cs' ! i) = con_scr (consoles s ! i))"
proof -
  let ?C = "consoles s" and ?h = "hd (cs @ [c])"
  have h: "?h \<in> set (c # cs)" by (cases cs) auto
  have nx: "con_next (?C ! c) = Some ?h"
    using ring_links_next [OF r, of 0] v(1) by (cases cs) (auto simp: c_nxt_def)
  define cs' where "cs' = (((?C[n := (?C ! n)\<lparr>con_prev := Some c, con_next := Some ?h\<rparr>])
      [?h := (?C ! ?h)\<lparr>con_prev := Some n\<rparr>]))[c := (if ?h = c then (?C ! c)\<lparr>con_prev := Some n, con_next := Some n\<rparr> else (?C ! c)\<lparr>con_next := Some n\<rparr>)]"
  have ne: "n \<noteq> c" "n \<noteq> ?h" using v(3) h by auto
  have lt: "c < length ?C" "?h < length ?C" using v(1) h by auto
  have add: "add_console_after_current n s = Some (s\<lparr>consoles := cs'\<rparr>)"
    using cur nx ne lt v(2) by (simp add: add_console_after_current_def upd_con_def nth_list_update cs'_def list_update_swap)
  let ?xs = "cs @ [c]"
  have r': "ring_links (c_nxt ?C) (c_prv ?C) ?xs" using r ring_links_swap [of _ _ "[c]" cs] by simp
  define C' where "C' = set_c_prv (hd ?xs) (Some n) (set_c_nxt (last ?xs) (Some n)
              (set_c_prv n (Some (last ?xs)) (set_c_nxt n (Some (hd ?xs)) ?C)))"
  have "ring_links (c_nxt C') (c_prv C') (?xs @ [n])"
    by (rule cl.link_last [OF r' _ _ _ _ C'_def]) (use v in auto)
  moreover have "c_nxt cs' j = c_nxt C' j" "c_prv cs' j = c_prv C' j" for j
    using ne lt v(2) by (auto simp: cs'_def C'_def c_link_defs nth_list_update)
  ultimately have "ring_links (c_nxt cs') (c_prv cs') (cs @ [c, n])" by (simp add: fun_eq_iff [symmetric, abs_def] ring_links_def)
  then have "ring_links (c_nxt cs') (c_prv cs') (c # n # cs)" using ring_links_swap [of _ _ cs "[c, n]"] by simp
  moreover have "klass (cs' ! i) = klass (?C ! i) \<and> con_buffer (cs' ! i) = con_buffer (?C ! i) \<and> con_scr (cs' ! i) = con_scr (?C ! i)" for i
    using ne lt v(2) by (simp add: cs'_def nth_list_update)
  ultimately show ?thesis using add by (intro exI [of _ cs']) (simp add: cs'_def)
qed

lemma taken_frame_page:
  assumes "frames_ok s" "f \<in> taken_frames s \<or> f \<in> frames r s"
  shows "aligned f" "f \<noteq> vga_addr"
proof -
  obtain p where p: "f = frame_at p" "0 \<le> p" "p < 524288"
    using assms zone_bits_range [OF assms(1)] by (auto simp: taken_frames_def frames_def frames_ok_def)
  show "aligned f" using p by (simp add: aligned_def)
  show "f \<noteq> vga_addr"
  proof
    assume "f = vga_addr"
    then have "uint (vga_addr :: u32) = HIMEM_BEGIN + p * PAGE_SIZE" using frame_at_uint [OF p(2,3)] p(1) by simp
    then show False using p(2) by simp
  qed
qed


text \<open>The new console before it is linked: \<open>dev\<close> in slot \<open>n\<close>, its page filled.\<close>

lemma con_open_eq:
  assumes n: "n = index_where (\<lambda>c. klass c = CLASS_DEV_NONE) (consoles s)" "n < length (consoles s)"
    and f: "mm_mem_kalloc s = Some (f, s\<lparr>mm_bitmap := b\<rparr>)" "f \<noteq> 0"
    and dev: "dev = (consoles s ! n)\<lparr>con_buffer := f, con_scr := st, kbd_queue := FREE_QUEUE, klass := CLASS_DEV_CONSOLE,
      refcount := 0, dv_flush := Some Con_flush, dv_read := Some Con_read, dv_write := Some Con_write, dv_seek := None\<rparr>"
    and st: "st = (if current s = None then vga_state s else \<lparr>scr_x = 0, scr_y = 0, scr_attr = 7\<rparr>)"
    and m: "m = (if current s = None then memcpy_bytes 4096 vga_addr f (phys s) else memset_bytes 4096 f 0 (phys s))"
  shows "con_open s = Option.bind (add_console_after_current n (s\<lparr>mm_bitmap := b, phys := m, consoles := (consoles s)[n := dev]\<rparr>))
    (\<lambda>s. Some (Some (Con_dev n), switch_console n s))"
proof -
  have r: "\<lparr>scr_x = 0, scr_y = 0, scr_attr = 0 OR 7\<rparr> = \<lparr>scr_x = 0, scr_y = 0, scr_attr = 7\<rparr>" by simp
  show ?thesis
    using n f by (cases "current s") (simp_all add: con_open_def upd_con_def memcpy_def memset_def dev st m Let_def flip: n(1))
qed

lemma con_open_linked:
  assumes ok: "con_ok s xs" and fr: "frames_ok s" "\<forall>i\<in>set xs. con_buffer (consoles s ! i) \<in> taken_frames s"
    and n: "n < length (consoles s)" "klass (consoles s ! n) = CLASS_DEV_NONE" and f: "f \<notin> taken_frames s" "f \<in> frames MM_REQUEST_KERNEL s"
    and dev: "klass dev = CLASS_DEV_CONSOLE" "con_buffer dev = f" "con_scr dev = st"
    and m: "\<And>x. x \<notin> region f 4096 \<Longrightarrow> m x = phys s x"
    and s1: "s1 = s\<lparr>mm_bitmap := b, phys := m, consoles := (consoles s)[n := dev]\<rparr>"
  shows "\<exists>s2. add_console_after_current n s1 = Some s2 \<and> con_ring s2 (case xs of [] \<Rightarrow> [n] | c # cs \<Rightarrow> c # n # cs) \<and>
    n \<notin> set xs \<and> current s2 = current s \<and> con_view n s2 = st \<and> con_page n s2 = bytes_at f 4096 m \<and>
    set (n # xs) = {i. i < length (consoles s2) \<and> klass (consoles s2 ! i) \<noteq> CLASS_DEV_NONE} \<and>
    (\<forall>i\<in>set xs. con_view i s2 = con_view i s \<and> con_page i s2 = con_page i s) \<and>
    con_buffer (consoles s2 ! n) = f \<and> mm_bitmap s2 = b \<and> mm_bitmap_byte_len s2 = mm_bitmap_byte_len s"
proof -
  have nx: "n \<notin> set xs" using n ok unfolding con_ok_def by blast
  have fp: "aligned f" "f \<noteq> vga_addr" using taken_frame_page [OF fr(1), of f] f by blast+
  have R: "set xs = {i. i < length (consoles s) \<and> klass (consoles s ! i) \<noteq> CLASS_DEV_NONE}"
    "ring_links (c_nxt (consoles s)) (c_prv (consoles s)) xs"
    "\<forall>i\<in>set xs. aligned (con_buffer (consoles s ! i)) \<and> con_buffer (consoles s ! i) \<noteq> vga_addr"
    "inj_on (\<lambda>i. con_buffer (consoles s ! i)) (set xs)" "current s = (case xs of [] \<Rightarrow> None | x # _ \<Rightarrow> Some x)"
    using ok unfolding con_ok_def con_ring_def by blast+
  have ba: "con_buffer (consoles s ! i) \<noteq> f" if "i \<in> set xs" for i using fr(2) f(1) that by auto
  have keep: "bytes_at a 4096 m = bytes_at a 4096 (phys s)" if "aligned a" "a \<noteq> f" for a
    by (rule bytes_at_cong, rule m) (use pages_disjoint [OF that(1) fp(1) that(2)] in blast)
  let ?C = "(consoles s)[n := dev]"
  have old: "?C ! i = consoles s ! i" if "i \<in> set xs" for i using that nx by (metis nth_list_update_neq)
  have r1: "ring_links (c_nxt ?C) (c_prv ?C) xs"
    by (rule ring_links_cong [OF R(2)]) (use old nx in \<open>auto simp: c_nxt_def c_prv_def nth_list_update\<close>)
  have "\<exists>cs'. add_console_after_current n s1 = Some (s1\<lparr>consoles := cs'\<rparr>) \<and> length cs' = length ?C \<and>
      ring_links (c_nxt cs') (c_prv cs') (case xs of [] \<Rightarrow> [n] | c # cs \<Rightarrow> c # n # cs) \<and>
      (\<forall>i. klass (cs' ! i) = klass (?C ! i) \<and> con_buffer (cs' ! i) = con_buffer (?C ! i) \<and> con_scr (cs' ! i) = con_scr (?C ! i))"
  proof (cases xs)
    case Nil
    then have "current s1 = None" using R(5) by (simp add: s1)
    then show ?thesis using n(1) Nil
      by (intro exI [of _ "?C[n := dev\<lparr>con_prev := Some n, con_next := Some n\<rparr>]"])
        (simp add: add_console_after_current_def upd_con_def s1 ring_links_single c_nxt_def c_prv_def nth_list_update)
  next
    case (Cons c cs)
    have "\<forall>i\<in>set (c # cs). i < length (consoles s1)" using R(1) Cons by (auto simp: s1)
    moreover have "ring_links (c_nxt (consoles s1)) (c_prv (consoles s1)) (c # cs)" using r1 Cons by (simp add: s1)
    moreover have "current s1 = Some c" using R(5) Cons by (simp add: s1)
    ultimately show ?thesis using add_console_ring [of s1 c cs n] n(1) nx Cons by (simp add: s1)
  qed
  then obtain cs' where c': "add_console_after_current n s1 = Some (s1\<lparr>consoles := cs'\<rparr>)" "length cs' = length (consoles s)"
    "ring_links (c_nxt cs') (c_prv cs') (case xs of [] \<Rightarrow> [n] | c # cs \<Rightarrow> c # n # cs)"
    "\<And>i. klass (cs' ! i) = klass (?C ! i)" "\<And>i. con_buffer (cs' ! i) = con_buffer (?C ! i)" "\<And>i. con_scr (cs' ! i) = con_scr (?C ! i)"
    by auto
  have set: "set (case xs of [] \<Rightarrow> [n] | c # cs \<Rightarrow> c # n # cs) = insert n (set xs)" by (cases xs) auto
  have used: "set (n # xs) = {i. i < length cs' \<and> klass (cs' ! i) \<noteq> CLASS_DEV_NONE}"
    using R(1) n c'(2,4) dev(1) by (auto simp: nth_list_update)
  have "inj_on (\<lambda>i. con_buffer (cs' ! i)) (insert n (set xs))"
  proof -
    have "inj_on (\<lambda>i. con_buffer (?C ! i)) (set xs)" using R(4) old by (simp cong: inj_on_cong)
    moreover have "f \<notin> (\<lambda>i. con_buffer (?C ! i)) ` set xs" using ba old by (metis (no_types, lifting) imageE)
    ultimately show ?thesis using n(1) dev(2) nx by (simp add: c'(5))
  qed
  then have ring: "con_ring (s1\<lparr>consoles := cs'\<rparr>) (case xs of [] \<Rightarrow> [n] | c # cs \<Rightarrow> c # n # cs)"
    using c'(2,3,5) R(1,3) n(1) dev(2) fp old unfolding con_ring_def set by simp
  have cn: "current s \<noteq> Some n" using R(5) nx by (cases xs) auto
  have "con_view i (s1\<lparr>consoles := cs'\<rparr>) = con_view i s \<and> con_page i (s1\<lparr>consoles := cs'\<rparr>) = con_page i s" if "i \<in> set xs" for i
    using old [OF that] ba [OF that] R(3) that fp(2) c'(5,6) keep vga_aligned by (simp add: con_view_def con_page_def s1)
  then show ?thesis using c'(1) ring nx cn n(1) dev c'(5,6) used
    by (intro exI [of _ "s1\<lparr>consoles := cs'\<rparr>"]) (simp add: con_view_def con_page_def s1)
qed


lemma kalloc_None: "frames_ok s \<Longrightarrow> frames MM_REQUEST_KERNEL s - taken_frames s = {} \<Longrightarrow> mm_mem_kalloc s = Some (0, s)"
  using seek_contract(2) by (simp add: kalloc_seek)

lemma first_free_slot:
  "(\<exists>i<length xs. P (xs ! i)) \<longleftrightarrow> index_where P xs < length xs"
  by (auto simp: index_where_less in_set_conv_nth Bex_def)

lemma switch_console_mm [simp]:
  "mm_bitmap (switch_console d s) = mm_bitmap s" "mm_bitmap_byte_len (switch_console d s) = mm_bitmap_byte_len s"
  by (simp_all add: switch_console_def Let_def upd_con_def memcpy_def on_screen_def show_display_def split: option.split)

text \<open>C26: Opening a console takes a free slot and a free page and shows the new console, linked
  behind the one that was shown: a copy of the screen when it is the first, an empty white
  on black screen otherwise. It has no reference and no reader yet, and every other console
  keeps its screen and its cursor. With no free slot or no page nothing is shown and the
  consoles in use stay as they are.\<close>

theorem con_open_makes:
  assumes ok: "con_ok s xs" and fr: "frames_ok s" "\<forall>i\<in>set xs. con_buffer (consoles s ! i) \<in> taken_frames s"
    and st: "scr_ok (vga_state s)"
  shows "if (\<exists>i<length (consoles s). klass (consoles s ! i) = CLASS_DEV_NONE) \<and> frames MM_REQUEST_KERNEL s - taken_frames s \<noteq> {}
    then \<exists>n s'. con_open s = Some (Some (Con_dev n), s') \<and> klass (consoles s ! n) = CLASS_DEV_NONE \<and>
      con_ok s' (n # rotate1 xs) \<and>
      con_view n s' = (if xs = [] then vga_state s else \<lparr>scr_x = 0, scr_y = 0, scr_attr = 7\<rparr>) \<and>
      con_page n s' = with_cursor (con_view n s') (if xs = [] then bytes_at vga_addr 4096 (phys s) else replicate 4096 0) \<and>
      (\<forall>i\<in>set xs. con_view i s' = con_view i s \<and> con_page i s' = con_page i s) \<and>
      con_buffer (consoles s' ! n) \<notin> taken_frames s \<and> taken_frames s' = insert (con_buffer (consoles s' ! n)) (taken_frames s)
    else \<exists>s'. con_open s = Some (None, s') \<and> con_ok s' xs \<and> phys s' = phys s \<and> taken_frames s' = taken_frames s"
proof -
  define n where "n = index_where (\<lambda>c. klass c = CLASS_DEV_NONE) (consoles s)"
  show ?thesis
  proof (cases "n < length (consoles s)")
    case False
    then have "con_open s = Some (None, s)" by (simp add: con_open_def Let_def flip: n_def)
    moreover have "\<not> (\<exists>i<length (consoles s). klass (consoles s ! i) = CLASS_DEV_NONE)"
      using False first_free_slot [of "consoles s" "\<lambda>c. klass c = CLASS_DEV_NONE"] by (simp flip: n_def)
    ultimately show ?thesis using ok by simp
  next
    case True
    have kn: "klass (consoles s ! n) = CLASS_DEV_NONE" using index_where_holds True unfolding n_def by blast
    show ?thesis
    proof (cases "frames MM_REQUEST_KERNEL s - taken_frames s = {}")
      case none: True
      let ?s' = "upd_con n (\<lambda>c. c\<lparr>con_buffer := 0\<rparr>) s"
      have "con_open s = Some (None, ?s')" using True kalloc_None [OF fr(1) none] by (simp add: con_open_def Let_def flip: n_def)
      moreover have "con_ok ?s' xs"
      proof -
        have nx: "n \<notin> set xs" using kn ok unfolding con_ok_def by blast
        have c: "con_buffer (consoles ?s' ! i) = con_buffer (consoles s ! i)" if "i \<in> set xs" for i
          using that nx True by (auto simp: consoles_upd_con)
        have k: "klass (consoles ?s' ! i) = klass (consoles s ! i)" for i using True by (simp add: consoles_upd_con)
        have "con_ring s xs" using ok by (simp add: con_ok_def)
        then have "con_ring ?s' xs"
          using c c_links_upd [of "\<lambda>c. c\<lparr>con_buffer := 0\<rparr>" n s] by (simp add: con_ring_def cong: inj_on_cong)
        then show ?thesis using ok by (simp add: con_ok_def k)
      qed
      moreover have "taken_frames ?s' = taken_frames s" by (simp add: taken_frames_def upd_con_def)
      ultimately show ?thesis using none by simp
    next
      case some: False
      obtain f b where f: "mm_mem_kalloc s = Some (f, s\<lparr>mm_bitmap := b\<rparr>)" "f \<notin> taken_frames s" "f \<noteq> 0" "aligned f"
        "f \<in> frames MM_REQUEST_KERNEL s" "taken_frames (s\<lparr>mm_bitmap := b\<rparr>) = insert f (taken_frames s)"
        using kalloc_Some [OF fr(1) some] by metis
      have fv: "f \<noteq> vga_addr" using taken_frame_page [OF fr(1)] f(5) by blast
      define st0 where "st0 = (if current s = None then vga_state s else \<lparr>scr_x = 0, scr_y = 0, scr_attr = 7\<rparr>)"
      define m where "m = (if current s = None then memcpy_bytes 4096 vga_addr f (phys s) else memset_bytes 4096 f 0 (phys s))"
      define dev where "dev = (consoles s ! n)\<lparr>con_buffer := f, con_scr := st0, kbd_queue := FREE_QUEUE, klass := CLASS_DEV_CONSOLE,
        refcount := 0, dv_flush := Some Con_flush, dv_read := Some Con_read, dv_write := Some Con_write, dv_seek := None\<rparr>"
      define s1 where "s1 = s\<lparr>mm_bitmap := b, phys := m, consoles := (consoles s)[n := dev]\<rparr>"
      have mo: "m x = phys s x" if "x \<notin> region f 4096" for x
        using that by (simp add: m_def memcpy_bytes_region memset_bytes_eq)
      have page: "bytes_at f 4096 m = (if xs = [] then bytes_at vga_addr 4096 (phys s) else replicate 4096 0)"
      proof (cases xs)
        case Nil
        then have "current s = None" using ok by (simp add: con_ok_def)
        then show ?thesis using Nil bytes_at_memcpy [OF vga_aligned f(4) fv [symmetric] f(4)] by (simp add: m_def)
      next
        case (Cons c cs)
        then have "current s = Some c" using ok by (simp add: con_ok_def)
        then have "bytes_at f 4096 m = replicate 4096 0"
          by (intro nth_equalityI) (simp_all add: m_def bytes_at_def memset_bytes_eq in_region)
        then show ?thesis using Cons by simp
      qed
      have k: "klass dev = CLASS_DEV_CONSOLE" "con_buffer dev = f" "con_scr dev = st0" by (simp_all add: dev_def)
      obtain s2 where s2: "add_console_after_current n s1 = Some s2" "con_ring s2 (case xs of [] \<Rightarrow> [n] | c # cs \<Rightarrow> c # n # cs)"
        "n \<notin> set xs" "current s2 = current s" "con_view n s2 = st0" "con_page n s2 = bytes_at f 4096 m"
        "set (n # xs) = {i. i < length (consoles s2) \<and> klass (consoles s2 ! i) \<noteq> CLASS_DEV_NONE}"
        "\<forall>i\<in>set xs. con_view i s2 = con_view i s \<and> con_page i s2 = con_page i s" "con_buffer (consoles s2 ! n) = f" "mm_bitmap s2 = b"
        "mm_bitmap_byte_len s2 = mm_bitmap_byte_len s"
        using con_open_linked [OF ok fr True kn f(2,5) k mo s1_def] by blast
      have "scr_ok (con_view n s2)" using st by (simp add: s2(5) st0_def scr_ok_def)
      moreover have "(case xs of [] \<Rightarrow> [n] | c # cs \<Rightarrow> c # n # cs) = take 1 xs @ n # drop 1 xs" by (cases xs) auto
      moreover have "c \<in> set (case xs of [] \<Rightarrow> [n] | c # cs \<Rightarrow> c # n # cs)" if "current s2 = Some c" for c
        using that s2(4) ok by (cases xs) (auto simp: con_ok_def)
      moreover have "current s2 \<noteq> Some n" using s2(3,4) ok by (cases xs) (auto simp: con_ok_def)
      ultimately have sw: "con_ring (switch_console n s2) (n # drop 1 xs @ take 1 xs)"
        "views_kept n (set (case xs of [] \<Rightarrow> [n] | c # cs \<Rightarrow> c # n # cs)) s2 (switch_console n s2)"
        "current (switch_console n s2) = Some n" "length (consoles (switch_console n s2)) = length (consoles s2)"
        "\<forall>i. klass (consoles (switch_console n s2) ! i) = klass (consoles s2 ! i) \<and>
          con_buffer (consoles (switch_console n s2) ! i) = con_buffer (consoles s2 ! i)"
        using switch_console_ring [OF s2(2)] by blast+
      have rot: "drop 1 xs @ take 1 xs = rotate1 xs" by (cases xs) auto
      have "con_ok (switch_console n s2) (n # rotate1 xs)"
        using sw s2(7) unfolding con_ok_def rot by simp
      moreover have "con_open s = Some (Some (Con_dev n), switch_console n s2)"
        using con_open_eq [OF n_def True f(1,3) dev_def st0_def m_def] s2(1) by (simp add: s1_def)
      moreover have in_all: "set (case xs of [] \<Rightarrow> [n] | c # cs \<Rightarrow> c # n # cs) = insert n (set xs)" by (cases xs) auto
      moreover have "con_view n (switch_console n s2) = st0" "con_page n (switch_console n s2) = with_cursor st0 (bytes_at f 4096 m)"
        using sw(2) s2(5,6) \<open>current s2 \<noteq> Some n\<close> unfolding views_kept_def in_all by simp_all
      moreover have "\<forall>i\<in>set xs. con_view i (switch_console n s2) = con_view i s \<and> con_page i (switch_console n s2) = con_page i s"
        using sw(2) s2(3,8) unfolding views_kept_def in_all by auto
      moreover have "con_buffer (consoles (switch_console n s2) ! n) = f" using sw(5) s2(9) by simp
      moreover have "taken_frames (switch_console n s2) = insert f (taken_frames s)"
        using f(6) s2(10,11) by (simp add: taken_frames_def)
      moreover have "st0 = (if xs = [] then vga_state s else \<lparr>scr_x = 0, scr_y = 0, scr_attr = 7\<rparr>)"
        using ok by (cases xs) (simp_all add: st0_def con_ok_def)
      moreover have cond: "(\<exists>i<length (consoles s). klass (consoles s ! i) = CLASS_DEV_NONE) \<and> frames MM_REQUEST_KERNEL s - taken_frames s \<noteq> {}"
        using some True kn by blast
      ultimately show ?thesis unfolding if_P [OF cond] using kn f(2) page
        by (intro exI [of _ n] exI [of _ "switch_console n s2"]) simp
    qed
  qed
qed


subsection \<open>Closing a console\<close>

lemma remove_console_ring:
  assumes r: "con_ring s (us @ d # vs)" and ne: "us @ vs \<noteq> []"
  shows "\<exists>cs'. remove_console d s = Some (s\<lparr>consoles := cs'\<rparr>) \<and> length cs' = length (consoles s) \<and>
    con_ring (s\<lparr>consoles := cs'\<rparr>) (us @ vs) \<and> con_prev (cs' ! d) = Some (last (vs @ us)) \<and> cs' ! d = consoles s ! d \<and>
    (\<forall>i. klass (cs' ! i) = klass (consoles s ! i) \<and> con_buffer (cs' ! i) = con_buffer (consoles s ! i) \<and>
       con_scr (cs' ! i) = con_scr (consoles s ! i))"
proof -
  let ?C = "consoles s" and ?m = "vs @ us"
  have m: "?m \<noteq> []" "d \<notin> set ?m" and lt: "d < length ?C" "\<forall>i\<in>set ?m. i < length ?C"
    and r': "ring_links (c_nxt ?C) (c_prv ?C) (d # ?m)"
    using r ne ring_links_distinct ring_links_swap [of _ _ us "d # vs"] unfolding con_ring_def by fastforce+
  have nb: "con_next (?C ! d) = Some (hd ?m)" "con_prev (?C ! d) = Some (last ?m)"
    using ring_links_neighbours [OF r' m(1)] lt(1) by (simp_all add: c_nxt_def c_prv_def)
  have mem: "hd ?m \<in> set ?m" "last ?m \<in> set ?m" using m(1) hd_in_set last_in_set by blast+
  have hl: "hd ?m < length ?C" "last ?m < length ?C" "hd ?m \<noteq> d" "last ?m \<noteq> d" using mem lt(2) m(2) by auto
  define cs' where "cs' = set_c_prv (hd ?m) (Some (last ?m)) (set_c_nxt (last ?m) (Some (hd ?m)) ?C)"
  have d': "cs' ! d = ?C ! d" using hl by (simp add: cs'_def c_link_defs)
  have rem: "remove_console d s = Some (s\<lparr>consoles := cs'\<rparr>)"
    using nb hl by (simp add: remove_console_def upd_con_def cs'_def c_link_defs)
  have "ring_links (c_nxt cs') (c_prv cs') ?m" by (rule cl.unlink [OF r' m(1) lt(2) cs'_def])
  then have "ring_links (c_nxt cs') (c_prv cs') (us @ vs)" using ring_links_swap by blast
  moreover have same: "klass (cs' ! i) = klass (?C ! i)" "con_buffer (cs' ! i) = con_buffer (?C ! i)" "con_scr (cs' ! i) = con_scr (?C ! i)" for i
    by (simp_all add: cs'_def c_link_defs nth_list_update_field)
  moreover have "length cs' = length ?C" by (simp add: cs'_def c_link_defs)
  ultimately have "con_ring (s\<lparr>consoles := cs'\<rparr>) (us @ vs)" using r by (auto simp: con_ring_def)
  then show ?thesis using rem d' nb same by (intro exI [of _ cs']) (simp add: cs'_def c_link_defs)
qed


lemma free_console_page:
  assumes ok: "con_ring s ys" "frames_ok s" and b: "b \<in> frames MM_REQUEST_KERNEL s"
    and used: "set ys = {i. i < length (consoles s) \<and> klass (consoles s ! i) \<noteq> CLASS_DEV_NONE} - {d}" and d: "d < length (consoles s)"
    and cur: "current s = Some (hd ys)" "ys \<noteq> []"
  shows "\<exists>s'. Option.bind (mm_mem_free b s) (\<lambda>s. Some (0 :: u32, upd_con d (\<lambda>c. c\<lparr>klass := CLASS_DEV_NONE\<rparr>) s)) = Some (0, s') \<and>
    con_ok s' ys \<and> klass (consoles s' ! d) = CLASS_DEV_NONE \<and> taken_frames s' = taken_frames s - {b} \<and>
    (\<forall>i. con_view i s' = con_view i s \<and> con_page i s' = con_page i s)"
proof -
  obtain p where p: "b = frame_at p" "p \<in> zone_bits MM_REQUEST_KERNEL s" using b by (auto simp: frames_def)
  note Z = zone_bits_range [OF ok(2) p(2)]
  let ?s = "s\<lparr>mm_bitmap := with_bit p False (mm_bitmap s)\<rparr>"
  let ?s' = "upd_con d (\<lambda>c. c\<lparr>klass := CLASS_DEV_NONE\<rparr>) ?s"
  have fields: "con_buffer (consoles ?s' ! i) = con_buffer (consoles s ! i)" "con_scr (consoles ?s' ! i) = con_scr (consoles s ! i)"
    "klass (consoles ?s' ! i) = (if i = d then CLASS_DEV_NONE else klass (consoles s ! i))" for i
    using d by (simp_all add: consoles_upd_con)
  have "con_ring ?s' ys" using ok(1) c_links_upd [of "\<lambda>c. c\<lparr>klass := CLASS_DEV_NONE\<rparr>" d ?s] by (simp add: con_ring_def fields)
  moreover have "set ys = {i. i < length (consoles ?s') \<and> klass (consoles ?s' ! i) \<noteq> CLASS_DEV_NONE}"
    unfolding fields using used by auto
  moreover have "current ?s' = (case ys of [] \<Rightarrow> None | x # _ \<Rightarrow> Some x)" using cur by (cases ys) simp_all
  ultimately have "con_ok ?s' ys" by (simp add: con_ok_def)
  moreover have "taken_frames ?s' = taken_frames s - {b}"
    using taken_upd(2) [OF ok(2) Z(1,2)] p(1) by (simp add: taken_frames_def upd_con_def)
  ultimately show ?thesis using mem_free_frame [OF ok(2) Z(1,4)] p(1) fields
    by (intro exI [of _ ?s']) (simp add: con_view_def con_page_def)
qed

text \<open>C27: Closing a console that is not the only one takes it out of the ring and gives its page
  back. When it was the shown one its left neighbour is shown, with its own screen and
  cursor; every console that is left keeps its screen and its cursor, and the ring stays
  well linked.\<close>

theorem con_flush_closes:
  assumes ok: "con_ok s (us @ d # vs)" and ne: "us @ vs \<noteq> []" and fr: "frames_ok s" "con_buffer (consoles s ! d) \<in> frames MM_REQUEST_KERNEL s"
    and ys: "ys = (if us = [] then last vs # butlast vs else us @ vs)" and st: "scr_ok (con_view (hd ys) s)"
  shows "\<exists>s'. con_flush run d s = Some (0, s') \<and> con_ok s' ys \<and> views_kept (hd ys) (set ys) s s' \<and>
    klass (consoles s' ! d) = CLASS_DEV_NONE \<and> taken_frames s' = taken_frames s - {con_buffer (consoles s ! d)}"
proof -
  have ring: "con_ring s (us @ d # vs)"
    and used: "set (us @ d # vs) = {i. i < length (consoles s) \<and> klass (consoles s ! i) \<noteq> CLASS_DEV_NONE}"
    and cur: "current s = (case us @ d # vs of [] \<Rightarrow> None | x # _ \<Rightarrow> Some x)"
    using ok unfolding con_ok_def by blast+
  have dl: "d < length (consoles s)" and dist: "d \<notin> set (us @ vs)"
    using ring ring_links_distinct unfolding con_ring_def by fastforce+
  obtain cs' where cs': "remove_console d s = Some (s\<lparr>consoles := cs'\<rparr>)" "length cs' = length (consoles s)"
    "con_ring (s\<lparr>consoles := cs'\<rparr>) (us @ vs)" "con_prev (cs' ! d) = Some (last (vs @ us))"
    "\<And>i. klass (cs' ! i) = klass (consoles s ! i)" "\<And>i. con_buffer (cs' ! i) = con_buffer (consoles s ! i)"
    "\<And>i. con_scr (cs' ! i) = con_scr (consoles s ! i)"
    using remove_console_ring [OF ring ne] by blast
  have left: "set (us @ vs) = {i. i < length cs' \<and> klass (cs' ! i) \<noteq> CLASS_DEV_NONE} - {d}"
  proof -
    have "set (us @ vs) = set (us @ d # vs) - {d}" using dist by auto
    then show ?thesis unfolding used by (simp add: cs')
  qed
  show ?thesis
  proof (cases us)
    case Nil
    then have vs: "vs \<noteq> []" "ys = last vs # butlast vs" "vs = butlast vs @ last vs # []" using ne ys by simp_all
    have cd: "current s = Some d" using cur Nil by simp
    define s2 where "s2 = s\<lparr>consoles := cs', current := None\<rparr>"
    have ring2: "con_ring s2 vs" using cs'(3) Nil by (simp add: s2_def con_ring_def)
    have same2: "con_view i s2 = con_view i s" "con_page i s2 = con_page i s" if "i \<in> set vs" for i
      using that dist cd Nil by (auto simp: con_view_def con_page_def s2_def cs')
    have "last vs \<in> set vs" using vs(1) by simp
    then have st2: "scr_ok (con_view (last vs) s2)" using st same2 vs(2) by simp
    have "current s2 \<noteq> Some (last vs)" "\<And>c. current s2 = Some c \<Longrightarrow> c \<in> set vs" by (simp_all add: s2_def)
    note SW = switch_console_ring [OF ring2 this(2) vs(3) st2 this(1)]
    define s3 where "s3 = switch_console (last vs) s2"
    have sw: "con_ring s3 ys" "views_kept (last vs) (set vs) s2 s3" "current s3 = Some (hd ys)" "length (consoles s3) = length cs'"
      "\<And>i. klass (consoles s3 ! i) = klass (cs' ! i)" "\<And>i. con_buffer (consoles s3 ! i) = con_buffer (cs' ! i)"
      "mm_bitmap s3 = mm_bitmap s" "mm_bitmap_byte_len s3 = mm_bitmap_byte_len s"
      using SW vs(2) by (simp_all add: s3_def s2_def)
    have "last vs \<noteq> d" using dist \<open>last vs \<in> set vs\<close> by auto
    then have ne3: "Some (last vs) \<noteq> Some d" by simp
    have b3: "con_buffer (consoles s3 ! d) = con_buffer (consoles s ! d)" by (simp only: sw(6) cs'(6))
    have "con_flush run d s = Option.bind (mm_mem_free (con_buffer (consoles s3 ! d)) s3) (\<lambda>s. Some (0, upd_con d (\<lambda>c. c\<lparr>klass := CLASS_DEV_NONE\<rparr>) s))"
      using ne3 cs'(1,4) cd Nil by (simp add: con_flush_def s3_def s2_def)
    then have fl: "con_flush run d s = Option.bind (mm_mem_free (con_buffer (consoles s ! d)) s3) (\<lambda>s. Some (0, upd_con d (\<lambda>c. c\<lparr>klass := CLASS_DEV_NONE\<rparr>) s))"
      unfolding b3 .
    have setys: "set ys = set vs" by (subst vs(3)) (auto simp: vs(2))
    have fr3: "frames_ok s3" "con_buffer (consoles s ! d) \<in> frames MM_REQUEST_KERNEL s3" "taken_frames s3 = taken_frames s"
      using fr sw(7,8) by (simp_all add: frames_ok_def frames_def zone_bits_def taken_frames_def)
    have u3: "set ys = {i. i < length (consoles s3) \<and> klass (consoles s3 ! i) \<noteq> CLASS_DEV_NONE} - {d}"
      using left Nil by (simp add: setys sw(4,5))
    have "d < length (consoles s3)" using dl cs'(2) sw(4) by simp
    from free_console_page [OF sw(1) fr3(1,2) u3 this sw(3)] obtain s' where
      s': "con_flush run d s = Some (0, s')" "con_ok s' ys" "klass (consoles s' ! d) = CLASS_DEV_NONE"
      "taken_frames s' = taken_frames s - {con_buffer (consoles s ! d)}"
      "\<forall>i. con_view i s' = con_view i s3 \<and> con_page i s' = con_page i s3"
      using fl vs(2) fr3(3) by auto
    have "views_kept (hd ys) (set ys) s s'"
      using sw(2) s'(5) same2 cd \<open>last vs \<noteq> d\<close> \<open>last vs \<in> set vs\<close> vs(2) unfolding views_kept_def setys by (auto simp: s2_def)
    then show ?thesis using s' by blast
  next
    case (Cons c us')
    then have ysc: "ys = us @ vs" "hd ys = c" using ys by simp_all
    have cc: "current s = Some c" "c \<noteq> d" using cur dist Cons by auto
    let ?s1 = "s\<lparr>consoles := cs'\<rparr>"
    have fl: "con_flush run d s = Option.bind (mm_mem_free (con_buffer (consoles s ! d)) ?s1) (\<lambda>s. Some (0, upd_con d (\<lambda>c. c\<lparr>klass := CLASS_DEV_NONE\<rparr>) s))"
      using cs'(1,6) cc by (simp add: con_flush_def)
    have fr1: "frames_ok ?s1" "con_buffer (consoles s ! d) \<in> frames MM_REQUEST_KERNEL ?s1" "taken_frames ?s1 = taken_frames s"
      using fr by (simp_all add: frames_ok_def frames_def zone_bits_def taken_frames_def)
    have "con_ring ?s1 ys" "set ys = {i. i < length (consoles ?s1) \<and> klass (consoles ?s1 ! i) \<noteq> CLASS_DEV_NONE} - {d}"
      "d < length (consoles ?s1)" "current ?s1 = Some (hd ys)" "ys \<noteq> []"
      using cs'(2,3) left dl cc ysc ne by simp_all
    from free_console_page [OF this(1) fr1(1,2) this(2-5)] obtain s' where
      s': "con_flush run d s = Some (0, s')" "con_ok s' ys" "klass (consoles s' ! d) = CLASS_DEV_NONE"
      "taken_frames s' = taken_frames s - {con_buffer (consoles s ! d)}"
      "\<forall>i. con_view i s' = con_view i ?s1 \<and> con_page i s' = con_page i ?s1"
      using fl fr1(3) by auto
    have "views_kept (hd ys) (set ys) s s'"
      using s'(5) cc ysc(2) unfolding views_kept_def by (simp add: con_view_def con_page_def cs')
    then show ?thesis using s' by blast
  qed
qed

subsection \<open>The modifier keys\<close>

text \<open>
  What a sequence of scan codes says about the modifier keys, without a state: the low seven
  bits name the key, the top bit tells a release from a press, and the escape code makes
  Ctrl and Alt those of the right hand side.
\<close>

definition mod_key :: "bool \<Rightarrow> u8 \<Rightarrow> u8 option" where
  "mod_key escaped k =
     map_of [(KBD_SC_LSHIFT, KBD_MD_LSHIFT), (KBD_SC_RSHIFT, KBD_MD_RSHIFT),
       (KBD_SC_CTRL, if escaped then KBD_MD_RCTRL else KBD_MD_LCTRL),
       (KBD_SC_ALT, if escaped then KBD_MD_RALT else KBD_MD_LALT)] k"

fun mod_events :: "bool \<Rightarrow> u8 list \<Rightarrow> (u8 \<times> bool) list" where
  "mod_events escaped [] = []"
| "mod_events escaped (sc # scs) =
     (case mod_key escaped (take_bit 7 sc) of None \<Rightarrow> [] | Some m \<Rightarrow> [(m, \<not> bit sc 7)]) @ mod_events (sc = KBD_SC_ESCAPE) scs"

fun held :: "u8 \<Rightarrow> (u8 \<times> bool) list \<Rightarrow> bool \<Rightarrow> bool" where
  "held m [] before = before"
| "held m ((k, pressed) # es) before = held m es (if k = m then pressed else before)"

definition modifiers :: "u8 set" where
  "modifiers = {KBD_MD_LCTRL, KBD_MD_LSHIFT, KBD_MD_LALT, KBD_MD_RCTRL, KBD_MD_RSHIFT, KBD_MD_RALT}"

lemma scan_code_parts:
  assumes "take_bit 7 k = k"
  shows "(sc :: u8) = k OR 0x80 \<longleftrightarrow> take_bit 7 sc = k \<and> bit sc 7" "sc = k \<longleftrightarrow> take_bit 7 sc = k \<and> \<not> bit sc 7"
proof -
  have b: "bit (0x80 :: u8) n \<longleftrightarrow> n = 7" for n using bit_exp_iff [of 7 n, where ?'a = u8] by auto
  have k: "\<not> bit k n" if "7 \<le> n" for n using assms that bit_take_bit_iff [of 7 k n] by simp
  have split: "sc = take_bit 7 sc OR (if bit sc 7 then 0x80 else 0)"
    by (rule bit_word_eqI) (auto simp: bit_simps b less_Suc_eq numeral_eq_Suc)
  have "take_bit 7 (k OR 0x80) = k" "bit (k OR 0x80) 7"
  proof -
    have "n < 7" if "bit k n" for n using that k [of n] by (metis not_less)
    then show "take_bit 7 (k OR 0x80) = k" by (intro bit_word_eqI) (auto simp: bit_simps b)
    show "bit (k OR 0x80) 7" by (simp add: bit_or_iff b)
  qed
  then show "sc = k OR 0x80 \<longleftrightarrow> take_bit 7 sc = k \<and> bit sc 7" using split by auto
  show "sc = k \<longleftrightarrow> take_bit 7 sc = k \<and> \<not> bit sc 7" using split k [of 7] assms by auto
qed

lemma kbd_switch_event:
  "kbd_switch sc s = (case mod_key (kbd_escaped s) (take_bit 7 sc) of
     Some m \<Rightarrow> if bit sc 7 then release m s else press m s
   | None \<Rightarrow> if sc = KBD_SC_ESCAPE then s\<lparr>kbd_escaped := True\<rparr> else if bit sc 7 then s
       else s\<lparr>kbd_char_buf := (if KBD_SHIFT_ON s then KBD_UPPER_MAP else KBD_LOWER_MAP) ! unat sc\<rparr>)"
proof -
  have top: "sc AND 0x80 = 0 \<longleftrightarrow> \<not> bit sc 7" using and_exp_eq_0_iff_not_bit [of sc 7] by simp
  have esc: "sc = 0xe0 \<longleftrightarrow> take_bit 7 sc = 0x60 \<and> bit sc 7" using scan_code_parts(1) [of "0x60" sc] by simp
  have parts: "sc = KBD_SC_LSHIFT \<longleftrightarrow> take_bit 7 sc = KBD_SC_LSHIFT \<and> \<not> bit sc 7"
    "sc = KBD_SC_RSHIFT \<longleftrightarrow> take_bit 7 sc = KBD_SC_RSHIFT \<and> \<not> bit sc 7"
    "sc = KBD_SC_CTRL \<longleftrightarrow> take_bit 7 sc = KBD_SC_CTRL \<and> \<not> bit sc 7"
    "sc = KBD_SC_ALT \<longleftrightarrow> take_bit 7 sc = KBD_SC_ALT \<and> \<not> bit sc 7"
    "sc = KBD_SC_LSHIFT OR 0x80 \<longleftrightarrow> take_bit 7 sc = KBD_SC_LSHIFT \<and> bit sc 7"
    "sc = KBD_SC_RSHIFT OR 0x80 \<longleftrightarrow> take_bit 7 sc = KBD_SC_RSHIFT \<and> bit sc 7"
    "sc = KBD_SC_CTRL OR 0x80 \<longleftrightarrow> take_bit 7 sc = KBD_SC_CTRL \<and> bit sc 7"
    "sc = KBD_SC_ALT OR 0x80 \<longleftrightarrow> take_bit 7 sc = KBD_SC_ALT \<and> bit sc 7"
    by (rule scan_code_parts, simp)+
  define k where "k = take_bit 7 sc"
  define r where "r = bit sc 7"
  define c where "c = unat sc"
  show ?thesis
    unfolding kbd_switch_def top parts mod_key_def
    unfolding esc
    unfolding k_def [symmetric] r_def [symmetric] c_def [symmetric]
    by (cases r; simp)
qed

lemma kbd_step_state:
  "kbd_escaped (kbd_step sc s) \<longleftrightarrow> sc = KBD_SC_ESCAPE"
  "kbd_md_state (kbd_step sc s) = (case mod_key (kbd_escaped s) (take_bit 7 sc) of None \<Rightarrow> kbd_md_state s
     | Some m \<Rightarrow> if bit sc 7 then kbd_md_state s AND NOT m else kbd_md_state s OR m)"
  "kbd_char_buf (kbd_step sc s) = (if mod_key (kbd_escaped s) (take_bit 7 sc) = None \<and> \<not> bit sc 7
     then (if KBD_SHIFT_ON s then KBD_UPPER_MAP else KBD_LOWER_MAP) ! unat sc else 0)"
proof -
  have esc: "sc = 0xe0 \<longleftrightarrow> take_bit 7 sc = 0x60 \<and> bit sc 7" using scan_code_parts(1) [of "0x60" sc] by simp
  define k where "k = take_bit 7 sc"
  define r where "r = bit sc 7"
  define c where "c = unat sc"
  have no: "mod_key (kbd_escaped s) k = None" if "k = 0x60" using that by (simp add: mod_key_def)
  define e where "e = kbd_escaped s"
  define s0 where "s0 = s\<lparr>kbd_sc_buf := sc, kbd_char_buf := 0\<rparr>"
  have s0: "kbd_escaped s0 = e" "kbd_md_state s0 = kbd_md_state s" "kbd_char_buf s0 = 0" "KBD_SHIFT_ON s0 = KBD_SHIFT_ON s"
    by (simp_all add: s0_def e_def KBD_SHIFT_ON_def)
  have step: "kbd_step sc s = (let s' = kbd_switch sc s0 in if kbd_escaped s' \<and> \<not> (k = 0x60 \<and> r) then s'\<lparr>kbd_escaped := False\<rparr> else s')"
    by (simp only: kbd_step_def s0_def [symmetric] esc k_def r_def)
  have sw: "kbd_switch sc s0 = (case mod_key e k of Some m \<Rightarrow> if r then release m s0 else press m s0
      | None \<Rightarrow> if k = 0x60 \<and> r then s0\<lparr>kbd_escaped := True\<rparr> else if r then s0
          else s0\<lparr>kbd_char_buf := (if KBD_SHIFT_ON s0 then KBD_UPPER_MAP else KBD_LOWER_MAP) ! c\<rparr>)"
    unfolding kbd_switch_event [of sc s0] s0(1) esc k_def r_def c_def ..
  show "kbd_escaped (kbd_step sc s) \<longleftrightarrow> sc = KBD_SC_ESCAPE"
    unfolding step esc k_def [symmetric] r_def [symmetric] sw Let_def
    using no [folded e_def] s0 by (cases "mod_key e k"; cases r; cases "k = 0x60"; cases e; simp add: press_def release_def)
  show "kbd_md_state (kbd_step sc s) = (case mod_key (kbd_escaped s) (take_bit 7 sc) of None \<Rightarrow> kbd_md_state s
     | Some m \<Rightarrow> if bit sc 7 then kbd_md_state s AND NOT m else kbd_md_state s OR m)"
    unfolding step k_def [symmetric] r_def [symmetric] e_def [symmetric] sw Let_def
    using no [folded e_def] s0 by (cases "mod_key e k"; cases r; cases "k = 0x60"; cases e; simp add: press_def release_def)
  show "kbd_char_buf (kbd_step sc s) = (if mod_key (kbd_escaped s) (take_bit 7 sc) = None \<and> \<not> bit sc 7
     then (if KBD_SHIFT_ON s then KBD_UPPER_MAP else KBD_LOWER_MAP) ! unat sc else 0)"
    unfolding step k_def [symmetric] r_def [symmetric] e_def [symmetric] c_def [symmetric] sw Let_def
    using no [folded e_def] s0 by (cases "mod_key e k"; cases r; cases "k = 0x60"; cases e; simp add: press_def release_def)
qed

lemma mod_key_modifier: "mod_key e k = Some m \<Longrightarrow> m \<in> modifiers"
  by (auto simp: mod_key_def modifiers_def split: if_splits)

lemma modifier_bit:
  assumes "m \<in> modifiers" "m' \<in> modifiers"
  shows "(v OR m') AND m \<noteq> 0 \<longleftrightarrow> m' = m \<or> v AND m \<noteq> 0" "(v AND NOT m') AND m \<noteq> 0 \<longleftrightarrow> m' \<noteq> m \<and> v AND m \<noteq> 0"
proof -
  obtain i j where ij: "m = 2 ^ i" "m' = 2 ^ j" "i < 8" "j < 8"
  proof -
    have "\<exists>i<8. x = 2 ^ i" if "x \<in> modifiers" for x
    proof -
      have "x = 2 ^ 0 \<or> x = 2 ^ 3 \<or> x = 2 ^ 1 \<or> x = 2 ^ 4 \<or> x = 2 ^ 2 \<or> x = 2 ^ 5" using that by (auto simp: modifiers_def)
      moreover have "0 < (8 :: nat)" "3 < (8 :: nat)" "1 < (8 :: nat)" "4 < (8 :: nat)" "2 < (8 :: nat)" "5 < (8 :: nat)" by simp_all
      ultimately show ?thesis by blast
    qed
    then show ?thesis using assms that by blast
  qed
  have one: "w AND 2 ^ i \<noteq> 0 \<longleftrightarrow> bit w i" for w :: u8 using and_exp_eq_0_iff_not_bit [of w i] by simp
  have bit: "bit (2 ^ j :: u8) i \<longleftrightarrow> i = j" using ij by (auto simp: bit_exp_iff)
  have "bit m i" unfolding ij using ij(3) by (simp add: bit_exp_iff)
  then have "m = m' \<longleftrightarrow> i = j" using bit ij(1,2) by auto
  then show "(v OR m') AND m \<noteq> 0 \<longleftrightarrow> m' = m \<or> v AND m \<noteq> 0" "(v AND NOT m') AND m \<noteq> 0 \<longleftrightarrow> m' \<noteq> m \<and> v AND m \<noteq> 0"
    unfolding ij one using ij(3) by (auto simp: bit bit_simps)
qed

lemma fold_kbd_step:
  "kbd_escaped (fold kbd_step scs s) \<longleftrightarrow> (if scs = [] then kbd_escaped s else last scs = KBD_SC_ESCAPE)"
  "m \<in> modifiers \<Longrightarrow> kbd_md_state (fold kbd_step scs s) AND m \<noteq> 0 \<longleftrightarrow>
     held m (mod_events (kbd_escaped s) scs) (kbd_md_state s AND m \<noteq> 0)"
proof (induction scs arbitrary: s)
  case Nil
  { case 1 then show ?case by simp next case 2 then show ?case by simp }
next
  case (Cons sc scs)
  { case 1 show ?case using Cons(1) [of "kbd_step sc s"] by (simp add: kbd_step_state)
  next
    case 2
    have "(kbd_md_state (kbd_step sc s) AND m \<noteq> 0) = (case mod_key (kbd_escaped s) (take_bit 7 sc) of None \<Rightarrow> kbd_md_state s AND m \<noteq> 0
        | Some m' \<Rightarrow> if m' = m then \<not> bit sc 7 else kbd_md_state s AND m \<noteq> 0)"
      using modifier_bit [OF 2 mod_key_modifier] by (auto simp: kbd_step_state split: option.split)
    then show ?case using Cons(2) [OF 2, of "kbd_step sc s"]
      by (auto simp: kbd_step_state split: option.split)
  }
qed

lemma shift_on_held:
  "KBD_SHIFT_ON s \<longleftrightarrow> kbd_md_state s AND KBD_MD_LSHIFT \<noteq> 0 \<or> kbd_md_state s AND KBD_MD_RSHIFT \<noteq> 0"
proof -
  have "kbd_md_state s AND (KBD_MD_LSHIFT OR KBD_MD_RSHIFT) = (kbd_md_state s AND KBD_MD_LSHIFT) OR (kbd_md_state s AND KBD_MD_RSHIFT)"
    by (rule bit.conj_disj_distrib)
  then show ?thesis by (simp add: KBD_SHIFT_ON_def or_eq_0_iff)
qed

lemma keyboard_types_all:
  "kbd_char_buf (fold kbd_step (scs @ [sc]) s) =
     (let es = mod_events (kbd_escaped s) scs; e = (if scs = [] then kbd_escaped s else last scs = KBD_SC_ESCAPE);
          shift = (\<exists>m\<in>{KBD_MD_LSHIFT, KBD_MD_RSHIFT}. held m es (kbd_md_state s AND m \<noteq> 0))
      in if mod_key e (take_bit 7 sc) = None \<and> \<not> bit sc 7
         then (if shift then KBD_UPPER_MAP else KBD_LOWER_MAP) ! unat sc else 0)"
proof -
  have m: "KBD_MD_LSHIFT \<in> modifiers" "KBD_MD_RSHIFT \<in> modifiers" by (simp_all add: modifiers_def)
  show ?thesis
    by (simp add: kbd_step_state(3) fold_kbd_step(1) shift_on_held fold_kbd_step(2) [OF m(1)] fold_kbd_step(2) [OF m(2)] Let_def)
qed

text \<open>C28: What the keyboard gives for a sequence of scan codes. A modifier bit is set exactly when
  the last event of its key was a press (or there was none and it was set before), where the
  escape code makes Ctrl and Alt those of the right hand side; and the character after the
  last code is that of the upper table when a shift key is held and of the lower table
  otherwise, and none for a release, for a modifier and for the escape code.\<close>

theorem keyboard_types:
  assumes "m \<in> modifiers"
  shows "(kbd_md_state (fold kbd_step scs s) AND m \<noteq> 0 \<longleftrightarrow> held m (mod_events (kbd_escaped s) scs) (kbd_md_state s AND m \<noteq> 0)) \<and>
    kbd_char_buf (fold kbd_step (scs @ [sc]) s) =
     (let es = mod_events (kbd_escaped s) scs; e = (if scs = [] then kbd_escaped s else last scs = KBD_SC_ESCAPE);
          shift = (\<exists>m\<in>{KBD_MD_LSHIFT, KBD_MD_RSHIFT}. held m es (kbd_md_state s AND m \<noteq> 0))
      in if mod_key e (take_bit 7 sc) = None \<and> \<not> bit sc 7
         then (if shift then KBD_UPPER_MAP else KBD_LOWER_MAP) ! unat sc else 0)"
  by (rule conjI [OF fold_kbd_step(2) [OF assms] keyboard_types_all])

subsection \<open>Witnesses\<close>

text \<open>Two consoles in a ring of two, the first one shown, the second slot of three free.\<close>

definition con_demo :: "(port_event list \<Rightarrow> u16 \<Rightarrow> u16) \<Rightarrow> u8 \<Rightarrow> 'a \<Rightarrow> 'a con_state_scheme" where
  "con_demo h md x =
     (let c = \<lparr>klass = CLASS_DEV_CONSOLE, refcount = 1, dv_flush = Some Con_flush, dv_read = Some Con_read, dv_write = Some Con_write,
            dv_seek = None, kbd_queue = FREE_QUEUE, con_buffer = 0x100000, con_scr = \<lparr>scr_x = 0, scr_y = 0, scr_attr = 7\<rparr>,
            con_prev = Some 2, con_next = Some 2\<rparr>
      in hw_demo h \<lparr>consoles = [c, c\<lparr>klass := CLASS_DEV_NONE\<rparr>, c\<lparr>con_buffer := 0x101000, con_prev := Some 0, con_next := Some 0\<rparr>],
        current = Some 0, screen_saver_path = chars ''/saver'', kbd_sc_buf = 0, kbd_md_state = md, kbd_escaped = False, kbd_char_buf = 0,
        \<dots> = x\<rparr>)"

lemma con_demo_fields:
  "current (con_demo h md x) = Some 0" "vga_state (con_demo h md x) = \<lparr>scr_x = 0, scr_y = 0, scr_attr = 7\<rparr>"
  "mm_bitmap (con_demo h md x) = demo_bitmap" "mm_bitmap_byte_len (con_demo h md x) = 256" "kbd_md_state (con_demo h md x) = md"
  "kbd_escaped (con_demo h md x) = False" "ports (con_demo h md x) = []" "hardware (con_demo h md x) = h" "length (consoles (con_demo h md x)) = 3"
  "con_buffer (consoles (con_demo h md x) ! 0) = 0x100000" "con_buffer (consoles (con_demo h md x) ! 2) = 0x101000"
  "klass (consoles (con_demo h md x) ! Suc 0) = CLASS_DEV_NONE" "klass (consoles (con_demo h md x) ! 0) = CLASS_DEV_CONSOLE"
  "klass (consoles (con_demo h md x) ! 2) = CLASS_DEV_CONSOLE" "current (con_demo h md x) = Some 0"
  "con_scr (consoles (con_demo h md x) ! 2) = \<lparr>scr_x = 0, scr_y = 0, scr_attr = 7\<rparr>"
  by (simp_all add: con_demo_def hw_demo_def demo_def Let_def)

lemma con_demo_frames: "frames_ok (con_demo h md x)" "taken_frames (con_demo h md x) = {0x100000, 0x101000}"
  "frames MM_REQUEST_KERNEL (con_demo h md x) - taken_frames (con_demo h md x) \<noteq> {}" "0x100000 \<in> frames MM_REQUEST_KERNEL (con_demo h md x)"
proof -
  have e: "taken_frames (con_demo h md x) = taken_frames (demo ())" "frames MM_REQUEST_KERNEL (con_demo h md x) = frames MM_REQUEST_KERNEL (demo ())"
    by (simp_all add: taken_frames_def frames_def zone_bits_def con_demo_fields)
  show "frames_ok (con_demo h md x)" by (simp add: frames_ok_def con_demo_fields)
  show "taken_frames (con_demo h md x) = {0x100000, 0x101000}" by (simp add: e demo_frames)
  show "frames MM_REQUEST_KERNEL (con_demo h md x) - taken_frames (con_demo h md x) \<noteq> {}" unfolding e by (rule demo_frames)
  have "0 \<in> zone_bits MM_REQUEST_KERNEL (con_demo h md x)" by (simp add: zone_bits_def)
  moreover have "frame_at 0 = 0x100000" by (simp add: frame_at_def)
  ultimately show "0x100000 \<in> frames MM_REQUEST_KERNEL (con_demo h md x)" unfolding frames_def by (metis imageI)
qed

lemma con_demo_ok: "con_ok (con_demo h md x) [0, 2]"
proof -
  have used: "{i. i < (3 :: nat) \<and> P i} = {0, 2}" if "P 0" "\<not> P (Suc 0)" "P 2" for P
  proof -
    have "i < 3 \<longleftrightarrow> i = 0 \<or> i = Suc 0 \<or> i = 2" for i :: nat by arith
    then show ?thesis using that by blast
  qed
  have "{i. i < 3 \<and> klass (consoles (con_demo h md x) ! i) \<noteq> CLASS_DEV_NONE} = {0, 2}"
    by (rule used) (simp_all add: con_demo_fields)
  moreover have "ring_links (c_nxt (consoles (con_demo h md x))) (c_prv (consoles (con_demo h md x))) [0, 2]"
    by (simp add: ring_links_def edges_def con_demo_def hw_demo_def demo_def c_nxt_def c_prv_def Let_def)
  ultimately show ?thesis
    by (simp add: con_ok_def con_ring_def con_demo_fields aligned_def)
qed

lemma con_demo_view: "con_view 2 (con_demo h md x) = \<lparr>scr_x = 0, scr_y = 0, scr_attr = 7\<rparr>" "scr_ok \<lparr>scr_x = 0, scr_y = 0, scr_attr = 7\<rparr>"
  by (simp_all add: con_view_def con_demo_fields scr_ok_def)

theorem keyboard_handler_switches_witness:
  "\<exists>s'. keyboard_handler (con_demo (\<lambda>_ p. if p = KBD_CTRL_PORT then 1 else 0x4b) 6 ()) = Some s' \<and> con_ok s' [2, 0]"
proof -
  let ?s = "con_demo (\<lambda>_ p. if p = KBD_CTRL_PORT then 1 else 0x4b) 6 ()"
  let ?s1 = "?s\<lparr>ports := [Inb KBD_CTRL_PORT 1]\<rparr>"
  have w: "wait_byte ?s = Some ?s1" by (subst wait_byte.simps) (simp add: inb_def con_demo_fields Let_def)
  have u: "update_kbd_state ?s1 = ?s1\<lparr>ports := [Inb KBD_CTRL_PORT 1, Inb KBD_DATA_PORT 0x4b], kbd_sc_buf := 0x4b,
      kbd_char_buf := 0\<rparr>"
    by (simp add: update_kbd_state_def inb_def con_demo_fields kbd_step_def kbd_switch_def Let_def KBD_SHIFT_ON_def KBD_UPPER_MAP_def keys_def
      enumerate_eq_zip chars_def)
  have "KBD_ALT_ON (update_kbd_state ?s1)" "KBD_SHIFT_ON (update_kbd_state ?s1)" "kbd_sc_buf (update_kbd_state ?s1) = KBD_SC_LEFT"
    unfolding u by (simp_all add: KBD_ALT_ON_def KBD_SHIFT_ON_def con_demo_fields)
  with keyboard_handler_switches [OF con_demo_ok w refl] show ?thesis
    using con_demo_view(1) [of "\<lambda>_ p. if p = KBD_CTRL_PORT then 1 else 0x4b" 6 "()"] con_demo_view(2) by force
qed

theorem con_open_makes_witness:
  "\<exists>n s'. con_open (con_demo (\<lambda>_ _. 0) 0 ()) = Some (Some (Con_dev n), s') \<and> con_ok s' [n, 2, 0]"
proof -
  let ?s = "con_demo (\<lambda>_ _. 0) 0 ()"
  have c: "(\<exists>i<length (consoles ?s). klass (consoles ?s ! i) = CLASS_DEV_NONE) \<and> frames MM_REQUEST_KERNEL ?s - taken_frames ?s \<noteq> {}"
    using con_demo_frames(3) by (intro conjI exI [of _ 1]) (simp_all add: con_demo_fields)
  have t: "\<forall>i\<in>set [0, 2]. con_buffer (consoles ?s ! i) \<in> taken_frames ?s" by (simp add: con_demo_frames con_demo_fields)
  have "scr_ok (vga_state ?s)" using con_demo_view(2) by (simp add: con_demo_fields)
  from con_open_makes [OF con_demo_ok con_demo_frames(1) t this, unfolded if_P [OF c]] show ?thesis by (elim exE conjE) (auto simp: rotate1.simps)
qed

theorem con_flush_closes_witness:
  "\<exists>s'. con_flush (\<lambda>_ _. None) 0 (con_demo (\<lambda>_ _. 0) 0 ()) = Some (0, s') \<and> con_ok s' [2] \<and> taken_frames s' = {0x101000}"
proof -
  let ?s = "con_demo (\<lambda>_ _. 0) 0 ()"
  have ok: "con_ok ?s ([] @ 0 # [2])" using con_demo_ok [of "\<lambda>_ _. 0" 0 "()"] by simp
  have fr: "con_buffer (consoles ?s ! 0) \<in> frames MM_REQUEST_KERNEL ?s" using con_demo_frames(4) by (simp add: con_demo_fields)
  have "scr_ok (con_view (hd [2]) ?s)" unfolding list.sel con_demo_view(1) by (rule con_demo_view(2))
  from con_flush_closes [OF ok _ con_demo_frames(1) fr _ this, of "\<lambda>_ _. None"] show ?thesis
    by (auto simp: con_demo_frames(2) con_demo_fields)
qed

theorem keyboard_types_witness:
  "kbd_char_buf (fold kbd_step [KBD_SC_RSHIFT, KBD_SC_LSHIFT, KBD_SC_LSHIFT OR 0x80, 0x1e] (con_demo (\<lambda>_ _. 0) 0 ())) = 0x41"
proof -
  have "KBD_MD_RALT \<in> modifiers" by (simp add: modifiers_def)
  have "KBD_UPPER_MAP ! 0x1e = 0x41" by (simp add: KBD_UPPER_MAP_def keys_def enumerate_eq_zip chars_def)
  have e: "mod_events False [KBD_SC_RSHIFT, KBD_SC_LSHIFT, KBD_SC_LSHIFT OR 0x80] = [(KBD_MD_RSHIFT, True), (KBD_MD_LSHIFT, True), (KBD_MD_LSHIFT, False)]"
    by (simp add: mod_key_def)
  show ?thesis
    using keyboard_types [OF \<open>KBD_MD_RALT \<in> modifiers\<close>, THEN conjunct2, of "[KBD_SC_RSHIFT, KBD_SC_LSHIFT, KBD_SC_LSHIFT OR 0x80]" "0x1e" "con_demo (\<lambda>_ _. 0) 0 ()"]
    unfolding con_demo_fields e by (simp add: mod_key_def \<open>KBD_UPPER_MAP ! 0x1e = 0x41\<close>)
qed

end
