(* ===== verification/Drivers.thy ===== *)
theory Drivers
  imports Console
begin

section \<open>Serial lines, hard disks and the memory report\<close>

text \<open>
  \<^verbatim>\<open>kernel/serial.c\<close>, \<^verbatim>\<open>kernel/hdd.c\<close> and \<^verbatim>\<open>kernel/proc.c\<close>. Each has a static
  array of devices, here a list in the state; the buffer inside a structure is a list of
  bytes. An operation that blocks is split where it calls \<^verbatim>\<open>loader_enqueue\<close> or
  \<^verbatim>\<open>loader_sleep\<close>; the part behind the call is the operation's \<open>resume\<close>. The second
  half shows what a sector read sends to the controller and what it brings back, that X
\<close>

subsection \<open>From the kernel's structures to the process\<close>

text \<open>
  \<^verbatim>\<open>copy2user\<close> where the source is an array inside a structure: \<open>bs\<close> is what lies
  from the source on to the end of the array; a longer copy leaves the array.
\<close>

fun bytes_to_user :: "u8 list \<Rightarrow> u32 \<Rightarrow> 'a mm_state_scheme \<Rightarrow> 'a mm_state_scheme option" where
  "bytes_to_user [] dst s = Some s"
| "bytes_to_user (b # bs) dst s = do {
     a \<leftarrow> user_phys dst s;
     bytes_to_user bs (dst + 1) (s\<lparr>phys := (phys s)(a := b)\<rparr>)
   }"

definition array2user :: "u8 list \<Rightarrow> u32 \<Rightarrow> u32 \<Rightarrow> 'a mm_state_scheme \<Rightarrow> (int \<times> 'a mm_state_scheme) option" where
  "array2user bs dst_usr sz s = do {
     pdt \<leftarrow> cur_pdt s;
     pl \<leftarrow> mm_pl_of_vaddr dst_usr pdt s;
     if pl = PL_KERNEL then Some (-1, s)
     else do {
       kassert (unat sz \<le> length bs);
       s \<leftarrow> bytes_to_user (take (unat sz) bs) dst_usr s;
       Some (sint sz, s)
     }
   }"

subsection \<open>Serial lines\<close>

abbreviation (input) PORT_1 :: u32 where "PORT_1 \<equiv> 0x3F8"
abbreviation (input) PORT_2 :: u32 where "PORT_2 \<equiv> 0x2F8"
abbreviation (input) PORT_DATA :: u32 where "PORT_DATA \<equiv> 0"
abbreviation (input) PORT_IER :: u32 where "PORT_IER \<equiv> 1"
abbreviation (input) PORT_IIR :: u32 where "PORT_IIR \<equiv> 2"
abbreviation (input) PORT_FCTRL :: u32 where "PORT_FCTRL \<equiv> 2"
abbreviation (input) PORT_LCTRL :: u32 where "PORT_LCTRL \<equiv> 3"
abbreviation (input) PORT_MCTRL :: u32 where "PORT_MCTRL \<equiv> 4"
abbreviation (input) PORT_LSTAT :: u32 where "PORT_LSTAT \<equiv> 5"
abbreviation (input) LC_BIT8 :: u8 where "LC_BIT8 \<equiv> 0x03"
abbreviation (input) LC_DLAB :: u8 where "LC_DLAB \<equiv> 0x80"
abbreviation (input) LS_THRE :: u8 where "LS_THRE \<equiv> 0x20"
abbreviation (input) II_ID_RDA :: u8 where "II_ID_RDA \<equiv> 0x04"
abbreviation (input) II_ID_THRE :: u8 where "II_ID_THRE \<equiv> 0x02"
abbreviation (input) IE_RDA :: u8 where "IE_RDA \<equiv> 0x01"
abbreviation (input) IE_THRE :: u8 where "IE_THRE \<equiv> 0x02"
abbreviation (input) SERIAL_BUFFER_LENGTH :: nat where "SERIAL_BUFFER_LENGTH \<equiv> 50"
abbreviation (input) SERIAL_PORTS :: int where "SERIAL_PORTS \<equiv> 2"
abbreviation (input) FS_OPEN_RD :: u32 where "FS_OPEN_RD \<equiv> 1"
abbreviation (input) FS_OPEN_WR :: u32 where "FS_OPEN_WR \<equiv> 2"
abbreviation (input) FS_OPEN_RDWR :: u32 where "FS_OPEN_RDWR \<equiv> 3"

record dev_serial = chardev +
  io_port :: u32
  read_queue :: int
  buffer_free :: bool
  sd_buffer :: "u8 list"
  ptr_to :: u8
  write_queue :: int

record serial_state = con_state +
  serial_devs :: "dev_serial list"

definition upd_serial :: "nat \<Rightarrow> (dev_serial \<Rightarrow> dev_serial) \<Rightarrow> 'a serial_state_scheme \<Rightarrow> 'a serial_state_scheme" where
  "upd_serial i f s = s\<lparr>serial_devs := (serial_devs s)[i := f (serial_devs s ! i)]\<rparr>"

definition read_from_serial :: "nat \<Rightarrow> 'a serial_state_scheme \<Rightarrow> 'a serial_state_scheme option" where
  "read_from_serial index s =
     (let port = io_port (serial_devs s ! index); (intid, s) = inb (ucast (port + PORT_IIR)) s
      in if intid AND II_ID_RDA \<noteq> 0 then
           let (data, s) = inb (ucast port) s;
               s = (if unat (ptr_to (serial_devs s ! index)) < SERIAL_BUFFER_LENGTH
                    then upd_serial index (\<lambda>d. d\<lparr>sd_buffer := (sd_buffer d)[unat (ptr_to d) := data], ptr_to := ptr_to d + 1,
                      buffer_free := False\<rparr>) s
                    else s)
           in if read_queue (serial_devs s ! index) \<noteq> FREE_QUEUE
              then do {
                (q, s) \<leftarrow> loader_unqueue (read_queue (serial_devs s ! index)) s;
                Some (upd_serial index (\<lambda>d. d\<lparr>read_queue := q\<rparr>) s)
              }
              else Some s
         else if intid AND II_ID_THRE \<noteq> 0
         then do {
           (q, s) \<leftarrow> loader_unqueue (write_queue (serial_devs s ! index)) s;
           Some (upd_serial index (\<lambda>d. d\<lparr>write_queue := q\<rparr>) s)
         }
         else Some s)"

definition com_1_3_handler :: "'a serial_state_scheme \<Rightarrow> 'a serial_state_scheme option" where
  "com_1_3_handler s = read_from_serial 0 s"

definition com_2_4_handler :: "'a serial_state_scheme \<Rightarrow> 'a serial_state_scheme option" where
  "com_2_4_handler s = read_from_serial 1 s"

definition serial_read_resume :: "nat \<Rightarrow> u32 \<Rightarrow> u32 \<Rightarrow> 'a serial_state_scheme \<Rightarrow> (io \<times> 'a serial_state_scheme) option" where
  "serial_read_resume self buf sz s =
     (let d = serial_devs s ! self; bytes_copied = (if sz < ucast (ptr_to d) then sz else ucast (ptr_to d))
      in do {
        (_, s) \<leftarrow> array2user (sd_buffer d) buf bytes_copied s;
        let s = upd_serial self (\<lambda>d. d\<lparr>ptr_to := 0, buffer_free := True\<rparr>) s;
        Some (Done (sint bytes_copied), s)
      })"

definition serial_read :: "nat \<Rightarrow> u32 \<Rightarrow> u32 \<Rightarrow> 'a serial_state_scheme \<Rightarrow> (io \<times> 'a serial_state_scheme) option" where
  "serial_read self buf sz s =
     (if 0 < sz then
        if buffer_free (serial_devs s ! self) then do {
          (q, s) \<leftarrow> loader_enqueue (read_queue (serial_devs s ! self)) s;
          Some (Blocked 0, upd_serial self (\<lambda>d. d\<lparr>read_queue := q\<rparr>) s)
        } else serial_read_resume self buf sz s
      else Some (Done (sint sz), s))"

text \<open>
  One round of the writing loop with \<open>writed\<close> bytes sent: the next byte goes out when the
  transmitter is empty, and the process sleeps for a tick in any case.
\<close>

definition serial_write_resume :: "nat \<Rightarrow> u32 \<Rightarrow> u32 \<Rightarrow> u32 \<Rightarrow> 'a serial_state_scheme \<Rightarrow> (io \<times> 'a serial_state_scheme) option" where
  "serial_write_resume self buf sz writed s =
     (let port = io_port (serial_devs s ! self)
      in if writed < sz then do {
           let (lstat, s) = inb (ucast (port + PORT_LSTAT)) s;
           (writed, s) \<leftarrow> (if lstat AND LS_THRE \<noteq> 0 then do {
               data \<leftarrow> user_byte (buf + writed) s;
               Some (writed + 1, port_out (ucast port) data s)
             } else Some (writed, s));
           s \<leftarrow> loader_sleep 1 s;
           Some (Blocked writed, s)
         } else Some (Done (sint writed), s))"

definition serial_write :: "nat \<Rightarrow> u32 \<Rightarrow> u32 \<Rightarrow> 'a serial_state_scheme \<Rightarrow> (io \<times> 'a serial_state_scheme) option" where
  "serial_write self buf sz s = do {
     pdt \<leftarrow> cur_pdt s;
     buf_pl \<leftarrow> mm_pl_of_vaddr buf pdt s;
     if buf_pl = PL_USER then serial_write_resume self buf sz 0 s else Some (Done (-1), s)
   }"

definition serial_flush :: "nat \<Rightarrow> 'a serial_state_scheme \<Rightarrow> (u32 \<times> 'a serial_state_scheme) option" where
  "serial_flush self s = Some (0, upd_serial self (\<lambda>d. d\<lparr>klass := CLASS_DEV_NONE, dv_read := None, dv_write := None\<rparr>) s)"

definition serial_open :: "int \<Rightarrow> u32 \<Rightarrow> 'a serial_state_scheme \<Rightarrow> dev_ptr option \<times> 'a serial_state_scheme" where
  "serial_open index flags s =
     (if index < 0 \<or> SERIAL_PORTS \<le> index then (None, s)
      else let i = nat index
        in if klass (serial_devs s ! i) \<noteq> CLASS_DEV_NONE then (None, s)
           else let
             s = (if flags AND FS_OPEN_RD \<noteq> 0 then upd_serial i (\<lambda>d. d\<lparr>dv_read := Some Serial_read\<rparr>) s else s);
             s = (if flags AND FS_OPEN_WR \<noteq> 0 then upd_serial i (\<lambda>d. d\<lparr>dv_write := Some Serial_write\<rparr>) s else s)
           in (Some (Serial_dev i),
               upd_serial i (\<lambda>d. d\<lparr>read_queue := FREE_QUEUE, write_queue := FREE_QUEUE, buffer_free := True, ptr_to := 0\<rparr>) s))"

definition init_serial_dev :: "nat \<Rightarrow> u32 \<Rightarrow> 'a serial_state_scheme \<Rightarrow> 'a serial_state_scheme" where
  "init_serial_dev index port s =
     (let s = upd_serial index (\<lambda>d. d\<lparr>klass := CLASS_DEV_NONE, refcount := 0, dv_flush := None, dv_read := None,
            dv_write := None, dv_seek := None, ptr_to := 0, io_port := port\<rparr>) s;
          s = port_out (ucast (port + PORT_IER)) 0 s;
          s = port_out (ucast (port + PORT_LCTRL)) LC_DLAB s;
          s = port_out (ucast (port + PORT_DATA)) 12 s;
          s = port_out (ucast (port + PORT_IER)) 0 s;
          s = port_out (ucast (port + PORT_LCTRL)) LC_BIT8 s;
          s = port_out (ucast (port + PORT_FCTRL)) 0 s;
          s = port_out (ucast (port + PORT_MCTRL)) 0x0B s
      in port_out (ucast (port + PORT_IER)) (IE_RDA OR IE_THRE) s)"

definition serial_init :: "'a serial_state_scheme \<Rightarrow> 'a serial_state_scheme option" where
  "serial_init s = do {
     s \<leftarrow> idt_register ISR_IRQ4 Com_1_3_handler PL_KERNEL s;
     let s = pic_clear_irq_mask 4 s;
     s \<leftarrow> idt_register ISR_IRQ3 Com_2_4_handler PL_KERNEL s;
     let s = pic_clear_irq_mask 3 s;
     Some (init_serial_dev 1 PORT_2 (init_serial_dev 0 PORT_1 s))
   }"

subsection \<open>Hard disks\<close>

text \<open>The pointers to the flush and write operations of a block device are null and never called.\<close>

datatype block_read_fn = Hdd_block_read

record blockdev =
  bd_klass :: u32
  bd_refcount :: u32
  bd_read :: "block_read_fn option"
  bd_size :: u32

record dev_hdd = blockdev +
  hd_queue :: int
  hd_port :: u32
  hd_ctrl_port :: u32
  hd_channel :: u8

record hdd_state = serial_state +
  hdd_devs :: "dev_hdd list"

abbreviation (input) PRI_IRQ :: u8 where "PRI_IRQ \<equiv> 14"
abbreviation (input) PRI_PORT :: u32 where "PRI_PORT \<equiv> 0x1F0"
abbreviation (input) SEC_PORT :: u32 where "SEC_PORT \<equiv> 0x170"
abbreviation (input) PRI_CTRL_PORT :: u32 where "PRI_CTRL_PORT \<equiv> 0x3F0"
abbreviation (input) SEC_CTRL_PORT :: u32 where "SEC_CTRL_PORT \<equiv> 0x370"
abbreviation (input) P_SECTOR_COUNT :: u32 where "P_SECTOR_COUNT \<equiv> 2"
abbreviation (input) P_LBA_LO :: u32 where "P_LBA_LO \<equiv> 3"
abbreviation (input) P_LBA_MID :: u32 where "P_LBA_MID \<equiv> 4"
abbreviation (input) P_LBA_HI :: u32 where "P_LBA_HI \<equiv> 5"
abbreviation (input) P_DRIVE :: u32 where "P_DRIVE \<equiv> 6"
abbreviation (input) P_CMD_ST :: u32 where "P_CMD_ST \<equiv> 7"
abbreviation (input) P_CTRL_NIEN :: u32 where "P_CTRL_NIEN \<equiv> 6"
abbreviation (input) CMD_READ :: u8 where "CMD_READ \<equiv> 0x20"
abbreviation (input) ST_ERR :: u8 where "ST_ERR \<equiv> 1"
abbreviation (input) ST_DRQ :: u8 where "ST_DRQ \<equiv> 8"
abbreviation (input) ST_DF :: u8 where "ST_DF \<equiv> 32"
abbreviation (input) ST_RDY :: u8 where "ST_RDY \<equiv> 64"
abbreviation (input) ST_BSY :: u8 where "ST_BSY \<equiv> 128"
abbreviation (input) DRIVE_MASTER :: u8 where "DRIVE_MASTER \<equiv> 0xE0"
abbreviation (input) DRIVE_SLAVE :: u8 where "DRIVE_SLAVE \<equiv> 0xF0"
abbreviation (input) HARD_DISK_DRIVES :: int where "HARD_DISK_DRIVES \<equiv> 4"

definition upd_hdd :: "nat \<Rightarrow> (dev_hdd \<Rightarrow> dev_hdd) \<Rightarrow> 'a hdd_state_scheme \<Rightarrow> 'a hdd_state_scheme" where
  "upd_hdd i f s = s\<lparr>hdd_devs := (hdd_devs s)[i := f (hdd_devs s ! i)]\<rparr>"

definition hdd_block_write :: "nat \<Rightarrow> u32 \<Rightarrow> u32 \<Rightarrow> u32 \<Rightarrow> 'a hdd_state_scheme \<Rightarrow> int \<times> 'a hdd_state_scheme" where
  "hdd_block_write self pos buf sz s = (-1, s)"

text \<open>The command that \<^verbatim>\<open>hdd_block_read\<close> sends before it waits for the interrupt.\<close>

definition hdd_command :: "dev_hdd \<Rightarrow> u32 \<Rightarrow> 'a hdd_state_scheme \<Rightarrow> 'a hdd_state_scheme" where
  "hdd_command d pos s =
     (let port = hd_port d;
          s = ((\<lambda>s. snd (inb (ucast (hd_ctrl_port d + P_CTRL_NIEN)) s)) ^^ 5) s;
          s = port_out (ucast (port + P_DRIVE)) (hd_channel d OR ucast (drop_bit 24 pos AND 0xF)) s;
          s = port_out (ucast (port + P_SECTOR_COUNT)) 1 s;
          s = port_out (ucast (port + P_LBA_LO)) (ucast pos) s;
          s = port_out (ucast (port + P_LBA_MID)) (ucast (drop_bit 8 pos)) s;
          s = port_out (ucast (port + P_LBA_HI)) (ucast (drop_bit 16 pos)) s
      in port_out (ucast (port + P_CMD_ST)) CMD_READ s)"

definition hdd_block_read :: "nat \<Rightarrow> u32 \<Rightarrow> u32 \<Rightarrow> 'a hdd_state_scheme \<Rightarrow> (io \<times> 'a hdd_state_scheme) option" where
  "hdd_block_read self pos sz s =
     (let d = hdd_devs s ! self
      in if bd_size d \<noteq> sz then Some (Done (-1), s)
         else if hd_queue d \<noteq> FREE_QUEUE then Some (Done (-1), s)
         else do {
           let s = hdd_command d pos s;
           (q, s) \<leftarrow> loader_enqueue (hd_queue d) s;
           Some (Blocked 0, upd_hdd self (\<lambda>d. d\<lparr>hd_queue := q\<rparr>) s)
         })"

text \<open>
  The part behind \<^verbatim>\<open>loader_enqueue\<close>: the value returned and the bytes stored from the
  start of the buffer on, which are none when an error is reported.
\<close>

fun read_words :: "nat \<Rightarrow> u16 \<Rightarrow> 'a hw_state_scheme \<Rightarrow> u8 list \<times> 'a hw_state_scheme" where
  "read_words 0 port s = ([], s)"
| "read_words (Suc n) port s =
     (let (data, s) = inw port s; (bs, s) = read_words n port s in (ucast data # ucast (drop_bit 8 data) # bs, s))"

definition hdd_block_read_resume :: "nat \<Rightarrow> 'a hdd_state_scheme \<Rightarrow> (int \<times> u8 list \<times> 'a hdd_state_scheme) option" where
  "hdd_block_read_resume self s =
     (let d = hdd_devs s ! self; (status, s) = inb (ucast (hd_port d + P_CMD_ST)) s;
          failed = (\<lambda>message. Option.bind (debug_log (chars message) s) (\<lambda>s. Some (-1, [], s)))
      in if status AND ST_ERR \<noteq> 0 then failed ''HDD: ERR bit set while reading''
         else if status AND ST_DF \<noteq> 0 then failed ''HDD: Drive Fault while reading''
         else if status AND ST_BSY \<noteq> 0 \<or> status AND ST_RDY = 0 then failed ''HDD: Device busy while reading''
         else if status AND ST_DRQ = 0 then failed ''HDD: No data to transfer''
         else let (bs, s) = read_words (unat (bd_size d div 2)) (ucast (hd_port d)) s
           in Some (sint (bd_size d), bs, s))"

definition hdd_open :: "int \<Rightarrow> 'a hdd_state_scheme \<Rightarrow> nat option \<times> 'a hdd_state_scheme" where
  "hdd_open hdd s =
     (if hdd < 0 \<or> HARD_DISK_DRIVES \<le> hdd then (None, s)
      else (Some (nat hdd), upd_hdd (nat hdd) (\<lambda>d. d\<lparr>bd_refcount := bd_refcount d + 1\<rparr>) s))"

text \<open>
  \<^verbatim>\<open>kassert("device not found")\<close> asserts a non-null pointer and never stops the kernel;
  the null pointer returned behind it is \<^verbatim>\<open>None\<close>.
\<close>

definition device_for :: "u32 \<Rightarrow> bool \<Rightarrow> nat option" where
  "device_for port isSlave =
     (if port = PRI_PORT then Some (if isSlave then 1 else 0)
      else if port = SEC_PORT then Some (if isSlave then 3 else 2)
      else None)"

definition hdd_primary_handler :: "'a hdd_state_scheme \<Rightarrow> 'a hdd_state_scheme option" where
  "hdd_primary_handler s =
     (let (drive, s) = inb (ucast (PRI_PORT + P_DRIVE)) s
      in do {
        dev \<leftarrow> device_for PRI_PORT (drive AND 1 \<noteq> 0);
        (q, s) \<leftarrow> loader_unqueue (hd_queue (hdd_devs s ! dev)) s;
        Some (upd_hdd dev (\<lambda>d. d\<lparr>hd_queue := q\<rparr>) s)
      })"

definition init_hdd :: "nat \<Rightarrow> u32 \<Rightarrow> u32 \<Rightarrow> u8 \<Rightarrow> 'a hdd_state_scheme \<Rightarrow> 'a hdd_state_scheme" where
  "init_hdd hdd port ctrl_port channel s =
     upd_hdd hdd (\<lambda>d. d\<lparr>bd_klass := CLASS_DEV_HDD, bd_refcount := 0, bd_read := Some Hdd_block_read, bd_size := 512,
       hd_queue := FREE_QUEUE, hd_port := port, hd_ctrl_port := ctrl_port, hd_channel := channel\<rparr>) s"

definition hdd_init :: "'a hdd_state_scheme \<Rightarrow> 'a hdd_state_scheme option" where
  "hdd_init s = do {
     s \<leftarrow> idt_register ISR_IRQ14 Hdd_primary_handler PL_KERNEL s;
     let s = pic_clear_irq_mask 2 s;
     let s = pic_clear_irq_mask PRI_IRQ s;
     let s = init_hdd 0 PRI_PORT PRI_CTRL_PORT DRIVE_MASTER s;
     let s = init_hdd 1 PRI_PORT PRI_CTRL_PORT DRIVE_SLAVE s;
     let s = init_hdd 2 SEC_PORT SEC_CTRL_PORT DRIVE_MASTER s;
     Some (init_hdd 3 SEC_PORT SEC_CTRL_PORT DRIVE_SLAVE s)
   }"

subsection \<open>The memory report\<close>

abbreviation (input) PROC_CPUID_BUFSZ :: nat where "PROC_CPUID_BUFSZ \<equiv> 100"
abbreviation (input) MAX_PROC_CPUID_DEVS :: nat where "MAX_PROC_CPUID_DEVS \<equiv> MAX_FD"

record dev_proc_cpuid = chardev +
  pc_buffer :: "u8 list"
  stream_length :: u32
  stream_position :: u32

record proc_cpuid_state = hdd_state +
  proc_cpuid_devs :: "dev_proc_cpuid list"

definition upd_cpuid :: "nat \<Rightarrow> (dev_proc_cpuid \<Rightarrow> dev_proc_cpuid) \<Rightarrow> 'a proc_cpuid_state_scheme \<Rightarrow> 'a proc_cpuid_state_scheme" where
  "upd_cpuid i f s = s\<lparr>proc_cpuid_devs := (proc_cpuid_devs s)[i := f (proc_cpuid_devs s ! i)]\<rparr>"

definition proc_init :: "'a proc_cpuid_state_scheme \<Rightarrow> 'a proc_cpuid_state_scheme" where
  "proc_init s = s\<lparr>proc_cpuid_devs := map (\<lambda>d. d\<lparr>klass := CLASS_DEV_NONE\<rparr>) (proc_cpuid_devs s)\<rparr>"

definition proc_cpuid_open :: "'a proc_cpuid_state_scheme \<Rightarrow> (dev_ptr option \<times> 'a proc_cpuid_state_scheme) option" where
  "proc_cpuid_open s =
     (let dev = index_where (\<lambda>d. klass d = CLASS_DEV_NONE) (proc_cpuid_devs s)
      in if dev < length (proc_cpuid_devs s) then do {
           (sz, text) \<leftarrow> sprintf (\<lambda>_. []) (chars ''free kernel mem = %uKB, user = %uKB'' @ [0x0A])
             [mm_free_page_count MM_REQUEST_KERNEL s * 4096 div 1024, mm_free_page_count MM_REQUEST_USER s * 4096 div 1024];
           kassert (sz \<le> int PROC_CPUID_BUFSZ \<and> length text \<le> PROC_CPUID_BUFSZ);
           Some (Some (Proc_cpuid_dev dev), upd_cpuid dev (\<lambda>d. d\<lparr>klass := CLASS_DEV_PROC_CPUID, refcount := 0, dv_flush := None,
             dv_read := Some Proc_cpuid_read, dv_write := None, dv_seek := None, stream_position := 0,
             pc_buffer := text @ drop (length text) (pc_buffer d), stream_length := word_of_int sz\<rparr>) s)
         }
         else Some (None, s))"

definition proc_cpuid_read :: "nat \<Rightarrow> u32 \<Rightarrow> u32 \<Rightarrow> 'a proc_cpuid_state_scheme \<Rightarrow> (io \<times> 'a proc_cpuid_state_scheme) option" where
  "proc_cpuid_read self buf sz s =
     (let d = proc_cpuid_devs s ! self;
          sz = (if stream_position d + sz > stream_length d then stream_length d - stream_position d else sz)
      in do {
        (effective_sz, s) \<leftarrow> array2user (drop (unat (stream_position d)) (pc_buffer d)) buf sz s;
        let s = (if 0 < effective_sz then upd_cpuid self (\<lambda>d. d\<lparr>stream_position := stream_position d + word_of_int effective_sz\<rparr>) s else s);
        Some (Done effective_sz, s)
      })"

definition proc_cpuid_flush :: "nat \<Rightarrow> 'a proc_cpuid_state_scheme \<Rightarrow> (u32 \<times> 'a proc_cpuid_state_scheme) option" where
  "proc_cpuid_flush self s = Some (0, upd_cpuid self (\<lambda>d. d\<lparr>klass := CLASS_DEV_NONE\<rparr>) s)"

subsection \<open>What a sector read sends and what it brings\<close>

text \<open>
  A reference reading of the controller's registers: the drive selected and the sector number
  in the six writes of a read command.
\<close>

definition command_lba :: "u32 \<Rightarrow> port_event list \<Rightarrow> (u8 \<times> u32) option" where
  "command_lba port es =
     (case es of
        [Outb a drive, Outb b n, Outb c lo, Outb d mid, Outb e hi, Outb f cmd] \<Rightarrow>
          if [a, b, c, d, e, f] = map (\<lambda>i. ucast (port + i)) [P_DRIVE, P_SECTOR_COUNT, P_LBA_LO, P_LBA_MID, P_LBA_HI, P_CMD_ST] \<and>
             n = 1 \<and> cmd = CMD_READ
          then Some (drive AND 0xF0, push_bit 24 (ucast (drive AND 0xF)) OR push_bit 16 (ucast hi) OR push_bit 8 (ucast mid) OR ucast lo)
          else None
      | _ \<Rightarrow> None)"

lemma lba_bytes:
  "push_bit 24 (ucast (ucast (drop_bit 24 (pos :: u32) AND 0xF) :: u8)) OR push_bit 16 (ucast (ucast (drop_bit 16 pos) :: u8)) OR
     push_bit 8 (ucast (ucast (drop_bit 8 pos) :: u8)) OR ucast (ucast pos :: u8) = take_bit 28 pos"
proof -
  have f: "(0xF :: u32) = mask 4" by (simp add: mask_eq_exp_minus_1)
  show ?thesis
  proof (rule bit_word_eqI)
    fix n assume "n < LENGTH(32)"
    then show "bit (push_bit 24 (ucast (ucast (drop_bit 24 pos AND 0xF) :: u8)) OR push_bit 16 (ucast (ucast (drop_bit 16 pos) :: u8)) OR
     push_bit 8 (ucast (ucast (drop_bit 8 pos) :: u8)) OR ucast (ucast pos :: u8) :: u32) n = bit (take_bit 28 pos) n"
      by (cases "16 \<le> n"; cases "8 \<le> n"; cases "24 \<le> n") (auto simp: f bit_simps)
  qed
qed

lemma hdd_command_ports:
  assumes "hd_channel d AND 0xF = 0"
  shows "\<exists>rs es. hdd_command d pos s = s\<lparr>ports := ports s @ rs @ es\<rparr> \<and> length rs = 5 \<and>
    (\<forall>e\<in>set rs. \<exists>v. e = Inb (ucast (hd_ctrl_port d + P_CTRL_NIEN)) v) \<and>
    command_lba (hd_port d) es = Some (hd_channel d, take_bit 28 pos)"
proof -
  let ?st = "\<lambda>s. snd (inb (ucast (hd_ctrl_port d + P_CTRL_NIEN)) s)"
  have reads: "\<exists>rs. (?st ^^ n) s = s\<lparr>ports := ports s @ rs\<rparr> \<and> length rs = n \<and>
      (\<forall>e\<in>set rs. \<exists>v. e = Inb (ucast (hd_ctrl_port d + P_CTRL_NIEN)) v)" for n
  proof (induction n)
    case (Suc n)
    then obtain rs where "(?st ^^ n) s = s\<lparr>ports := ports s @ rs\<rparr>" "length rs = n"
      "\<forall>e\<in>set rs. \<exists>v. e = Inb (ucast (hd_ctrl_port d + P_CTRL_NIEN)) v" by blast
    then show ?case
      by (intro exI [of _ "rs @ [Inb (ucast (hd_ctrl_port d + P_CTRL_NIEN)) (ucast (hardware s (ports s @ rs) (ucast (hd_ctrl_port d + P_CTRL_NIEN))))]"])
        (auto simp: inb_def Let_def)
  qed simp
  obtain rs where rs: "(?st ^^ 5) s = s\<lparr>ports := ports s @ rs\<rparr>" "length rs = 5"
      "\<forall>e\<in>set rs. \<exists>v. e = Inb (ucast (hd_ctrl_port d + P_CTRL_NIEN)) v" using reads [of 5] by blast
  let ?x = "ucast (drop_bit 24 pos AND 0xF) :: u8"
  have f: "(0xF :: u8) = mask 4" "(0xF :: u32) = mask 4" by (simp_all add: mask_eq_exp_minus_1)
  have c: "\<not> (bit (hd_channel d) n \<and> n < 4)" for n
  proof -
    have "\<not> bit (hd_channel d AND mask 4) n" using assms f(1) by simp
    then show ?thesis by (auto simp: bit_simps)
  qed
  have lo: "(hd_channel d OR ?x) AND 0xF = ?x"
    by (rule bit_word_eqI) (use c in \<open>auto simp: f bit_simps\<close>)
  have F0: "(0xF0 :: u8) = NOT (mask 4)" by (simp add: mask_eq_exp_minus_1)
  have hi: "(hd_channel d OR ?x) AND 0xF0 = hd_channel d"
    unfolding F0 by (rule bit_word_eqI) (use c in \<open>auto simp: f bit_simps\<close>)
  have "hdd_command d pos s = s\<lparr>ports := ports s @ rs @
      [Outb (ucast (hd_port d + P_DRIVE)) (hd_channel d OR ?x), Outb (ucast (hd_port d + P_SECTOR_COUNT)) 1,
       Outb (ucast (hd_port d + P_LBA_LO)) (ucast pos), Outb (ucast (hd_port d + P_LBA_MID)) (ucast (drop_bit 8 pos)),
       Outb (ucast (hd_port d + P_LBA_HI)) (ucast (drop_bit 16 pos)), Outb (ucast (hd_port d + P_CMD_ST)) CMD_READ]\<rparr>"
    unfolding hdd_command_def Let_def rs(1) by (simp add: port_out_def)
  then show ?thesis
    by (intro exI conjI) (assumption | rule rs(2,3) | simp add: command_lba_def lo hi lba_bytes)+
qed

lemma upd_hdd_fields [simp]:
  "processes (upd_hdd i f s) = processes s" "sleeping (upd_hdd i f s) = sleeping s" "first_slept (upd_hdd i f s) = first_slept s"
  "cur_pid (upd_hdd i f s) = cur_pid s" "ports (upd_hdd i f s) = ports s" "sched_state.truncate (upd_hdd i f s) = sched_state.truncate s"
  "hardware (upd_hdd i f s) = hardware s" "phys (upd_hdd i f s) = phys s"
  by (simp_all add: upd_hdd_def sched_state.defs)

text \<open>A port access and an update of a driver leave every process where it is.\<close>

lemma placed_ports [simp]:
  "placed (s\<lparr>ports := es\<rparr>) hs qss ds = placed s hs qss ds" "ready_pids (s\<lparr>ports := es\<rparr>) = ready_pids s"
  "running_pid (s\<lparr>ports := es\<rparr>) = running_pid s"
  using placed_cong [of "s\<lparr>ports := es\<rparr>" s] by (simp_all add: sched_state.defs)

lemma placed_upd_hdd [simp]:
  "placed (upd_hdd i f s) hs qss ds = placed s hs qss ds" "ready_pids (upd_hdd i f s) = ready_pids s"
  "running_pid (upd_hdd i f s) = running_pid s"
  using placed_cong [of "upd_hdd i f s" s] by simp_all

text \<open>The fields of the drivers behind those of the processes.\<close>

lemma proc_more_fields:
  assumes "proc_state.more s' = proc_state.more s"
  shows "ports s' = ports s" "hdd_devs s' = hdd_devs s" "hardware s' = hardware s" "phys s' = phys s"
  using assms by (cases s; cases s'; simp)+

text \<open>C32: Reading a sector sends its number to the drive: the controller is given the drive and the low
  28 bits of the number (a sector beyond 128 GB would be another one), after five reads of
  its alternate status, and the caller waits, alone, in the queue of the disk. While somebody
  waits there, or for any size but that of a sector, it fails and touches nothing.\<close>

theorem hdd_block_read_issues:
  assumes P: "placed s [FREE_QUEUE] [[]] ds" and run: "running_pid s = Some p" and d: "d < length (hdd_devs s)"
    and ch: "hd_channel (hdd_devs s ! d) AND 0xF = 0"
  shows "if sz = bd_size (hdd_devs s ! d) \<and> hd_queue (hdd_devs s ! d) = FREE_QUEUE
    then \<exists>rs es s'. hdd_block_read d pos sz s = Some (Blocked 0, s') \<and> ports s' = ports s @ rs @ es \<and>
      length rs = 5 \<and> (\<forall>e\<in>set rs. \<exists>v. e = Inb (ucast (hd_ctrl_port (hdd_devs s ! d) + P_CTRL_NIEN)) v) \<and>
      command_lba (hd_port (hdd_devs s ! d)) es = Some (hd_channel (hdd_devs s ! d), take_bit 28 pos) \<and>
      placed s' [hd_queue (hdd_devs s' ! d)] [[p]] ds \<and> ready_pids s' = remove1 p (ready_pids s)
    else hdd_block_read d pos sz s = Some (Done (-1), s)"
proof (cases "sz = bd_size (hdd_devs s ! d) \<and> hd_queue (hdd_devs s ! d) = FREE_QUEUE")
  case True
  let ?d = "hdd_devs s ! d"
  obtain rs es where c: "hdd_command ?d pos s = s\<lparr>ports := ports s @ rs @ es\<rparr>" "length rs = 5"
    "\<forall>e\<in>set rs. \<exists>v. e = Inb (ucast (hd_ctrl_port ?d + P_CTRL_NIEN)) v" "command_lba (hd_port ?d) es = Some (hd_channel ?d, take_bit 28 pos)"
    using hdd_command_ports [OF ch, of pos s] by blast
  define s1 where "s1 = s\<lparr>ports := ports s @ rs @ es\<rparr>"
  have same: "placed s1 hs qss ds' = placed s hs qss ds'" "ready_pids s1 = ready_pids s" "running_pid s1 = running_pid s" for hs qss ds'
    by (simp_all add: s1_def)
  then have "placed s1 [FREE_QUEUE] [[]] ds" "running_pid s1 = Some p" using P run by simp_all
  from placed_enqueue [OF this(1) _ this(2), of 0] obtain h s2 where
    e: "loader_enqueue FREE_QUEUE s1 = Some (h, s2)" "placed s2 [h] [[p]] ds" "ready_pids s2 = remove1 p (ready_pids s)"
    "proc_state.more s2 = proc_state.more s1" using same(2) by auto
  define s3 where "s3 = upd_hdd d (\<lambda>d. d\<lparr>hd_queue := h\<rparr>) s2"
  note m = proc_more_fields [OF e(4)]
  have s3: "ports s3 = ports s @ rs @ es" "hd_queue (hdd_devs s3 ! d) = h"
    using d m by (simp_all add: s3_def s1_def) (simp add: upd_hdd_def)
  have "placed s3 hs qss ds' = placed s2 hs qss ds'" "ready_pids s3 = ready_pids s2" for hs qss ds'
    by (simp_all add: s3_def)
  moreover have "hdd_block_read d pos sz s = Some (Blocked 0, s3)"
    using True c(1) e(1) by (simp add: hdd_block_read_def Let_def s3_def flip: s1_def)
  ultimately show ?thesis unfolding if_P [OF True] using c e s3
    by (intro exI [of _ rs] exI [of _ es] exI [of _ s3]) simp
qed (auto simp: hdd_block_read_def Let_def)

text \<open>The words of the sector, in the order of the reads.\<close>

lemma read_words_ports:
  "\<exists>ws. read_words n port s = (concat (map (\<lambda>w. [ucast w, ucast (drop_bit 8 w)]) ws), s\<lparr>ports := ports s @ map (Inw port) ws\<rparr>) \<and>
     length ws = n \<and> (\<forall>i<n. ws ! i = hardware s (ports s @ map (Inw port) (take i ws)) port)"
proof (induction n arbitrary: s)
  case (Suc n)
  define v where "v = hardware s (ports s) port"
  let ?s = "s\<lparr>ports := ports s @ [Inw port v]\<rparr>"
  obtain ws where ws: "read_words n port ?s = (concat (map (\<lambda>w. [ucast w, ucast (drop_bit 8 w)]) ws), ?s\<lparr>ports := ports ?s @ map (Inw port) ws\<rparr>)"
    "length ws = n" "\<forall>i<n. ws ! i = hardware ?s (ports ?s @ map (Inw port) (take i ws)) port"
    using Suc [of ?s] by blast
  have "(v # ws) ! i = hardware s (ports s @ map (Inw port) (take i (v # ws))) port" if "i < Suc n" for i
    using that ws(3) by (cases i) (simp_all add: v_def)
  then show ?case using ws(1,2) by (intro exI [of _ "v # ws"]) (simp add: inw_def Let_def v_def [symmetric])
qed simp

lemma put_dec_defined: "\<exists>cs k. put_dec n = Some (cs, k)"
  by (cases "n < 0") (simp_all add: put_dec_def len_def len_loop_spec Let_def)

lemma debug_log_logs: "\<exists>d. debug_log message s = Some (show_display d s)"
proof -
  obtain c k where a: "vga_print_dec n d = Some (k n, put_chars vga_addr False (c n) d)" for n d
  proof -
    have "\<exists>c k. \<forall>n. put_dec n = Some (c n, k n)" using put_dec_defined by metis
    then obtain c k where "\<And>n. put_dec n = Some (c n, k n)" by blast
    then show thesis using that [of k c] by (simp add: vga_print_dec_def)
  qed
  have "\<exists>n d'. printf_loop False (\<lambda>_. message) (chars ''[%d.%d] %s'' @ [0x0A]) [x, y, 0] 0 d = Some (n, d')" for x y d
    by (simp add: chars_def) (subst printf_loop.simps, simp add: a)+
  then obtain n d' where "printf_loop False (\<lambda>_. message) (chars ''[%d.%d] %s'' @ [0x0A])
      [ucast (drop_bit 32 (tsc s (ports s))), ucast (tsc s (ports s)), 0] 0 (display_of s) = Some (n, d')" by blast
  then show ?thesis
    unfolding debug_log_def printf_def vga_printf_def vga_printf_fixed_args_def Let_def by auto
qed

definition read_ready :: "u8 \<Rightarrow> bool" where
  "read_ready st \<longleftrightarrow> st AND ST_ERR = 0 \<and> st AND ST_DF = 0 \<and> st AND ST_BSY = 0 \<and> st AND ST_RDY \<noteq> 0 \<and> st AND ST_DRQ \<noteq> 0"

text \<open>C33: Once the disk has answered, a read looks at the status: with an error, a fault, a busy or
  not ready drive or no data it returns -1 and stores nothing; otherwise it stores the 256
  words that the data port delivers, low byte first, and returns the size.\<close>

theorem hdd_read_brings_sector:
  assumes "bd_size (hdd_devs s ! d) = 512"
    and st: "st = ucast (hardware s (ports s) (ucast (hd_port (hdd_devs s ! d) + P_CMD_ST)))"
  shows "if read_ready st
    then \<exists>ws. hdd_block_read_resume d s = Some (512, concat (map (\<lambda>w. [ucast w, ucast (drop_bit 8 w)]) ws),
        s\<lparr>ports := ports s @ Inb (ucast (hd_port (hdd_devs s ! d) + P_CMD_ST)) st # map (Inw (ucast (hd_port (hdd_devs s ! d)))) ws\<rparr>) \<and>
      length ws = 256
    else \<exists>s'. hdd_block_read_resume d s = Some (-1, [], s')"
proof -
  let ?d = "hdd_devs s ! d" and ?s = "s\<lparr>ports := ports s @ [Inb (ucast (hd_port (hdd_devs s ! d) + P_CMD_ST)) st]\<rparr>"
  obtain ws where ws: "read_words 256 (ucast (hd_port ?d)) ?s =
      (concat (map (\<lambda>w. [ucast w, ucast (drop_bit 8 w)]) ws), ?s\<lparr>ports := ports ?s @ map (Inw (ucast (hd_port ?d))) ws\<rparr>)" "length ws = 256"
    using read_words_ports [of 256 "ucast (hd_port ?d)" ?s] by blast
  have sz: "sint (512 :: u32) = 512" "unat ((512 :: u32) div 2) = 256" by simp_all
  have w: "inb (ucast (hd_port ?d + P_CMD_ST)) s = (st, ?s)" by (simp add: inb_def st Let_def)
  show ?thesis
  proof (cases "read_ready st")
    case True
    then have "hdd_block_read_resume d s = Some (512, concat (map (\<lambda>w. [ucast w, ucast (drop_bit 8 w)]) ws),
        ?s\<lparr>ports := ports ?s @ map (Inw (ucast (hd_port ?d))) ws\<rparr>)"
      using ws(1) sz by (simp add: hdd_block_read_resume_def w assms(1) read_ready_def Let_def)
    then show ?thesis using True ws(2) by auto
  next
    case False
    obtain f where f: "debug_log m ?s = Some (show_display (f m) ?s)" for m using debug_log_logs [of _ ?s] by metis
    show ?thesis using False by (auto simp: hdd_block_read_resume_def w assms(1) read_ready_def f Let_def)
  qed
qed

text \<open>
  The interrupt handler tells the slave from the master by bit 0 of the drive register, which
  is bit 24 of the sector number that was written there (the drive is in bit 4): a request to
  the slave never wakes its reader, nor does one to the master beyond 8 GB whose sector has
  that bit.
\<close>

lemma primary_handler_looks_at_sector:
  assumes "ucast (hardware s (ports s) 0x1F6) = chan OR ucast (drop_bit 24 (pos :: u32) AND 0xF)" and "chan = DRIVE_MASTER \<or> chan = DRIVE_SLAVE"
    and "hd_queue (hdd_devs s ! (if bit pos 24 then 1 else 0)) = FREE_QUEUE"
  shows "\<exists>s'. hdd_primary_handler s = Some s' \<and> processes s' = processes s \<and> (\<forall>i. hd_queue (hdd_devs s' ! i) = hd_queue (hdd_devs s ! i))"
proof -
  let ?v = "chan OR ucast (drop_bit 24 (pos :: u32) AND 0xF) :: u8"
  have f: "(0xF :: u32) = mask 4" by (simp add: mask_eq_exp_minus_1)
  have "bit ?v 0 \<longleftrightarrow> bit pos 24" using assms(2) by (auto simp: f bit_simps)
  moreover have "(?v AND 1 \<noteq> 0) = bit ?v 0" using and_exp_eq_0_iff_not_bit [of ?v 0] by simp
  ultimately have v: "device_for PRI_PORT (?v AND 1 \<noteq> 0) = Some (if bit pos 24 then 1 else 0)" by (simp add: device_for_def)
  have "inb (ucast (PRI_PORT + P_DRIVE)) s = (?v, s\<lparr>ports := ports s @ [Inb 0x1F6 ?v]\<rparr>)"
    using assms(1) by (simp add: inb_def Let_def)
  then show ?thesis using v assms(3)
    by (simp add: hdd_primary_handler_def Let_def loader_unqueue_def upd_hdd_def nth_list_update_field)
qed

subsection \<open>A serial line is a queue of fifty bytes\<close>

definition serial_ok :: "dev_serial \<Rightarrow> bool" where
  "serial_ok d \<longleftrightarrow> length (sd_buffer d) = SERIAL_BUFFER_LENGTH \<and> unat (ptr_to d) \<le> SERIAL_BUFFER_LENGTH \<and>
     (buffer_free d \<longleftrightarrow> ptr_to d = 0)"

definition pending :: "dev_serial \<Rightarrow> u8 list" where
  "pending d = take (unat (ptr_to d)) (sd_buffer d)"

lemma pending_receive:
  assumes ok: "serial_ok d" and room: "unat (ptr_to d) < SERIAL_BUFFER_LENGTH"
    and d': "d' = d\<lparr>sd_buffer := (sd_buffer d)[unat (ptr_to d) := x], ptr_to := ptr_to d + 1, buffer_free := False\<rparr>"
  shows "serial_ok d'" "pending d' = take SERIAL_BUFFER_LENGTH (pending d @ [x])"
proof -
  have n: "unat (ptr_to d + 1) = Suc (unat (ptr_to d))" using room by (subst unat_add_lem [THEN iffD1]) simp_all
  then have "ptr_to d + 1 \<noteq> 0" by (metis nat.distinct(1) unsigned_0)
  then show "serial_ok d'" using ok room n by (simp add: serial_ok_def d')
  have "take (Suc (unat (ptr_to d))) ((sd_buffer d)[unat (ptr_to d) := x]) = pending d @ [x]"
    using ok room by (simp add: take_Suc_conv_app_nth pending_def serial_ok_def)
  then show "pending d' = take SERIAL_BUFFER_LENGTH (pending d @ [x])"
    using ok room by (simp add: pending_def d' n serial_ok_def)
qed

lemma serial_devs_upd: "i < length (serial_devs s) \<Longrightarrow> serial_devs (upd_serial i f s) ! i = f (serial_devs s ! i)"
  by (simp add: upd_serial_def)

lemma upd_serial_fields [simp]:
  "processes (upd_serial i f s) = processes s" "sleeping (upd_serial i f s) = sleeping s" "first_slept (upd_serial i f s) = first_slept s"
  "cur_pid (upd_serial i f s) = cur_pid s" "ports (upd_serial i f s) = ports s" "sched_state.truncate (upd_serial i f s) = sched_state.truncate s"
  "phys (upd_serial i f s) = phys s" "length (serial_devs (upd_serial i f s)) = length (serial_devs s)"
  by (simp_all add: upd_serial_def sched_state.defs)

lemma placed_upd_serial [simp]:
  "placed (upd_serial i f s) hs qss ds = placed s hs qss ds" "ready_pids (upd_serial i f s) = ready_pids s"
  "running_pid (upd_serial i f s) = running_pid s"
  using placed_cong [of "upd_serial i f s" s] by simp_all

lemma proc_more_serial: "proc_state.more s' = proc_state.more s \<Longrightarrow> serial_devs s' = serial_devs s \<and> ports s' = ports s"
  by (cases s; cases s'; simp)

lemma upd_serial_idle: "f (serial_devs s ! i) = serial_devs s ! i \<Longrightarrow> upd_serial i f s = s"
  by (simp add: upd_serial_def)

text \<open>The interrupt of a received byte puts it behind those that wait, unless fifty do, in which case
  it is lost, and makes ready the process that has waited longest for input.\<close>

theorem serial_receives:
  assumes d: "i < length (serial_devs s)" and ok: "serial_ok (serial_devs s ! i)"
    and P: "placed s [read_queue (serial_devs s ! i)] [qs] ds"
    and st: "ucast (hardware s (ports s) (ucast (io_port (serial_devs s ! i) + PORT_IIR))) AND II_ID_RDA \<noteq> 0"
  shows "\<exists>s' x. read_from_serial i s = Some s' \<and> serial_ok (serial_devs s' ! i) \<and>
    (\<exists>v. ports s' = ports s @ [Inb (ucast (io_port (serial_devs s ! i) + PORT_IIR)) v, Inb (ucast (io_port (serial_devs s ! i))) x]) \<and>
    pending (serial_devs s' ! i) = take SERIAL_BUFFER_LENGTH (pending (serial_devs s ! i) @ [x]) \<and>
    placed s' [read_queue (serial_devs s' ! i)] [tl qs] ds \<and> ready_pids s' = ready_pids s @ take 1 qs"
proof -
  let ?d = "serial_devs s ! i"
  define v where "v = (ucast (hardware s (ports s) (ucast (io_port ?d + PORT_IIR))) :: u8)"
  define s1 where "s1 = s\<lparr>ports := ports s @ [Inb (ucast (io_port ?d + PORT_IIR)) v]\<rparr>"
  define x where "x = (ucast (hardware s1 (ports s1) (ucast (io_port ?d))) :: u8)"
  define s2 where "s2 = s1\<lparr>ports := ports s1 @ [Inb (ucast (io_port ?d)) x]\<rparr>"
  define d' where "d' = (if unat (ptr_to ?d) < SERIAL_BUFFER_LENGTH
     then ?d\<lparr>sd_buffer := (sd_buffer ?d)[unat (ptr_to ?d) := x], ptr_to := ptr_to ?d + 1, buffer_free := False\<rparr> else ?d)"
  define s3 where "s3 = upd_serial i (\<lambda>_. d') s2"
  have s2d: "serial_devs s2 = serial_devs s" by (simp add: s2_def s1_def)
  have d3: "serial_devs s3 ! i = d'" using d by (simp add: s3_def serial_devs_upd s2d)
  have d': "serial_ok d'" "pending d' = take SERIAL_BUFFER_LENGTH (pending ?d @ [x])" "read_queue d' = read_queue ?d"
  proof -
    show "read_queue d' = read_queue ?d" by (simp add: d'_def)
    show "serial_ok d'" "pending d' = take SERIAL_BUFFER_LENGTH (pending ?d @ [x])"
      using ok pending_receive [OF ok _ refl, of x] by (simp_all add: d'_def) (simp add: pending_def serial_ok_def)
  qed
  have code: "read_from_serial i s = (if read_queue d' \<noteq> FREE_QUEUE
      then Option.bind (loader_unqueue (read_queue d') s3) (\<lambda>(q, s). Some (upd_serial i (\<lambda>d. d\<lparr>read_queue := q\<rparr>) s)) else Some s3)"
  proof -
    have "(if unat (ptr_to (serial_devs s2 ! i)) < SERIAL_BUFFER_LENGTH
        then upd_serial i (\<lambda>d. d\<lparr>sd_buffer := (sd_buffer d)[unat (ptr_to d) := x], ptr_to := ptr_to d + 1, buffer_free := False\<rparr>) s2
        else s2) = s3"
      using upd_serial_idle [of "\<lambda>_. ?d" s2 i] by (simp add: s3_def d'_def s2d) (simp add: upd_serial_def s2d)
    moreover have "inb (ucast (io_port ?d + PORT_IIR)) s = (v, s1)" "inb (ucast (io_port ?d)) s1 = (x, s2)"
      by (simp_all add: inb_def v_def s1_def x_def s2_def Let_def)
    ultimately show ?thesis using st by (simp add: read_from_serial_def Let_def d3 flip: v_def)
  qed
  have "placed s3 hs qss ds' = placed s hs qss ds'" "ready_pids s3 = ready_pids s" for hs qss ds'
    by (simp_all add: s3_def s2_def s1_def)
  then have P3: "placed s3 [read_queue d'] [qs] ds" "ready_pids s3 = ready_pids s" using P d'(3) by simp_all
  have p3: "ports s3 = ports s @ [Inb (ucast (io_port ?d + PORT_IIR)) v, Inb (ucast (io_port ?d)) x]"
    by (simp add: s3_def s2_def s1_def)
  show ?thesis
  proof (cases qs)
    case Nil
    then have "read_queue d' = FREE_QUEUE" using placedD(4) [OF P3(1), of 0] by (simp add: wait_queue_def)
    then show ?thesis using Nil code d3 d' P3 p3 by (intro exI [of _ s3] exI [of _ x]) simp
  next
    case (Cons q qs')
    then have ne: "read_queue d' \<noteq> FREE_QUEUE" using placedD(4) [OF P3(1), of 0] by (auto simp: wait_queue_def)
    obtain h s4 where u: "loader_unqueue (read_queue d') s3 = Some (h, s4)" "placed s4 [h] [qs'] ds"
      "ready_pids s4 = ready_pids s @ [q]" "proc_state.more s4 = proc_state.more s3"
      using placed_unqueue [OF P3(1), of 0 q qs'] Cons P3(2) by auto
    define s5 where "s5 = upd_serial i (\<lambda>d. d\<lparr>read_queue := h\<rparr>) s4"
    note m = proc_more_serial [OF u(4)]
    have d5: "serial_devs s5 ! i = d'\<lparr>read_queue := h\<rparr>"
      using d m by (simp add: s5_def serial_devs_upd d3) (simp add: s3_def s2d serial_devs_upd)
    have "placed s5 hs qss ds' = placed s4 hs qss ds'" "ready_pids s5 = ready_pids s4" for hs qss ds'
      by (simp_all add: s5_def)
    moreover have "serial_ok (d'\<lparr>read_queue := h\<rparr>)" "pending (d'\<lparr>read_queue := h\<rparr>) = pending d'"
      using d'(1) by (simp_all add: serial_ok_def pending_def)
    ultimately show ?thesis using Cons code ne u d5 d'(2) p3 m
      by (intro exI [of _ s5] exI [of _ x]) (simp add: s5_def)
  qed
qed

lemma bytes_to_user_copies:
  assumes "user_buffer v (length bs) as s"
  shows "\<exists>m. bytes_to_user bs v s = Some (s\<lparr>phys := m\<rparr>) \<and> map m as = bs \<and> (\<forall>x. x \<notin> set as \<longrightarrow> m x = phys s x)"
  using assms
proof (induction bs arbitrary: v as s)
  case Nil
  then show ?case by (intro exI [of _ "phys s"]) (simp add: user_buffer_def)
next
  case (Cons b bs)
  obtain a as' where as: "as = a # as'" using Cons.prems by (cases as) (auto simp: user_buffer_def)
  obtain pdt where pdt: "cur_pdt s = Some pdt" "\<forall>a\<in>set as. page_of a \<notin> owned pdt s"
    using Cons.prems(1) by (auto simp: user_buffer_def)
  note t = user_buffer_tl [OF Cons.prems [unfolded as list.size(4) add_Suc_right add_0_right] pdt(1)]
  have "user_buffer (v + 1) (length bs) as' (s\<lparr>phys := (phys s)(a := b)\<rparr>)" using t(2) [of a b] pdt(2) as by auto
  from Cons.IH [OF this] obtain m where m: "bytes_to_user bs (v + 1) (s\<lparr>phys := (phys s)(a := b)\<rparr>) = Some (s\<lparr>phys := m\<rparr>)"
    "map m as' = bs" "\<forall>x. x \<notin> set as' \<longrightarrow> m x = (if x = a then b else phys s x)" by auto
  have "a \<notin> set as'" using Cons.prems as by (auto simp: user_buffer_def)
  then show ?case using m t(1) as by (intro exI [of _ m]) auto
qed

lemma array2user_copies:
  assumes ub: "user_buffer v (unat sz) as s" and w: "may_write v s" and l: "unat sz \<le> length bs"
  shows "\<exists>m. array2user bs v sz s = Some (sint sz, s\<lparr>phys := m\<rparr>) \<and> map m as = take (unat sz) bs \<and> (\<forall>x. x \<notin> set as \<longrightarrow> m x = phys s x)"
proof -
  have "length (take (unat sz) bs) = unat sz" using l by simp
  then show ?thesis using bytes_to_user_copies [of v "take (unat sz) bs" as s] ub l w
    by (auto simp: array2user_def may_write_def)
qed


subsection \<open>Witnesses\<close>

text \<open>Two serial lines, the first with three bytes waiting, and an idle disk.\<close>

definition drv_demo :: "(port_event list \<Rightarrow> u16 \<Rightarrow> u16) \<Rightarrow> 'a \<Rightarrow> 'a hdd_state_scheme" where
  "drv_demo h x =
     (let d = \<lparr>klass = CLASS_DEV_NONE, refcount = 1, dv_flush = None, dv_read = Some Serial_read, dv_write = None, dv_seek = None,
            io_port = PORT_1, read_queue = FREE_QUEUE, buffer_free = False, sd_buffer = [0x61, 0x62, 0x63] @ replicate 47 0, ptr_to = 3,
            write_queue = FREE_QUEUE\<rparr>
      in con_demo h 0 \<lparr>serial_devs = [d, d\<lparr>buffer_free := True, ptr_to := 0\<rparr>],
        hdd_devs = [\<lparr>bd_klass = CLASS_DEV_HDD, bd_refcount = 1, bd_read = Some Hdd_block_read, bd_size = 512,
          hd_queue = FREE_QUEUE, hd_port = PRI_PORT, hd_ctrl_port = PRI_CTRL_PORT, hd_channel = DRIVE_MASTER\<rparr>], \<dots> = x\<rparr>)"

lemma drv_demo_is_demo: "\<exists>y. drv_demo h x = demo y"
  unfolding drv_demo_def con_demo_def hw_demo_def Let_def by (rule exI) (rule refl)

lemma drv_demo_fields:
  "ports (drv_demo h x) = []" "hardware (drv_demo h x) = h" "length (serial_devs (drv_demo h x)) = 2" "length (hdd_devs (drv_demo h x)) = 1"
  "hdd_devs (drv_demo h x) ! 0 = \<lparr>bd_klass = CLASS_DEV_HDD, bd_refcount = 1, bd_read = Some Hdd_block_read, bd_size = 512,
          hd_queue = FREE_QUEUE, hd_port = PRI_PORT, hd_ctrl_port = PRI_CTRL_PORT, hd_channel = DRIVE_MASTER\<rparr>"
  "io_port (serial_devs (drv_demo h x) ! 0) = PORT_1" "read_queue (serial_devs (drv_demo h x) ! 0) = FREE_QUEUE"
  "serial_ok (serial_devs (drv_demo h x) ! 0)" "pending (serial_devs (drv_demo h x) ! 0) = [0x61, 0x62, 0x63]"
  by (simp_all add: drv_demo_def con_demo_def hw_demo_def demo_def Let_def serial_ok_def pending_def)

lemma drv_demo_placed: "placed (drv_demo h x) [FREE_QUEUE] [[]] []" "\<exists>p. running_pid (drv_demo h x) = Some p"
proof -
  obtain y where y: "drv_demo h x = demo y" using drv_demo_is_demo [of h x] by (rule exE)
  show "placed (drv_demo h x) [FREE_QUEUE] [[]] []" using demo_placed [of y 1] by (simp add: y)
  show "\<exists>p. running_pid (drv_demo h x) = Some p" using demo_sched(2) [of y] by (auto simp: y)
qed

theorem hdd_block_read_issues_witness:
  "\<exists>rs es s' p. hdd_block_read 0 0x1234567 512 (drv_demo (\<lambda>_ _. 0) ()) = Some (Blocked 0, s') \<and> ports s' = rs @ es \<and>
     command_lba PRI_PORT es = Some (DRIVE_MASTER, 0x1234567) \<and> placed s' [hd_queue (hdd_devs s' ! 0)] [[p]] []"
proof -
  let ?s = "drv_demo (\<lambda>_ _. 0) ()"
  obtain p where p: "running_pid ?s = Some p" using drv_demo_placed(2) [of "\<lambda>_ _. 0" "()"] by (rule exE)
  have d: "0 < length (hdd_devs ?s)" "hd_channel (hdd_devs ?s ! 0) AND 0xF = 0" by (simp_all add: drv_demo_fields)
  have c: "(512 :: u32) = bd_size (hdd_devs ?s ! 0) \<and> hd_queue (hdd_devs ?s ! 0) = FREE_QUEUE" by (simp add: drv_demo_fields)
  have "take_bit 28 0x1234567 = (0x1234567 :: u32)" by simp
  with hdd_block_read_issues [OF drv_demo_placed(1) p d, of 512 "0x1234567", unfolded if_P [OF c]] show ?thesis
    by (elim exE conjE) (intro exI conjI, assumption, simp_all add: drv_demo_fields)
qed

theorem hdd_read_brings_sector_witness:
  "\<exists>ws s'. hdd_block_read_resume 0 (drv_demo (\<lambda>_ _. 0x48) ()) = Some (512, concat (map (\<lambda>w :: u16. [ucast w, ucast (drop_bit 8 w)]) ws), s') \<and>
     length ws = 256"
proof -
  have r: "read_ready 0x48" by (simp add: read_ready_def)
  have b: "bd_size (hdd_devs (drv_demo (\<lambda>_ _. 0x48) ()) ! 0) = 512" by (simp add: drv_demo_fields)
  have "(0x48 :: u8) = ucast (hardware (drv_demo (\<lambda>_ _. 0x48) ()) (ports (drv_demo (\<lambda>_ _. 0x48) ()))
      (ucast (hd_port (hdd_devs (drv_demo (\<lambda>_ _. 0x48) ()) ! 0) + P_CMD_ST)))" by (simp add: drv_demo_fields)
  from hdd_read_brings_sector [OF b this, unfolded if_P [OF r]] show ?thesis
    by (elim exE conjE) (intro exI conjI, assumption+)
qed

theorem serial_receives_witness:
  "\<exists>s' x. read_from_serial 0 (drv_demo (\<lambda>_ _. 0x64) ()) = Some s' \<and> pending (serial_devs s' ! 0) = [0x61, 0x62, 0x63, x]"
proof -
  let ?s = "drv_demo (\<lambda>_ _. 0x64) ()"
  have d: "0 < length (serial_devs ?s)" by (simp add: drv_demo_fields)
  have P: "placed ?s [read_queue (serial_devs ?s ! 0)] [[]] []" using drv_demo_placed(1) by (simp add: drv_demo_fields)
  have st: "ucast (hardware ?s (ports ?s) (ucast (io_port (serial_devs ?s ! 0) + PORT_IIR))) AND II_ID_RDA \<noteq> 0"
    by (simp add: drv_demo_fields)
  show ?thesis using serial_receives [OF d drv_demo_fields(8) P st]
    by (elim exE conjE) (intro exI conjI, assumption, simp add: drv_demo_fields)
qed


end
