(* ===== verification/Ext2.thy ===== *)
theory Ext2
  imports Drivers
begin

section \<open>The file system\<close>

text \<open>
  \<^verbatim>\<open>kernel/ext2.c\<close> and \<^verbatim>\<open>include/ext2.h\<close>: the second extended file system, read
  only. The superblock, the table of block groups, a directory being searched and the page of
  a file being read lie in kernel pages of the memory; an inode is a structure of its own,
  decoded from its 128 bytes. Reading a sector goes through a function pointer of the block
  device, \<^verbatim>\<open>dev->read\<close>: it is the argument \<open>rd\<close> here, whose result is the value
  returned, the bytes stored from the start of the buffer on, and the state when it returns,
  which may differ since the caller waits for the disk. What \<^verbatim>\<open>hdd_enhanced_read\<close>
  collects is returned and stored by its caller in one piece. What these operations give is proved in the theory
  \<^verbatim>\<open>Files\<close>.
\<close>

subsection \<open>Structures\<close>

definition field :: "nat \<Rightarrow> nat \<Rightarrow> u8 list \<Rightarrow> 'l::len word" where
  "field off n bs = word_of_int (horner_sum uint 256 (take n (drop off bs)))"

record ext2_inode =
  i_mode :: u16
  i_uid :: u16
  i_size :: u32
  i_atime :: u32
  i_ctime :: u32
  i_mtime :: u32
  i_dtime :: u32
  i_gid :: u16
  i_links_count :: u16
  i_blocks :: u32
  i_flags :: u32
  i_osd1 :: u32
  i_block :: "u32 list"
  i_generation :: u32
  i_file_acl :: u32
  i_dir_acl :: u32
  i_faddr :: u32
  i_osd2 :: "u8 list"

definition inode_of :: "u8 list \<Rightarrow> ext2_inode" where
  "inode_of bs = \<lparr>i_mode = field 0 2 bs, i_uid = field 2 2 bs, i_size = field 4 4 bs, i_atime = field 8 4 bs,
     i_ctime = field 12 4 bs, i_mtime = field 16 4 bs, i_dtime = field 20 4 bs, i_gid = field 24 2 bs,
     i_links_count = field 26 2 bs, i_blocks = field 28 4 bs, i_flags = field 32 4 bs, i_osd1 = field 36 4 bs,
     i_block = map (\<lambda>k. field (40 + 4 * k) 4 bs) [0..<15], i_generation = field 100 4 bs, i_file_acl = field 104 4 bs,
     i_dir_acl = field 108 4 bs, i_faddr = field 112 4 bs, i_osd2 = take 12 (drop 116 bs)\<rparr>"

record ext2 =
  loaded :: bool
  e2_dev :: "nat option"
  e2_sb :: u32
  bgdt :: u32
  bgd_count :: u32

record ext2_file = chardev +
  inode :: ext2_inode
  file_size :: u32
  block_list :: u32
  stream_pos :: u32
  ef_buffer :: u32
  buf_pos :: u32
  buf_len :: u32
  buffer_empty :: bool

record ext2_state = proc_cpuid_state +
  disk :: ext2
  ext2_files :: "ext2_file list"
  hdd_enhanced_buffer :: "u8 list"

type_synonym 'a reader = "nat \<Rightarrow> u32 \<Rightarrow> u32 \<Rightarrow> 'a ext2_state_scheme \<Rightarrow> (int \<times> u8 list \<times> 'a ext2_state_scheme) option"

abbreviation (input) SUPERBLOCK_START :: u32 where "SUPERBLOCK_START \<equiv> 1024"
abbreviation (input) SUPERBLOCK_MAX_LENGTH :: u32 where "SUPERBLOCK_MAX_LENGTH \<equiv> 1024"
abbreviation (input) SUPERBLOCK_MAGIC :: u16 where "SUPERBLOCK_MAGIC \<equiv> 0xEF53"
abbreviation (input) BGDT_START :: u32 where "BGDT_START \<equiv> 2048"
abbreviation (input) ROOT_DIR_INODE :: u32 where "ROOT_DIR_INODE \<equiv> 2"
abbreviation (input) EXT2_FT_DIR :: u8 where "EXT2_FT_DIR \<equiv> 2"
abbreviation (input) EXT2_S_IFDIR :: u16 where "EXT2_S_IFDIR \<equiv> 0x4000"
abbreviation (input) EXT2_INDIRECT_BLOCK :: nat where "EXT2_INDIRECT_BLOCK \<equiv> 12"
abbreviation (input) EXT2_DOBLY_INDIRECT_BLOCK :: nat where "EXT2_DOBLY_INDIRECT_BLOCK \<equiv> 13"
abbreviation (input) INODE_SIZE :: u32 where "INODE_SIZE \<equiv> 128"
abbreviation (input) BGD_SIZE :: u32 where "BGD_SIZE \<equiv> 32"

text \<open>The fields of the superblock in memory, and the inode table of a block group.\<close>

definition s_blocks_count :: "'a ext2_state_scheme \<Rightarrow> u32" where
  "s_blocks_count s = get32 (e2_sb (disk s) + 4) s"

definition s_log_block_size :: "'a ext2_state_scheme \<Rightarrow> u32" where
  "s_log_block_size s = get32 (e2_sb (disk s) + 24) s"

definition s_blocks_per_group :: "'a ext2_state_scheme \<Rightarrow> u32" where
  "s_blocks_per_group s = get32 (e2_sb (disk s) + 32) s"

definition s_inodes_per_group :: "'a ext2_state_scheme \<Rightarrow> u32" where
  "s_inodes_per_group s = get32 (e2_sb (disk s) + 40) s"

definition s_magic :: "'a ext2_state_scheme \<Rightarrow> u16" where
  "s_magic s = ld16 (e2_sb (disk s) + 56) (phys s)"

definition bgdt_entry :: "u32 \<Rightarrow> u32 \<Rightarrow> u32" where
  "bgdt_entry table index = table + index * BGD_SIZE"

definition bg_inode_table :: "u32 \<Rightarrow> 'a ext2_state_scheme \<Rightarrow> u32" where
  "bg_inode_table e s = get32 (e + 8) s"

definition fs_block_size :: "'a ext2_state_scheme \<Rightarrow> u32" where
  "fs_block_size s = push_bit (unat (s_log_block_size s)) 1024"

fun poke :: "u32 \<Rightarrow> u8 list \<Rightarrow> (u32 \<Rightarrow> u8) \<Rightarrow> u32 \<Rightarrow> u8" where
  "poke a [] m = m"
| "poke a (b # bs) m = poke (a + 1) bs (m(a := b))"

definition store :: "u32 \<Rightarrow> u8 list \<Rightarrow> 'a ext2_state_scheme \<Rightarrow> 'a ext2_state_scheme" where
  "store a bs s = s\<lparr>phys := poke a bs (phys s)\<rparr>"

subsection \<open>Reading the disk\<close>

fun enhanced_loop :: "'a reader \<Rightarrow> nat \<Rightarrow> nat \<Rightarrow> u32 \<Rightarrow> u32 \<Rightarrow> u32 \<Rightarrow> 'a ext2_state_scheme \<Rightarrow> (u8 list \<times> 'a ext2_state_scheme) option" where
  "enhanced_loop rd dev 0 pos read_span byte_count s = Some ([], s)"
| "enhanced_loop rd dev (Suc block_count) pos read_span byte_count s = do {
     let sz = bd_size (hdd_devs s ! dev);
     (_, data, s) \<leftarrow> rd dev pos sz s;
     let s = s\<lparr>hdd_enhanced_buffer := data @ drop (length data) (hdd_enhanced_buffer s)\<rparr>;
     let copied_bytes = (if sz - read_span < byte_count then sz - read_span else byte_count);
     kassert (unat read_span + unat copied_bytes \<le> length (hdd_enhanced_buffer s));
     let part = take (unat copied_bytes) (drop (unat read_span) (hdd_enhanced_buffer s));
     (rest, s) \<leftarrow> enhanced_loop rd dev block_count (pos + 1) (read_span - read_span) (byte_count - copied_bytes) s;
     Some (part @ rest, s)
   }"

definition hdd_enhanced_read :: "'a reader \<Rightarrow> u32 \<Rightarrow> u32 \<Rightarrow> 'a ext2_state_scheme \<Rightarrow> (u8 list \<times> 'a ext2_state_scheme) option" where
  "hdd_enhanced_read rd starting_byte byte_count s = do {
     dev \<leftarrow> e2_dev (disk s);
     let sz = bd_size (hdd_devs s ! dev);
     kassert (sz \<noteq> 0);
     let pos = starting_byte div sz;
     let read_span = starting_byte mod sz;
     let real_byte_count = starting_byte mod sz + byte_count;
     let block_count = real_byte_count div sz;
     let block_count = (if real_byte_count mod sz \<noteq> 0 then block_count + 1 else block_count);
     enhanced_loop rd dev (unat block_count) pos read_span byte_count s
   }"

definition read_inode :: "'a reader \<Rightarrow> u32 \<Rightarrow> 'a ext2_state_scheme \<Rightarrow> (ext2_inode \<times> 'a ext2_state_scheme) option" where
  "read_inode rd inode_id s = do {
     kassert (s_inodes_per_group s \<noteq> 0);
     let block_size = fs_block_size s;
     let b_group = (inode_id - 1) div s_inodes_per_group s;
     let index = (inode_id - 1) mod s_inodes_per_group s;
     let inode_table = bg_inode_table (bgdt_entry (bgdt (disk s)) b_group) s;
     let inode_starting_byte = inode_table * block_size + index * INODE_SIZE;
     (bs, s) \<leftarrow> hdd_enhanced_read rd inode_starting_byte INODE_SIZE s;
     Some (inode_of bs, s)
   }"

definition ext2_create :: "nat option \<Rightarrow> 'a ext2_state_scheme \<Rightarrow> 'a ext2_state_scheme" where
  "ext2_create dev s = s\<lparr>disk := \<lparr>loaded = False, e2_dev = dev, e2_sb = 0, bgdt = 0, bgd_count = 0\<rparr>\<rparr>"

fun read_superblock :: "'a reader \<Rightarrow> nat \<Rightarrow> nat \<Rightarrow> u32 \<Rightarrow> u32 \<Rightarrow> 'a ext2_state_scheme \<Rightarrow> 'a ext2_state_scheme option" where
  "read_superblock rd dev 0 pos tmp s = Some s"
| "read_superblock rd dev (Suc i) pos tmp s = do {
     let sz = bd_size (hdd_devs s ! dev);
     (_, data, s) \<leftarrow> rd dev pos sz s;
     read_superblock rd dev i (pos + 1) (tmp + sz) (store tmp data s)
   }"

definition ext2_finally_create :: "'a reader \<Rightarrow> 'a ext2_state_scheme \<Rightarrow> 'a ext2_state_scheme option" where
  "ext2_finally_create rd s = do {
     (sb, s) \<leftarrow> mm_mem_kalloc s;
     let s = memset sb 0 4096 s;
     let s = s\<lparr>disk := (disk s)\<lparr>e2_sb := sb\<rparr>\<rparr>;
     let table = sb + SUPERBLOCK_MAX_LENGTH;
     dev \<leftarrow> e2_dev (disk s);
     let sz = bd_size (hdd_devs s ! dev);
     kassert (sz \<noteq> 0);
     s \<leftarrow> read_superblock rd dev (unat (SUPERBLOCK_MAX_LENGTH div sz)) (SUPERBLOCK_START div sz) sb s;
     kassert (s_magic s = SUPERBLOCK_MAGIC);
     kassert (s_blocks_per_group s \<noteq> 0);
     let b_group_count = s_blocks_count s div s_blocks_per_group s;
     let b_group_count = (if s_blocks_count s mod s_blocks_per_group s \<noteq> 0 then b_group_count + 1 else b_group_count);
     (bs, s) \<leftarrow> hdd_enhanced_read rd BGDT_START (b_group_count * BGD_SIZE) s;
     let s = store table bs s;
     Some (s\<lparr>disk := (disk s)\<lparr>bgdt := table, bgd_count := b_group_count, loaded := True\<rparr>\<rparr>)
   }"

definition ensure_loaded :: "'a reader \<Rightarrow> 'a ext2_state_scheme \<Rightarrow> 'a ext2_state_scheme option" where
  "ensure_loaded rd s = (if \<not> loaded (disk s) then ext2_finally_create rd s else Some s)"

subsection \<open>Directories\<close>

text \<open>
  The contents of a directory go to a page, block by block; a directory larger than its
  fifteen pointers leaves the array of the inode. \<^verbatim>\<open>read_dir\<close> has the same loop.
\<close>

fun load_dir :: "'a reader \<Rightarrow> u32 list \<Rightarrow> u32 \<Rightarrow> u32 \<Rightarrow> u32 \<Rightarrow> 'a ext2_state_scheme \<Rightarrow> 'a ext2_state_scheme option" where
  "load_dir rd blocks block_size tmp_size ptr s =
     (if tmp_size = 0 then Some s
      else (case blocks of
         [] \<Rightarrow> None
       | b # blocks \<Rightarrow> do {
           let bytes_leidos = (if tmp_size < block_size then tmp_size else block_size);
           (bs, s) \<leftarrow> hdd_enhanced_read rd (b * block_size) bytes_leidos s;
           load_dir rd blocks block_size (tmp_size - bytes_leidos) (ptr + bytes_leidos) (store ptr bs s)
         }))"

text \<open>The fields of a directory entry in memory.\<close>

definition de_inode :: "u32 \<Rightarrow> 'a ext2_state_scheme \<Rightarrow> u32" where "de_inode e s = get32 e s"
definition de_rec_len :: "u32 \<Rightarrow> 'a ext2_state_scheme \<Rightarrow> u16" where "de_rec_len e s = ld16 (e + 4) (phys s)"
definition de_name_len :: "u32 \<Rightarrow> 'a ext2_state_scheme \<Rightarrow> u8" where "de_name_len e s = phys s (e + 6)"
definition de_file_type :: "u32 \<Rightarrow> 'a ext2_state_scheme \<Rightarrow> u8" where "de_file_type e s = phys s (e + 7)"
definition de_name :: "u32 \<Rightarrow> 'a ext2_state_scheme \<Rightarrow> u8 list" where
  "de_name e s = bytes_at (e + 8) (unat (de_name_len e s)) (phys s)"

partial_function (option) find_entry :: "u8 list \<Rightarrow> u32 \<Rightarrow> u32 \<Rightarrow> u32 \<Rightarrow> u32 \<Rightarrow> 'a ext2_state_scheme \<Rightarrow> u32 option" where
  "find_entry str str_len sz tmp_size entry s =
     (if tmp_size < sz then
        if ucast (de_name_len entry s) = str_len \<and> strncmp (de_name entry s) str str_len = 0
        then Some (de_inode entry s)
        else find_entry str str_len sz (tmp_size + ucast (de_rec_len entry s)) (entry + ucast (de_rec_len entry s)) s
      else Some 0)"

definition str_get_inode :: "'a reader \<Rightarrow> u8 list \<Rightarrow> u32 \<Rightarrow> u32 \<Rightarrow> 'a ext2_state_scheme \<Rightarrow> (u32 \<times> 'a ext2_state_scheme) option" where
  "str_get_inode rd str str_len dir_inode s = do {
     s \<leftarrow> ensure_loaded rd s;
     let block_size = fs_block_size s;
     (mi_inodo, s) \<leftarrow> read_inode rd dir_inode s;
     kassert (i_size mi_inodo \<le> 4096);
     (tmp_page, s) \<leftarrow> mm_mem_kalloc s;
     let s = memset tmp_page 0 (i_size mi_inodo) s;
     s \<leftarrow> load_dir rd (i_block mi_inodo) block_size (i_size mi_inodo) tmp_page s;
     inode_result \<leftarrow> find_entry str str_len (i_size mi_inodo) 0 tmp_page s;
     s \<leftarrow> mm_mem_free tmp_page s;
     Some (inode_result, s)
   }"

text \<open>
  The loop of \<^verbatim>\<open>get_file_inode\<close> over the names of a path: \<open>i_from\<close> is the start of the
  next name and \<open>i_to\<close> the index behind the next slash, or 0 when there is none.
\<close>

partial_function (option) path_loop :: "'a reader \<Rightarrow> u8 list \<Rightarrow> nat \<Rightarrow> nat \<Rightarrow> nat \<Rightarrow> u32 \<Rightarrow> 'a ext2_state_scheme \<Rightarrow> (u32 \<times> 'a ext2_state_scheme) option" where
  "path_loop rd filename str_len i_from i_to found s =
     (if i_to \<noteq> 0 then
        Option.bind (str_get_inode rd (drop i_from filename) (of_nat (i_to - i_from - 1)) found s) (\<lambda>(found, s).
          if found = 0 then Some (0, s)
          else Option.bind (char_pos filename 0x2F i_to) (\<lambda>i_next. path_loop rd filename str_len i_to i_next found s))
      else str_get_inode rd (drop i_from filename) (of_nat (str_len - i_from)) found s)"

definition get_file_inode :: "'a reader \<Rightarrow> u8 list \<Rightarrow> nat \<Rightarrow> 'a ext2_state_scheme \<Rightarrow> (u32 \<times> 'a ext2_state_scheme) option" where
  "get_file_inode rd filename str_len s = do {
     s \<leftarrow> ensure_loaded rd s;
     c \<leftarrow> char_at filename 0;
     kassert (c = 0x2F);
     i_from \<leftarrow> char_pos filename 0x2F 0;
     if i_from = str_len then Some (ROOT_DIR_INODE, s)
     else do {
       i_to \<leftarrow> char_pos filename 0x2F i_from;
       path_loop rd filename str_len i_from i_to ROOT_DIR_INODE s
     }
   }"

text \<open>The listing of a directory: every name in the colour of its type, with a tabulator behind it.\<close>

partial_function (option) list_dir :: "u32 \<Rightarrow> u32 \<Rightarrow> u32 \<Rightarrow> u32 \<Rightarrow> u32 \<Rightarrow> 'a ext2_state_scheme \<Rightarrow> (u32 \<times> 'a ext2_state_scheme) option" where
  "list_dir sz tmp_size entry buffer off s =
     (if tmp_size < sz then
        let s = store (buffer + off) (if de_file_type entry s = EXT2_FT_DIR then [0x5C, 0x63, 0x30, 0x41] else [0x5C, 0x63, 0x30, 0x37]) s;
            off = off + 4;
            s = memcpy (entry + 8) (buffer + off) (ucast (de_name_len entry s)) s;
            off = off + ucast (de_name_len entry s);
            s = store (buffer + off) [0x09] s;
            off = off + 1
        in list_dir sz (tmp_size + ucast (de_rec_len entry s)) (entry + ucast (de_rec_len entry s)) buffer off s
      else Some (off, s))"

definition read_dir :: "'a reader \<Rightarrow> ext2_inode \<Rightarrow> u32 \<Rightarrow> 'a ext2_state_scheme \<Rightarrow> (u32 \<times> 'a ext2_state_scheme) option" where
  "read_dir rd ino buffer s = do {
     let block_size = fs_block_size s;
     (tmp_page, s) \<leftarrow> mm_mem_kalloc s;
     s \<leftarrow> load_dir rd (i_block ino) block_size (i_size ino) tmp_page s;
     (off, s) \<leftarrow> list_dir (i_size ino) 0 tmp_page buffer 0 s;
     let s = store (buffer + off) [0x0A, 0] s;
     s \<leftarrow> mm_mem_free tmp_page s;
     Some (off + 2, s)
   }"

subsection \<open>Files\<close>

abbreviation (input) MAX_EXT2_FILES :: nat where "MAX_EXT2_FILES \<equiv> 32"

definition upd_file :: "nat \<Rightarrow> (ext2_file \<Rightarrow> ext2_file) \<Rightarrow> 'a ext2_state_scheme \<Rightarrow> 'a ext2_state_scheme" where
  "upd_file i f s = s\<lparr>ext2_files := (ext2_files s)[i := f (ext2_files s ! i)]\<rparr>"

text \<open>
  The block numbers behind the twelve of the inode: the indirect block, and the first three
  blocks of the doubly indirect one, into a page of 1024 numbers.
\<close>

definition read_block_list :: "'a reader \<Rightarrow> ext2_inode \<Rightarrow> u32 \<Rightarrow> u32 \<Rightarrow> 'a ext2_state_scheme \<Rightarrow> (u32 \<times> 'a ext2_state_scheme) option" where
  "read_block_list rd ino block_size block_count s = do {
     let read_to = (\<lambda>b a s. Option.bind (hdd_enhanced_read rd (b * block_size) block_size s) (\<lambda>(bs, s). Some (store a bs s)));
     (lst, s) \<leftarrow> (if block_count > 12 then do {
         (lst, s) \<leftarrow> mm_mem_kalloc s;
         s \<leftarrow> read_to (i_block ino ! EXT2_INDIRECT_BLOCK) lst s;
         Some (lst, s)
       } else Some (0, s));
     (d1, d2, s) \<leftarrow> (if block_count > 268 then do {
         s \<leftarrow> read_to (i_block ino ! EXT2_DOBLY_INDIRECT_BLOCK) (lst + 1024) s;
         let d0 = get32 (lst + 1024) s;
         let d1 = get32 (lst + 1028) s;
         let d2 = get32 (lst + 1032) s;
         s \<leftarrow> read_to d0 (lst + 1024) s;
         Some (d1, d2, s)
       } else Some (0, 0, s));
     s \<leftarrow> (if block_count > 524 then read_to d1 (lst + 2048) s else Some s);
     s \<leftarrow> (if block_count > 780 then read_to d2 (lst + 3072) s else Some s);
     Some (lst, s)
   }"

definition ext2_open :: "'a reader \<Rightarrow> u8 list \<Rightarrow> u32 \<Rightarrow> 'a ext2_state_scheme \<Rightarrow> (dev_ptr option \<times> 'a ext2_state_scheme) option" where
  "ext2_open rd filename flags s = do {
     c \<leftarrow> char_at filename 0;
     kassert (c = 0x2F);
     s \<leftarrow> ensure_loaded rd s;
     if flags AND FS_OPEN_WR \<noteq> 0 then Some (None, s)
     else do {
       n \<leftarrow> str_end_pos filename 0;
       (tmp_inode, s) \<leftarrow> get_file_inode rd filename n s;
       if tmp_inode = 0 then Some (None, s)
       else let dev = index_where (\<lambda>f. klass f = CLASS_DEV_NONE) (ext2_files s)
         in if dev < length (ext2_files s) then do {
           let s = upd_file dev (\<lambda>f. f\<lparr>klass := CLASS_DEV_EXT2_FILE, refcount := 0, dv_flush := Some Ext2_file_flush,
               dv_read := Some Ext2_file_read, dv_write := None, dv_seek := Some Ext2_file_seek\<rparr>) s;
           (ino, s) \<leftarrow> read_inode rd tmp_inode s;
           let s = upd_file dev (\<lambda>f. f\<lparr>inode := ino, file_size := i_size ino\<rparr>) s;
           let block_size = fs_block_size s;
           kassert (block_size \<noteq> 0);
           let block_count = i_size ino div block_size;
           let block_count = (if i_size ino mod block_size \<noteq> 0 then block_count + 1 else block_count);
           kassert (block_count \<le> 1036);
           (lst, s) \<leftarrow> read_block_list rd ino block_size block_count s;
           let s = upd_file dev (\<lambda>f. f\<lparr>block_list := lst, stream_pos := 0\<rparr>) s;
           (buffer, s) \<leftarrow> mm_mem_kalloc s;
           let s = upd_file dev (\<lambda>f. f\<lparr>ef_buffer := buffer, buf_pos := 0, buf_len := 4096, buffer_empty := True\<rparr>) s;
           if i_mode ino AND EXT2_S_IFDIR \<noteq> 0 then do {
             (sz, s) \<leftarrow> read_dir rd ino buffer s;
             Some (Some (Ext2_dev dev), upd_file dev (\<lambda>f. f\<lparr>file_size := sz, buffer_empty := False\<rparr>) s)
           }
           else Some (Some (Ext2_dev dev), s)
         }
         else Some (None, s)
     }
   }"

partial_function (option) load_buffer_loop :: "'a reader \<Rightarrow> nat \<Rightarrow> u32 \<Rightarrow> u32 \<Rightarrow> u32 \<Rightarrow> u32 \<Rightarrow> 'a ext2_state_scheme \<Rightarrow> 'a ext2_state_scheme option" where
  "load_buffer_loop rd file block_size inode_block tmp_size ptr s =
     (if 0 < tmp_size then
        let f = ext2_files s ! file;
            starting_byte = (if inode_block < 12 then i_block (inode f) ! unat inode_block
                             else get32 (block_list f + 4 * (inode_block - 12)) s) * block_size;
            bytes_leidos = (if tmp_size < block_size then tmp_size else block_size)
        in Option.bind (hdd_enhanced_read rd starting_byte bytes_leidos s) (\<lambda>(bs, s).
             load_buffer_loop rd file block_size (inode_block + 1) (tmp_size - bytes_leidos) (ptr + bytes_leidos) (store ptr bs s))
      else Some s)"

definition e2f_load_buffer :: "'a reader \<Rightarrow> nat \<Rightarrow> 'a ext2_state_scheme \<Rightarrow> 'a ext2_state_scheme option" where
  "e2f_load_buffer rd file s = do {
     let f = ext2_files s ! file;
     kassert (buf_len f \<noteq> 0);
     let file_offset = stream_pos f div buf_len f * buf_len f;
     let block_size = fs_block_size s;
     kassert (block_size \<noteq> 0);
     s \<leftarrow> load_buffer_loop rd file block_size (file_offset div block_size) (buf_len f) (ef_buffer f) s;
     Some (upd_file file (\<lambda>f. f\<lparr>buf_pos := stream_pos f mod buf_len f, buffer_empty := False\<rparr>) s)
   }"

text \<open>The copying loop of \<^verbatim>\<open>ext2_file_read\<close>; the sum of the parts, or \<open>None\<close> for a refused copy.\<close>

partial_function (option) file_read_loop :: "'a reader \<Rightarrow> nat \<Rightarrow> u32 \<Rightarrow> u32 \<Rightarrow> u32 \<Rightarrow> 'a ext2_state_scheme \<Rightarrow> (u32 option \<times> 'a ext2_state_scheme) option" where
  "file_read_loop rd self buf remaining_size copied s =
     (if 0 < remaining_size then
        let f = ext2_files s ! self;
            bytes_copiados = (if remaining_size < buf_len f - buf_pos f then remaining_size else buf_len f - buf_pos f)
        in Option.bind (copy2user (ef_buffer f + buf_pos f) buf bytes_copiados s) (\<lambda>(r, s).
             let effective = (word_of_int r :: u32)
             in if effective \<noteq> bytes_copiados then Some (None, s)
                else let s = upd_file self (\<lambda>f. f\<lparr>buf_pos := buf_pos f + effective, stream_pos := stream_pos f + effective\<rparr>) s
                  in Option.bind (if 0 < remaining_size - effective then e2f_load_buffer rd self s else Some s) (\<lambda>s.
                    file_read_loop rd self (buf + effective) (remaining_size - effective) (copied + effective) s))
      else Some (Some copied, s))"

definition ext2_file_read :: "'a reader \<Rightarrow> nat \<Rightarrow> u32 \<Rightarrow> u32 \<Rightarrow> 'a ext2_state_scheme \<Rightarrow> (io \<times> 'a ext2_state_scheme) option" where
  "ext2_file_read rd self buf sz s =
     (if sz = 0 then Some (Done 0, s)
      else do {
        s \<leftarrow> (if buffer_empty (ext2_files s ! self) then e2f_load_buffer rd self s else Some s);
        let f = ext2_files s ! self;
        let sz = (if stream_pos f + sz > file_size f then file_size f - stream_pos f else sz);
        (r, s) \<leftarrow> file_read_loop rd self buf sz 0 s;
        (case r of
           None \<Rightarrow> Some (Done (-1), s)
         | Some copied \<Rightarrow> do {
             kassert (copied = sz);
             Some (Done (sint copied), s)
           })
      })"

definition ext2_file_seek :: "'a reader \<Rightarrow> nat \<Rightarrow> u32 \<Rightarrow> 'a ext2_state_scheme \<Rightarrow> (int \<times> 'a ext2_state_scheme) option" where
  "ext2_file_seek rd self position s =
     (let f = ext2_files s ! self
      in if position > file_size f then Some (- EINVALID, s)
         else do {
           kassert (buf_len f \<noteq> 0);
           s \<leftarrow> (if stream_pos f div buf_len f \<noteq> position div buf_len f
                 then e2f_load_buffer rd self (upd_file self (\<lambda>f. f\<lparr>stream_pos := position\<rparr>) s)
                 else let s = upd_file self (\<lambda>f. f\<lparr>stream_pos := position, buf_pos := position mod buf_len f\<rparr>) s
                   in if buffer_empty (ext2_files s ! self) then e2f_load_buffer rd self s else Some s);
           Some (sint position, s)
         })"

definition ext2_file_flush :: "nat \<Rightarrow> 'a ext2_state_scheme \<Rightarrow> (u32 \<times> 'a ext2_state_scheme) option" where
  "ext2_file_flush self s = do {
     let s = upd_file self (\<lambda>f. f\<lparr>klass := CLASS_DEV_NONE\<rparr>) s;
     s \<leftarrow> mm_mem_free (ef_buffer (ext2_files s ! self)) s;
     Some (0, s)
   }"

end
