(* ===== verification/Devices.thy ===== *)
theory Devices
  imports Ext2
begin

section \<open>Descriptors and the name space\<close>

text \<open>
  \<^verbatim>\<open>kernel/device.c\<close> and \<^verbatim>\<open>kernel/fs.c\<close>: the table of the open devices of every process,
  the system calls that go through it to the operations of the drivers, and the files by
  name. An entry of a function table is called by its name, on the device it belongs to. Two
  of those operations need more than the state: a file is read with the sector reads of its
  disk (\<open>rd\<close>), and closing the last console runs the screen saver (\<open>run\<close>). The second half
  shows that the reference count of every device is the number of descriptors for it.
\<close>

subsection \<open>The table of descriptors\<close>

record device_state = ext2_state +
  devices :: "dev_ptr option list"

text \<open>
  \<^verbatim>\<open>device* devices[MAX_PID][MAX_FD]\<close>, row after row as it lies in memory: column 32 of a
  row is column 0 of the next one.
\<close>

definition fd_slot :: "int \<Rightarrow> int \<Rightarrow> int" where
  "fd_slot p fd = p * int MAX_FD + fd"

text \<open>The common part of a device, and its reference count.\<close>

definition dev_of :: "dev_ptr \<Rightarrow> 'a device_state_scheme \<Rightarrow> chardev" where
  "dev_of d s = (case d of
       Proc_cpuid_dev i \<Rightarrow> chardev.truncate (proc_cpuid_devs s ! i)
     | Con_dev i \<Rightarrow> chardev.truncate (consoles s ! i)
     | Serial_dev i \<Rightarrow> chardev.truncate (serial_devs s ! i)
     | Ext2_dev i \<Rightarrow> chardev.truncate (ext2_files s ! i)
     | Pipe_dev i \<Rightarrow> chardev.truncate (endpoints s ! i))"

definition upd_refcount :: "dev_ptr \<Rightarrow> (u32 \<Rightarrow> u32) \<Rightarrow> 'a device_state_scheme \<Rightarrow> 'a device_state_scheme" where
  "upd_refcount d f s = (case d of
       Proc_cpuid_dev i \<Rightarrow> upd_cpuid i (\<lambda>x. x\<lparr>refcount := f (refcount x)\<rparr>) s
     | Con_dev i \<Rightarrow> upd_con i (\<lambda>x. x\<lparr>refcount := f (refcount x)\<rparr>) s
     | Serial_dev i \<Rightarrow> upd_serial i (\<lambda>x. x\<lparr>refcount := f (refcount x)\<rparr>) s
     | Ext2_dev i \<Rightarrow> upd_file i (\<lambda>x. x\<lparr>refcount := f (refcount x)\<rparr>) s
     | Pipe_dev i \<Rightarrow> upd_ep i (\<lambda>x. x\<lparr>refcount := f (refcount x)\<rparr>) s)"

text \<open>Calls through the function tables.\<close>

type_synonym 'a runner = "u8 list \<Rightarrow> 'a device_state_scheme \<Rightarrow> (int \<times> 'a device_state_scheme) option"

definition call_flush :: "'a runner \<Rightarrow> flush_fn \<Rightarrow> dev_ptr \<Rightarrow> 'a device_state_scheme \<Rightarrow> (u32 \<times> 'a device_state_scheme) option" where
  "call_flush run f d s = (case (f, d) of
       (Con_flush, Con_dev i) \<Rightarrow> con_flush run i s
     | (Serial_flush, Serial_dev i) \<Rightarrow> serial_flush i s
     | (Ext2_file_flush, Ext2_dev i) \<Rightarrow> ext2_file_flush i s
     | (Pipe_flush, Pipe_dev i) \<Rightarrow> pipe_flush i s
     | _ \<Rightarrow> None)"

definition call_read :: "'a device_state_ext reader \<Rightarrow> read_fn \<Rightarrow> dev_ptr \<Rightarrow> u32 \<Rightarrow> u32 \<Rightarrow> 'a device_state_scheme \<Rightarrow>
    (io \<times> 'a device_state_scheme) option" where
  "call_read rd f d buf sz s = (case (f, d) of
       (Proc_cpuid_read, Proc_cpuid_dev i) \<Rightarrow> proc_cpuid_read i buf sz s
     | (Con_read, Con_dev i) \<Rightarrow> con_read i buf sz s
     | (Serial_read, Serial_dev i) \<Rightarrow> serial_read i buf sz s
     | (Ext2_file_read, Ext2_dev i) \<Rightarrow> ext2_file_read rd i buf sz s
     | (Pipe_read, Pipe_dev i) \<Rightarrow> pipe_read i buf sz s
     | _ \<Rightarrow> None)"

definition call_write :: "write_fn \<Rightarrow> dev_ptr \<Rightarrow> u32 \<Rightarrow> u32 \<Rightarrow> 'a device_state_scheme \<Rightarrow> (io \<times> 'a device_state_scheme) option" where
  "call_write f d buf sz s = (case (f, d) of
       (Con_write, Con_dev i) \<Rightarrow> con_write i buf sz s
     | (Serial_write, Serial_dev i) \<Rightarrow> serial_write i buf sz s
     | (Pipe_write, Pipe_dev i) \<Rightarrow> pipe_write i buf sz s
     | _ \<Rightarrow> None)"

definition call_seek :: "'a device_state_ext reader \<Rightarrow> seek_fn \<Rightarrow> dev_ptr \<Rightarrow> u32 \<Rightarrow> 'a device_state_scheme \<Rightarrow>
    (int \<times> 'a device_state_scheme) option" where
  "call_seek rd f d pos s = (case (f, d) of
       (Ext2_file_seek, Ext2_dev i) \<Rightarrow> ext2_file_seek rd i pos s
     | _ \<Rightarrow> None)"

subsection \<open>System calls on descriptors\<close>

definition close :: "'a runner \<Rightarrow> int \<Rightarrow> 'a device_state_scheme \<Rightarrow> (int \<times> 'a device_state_scheme) option" where
  "close run fd s =
     (if fd < 0 \<or> fd > int MAX_FD then Some (- EINVALID, s)
      else Option.bind (aget (devices s) (fd_slot (cur_pid s) fd)) (\<lambda>dev. case dev of
          None \<Rightarrow> Some (- EINVALID, s)
        | Some d \<Rightarrow> do {
            kassert (0 < refcount (dev_of d s));
            let s = upd_refcount d (\<lambda>r. r - 1) s;
            ds \<leftarrow> aupd (fd_slot (cur_pid s) fd) (\<lambda>_. None) (devices s);
            let s = s\<lparr>devices := ds\<rparr>;
            (case dv_flush (dev_of d s) of
               Some f \<Rightarrow> if refcount (dev_of d s) = 0 then do {
                   (r, s) \<leftarrow> call_flush run f d s;
                   Some (sint r, s)
                 } else Some (0, s)
             | None \<Rightarrow> Some (0, s))
          }))"

definition read_fd :: "'a device_state_ext reader \<Rightarrow> int \<Rightarrow> u32 \<Rightarrow> u32 \<Rightarrow> 'a device_state_scheme \<Rightarrow> (io \<times> 'a device_state_scheme) option" where
  "read_fd rd fd buf sz s =
     (if fd < 0 \<or> fd > int MAX_FD then Some (Done (- EINVALID), s)
      else Option.bind (aget (devices s) (fd_slot (cur_pid s) fd)) (\<lambda>dev. case dev of
          None \<Rightarrow> Some (Done (- EINVALID), s)
        | Some d \<Rightarrow> (case dv_read (dev_of d s) of
              Some f \<Rightarrow> call_read rd f d buf sz s
            | None \<Rightarrow> Some (Done (- ENOFUNC), s))))"

definition write_fd :: "int \<Rightarrow> u32 \<Rightarrow> u32 \<Rightarrow> 'a device_state_scheme \<Rightarrow> (io \<times> 'a device_state_scheme) option" where
  "write_fd fd buf sz s =
     (if fd < 0 \<or> fd > int MAX_FD then Some (Done (- EINVALID), s)
      else Option.bind (aget (devices s) (fd_slot (cur_pid s) fd)) (\<lambda>dev. case dev of
          None \<Rightarrow> Some (Done (- EINVALID), s)
        | Some d \<Rightarrow> (case dv_write (dev_of d s) of
              Some f \<Rightarrow> call_write f d buf sz s
            | None \<Rightarrow> Some (Done (- ENOFUNC), s))))"

definition seek_fd :: "'a device_state_ext reader \<Rightarrow> int \<Rightarrow> u32 \<Rightarrow> 'a device_state_scheme \<Rightarrow> (int \<times> 'a device_state_scheme) option" where
  "seek_fd rd fd pos s =
     (if fd < 0 \<or> fd > int MAX_FD then Some (- EINVALID, s)
      else Option.bind (aget (devices s) (fd_slot (cur_pid s) fd)) (\<lambda>dev. case dev of
          None \<Rightarrow> Some (- EINVALID, s)
        | Some d \<Rightarrow> (case dv_seek (dev_of d s) of
              Some f \<Rightarrow> call_seek rd f d pos s
            | None \<Rightarrow> Some (- ENOFUNC, s))))"

text \<open>The first free descriptor of the running process, or 32.\<close>

fun first_fd :: "nat \<Rightarrow> int \<Rightarrow> 'a device_state_scheme \<Rightarrow> int option" where
  "first_fd 0 fd s = Some fd"
| "first_fd (Suc n) fd s = do {
     d \<leftarrow> aget (devices s) (fd_slot (cur_pid s) fd);
     if d = None then Some fd else first_fd n (fd + 1) s
   }"

definition device_descriptor :: "dev_ptr \<Rightarrow> 'a device_state_scheme \<Rightarrow> (int \<times> 'a device_state_scheme) option" where
  "device_descriptor d s = do {
     fd \<leftarrow> first_fd MAX_FD 0 s;
     if fd < int MAX_FD then do {
       ds \<leftarrow> aupd (fd_slot (cur_pid s) fd) (\<lambda>_. Some d) (devices s);
       Some (fd, upd_refcount d (\<lambda>r. r + 1) (s\<lparr>devices := ds\<rparr>))
     } else Some (fd, s)
   }"

fun copy_fds :: "nat \<Rightarrow> int \<Rightarrow> int \<Rightarrow> int \<Rightarrow> 'a device_state_scheme \<Rightarrow> 'a device_state_scheme option" where
  "copy_fds 0 fd source dest s = Some s"
| "copy_fds (Suc n) fd source dest s = do {
     dev \<leftarrow> aget (devices s) (fd_slot source fd);
     ds \<leftarrow> aupd (fd_slot dest fd) (\<lambda>_. dev) (devices s);
     let s = s\<lparr>devices := ds\<rparr>;
     let s = (case dev of None \<Rightarrow> s | Some d \<Rightarrow> upd_refcount d (\<lambda>r. r + 1) s);
     copy_fds n (fd + 1) source dest s
   }"

definition device_copy_fds :: "int \<Rightarrow> int \<Rightarrow> 'a device_state_scheme \<Rightarrow> 'a device_state_scheme option" where
  "device_copy_fds source dest s = copy_fds MAX_FD 0 source dest s"

fun close_fds :: "'a runner \<Rightarrow> nat \<Rightarrow> int \<Rightarrow> int \<Rightarrow> 'a device_state_scheme \<Rightarrow> 'a device_state_scheme option" where
  "close_fds run 0 fd p s = Some s"
| "close_fds run (Suc n) fd p s = do {
     dev \<leftarrow> aget (devices s) (fd_slot p fd);
     s \<leftarrow> (if dev \<noteq> None then map_option snd (close run fd s) else Some s);
     close_fds run n (fd + 1) p s
   }"

definition device_close_fds_for :: "'a runner \<Rightarrow> int \<Rightarrow> 'a device_state_scheme \<Rightarrow> 'a device_state_scheme option" where
  "device_close_fds_for run p s = close_fds run MAX_FD 0 p s"

definition init_fd_association :: "'a device_state_scheme \<Rightarrow> 'a device_state_scheme" where
  "init_fd_association s = s\<lparr>devices := replicate (MAX_PID * MAX_FD) None\<rparr>"

subsection \<open>Files by name\<close>

definition fs_init :: "'a device_state_scheme \<Rightarrow> 'a device_state_scheme option" where
  "fs_init s = do {
     s \<leftarrow> debug_log (chars ''initializing file system'') s;
     let (dev, s) = hdd_open 0 s;
     Some (ext2_create dev s)
   }"

definition fs_open :: "'a device_state_ext reader \<Rightarrow> u8 list \<Rightarrow> u32 \<Rightarrow> 'a device_state_scheme \<Rightarrow> (dev_ptr option \<times> 'a device_state_scheme) option" where
  "fs_open rd filename flags s =
     (if flags AND FS_OPEN_RDWR = 0 then Some (None, s)
      else if strcmp filename (chars ''/serial0'') = 0 then Some (serial_open 0 flags s)
      else if strcmp filename (chars ''/serial1'') = 0 then Some (serial_open 1 flags s)
      else if strcmp filename (chars ''/console'') = 0 then con_open s
      else if strcmp filename (chars ''/proc/cpuid'') = 0 then proc_cpuid_open s
      else if strncmp filename (chars ''/disk/'') 6 = 0 then ext2_open rd (drop 5 filename) flags s
      else Some (None, s))"

text \<open>The failure value is \<^verbatim>\<open>~EINVALID\<close>, which is -3.\<close>

definition open_file :: "'a device_state_ext reader \<Rightarrow> u8 list \<Rightarrow> u32 \<Rightarrow> 'a device_state_scheme \<Rightarrow> (int \<times> 'a device_state_scheme) option" where
  "open_file rd filename flags s = do {
     (dev, s) \<leftarrow> fs_open rd filename flags s;
     (case dev of None \<Rightarrow> Some (NOT EINVALID, s) | Some d \<Rightarrow> device_descriptor d s)
   }"

text \<open>The system call \<^verbatim>\<open>pipe\<close> stores the two descriptors in an array of the process.\<close>

definition put_user_word :: "int \<Rightarrow> u32 \<Rightarrow> 'a device_state_scheme \<Rightarrow> 'a device_state_scheme option" where
  "put_user_word v addr s = (let w = (word_of_int v :: u32)
     in bytes_to_user (map (\<lambda>i. ucast (drop_bit (8 * i) w)) [0..<4]) addr s)"

definition pipe :: "u32 \<Rightarrow> 'a device_state_scheme \<Rightarrow> (int \<times> 'a device_state_scheme) option" where
  "pipe pipes s = do {
     (res, devs, s) \<leftarrow> pipe_open s;
     if res \<noteq> 0 then Some (res, s)
     else do {
       (a, b) \<leftarrow> devs;
       (fd, s) \<leftarrow> device_descriptor a s;
       s \<leftarrow> put_user_word fd pipes s;
       (fd, s) \<leftarrow> device_descriptor b s;
       s \<leftarrow> put_user_word fd (pipes + 4) s;
       Some (0, s)
     }
   }"

subsection \<open>Start\<close>

definition init_dev_modules :: "'a device_state_scheme \<Rightarrow> 'a device_state_scheme option" where
  "init_dev_modules s = do {
     let s = proc_init s;
     s \<leftarrow> con_init (chars ''/disk/bin/screen_saver.pso'') s;
     s \<leftarrow> serial_init s;
     s \<leftarrow> hdd_init s;
     s \<leftarrow> fs_init s;
     Some (pipe_init s)
   }"

definition device_init :: "'a device_state_scheme \<Rightarrow> 'a device_state_scheme option" where
  "device_init s = do {
     s \<leftarrow> debug_log (chars ''initializing device drivers'') s;
     init_dev_modules (init_fd_association s)
   }"

subsection \<open>References are counted\<close>

lemma count_list_upd:
  "i < length xs \<Longrightarrow> count_list (xs[i := v]) a + of_bool (xs ! i = a) = count_list xs a + of_bool (v = a)"
proof (induction xs arbitrary: i)
  case (Cons x xs)
  then show ?case using Cons.IH [of "i - 1"] by (cases i) auto
qed simp

lemma count_list_le_length: "count_list xs a \<le> length xs"
  by (induction xs) auto

fun dev_valid :: "dev_ptr \<Rightarrow> 'a device_state_scheme \<Rightarrow> bool" where
  "dev_valid (Proc_cpuid_dev i) s \<longleftrightarrow> i < length (proc_cpuid_devs s)"
| "dev_valid (Con_dev i) s \<longleftrightarrow> i < length (consoles s)"
| "dev_valid (Serial_dev i) s \<longleftrightarrow> i < length (serial_devs s)"
| "dev_valid (Ext2_dev i) s \<longleftrightarrow> i < length (ext2_files s)"
| "dev_valid (Pipe_dev i) s \<longleftrightarrow> i < length (endpoints s)"

definition refs :: "dev_ptr \<Rightarrow> 'a device_state_scheme \<Rightarrow> nat" where
  "refs d s = count_list (devices s) (Some d)"

definition fds_ok :: "'a device_state_scheme \<Rightarrow> bool" where
  "fds_ok s \<longleftrightarrow> length (devices s) = MAX_PID * MAX_FD \<and> (\<forall>d. Some d \<in> set (devices s) \<longrightarrow> dev_valid d s) \<and>
     (\<forall>d. dev_valid d s \<longrightarrow> unat (refcount (dev_of d s)) = refs d s)"

lemma upd_refcount_frame [simp]:
  "devices (upd_refcount d f s) = devices s" "cur_pid (upd_refcount d f s) = cur_pid s" "dev_valid e (upd_refcount d f s) = dev_valid e s"
  "dev_valid e (s\<lparr>devices := ds\<rparr>) = dev_valid e s" "dev_of e (s\<lparr>devices := ds\<rparr>) = dev_of e s"
  "upd_refcount d f (s\<lparr>devices := ds\<rparr>) = (upd_refcount d f s)\<lparr>devices := ds\<rparr>"
  by (cases d; cases e; simp add: upd_refcount_def upd_cpuid_def upd_con_def upd_serial_def upd_file_def upd_ep_def dev_of_def)+

lemma dev_of_upd_refcount:
  "dev_valid d s \<Longrightarrow> dev_of e (upd_refcount d f s) = (if e = d then (dev_of d s)\<lparr>refcount := f (refcount (dev_of d s))\<rparr> else dev_of e s)"
  by (cases d; cases e)
    (simp_all add: upd_refcount_def upd_cpuid_def upd_con_def upd_serial_def upd_file_def upd_ep_def dev_of_def chardev.defs nth_list_update)

definition put_slot :: "nat \<Rightarrow> dev_ptr option \<Rightarrow> 'a device_state_scheme \<Rightarrow> 'a device_state_scheme" where
  "put_slot k v s = s\<lparr>devices := (devices s)[k := v]\<rparr>"

lemma refs_bound: "fds_ok s \<Longrightarrow> refs d s \<le> 1024"
  using count_list_le_length [of "devices s" "Some d"] by (simp add: refs_def fds_ok_def)

lemma fds_ok_take:
  assumes ok: "fds_ok s" and k: "k < length (devices s)" "devices s ! k = None" and d: "dev_valid d s"
  shows "fds_ok (put_slot k (Some d) (upd_refcount d (\<lambda>r. r + 1) s))"
proof -
  have c: "refs e (put_slot k (Some d) s) = refs e s + of_bool (e = d)" for e
    using count_list_upd [OF k(1), of "Some d" "Some e"] k(2) by (auto simp: refs_def put_slot_def)
  have "unat (refcount (dev_of d s)) = refs d s" using ok d by (simp add: fds_ok_def)
  then have "unat (refcount (dev_of d s) + 1) = refs d s + 1" using refs_bound [OF ok, of d] by (simp add: unat_add_lem [THEN iffD1])
  then have "unat (refcount (dev_of e (upd_refcount d (\<lambda>r. r + 1) s))) = refs e (put_slot k (Some d) s)" if "dev_valid e s" for e
    using ok that d c [of e] by (auto simp: dev_of_upd_refcount fds_ok_def)
  then show ?thesis using ok d by (auto simp: fds_ok_def put_slot_def refs_def dest!: set_update_subset_insert [THEN subsetD])
qed

lemma fds_ok_release:
  assumes ok: "fds_ok s" and k: "k < length (devices s)" "devices s ! k = Some d"
  shows "fds_ok (put_slot k None (upd_refcount d (\<lambda>r. r - 1) s))" "0 < refcount (dev_of d s)" "dev_valid d s"
    "refs e (put_slot k None (upd_refcount d (\<lambda>r. r - 1) s)) + of_bool (e = d) = refs e s"
proof -
  show d: "dev_valid d s" using ok k by (metis fds_ok_def nth_mem)
  have c: "refs e (put_slot k None s) + of_bool (e = d) = refs e s" for e
    using count_list_upd [OF k(1), of None "Some e"] k(2) by (auto simp: refs_def put_slot_def)
  show "refs e (put_slot k None (upd_refcount d (\<lambda>r. r - 1) s)) + of_bool (e = d) = refs e s"
    using c [of e] by (simp add: refs_def put_slot_def)
  have r: "unat (refcount (dev_of d s)) = refs d s" using ok d by (simp add: fds_ok_def)
  then show p: "0 < refcount (dev_of d s)" using c [of d] by (simp add: word_less_nat_alt)
  then have "unat (refcount (dev_of d s) - 1) = refs d s - 1" using r by (simp add: unat_pred)
  then have "unat (refcount (dev_of e (upd_refcount d (\<lambda>r. r - 1) s))) = refs e (put_slot k None s)" if "dev_valid e s" for e
    using ok that d c [of e] by (auto simp: dev_of_upd_refcount fds_ok_def)
  then show "fds_ok (put_slot k None (upd_refcount d (\<lambda>r. r - 1) s))"
    using ok by (auto simp: fds_ok_def put_slot_def refs_def dest!: set_update_subset_insert [THEN subsetD])
qed

text \<open>The descriptor \<open>fd\<close> of process \<open>p\<close>.\<close>

definition fd_dev :: "int \<Rightarrow> int \<Rightarrow> 'a device_state_scheme \<Rightarrow> dev_ptr option" where
  "fd_dev p fd s = devices s ! nat (fd_slot p fd)"

lemma fd_slot_range: "0 \<le> p \<Longrightarrow> p < 32 \<Longrightarrow> 0 \<le> fd \<Longrightarrow> fd < 32 \<Longrightarrow> 0 \<le> fd_slot p fd \<and> fd_slot p fd < 1024"
  by (simp add: fd_slot_def)

lemma fd_slot_inj:
  "0 \<le> p \<Longrightarrow> 0 \<le> q \<Longrightarrow> 0 \<le> fd \<Longrightarrow> fd < 32 \<Longrightarrow> 0 \<le> fe \<Longrightarrow> fe < 32 \<Longrightarrow> nat (fd_slot p fd) = nat (fd_slot q fe) \<longleftrightarrow> p = q \<and> fd = fe"
proof -
  assume a: "0 \<le> p" "0 \<le> q" "0 \<le> fd" "fd < 32" "0 \<le> fe" "fe < 32"
  then have "nat (fd_slot p fd) = nat (fd_slot q fe) \<longleftrightarrow> p * 32 + fd = q * 32 + fe" by (simp add: fd_slot_def eq_nat_nat_iff)
  also have "\<dots> \<longleftrightarrow> p = q \<and> fd = fe" using a by presburger
  finally show ?thesis .
qed

lemma aget_fd:
  assumes "fds_ok s" "0 \<le> p" "p < 32" "0 \<le> fd" "fd < 32"
  shows "aget (devices s) (fd_slot p fd) = Some (fd_dev p fd s)" "nat (fd_slot p fd) < length (devices s)"
    "aupd (fd_slot p fd) (\<lambda>_. v) (devices s) = Some ((devices s)[nat (fd_slot p fd) := v])"
  using assms fd_slot_range [of p fd] by (auto simp: aget_def aupd_def fd_dev_def fds_ok_def)

lemma fd_dev_put:
  assumes "fds_ok s" "0 \<le> p" "p < 32" "0 \<le> fd" "fd < 32" "0 \<le> q" "q < 32" "0 \<le> fe" "fe < 32"
  shows "fd_dev q fe (put_slot (nat (fd_slot p fd)) v s) = (if q = p \<and> fe = fd then v else fd_dev q fe s)"
  using aget_fd(2) [OF assms(1-5)] fd_slot_inj [of q p fe fd] assms by (auto simp: fd_dev_def put_slot_def nth_list_update)

lemma first_fd_spec:
  assumes "fds_ok s" "0 \<le> cur_pid s" "cur_pid s < 32"
  shows "int n + k = 32 \<Longrightarrow> 0 \<le> k \<Longrightarrow> \<exists>fd. first_fd n k s = Some fd \<and> k \<le> fd \<and> fd \<le> 32 \<and>
    (\<forall>j. k \<le> j \<and> j < fd \<longrightarrow> fd_dev (cur_pid s) j s \<noteq> None) \<and> (fd < 32 \<longrightarrow> fd_dev (cur_pid s) fd s = None)"
proof (induction n arbitrary: k)
  case (Suc n)
  have g: "aget (devices s) (fd_slot (cur_pid s) k) = Some (fd_dev (cur_pid s) k s)"
    by (rule aget_fd(1) [OF assms]) (use Suc.prems in simp_all)
  show ?case
  proof (cases "fd_dev (cur_pid s) k s = None")
    case True
    then show ?thesis using g Suc.prems by (intro exI [of _ k]) auto
  next
    case False
    from Suc.IH [of "k + 1"] Suc.prems obtain fd where
      fd: "first_fd n (k + 1) s = Some fd" "k + 1 \<le> fd" "fd \<le> 32" "\<forall>j. k + 1 \<le> j \<and> j < fd \<longrightarrow> fd_dev (cur_pid s) j s \<noteq> None"
        "fd < 32 \<longrightarrow> fd_dev (cur_pid s) fd s = None" by auto
    have "fd_dev (cur_pid s) j s \<noteq> None" if "k \<le> j" "j < fd" for j
      using fd(4) False that by (cases "j = k") auto
    then show ?thesis using g False fd by (intro exI [of _ fd]) auto
  qed
qed auto

text \<open>C37: A device that is opened gets the first free descriptor of the process, with one more
  reference and every other descriptor unchanged; a process with all 32 taken gets 32, which
  is no descriptor, and the device no reference.\<close>

theorem device_descriptor_gives:
  assumes ok: "fds_ok s" and p: "0 \<le> cur_pid s" "cur_pid s < int MAX_PID" and d: "dev_valid d s"
  shows "\<exists>fd s'. device_descriptor d s = Some (fd, s') \<and> fds_ok s' \<and> (\<forall>j. 0 \<le> j \<and> j < fd \<longrightarrow> fd_dev (cur_pid s) j s \<noteq> None) \<and>
    (if fd < int MAX_FD
     then 0 \<le> fd \<and> fd_dev (cur_pid s) fd s = None \<and> refs d s' = refs d s + 1 \<and>
       (\<forall>q fe. 0 \<le> q \<and> q < int MAX_PID \<and> 0 \<le> fe \<and> fe < int MAX_FD \<longrightarrow>
          fd_dev q fe s' = (if q = cur_pid s \<and> fe = fd then Some d else fd_dev q fe s))
     else fd = int MAX_FD \<and> s' = s)"
proof -
  have p': "cur_pid s < 32" using p(2) by simp
  from first_fd_spec [OF ok p(1) p', of 32 0] obtain fd where fd: "first_fd 32 0 s = Some fd" "0 \<le> fd" "fd \<le> 32"
    "\<forall>j. 0 \<le> j \<and> j < fd \<longrightarrow> fd_dev (cur_pid s) j s \<noteq> None" "fd < 32 \<longrightarrow> fd_dev (cur_pid s) fd s = None" by auto
  show ?thesis
  proof (cases "fd < 32")
    case False
    then show ?thesis using fd ok by (intro exI [of _ fd] exI [of _ s]) (simp add: device_descriptor_def)
  next
    case True
    let ?k = "nat (fd_slot (cur_pid s) fd)" and ?s = "upd_refcount d (\<lambda>r. r + 1) s"
    note a = aget_fd [OF ok p(1) p' fd(2) True]
    have none: "devices s ! ?k = None" using fd(5) True by (simp add: fd_dev_def)
    have run: "device_descriptor d s = Some (fd, put_slot ?k (Some d) ?s)"
      using fd(1) True a(3) by (simp add: device_descriptor_def put_slot_def)
    have ok': "fds_ok (put_slot ?k (Some d) ?s)" by (rule fds_ok_take [OF ok a(2) none d])
    have "fd_dev q fe (put_slot ?k (Some d) ?s) = (if q = cur_pid s \<and> fe = fd then Some d else fd_dev q fe s)"
      if "0 \<le> q" "q < 32" "0 \<le> fe" "fe < 32" for q fe
      using fd_dev_put [OF ok p(1) p' fd(2) True that, of "Some d"] by (simp add: fd_dev_def put_slot_def)
    moreover have "refs d (put_slot ?k (Some d) ?s) = refs d s + 1"
      using count_list_upd [OF a(2), of "Some d" "Some d"] none by (simp add: refs_def put_slot_def)
    ultimately show ?thesis using run ok' fd True by (intro exI [of _ fd] exI [of _ "put_slot ?k (Some d) ?s"]) simp
  qed
qed


lemma copy_fds_spec:
  assumes p: "0 \<le> p" "p < 32" and q: "0 \<le> q" "q < 32" "p \<noteq> q"
  shows "fds_ok s \<Longrightarrow> int n + k = 32 \<Longrightarrow> 0 \<le> k \<Longrightarrow> (\<forall>j. k \<le> j \<and> j < 32 \<longrightarrow> fd_dev q j s = None) \<Longrightarrow>
    \<exists>s'. copy_fds n k p q s = Some s' \<and> fds_ok s' \<and>
      (\<forall>r fe. 0 \<le> r \<and> r < 32 \<and> 0 \<le> fe \<and> fe < 32 \<longrightarrow> fd_dev r fe s' = (if r = q \<and> k \<le> fe then fd_dev p fe s else fd_dev r fe s))"
proof (induction n arbitrary: k s)
  case (Suc n)
  have k: "0 \<le> k" "k < 32" using Suc.prems by simp_all
  let ?k = "nat (fd_slot q k)"
  note ap = aget_fd(1) [OF Suc.prems(1) p k] and aq = aget_fd [OF Suc.prems(1) q(1,2) k]
  have none: "devices s ! ?k = None" using Suc.prems(4) k by (simp add: fd_dev_def)
  define s1 where "s1 = (case fd_dev p k s of None \<Rightarrow> s | Some d \<Rightarrow> put_slot ?k (Some d) (upd_refcount d (\<lambda>r. r + 1) s))"
  have e: "copy_fds (Suc n) k p q s = copy_fds n (k + 1) p q s1"
  proof (cases "fd_dev p k s")
    case None
    have "(devices s)[?k := None] = devices s" using none by (metis list_update_id)
    then show ?thesis using ap aq(3) None by (simp add: s1_def)
  next
    case (Some d)
    then show ?thesis using ap aq(3) by (simp add: s1_def put_slot_def)
  qed
  have ok1: "fds_ok s1"
  proof (cases "fd_dev p k s")
    case (Some d)
    have "nat (fd_slot p k) < length (devices s)" by (rule aget_fd(2) [OF Suc.prems(1) p k])
    then have "Some d \<in> set (devices s)" using Some unfolding fd_dev_def by (metis nth_mem)
    then have "dev_valid d s" using Suc.prems(1) by (simp add: fds_ok_def)
    from fds_ok_take [OF Suc.prems(1) aq(2) none this] show ?thesis using Some by (simp add: s1_def)
  qed (use Suc.prems(1) in \<open>simp add: s1_def\<close>)
  have fd1: "fd_dev r fe s1 = (if r = q \<and> fe = k then fd_dev p k s else fd_dev r fe s)" if "0 \<le> r" "r < 32" "0 \<le> fe" "fe < 32" for r fe
  proof (cases "fd_dev p k s")
    case None
    then show ?thesis using Suc.prems(4) k by (auto simp: s1_def)
  next
    case (Some d)
    then have "fd_dev r fe s1 = fd_dev r fe (put_slot ?k (Some d) s)" by (simp add: s1_def fd_dev_def put_slot_def)
    then show ?thesis using fd_dev_put [OF Suc.prems(1) q(1,2) k that, of "Some d"] Some by simp
  qed
  have "int n + (k + 1) = 32" "0 \<le> k + 1" using Suc.prems by simp_all
  moreover have "\<forall>j. k + 1 \<le> j \<and> j < 32 \<longrightarrow> fd_dev q j s1 = None" using fd1 [OF q(1,2)] Suc.prems(4) k by auto
  ultimately obtain s' where s': "copy_fds n (k + 1) p q s1 = Some s'" "fds_ok s'"
    "\<forall>r fe. 0 \<le> r \<and> r < 32 \<and> 0 \<le> fe \<and> fe < 32 \<longrightarrow> fd_dev r fe s' = (if r = q \<and> k + 1 \<le> fe then fd_dev p fe s1 else fd_dev r fe s1)"
    using Suc.IH [OF ok1] by blast
  have "fd_dev r fe s' = (if r = q \<and> k \<le> fe then fd_dev p fe s else fd_dev r fe s)" if "0 \<le> r" "r < 32" "0 \<le> fe" "fe < 32" for r fe
    using s'(3) [rule_format, of r fe] fd1 [OF that] fd1 [OF p that(3,4)] that q(3) by auto
  then show ?case using e s'(1,2) by auto
qed auto

text \<open>C38: A forked process starts with the descriptors of its father, the same devices at the same
  numbers, with the references counted; nobody else's descriptors change.\<close>

theorem device_copy_fds_shares:
  assumes ok: "fds_ok s" and p: "0 \<le> p" "p < int MAX_PID" and q: "0 \<le> q" "q < int MAX_PID" "p \<noteq> q"
    and empty: "\<forall>fd. 0 \<le> fd \<and> fd < int MAX_FD \<longrightarrow> fd_dev q fd s = None"
  shows "\<exists>s'. device_copy_fds p q s = Some s' \<and> fds_ok s' \<and>
    (\<forall>r fd. 0 \<le> r \<and> r < int MAX_PID \<and> 0 \<le> fd \<and> fd < int MAX_FD \<longrightarrow> fd_dev r fd s' = fd_dev (if r = q then p else r) fd s)"
proof -
  have b: "p < 32" "q < 32" using p q by simp_all
  from copy_fds_spec [OF p(1) b(1) q(1) b(2) q(3) ok, of 32 0] empty obtain s' where
    s': "copy_fds 32 0 p q s = Some s'" "fds_ok s'"
      "\<forall>r fe. 0 \<le> r \<and> r < 32 \<and> 0 \<le> fe \<and> fe < 32 \<longrightarrow> fd_dev r fe s' = (if r = q \<and> 0 \<le> fe then fd_dev p fe s else fd_dev r fe s)"
    by auto
  then show ?thesis by (intro exI [of _ s']) (auto simp: device_copy_fds_def)
qed

text \<open>A full table: the number given is 32, and closing it takes descriptor 0 of the next process.\<close>

lemma closing_32_closes_the_neighbours:
  assumes ok: "fds_ok s" and p: "0 \<le> cur_pid s" "cur_pid s < int MAX_PID - 1"
    and d: "fd_dev (cur_pid s + 1) 0 s = Some d" "1 < refs d s"
  shows "\<exists>s'. close run (int MAX_FD) s = Some (0, s') \<and> fd_dev (cur_pid s + 1) 0 s' = None"
proof -
  have sl: "fd_slot (cur_pid s) 32 = fd_slot (cur_pid s + 1) 0" by (simp add: fd_slot_def)
  have q: "0 \<le> cur_pid s + 1" "cur_pid s + 1 < 32" "0 \<le> (0 :: int)" "(0 :: int) < 32" using p by simp_all
  note a = aget_fd [OF ok q]
  let ?k = "nat (fd_slot (cur_pid s + 1) 0)" and ?s = "upd_refcount d (\<lambda>r. r - 1) s"
  have k: "devices s ! ?k = Some d" using d(1) by (simp add: fd_dev_def)
  note r = fds_ok_release [OF ok a(2) k]
  have "unat (refcount (dev_of d (put_slot ?k None ?s))) = refs d (put_slot ?k None ?s)" using r(1,3) by (simp add: fds_ok_def put_slot_def)
  then have "refcount (dev_of d ?s) \<noteq> 0" using r(4) [of d] d(2) by (auto simp: put_slot_def)
  then have "close run 32 s = Some (0, ?s\<lparr>devices := (devices s)[?k := None]\<rparr>)"
    using a(1,3) d(1) r(2) sl by (simp add: close_def Let_def split: option.splits)
  then show ?thesis using a(2) by (intro exI [of _ "?s\<lparr>devices := (devices s)[?k := None]\<rparr>"]) (simp add: fd_dev_def)
qed

subsection \<open>Witnesses\<close>

text \<open>Process 1 runs with a console as its descriptor 0.\<close>

definition dev_demo :: device_state where
  "dev_demo = (drv_demo (\<lambda>_ _. 0) \<lparr>proc_cpuid_devs = [], disk = \<lparr>loaded = False, e2_dev = Some 0, e2_sb = 0, bgdt = 0, bgd_count = 0\<rparr>,
       ext2_files = [], hdd_enhanced_buffer = [], devices = (replicate (MAX_PID * MAX_FD) None)[32 := Some (Con_dev 0)]\<rparr>)
     \<lparr>cur_pid := 1, endpoints := [], serial_devs := [],
       consoles := [\<lparr>klass = CLASS_DEV_CONSOLE, refcount = 1, dv_flush = Some Con_flush, dv_read = Some Con_read, dv_write = Some Con_write,
         dv_seek = None, kbd_queue = FREE_QUEUE, con_buffer = 0x100000, con_scr = \<lparr>scr_x = 0, scr_y = 0, scr_attr = 7\<rparr>,
         con_prev = Some 0, con_next = Some 0\<rparr>]\<rparr>"

lemma dev_demo_fields:
  "cur_pid dev_demo = 1" "devices dev_demo = (replicate 1024 None)[32 := Some (Con_dev 0)]" "length (consoles dev_demo) = 1"
  "proc_cpuid_devs dev_demo = []" "serial_devs dev_demo = []" "ext2_files dev_demo = []" "endpoints dev_demo = []"
  "refcount (consoles dev_demo ! 0) = 1"
  by (simp_all add: dev_demo_def drv_demo_def con_demo_def hw_demo_def demo_def Let_def)

lemma count_list_replicate: "a \<noteq> b \<Longrightarrow> count_list (replicate n b) a = 0"
  by (induction n) auto

lemma dev_demo_ok: "fds_ok dev_demo"
proof -
  have v: "dev_valid d dev_demo \<longleftrightarrow> d = Con_dev 0" for d by (cases d) (simp_all add: dev_demo_fields)
  have "refs (Con_dev 0) dev_demo = 1"
    using count_list_upd [of 32 "replicate 1024 None" "Some (Con_dev 0)" "Some (Con_dev 0)"]
    by (simp add: refs_def dev_demo_fields count_list_replicate)
  moreover have "refcount (dev_of (Con_dev 0) dev_demo) = 1" by (simp add: dev_of_def chardev.defs dev_demo_fields)
  moreover have "Some d \<in> set (devices dev_demo) \<Longrightarrow> d = Con_dev 0" for d
    by (auto simp: dev_demo_fields dest!: set_update_subset_insert [THEN subsetD])
  ultimately show ?thesis by (auto simp: fds_ok_def v) (simp_all add: dev_demo_fields)
qed

lemma dev_demo_fd: "0 \<le> p \<Longrightarrow> p < 32 \<Longrightarrow> 0 \<le> fd \<Longrightarrow> fd < 32 \<Longrightarrow> fd_dev p fd dev_demo = (if p = 1 \<and> fd = 0 then Some (Con_dev 0) else None)"
proof -
  assume a: "0 \<le> p" "p < 32" "0 \<le> fd" "fd < 32"
  then have "nat (fd_slot p fd) = 32 \<longleftrightarrow> p = 1 \<and> fd = 0" using fd_slot_inj [of p 1 fd 0] by (simp add: fd_slot_def)
  then show ?thesis using fd_slot_range [OF a] by (auto simp: fd_dev_def dev_demo_fields nth_list_update)
qed

theorem device_descriptor_gives_witness:
  "\<exists>fd s'. device_descriptor (Con_dev 0) dev_demo = Some (fd, s') \<and> fds_ok s' \<and> (\<forall>j. 0 \<le> j \<and> j < fd \<longrightarrow> fd_dev 1 j dev_demo \<noteq> None)"
proof -
  have "0 \<le> cur_pid dev_demo" "cur_pid dev_demo < int MAX_PID" "dev_valid (Con_dev 0) dev_demo" by (simp_all add: dev_demo_fields)
  from device_descriptor_gives [OF dev_demo_ok this] show ?thesis unfolding dev_demo_fields(1) by blast
qed


theorem device_copy_fds_shares_witness:
  "\<exists>s'. device_copy_fds 1 2 dev_demo = Some s' \<and> fds_ok s' \<and> fd_dev 2 0 s' = Some (Con_dev 0)"
proof -
  have c: "0 \<le> (1 :: int)" "1 < int MAX_PID" "0 \<le> (2 :: int)" "2 < int MAX_PID" "(1 :: int) \<noteq> 2" by simp_all
  have e: "\<forall>fd. 0 \<le> fd \<and> fd < int MAX_FD \<longrightarrow> fd_dev 2 fd dev_demo = None" by (simp add: dev_demo_fd)
  from device_copy_fds_shares [OF dev_demo_ok c e] obtain s' where
    s': "device_copy_fds 1 2 dev_demo = Some s'" "fds_ok s'"
    "\<forall>r fd. 0 \<le> r \<and> r < int MAX_PID \<and> 0 \<le> fd \<and> fd < int MAX_FD \<longrightarrow> fd_dev r fd s' = fd_dev (if r = 2 then 1 else r) fd dev_demo" by blast
  have "fd_dev 2 0 s' = fd_dev 1 0 dev_demo" using s'(3) [rule_format, of 2 0] by simp
  then show ?thesis using s'(1,2) by (simp add: dev_demo_fd)
qed

end
