(* ===== verification/Loader.thy ===== *)
theory Loader
  imports Devices
begin

section \<open>Processes and their memory\<close>

text \<open>
  The rest of \<^verbatim>\<open>kernel/loader.c\<close> and of \<^verbatim>\<open>kernel/mm.c\<close>: what happens when a process is
  loaded from an executable, started from a file, forked and ended, and when it touches a page
  it does not have yet. The kernel reaches the memory of the running process, its own stack
  and the pages it maps for a moment through the page tables of that process, as every access
  of the processor goes; an executable is a sequence of bytes at such an address. Waiting is
  an argument: what a read of \<^verbatim>\<open>run\<close> that blocks comes to when the process goes on
  (\<open>fin\<close>), beside the sector reads (\<open>rd\<close>) and the start of the screen saver (\<open>saver\<close>).
  What these operations do to the memory of the processes is shown in \<open>Cow\<close> and \<open>Fork\<close>.
\<close>

subsection \<open>Memory through the page tables\<close>

definition get_virt32 :: "u32 \<Rightarrow> 'a mm_state_scheme \<Rightarrow> u32 option" where
  "get_virt32 v s = do {
     a \<leftarrow> user_byte v s;
     b \<leftarrow> user_byte (v + 1) s;
     c \<leftarrow> user_byte (v + 2) s;
     d \<leftarrow> user_byte (v + 3) s;
     Some (field 0 4 [a, b, c, d])
   }"

definition put_virt32 :: "u32 \<Rightarrow> u32 \<Rightarrow> 'a mm_state_scheme \<Rightarrow> 'a mm_state_scheme option" where
  "put_virt32 v w s = bytes_to_user (map (\<lambda>i. ucast (drop_bit (8 * i) w)) [0..<4]) v s"

fun memset_virt :: "nat \<Rightarrow> u32 \<Rightarrow> u8 \<Rightarrow> 'a mm_state_scheme \<Rightarrow> 'a mm_state_scheme option" where
  "memset_virt 0 addr v s = Some s"
| "memset_virt (Suc n) addr v s = do {
     a \<leftarrow> user_phys addr s;
     memset_virt n (addr + 1) v (s\<lparr>phys := (phys s)(a := v)\<rparr>)
   }"

fun memcpy_virt :: "nat \<Rightarrow> u32 \<Rightarrow> u32 \<Rightarrow> 'a mm_state_scheme \<Rightarrow> 'a mm_state_scheme option" where
  "memcpy_virt 0 src dst s = Some s"
| "memcpy_virt (Suc n) src dst s = do {
     b \<leftarrow> user_byte src s;
     a \<leftarrow> user_phys dst s;
     memcpy_virt n (src + 1) (dst + 1) (s\<lparr>phys := (phys s)(a := b)\<rparr>)
   }"

subsection \<open>Loading an executable\<close>

abbreviation (input) USER_MEMORY_START :: u32 where "USER_MEMORY_START \<equiv> 0x400000"
abbreviation (input) TASK_U_STACK_ADDRESS :: u32 where "TASK_U_STACK_ADDRESS \<equiv> 0xff7fe000"
abbreviation (input) TASK_K_STACK_ADDRESS :: u32 where "TASK_K_STACK_ADDRESS \<equiv> 0xff7ff000"
abbreviation (input) TASK_DEFAULT_EFLAGS :: u32 where "TASK_DEFAULT_EFLAGS \<equiv> 0x202"
abbreviation (input) SS_U_CODE :: u32 where "SS_U_CODE \<equiv> 0x18"
abbreviation (input) SS_U_DATA :: u32 where "SS_U_DATA \<equiv> 0x20"
abbreviation (input) STACK_TOP :: u32 where "STACK_TOP \<equiv> 1023"
abbreviation (input) K_IN_SWITCH_ESP :: u32 where "K_IN_SWITCH_ESP \<equiv> TASK_K_STACK_ADDRESS + 1012 * 4"
abbreviation (input) U_IN_SWITCH_ESP :: u32 where "U_IN_SWITCH_ESP \<equiv> TASK_K_STACK_ADDRESS + 1010 * 4"
abbreviation (input) U_STACK_BOTTOM :: u32 where "U_STACK_BOTTOM \<equiv> TASK_U_STACK_ADDRESS + 1024 * 4"
abbreviation (input) PSO_SIGNATURE :: "u8 list" where "PSO_SIGNATURE \<equiv> [0x50, 0x53, 0x4F, 0]"
abbreviation (input) SIZEOF_PSO_FILE :: u32 where "SIZEOF_PSO_FILE \<equiv> 20"

text \<open>The fields of an executable at \<open>f\<close>.\<close>

definition pso_mem_start :: "u32 \<Rightarrow> 'a mm_state_scheme \<Rightarrow> u32 option" where "pso_mem_start f s = get_virt32 (f + 4) s"
definition pso_mem_end_disk :: "u32 \<Rightarrow> 'a mm_state_scheme \<Rightarrow> u32 option" where "pso_mem_end_disk f s = get_virt32 (f + 8) s"
definition pso_mem_end :: "u32 \<Rightarrow> 'a mm_state_scheme \<Rightarrow> u32 option" where "pso_mem_end f s = get_virt32 (f + 12) s"
definition pso_main :: "u32 \<Rightarrow> 'a mm_state_scheme \<Rightarrow> u32 option" where "pso_main f s = get_virt32 (f + 16) s"

definition pso_signature :: "u32 \<Rightarrow> 'a mm_state_scheme \<Rightarrow> u8 list option" where
  "pso_signature f s = do {
     a \<leftarrow> user_byte f s;
     b \<leftarrow> user_byte (f + 1) s;
     c \<leftarrow> user_byte (f + 2) s;
     d \<leftarrow> user_byte (f + 3) s;
     Some [a, b, c, d]
   }"

definition data_pages_needed_for :: "u32 \<Rightarrow> 'a mm_state_scheme \<Rightarrow> u32 option" where
  "data_pages_needed_for f s = do {
     mem_end \<leftarrow> pso_mem_end f s;
     mem_start \<leftarrow> pso_mem_start f s;
     let pages = (mem_end - mem_start) div 4096;
     Some (if (mem_end - mem_start) mod 4096 \<noteq> 0 then pages + 1 else pages)
   }"

definition put_stack :: "u32 \<Rightarrow> u32 \<Rightarrow> u32 \<Rightarrow> 'a mm_state_scheme \<Rightarrow> 'a mm_state_scheme option" where
  "put_stack stack i v s = put_virt32 (stack + 4 * i) v s"

definition create_kernel_stack :: "u32 \<Rightarrow> u32 \<Rightarrow> u32 \<Rightarrow> 'a hw_state_scheme \<Rightarrow> 'a hw_state_scheme option" where
  "create_kernel_stack stack eflags eip s = do {
     s \<leftarrow> put_stack stack STACK_TOP eflags s;
     s \<leftarrow> put_stack stack (STACK_TOP - 1) SS_K_CODE s;
     s \<leftarrow> put_stack stack (STACK_TOP - 2) eip s;
     s \<leftarrow> put_stack stack (STACK_TOP - 3) (stub_addr s Task_init) s;
     s \<leftarrow> put_stack stack (STACK_TOP - 8) (TASK_K_STACK_ADDRESS + (STACK_TOP - 4) * 4) s;
     put_stack stack (STACK_TOP - 9) (TASK_K_STACK_ADDRESS + (STACK_TOP - 1) * 4) s
   }"

definition create_user_stack :: "u32 \<Rightarrow> u32 \<Rightarrow> u32 \<Rightarrow> u32 \<Rightarrow> 'a hw_state_scheme \<Rightarrow> 'a hw_state_scheme option" where
  "create_user_stack stack eflags eip user_esp s = do {
     s \<leftarrow> put_stack stack STACK_TOP (SS_U_DATA OR PL_USER) s;
     s \<leftarrow> put_stack stack (STACK_TOP - 1) user_esp s;
     s \<leftarrow> put_stack stack (STACK_TOP - 2) eflags s;
     s \<leftarrow> put_stack stack (STACK_TOP - 3) (SS_U_CODE OR PL_USER) s;
     s \<leftarrow> put_stack stack (STACK_TOP - 4) eip s;
     s \<leftarrow> put_stack stack (STACK_TOP - 5) (stub_addr s Task_init) s;
     s \<leftarrow> put_stack stack (STACK_TOP - 10) (TASK_K_STACK_ADDRESS + 1017 * 4) s;
     put_stack stack (STACK_TOP - 11) (TASK_U_STACK_ADDRESS + 1024 * 4) s
   }"

text \<open>A frame 0, of an allocation that failed, is mapped like any other.\<close>

definition create_stacks_for :: "u32 \<Rightarrow> u32 \<Rightarrow> u32 \<Rightarrow> u32 \<Rightarrow> u32 \<Rightarrow> int \<Rightarrow> 'a hw_state_scheme \<Rightarrow> 'a hw_state_scheme option" where
  "create_stacks_for f current_pdt new_pdt pl temp_page new_proc s = do {
     (kernel_stack_frame, s) \<leftarrow> mm_mem_alloc s;
     s \<leftarrow> mm_map_frame kernel_stack_frame TASK_K_STACK_ADDRESS new_pdt PL_KERNEL s;
     s \<leftarrow> mm_map_frame kernel_stack_frame temp_page current_pdt PL_KERNEL s;
     s \<leftarrow> memset_virt 4096 temp_page 0 s;
     if pl = PL_KERNEL then do {
       eip \<leftarrow> pso_main f s;
       s \<leftarrow> create_kernel_stack temp_page TASK_DEFAULT_EFLAGS eip s;
       ps \<leftarrow> aupd new_proc (\<lambda>p. p\<lparr>p_esp := K_IN_SWITCH_ESP\<rparr>) (processes s);
       Some (s\<lparr>processes := ps\<rparr>)
     } else do {
       (user_stack_frame, s) \<leftarrow> mm_mem_alloc s;
       s \<leftarrow> mm_map_frame user_stack_frame TASK_U_STACK_ADDRESS new_pdt PL_USER s;
       eip \<leftarrow> pso_main f s;
       s \<leftarrow> create_user_stack temp_page TASK_DEFAULT_EFLAGS eip U_STACK_BOTTOM s;
       ps \<leftarrow> aupd new_proc (\<lambda>p. p\<lparr>p_esp := U_IN_SWITCH_ESP\<rparr>) (processes s);
       Some (s\<lparr>processes := ps\<rparr>)
     }
   }"

fun copy_data_pages :: "nat \<Rightarrow> u32 \<Rightarrow> u32 \<Rightarrow> u32 \<Rightarrow> u32 \<Rightarrow> u32 \<Rightarrow> u32 \<Rightarrow> u32 \<Rightarrow> 'a mm_state_scheme \<Rightarrow> 'a mm_state_scheme option" where
  "copy_data_pages 0 f current_pdt new_pdt temp_page pl task_mem_p task_data_p s = Some s"
| "copy_data_pages (Suc n) f current_pdt new_pdt temp_page pl task_mem_p task_data_p s = do {
     (frame, s) \<leftarrow> mm_mem_alloc s;
     s \<leftarrow> mm_map_frame frame task_mem_p new_pdt pl s;
     s \<leftarrow> mm_map_frame frame temp_page current_pdt PL_KERNEL s;
     mem_end_disk \<leftarrow> pso_mem_end_disk f s;
     s \<leftarrow> (if task_mem_p \<ge> mem_end_disk then memset_virt 4096 temp_page 0 s
       else do {
         let bytes = (if 4096 > mem_end_disk - task_mem_p then mem_end_disk - task_mem_p else 4096);
         s \<leftarrow> memcpy_virt (unat bytes) task_data_p temp_page s;
         memset_virt (unat (4096 - bytes)) (temp_page + bytes) 0 s
       });
     copy_data_pages n f current_pdt new_pdt temp_page pl (task_mem_p + 4096) (task_data_p + 4096) s
   }"

definition copy_data_from :: "u32 \<Rightarrow> u32 \<Rightarrow> u32 \<Rightarrow> u32 \<Rightarrow> u32 \<Rightarrow> 'a mm_state_scheme \<Rightarrow> (u32 \<times> 'a mm_state_scheme) option" where
  "copy_data_from f current_pdt new_pdt temp_page pl s = do {
     total_pages \<leftarrow> data_pages_needed_for f s;
     mem_start \<leftarrow> pso_mem_start f s;
     s \<leftarrow> copy_data_pages (unat total_pages) f current_pdt new_pdt temp_page pl mem_start f s;
     Some (total_pages, s)
   }"

text \<open>The page used for the moment, and the frame that was there.\<close>

definition create_temp_mapping_on :: "u32 \<Rightarrow> 'a mm_state_scheme \<Rightarrow> (u32 \<times> u32) option" where
  "create_temp_mapping_on current_pdt s =
     (if cur_pid s = IDLE_PID then Some (USER_MEMORY_START, 0)
      else do {
        old_frame \<leftarrow> mm_frame_from_page USER_MEMORY_START current_pdt s;
        Some (USER_MEMORY_START, old_frame)
      })"

definition undo_temp_mapping_on :: "u32 \<Rightarrow> u32 \<Rightarrow> u32 \<Rightarrow> 'a mm_state_scheme \<Rightarrow> 'a mm_state_scheme option" where
  "undo_temp_mapping_on temp_page old_frame current_pdt s = do {
     s \<leftarrow> mm_unmap_page temp_page current_pdt s;
     if cur_pid s \<noteq> IDLE_PID then do {
       p \<leftarrow> aget (processes s) (cur_pid s);
       mm_map_frame old_frame temp_page current_pdt (p_privilege_level p) s
     } else Some s
   }"

definition check_signature_of :: "u32 \<Rightarrow> 'a mm_state_scheme \<Rightarrow> unit option" where
  "check_signature_of f s = do {
     sig \<leftarrow> pso_signature f s;
     kassert (sig = PSO_SIGNATURE)
   }"

definition loader_load :: "u32 \<Rightarrow> u32 \<Rightarrow> 'a hw_state_scheme \<Rightarrow> (int \<times> 'a hw_state_scheme) option" where
  "loader_load f pl s = do {
     check_signature_of f s;
     pid \<leftarrow> get_new_pid s;
     ps \<leftarrow> aupd pid (\<lambda>p. p\<lparr>p_id := pid, p_privilege_level := pl, p_prev := FREE_PCB_PID, p_next := FREE_PCB_PID\<rparr>) (processes s);
     let s = s\<lparr>processes := ps\<rparr>;
     current_pdt \<leftarrow> cur_pdt s;
     (temp_page, old_frame) \<leftarrow> create_temp_mapping_on current_pdt s;
     (new_pdt, s) \<leftarrow> mm_dir_new s;
     ps \<leftarrow> aupd pid (\<lambda>p. p\<lparr>p_cr3 := new_pdt\<rparr>) (processes s);
     let s = s\<lparr>processes := ps\<rparr>;
     s \<leftarrow> create_stacks_for f current_pdt new_pdt pl temp_page pid s;
     (total_pages, s) \<leftarrow> copy_data_from f current_pdt new_pdt temp_page pl s;
     ps \<leftarrow> aupd pid (\<lambda>p. p\<lparr>p_next_empty_page_addr := USER_MEMORY_START + total_pages * 4096\<rparr>) (processes s);
     let s = s\<lparr>processes := ps\<rparr>;
     s \<leftarrow> undo_temp_mapping_on temp_page old_frame current_pdt s;
     s \<leftarrow> sched_load pid s;
     Some (pid, s)
   }"

subsection \<open>The end of a process\<close>

definition loader_exit :: "'a runner \<Rightarrow> 'a device_state_scheme \<Rightarrow> 'a device_state_scheme option" where
  "loader_exit saver s = do {
     (n, s) \<leftarrow> sched_exit s;
     s \<leftarrow> device_close_fds_for saver (cur_pid s) s;
     task \<leftarrow> aget (processes s) (cur_pid s);
     ps \<leftarrow> (if p_prev task = FREE_PCB_PID \<and> p_next task = FREE_PCB_PID then Some (processes s)
       else if p_prev task = FREE_PCB_PID \<and> p_next task \<noteq> FREE_PCB_PID
       then aupd (p_next task) (\<lambda>p. p\<lparr>p_prev := FREE_PCB_PID\<rparr>) (processes s)
       else if p_prev task \<noteq> FREE_PCB_PID \<and> p_next task \<noteq> FREE_PCB_PID
       then do {
         ps \<leftarrow> aupd (p_next task) (\<lambda>p. p\<lparr>p_prev := p_prev task\<rparr>) (processes s);
         aupd (p_prev task) (\<lambda>p. p\<lparr>p_next := p_next task\<rparr>) ps
       }
       else aupd (p_prev task) (\<lambda>p. p\<lparr>p_next := FREE_PCB_PID\<rparr>) (processes s));
     let s = s\<lparr>processes := ps\<rparr>;
     pdt \<leftarrow> cur_pdt s;
     s \<leftarrow> mm_dir_free pdt s;
     ps \<leftarrow> aupd (cur_pid s) (\<lambda>p. p\<lparr>p_id := FREE_PCB_PID\<rparr>) (processes s);
     task_switch (s\<lparr>processes := ps, tmp_pid := n\<rparr>)
   }"

definition exit :: "'a runner \<Rightarrow> 'a device_state_scheme \<Rightarrow> 'a device_state_scheme option" where
  "exit saver s = loader_exit saver s"

subsection \<open>Starting a program from a file\<close>

abbreviation (input) RUN_ERROR_READING :: int where "RUN_ERROR_READING \<equiv> 1"
abbreviation (input) RUN_INVALID_EXECUTABLE :: int where "RUN_INVALID_EXECUTABLE \<equiv> 2"
abbreviation (input) RUN_ERROR_OPENING :: int where "RUN_ERROR_OPENING \<equiv> 3"
abbreviation (input) RUN_UNAVAILABLE_MEMORY :: int where "RUN_UNAVAILABLE_MEMORY \<equiv> 4"

fun free_run_pages :: "nat \<Rightarrow> u32 \<Rightarrow> u32 \<Rightarrow> 'a mm_state_scheme \<Rightarrow> 'a mm_state_scheme option" where
  "free_run_pages 0 cur_vaddr pdt s = Some s"
| "free_run_pages (Suc n) cur_vaddr pdt s = do {
     frame \<leftarrow> mm_frame_from_page cur_vaddr pdt s;
     s \<leftarrow> mm_unmap_page cur_vaddr pdt s;
     s \<leftarrow> mm_mem_free frame s;
     free_run_pages n (cur_vaddr + 4096) pdt s
   }"

definition free_run_resources :: "'a runner \<Rightarrow> u32 \<Rightarrow> u32 \<Rightarrow> int \<Rightarrow> 'a device_state_scheme \<Rightarrow> 'a device_state_scheme option" where
  "free_run_resources saver start_vaddr page_count fd s = do {
     pdt \<leftarrow> cur_pdt s;
     s \<leftarrow> free_run_pages (unat page_count) start_vaddr pdt s;
     s \<leftarrow> mm_free_page_table_for start_vaddr pdt s;
     map_option snd (close saver fd s)
   }"

text \<open>What a read returns, to a caller who waits for it; the result is taken as unsigned.\<close>

type_synonym 'a waiter = "u32 \<Rightarrow> 'a device_state_scheme \<Rightarrow> (int \<times> 'a device_state_scheme) option"

definition wait_read :: "'a device_state_ext reader \<Rightarrow> 'a waiter \<Rightarrow> int \<Rightarrow> u32 \<Rightarrow> u32 \<Rightarrow> 'a device_state_scheme \<Rightarrow>
    (u32 \<times> 'a device_state_scheme) option" where
  "wait_read rd fin fd buf nbytes s = do {
     (r, s) \<leftarrow> read_fd rd fd buf nbytes s;
     (n, s) \<leftarrow> (case r of Done n \<Rightarrow> Some (n, s) | Blocked k \<Rightarrow> fin k s);
     Some (word_of_int n, s)
   }"

text \<open>Reads until \<open>goal\<close> bytes are there; a result of 0 ends it. Is everything there?\<close>

partial_function (option) read_until :: "'a device_state_ext reader \<Rightarrow> 'a waiter \<Rightarrow> int \<Rightarrow> u32 \<Rightarrow> u32 \<Rightarrow> u32 \<Rightarrow>
    'a device_state_scheme \<Rightarrow> (bool \<times> u32 \<times> u32 \<times> 'a device_state_scheme) option" where
  "read_until rd fin fd goal copy_pointer readed s =
     (if readed < goal then do {
        (actually_readed, s) \<leftarrow> wait_read rd fin fd copy_pointer (goal - readed) s;
        if actually_readed > 0
        then read_until rd fin fd goal (copy_pointer + actually_readed) (readed + actually_readed) s
        else Some (False, copy_pointer, readed, s)
      } else Some (True, copy_pointer, readed, s))"

text \<open>Maps \<open>n\<close> more pages; the number mapped before a frame was missing.\<close>

fun map_run_pages :: "nat \<Rightarrow> u32 \<Rightarrow> u32 \<Rightarrow> 'a mm_state_scheme \<Rightarrow> (u32 option \<times> 'a mm_state_scheme) option" where
  "map_run_pages 0 i cur_vaddr s = Some (None, s)"
| "map_run_pages (Suc n) i cur_vaddr s = do {
     (frame, s) \<leftarrow> mm_mem_alloc s;
     let cur_vaddr = cur_vaddr + 4096;
     if frame = 0 then Some (Some i, s)
     else do {
       pdt \<leftarrow> cur_pdt s;
       s \<leftarrow> mm_map_frame frame cur_vaddr pdt PL_USER s;
       map_run_pages n (i + 1) cur_vaddr s
     }
   }"

definition run :: "'a device_state_ext reader \<Rightarrow> 'a waiter \<Rightarrow> 'a runner \<Rightarrow> 'a runner" where
  "run rd fin saver filename s = do {
     (fd, s) \<leftarrow> open_file rd filename FS_OPEN_RD s;
     if fd < 0 then Some (- RUN_ERROR_OPENING, s)
     else do {
       pdt \<leftarrow> cur_pdt s;
       let start_vaddr = mm_vaddr_for_free_pdt_entry pdt s;
       (frame, s) \<leftarrow> mm_mem_alloc s;
       if frame = 0 then do {
         s \<leftarrow> free_run_resources saver 0 0 fd s;
         Some (- RUN_UNAVAILABLE_MEMORY, s)
       } else do {
         pdt \<leftarrow> cur_pdt s;
         s \<leftarrow> mm_map_frame frame start_vaddr pdt PL_USER s;
         (ok, copy_pointer, readed, s) \<leftarrow> read_until rd fin fd SIZEOF_PSO_FILE start_vaddr 0 s;
         if \<not> ok then do {
           s \<leftarrow> free_run_resources saver start_vaddr 1 fd s;
           Some (- RUN_ERROR_READING, s)
         } else do {
           sig \<leftarrow> pso_signature start_vaddr s;
           if strncmp sig PSO_SIGNATURE 4 \<noteq> 0 then do {
             s \<leftarrow> free_run_resources saver start_vaddr 1 fd s;
             Some (- RUN_INVALID_EXECUTABLE, s)
           } else do {
             mem_end_disk \<leftarrow> pso_mem_end_disk start_vaddr s;
             mem_start \<leftarrow> pso_mem_start start_vaddr s;
             let effective_bytes = mem_end_disk - mem_start;
             let needed_pages = effective_bytes div 4096;
             let needed_pages = (if effective_bytes mod 4096 \<noteq> 0 then needed_pages + 1 else needed_pages);
             let needed_pages = needed_pages - 1;
             (failed, s) \<leftarrow> map_run_pages (unat needed_pages) 0 start_vaddr s;
             case failed of
               Some i \<Rightarrow> do {
                 s \<leftarrow> free_run_resources saver start_vaddr (i + 1) fd s;
                 Some (- RUN_UNAVAILABLE_MEMORY, s)
               }
             | None \<Rightarrow> do {
                 (ok, copy_pointer, readed, s) \<leftarrow> read_until rd fin fd effective_bytes copy_pointer readed s;
                 if \<not> ok then do {
                   s \<leftarrow> free_run_resources saver start_vaddr (needed_pages + 1) fd s;
                   Some (- RUN_ERROR_READING, s)
                 } else do {
                   (pid, s) \<leftarrow> loader_load start_vaddr PL_USER s;
                   s \<leftarrow> free_run_resources saver start_vaddr (needed_pages + 1) fd s;
                   Some (pid, s)
                 }
               }
           }
         }
       }
     }
   }"

text \<open>
  The screen saver is started by \<^verbatim>\<open>run\<close> as well. Its file is on the disk, and closing a file
  of the disk starts nothing.
\<close>

definition start_screen_saver :: "'a device_state_ext reader \<Rightarrow> 'a waiter \<Rightarrow> 'a runner" where
  "start_screen_saver rd fin = run rd fin (\<lambda>_ _. None)"

subsection \<open>Fork\<close>

definition entry_set :: "u32 \<Rightarrow> u32 \<Rightarrow> 'a mm_state_scheme \<Rightarrow> 'a mm_state_scheme" where
  "entry_set a e s = put32 e (with_attr (attr_of (get32 e s) OR a) (get32 e s)) s"

definition entry_clear :: "u32 \<Rightarrow> u32 \<Rightarrow> 'a mm_state_scheme \<Rightarrow> 'a mm_state_scheme" where
  "entry_clear a e s = put32 e (with_attr (attr_of (get32 e s) AND NOT a) (get32 e s)) s"

definition copy_page :: "u32 \<Rightarrow> u32 \<Rightarrow> u32 \<Rightarrow> 'a mm_state_scheme \<Rightarrow> 'a mm_state_scheme option" where
  "copy_page slot virtual child_pdt s =
     (if attr_of (get32 slot s) AND MM_ATTR_P \<noteq> 0 then
        (if virtual = TASK_K_STACK_ADDRESS then Some s
         else if attr_of (get32 slot s) AND MM_ATTR_USR_SHARED \<noteq> 0 then do {
           let frame = base_addr (get32 slot s);
           s \<leftarrow> mm_map_frame frame virtual child_pdt (if attr_of (get32 slot s) AND MM_ATTR_US_U \<noteq> 0 then PL_USER else PL_KERNEL) s;
           e \<leftarrow> mm_pt_entry_for virtual child_pdt s;
           kassert (e \<noteq> 0);
           Some (entry_set MM_ATTR_USR_SHARED e s)
         } else do {
           let frame = base_addr (get32 slot s);
           s \<leftarrow> mm_map_frame frame virtual child_pdt (if attr_of (get32 slot s) AND MM_ATTR_US_U \<noteq> 0 then PL_USER else PL_KERNEL) s;
           e \<leftarrow> mm_pt_entry_for virtual child_pdt s;
           kassert (e \<noteq> 0);
           let s = entry_set MM_ATTR_USR_COR e s;
           let s = entry_clear MM_ATTR_RW e s;
           let s = entry_set MM_ATTR_USR_COR slot s;
           Some (entry_clear MM_ATTR_RW slot s)
         })
      else map_option snd (mm_set_pt_entry virtual (get32 slot s) child_pdt s))"

fun copy_table :: "nat \<Rightarrow> u32 \<Rightarrow> u32 \<Rightarrow> u32 \<Rightarrow> u32 \<Rightarrow> 'a mm_state_scheme \<Rightarrow> 'a mm_state_scheme option" where
  "copy_table 0 table pde pt_i child_pdt s = Some s"
| "copy_table (Suc n) table pde pt_i child_pdt s = do {
     s \<leftarrow> copy_page (table + 4 * pt_i) (push_bit 22 pde + push_bit 12 pt_i) child_pdt s;
     copy_table n table pde (pt_i + 1) child_pdt s
   }"

fun copy_tables :: "nat \<Rightarrow> u32 \<Rightarrow> u32 \<Rightarrow> u32 \<Rightarrow> 'a mm_state_scheme \<Rightarrow> 'a mm_state_scheme option" where
  "copy_tables 0 pde father_pdt child_pdt s = Some s"
| "copy_tables (Suc n) pde father_pdt child_pdt s = do {
     let e = get32 (father_pdt + 4 * pde) s;
     s \<leftarrow> (if attr_of e AND MM_ATTR_P \<noteq> 0 then copy_table 1024 (base_addr e) pde 0 child_pdt s else Some s);
     copy_tables n (pde + 1) father_pdt child_pdt s
   }"

definition copy_nonkernel_pages :: "u32 \<Rightarrow> u32 \<Rightarrow> 'a mm_state_scheme \<Rightarrow> 'a mm_state_scheme option" where
  "copy_nonkernel_pages father_pdt child_pdt s = copy_tables 1023 1 father_pdt child_pdt s"

definition create_child_kernel_stack :: "u32 \<Rightarrow> u32 \<Rightarrow> 'a hw_state_scheme \<Rightarrow> 'a hw_state_scheme option" where
  "create_child_kernel_stack father_pdt child_pdt s = do {
     (frame, s) \<leftarrow> mm_mem_alloc s;
     s \<leftarrow> mm_map_frame frame TASK_K_STACK_ADDRESS child_pdt PL_KERNEL s;
     let stack = TASK_K_STACK_ADDRESS;
     eip \<leftarrow> get_virt32 (stack + 4 * (STACK_TOP - 4)) s;
     eflags \<leftarrow> get_virt32 (stack + 4 * (STACK_TOP - 2)) s;
     user_esp \<leftarrow> get_virt32 (stack + 4 * (STACK_TOP - 1)) s;
     s \<leftarrow> mm_map_frame frame MM_TMP_PAGE father_pdt PL_KERNEL s;
     s \<leftarrow> memset_virt 4096 MM_TMP_PAGE 0 s;
     s \<leftarrow> create_user_stack MM_TMP_PAGE eflags eip user_esp s;
     mm_unmap_page MM_TMP_PAGE father_pdt s
   }"

definition fork :: "'a device_state_scheme \<Rightarrow> (int \<times> 'a device_state_scheme) option" where
  "fork s = do {
     me \<leftarrow> aget (processes s) (cur_pid s);
     kassert (p_prev me = FREE_QUEUE \<and> p_next me = FREE_QUEUE);
     kassert (p_privilege_level me = PL_USER);
     child \<leftarrow> get_new_pid s;
     (child_pdt, s) \<leftarrow> mm_dir_new s;
     ps \<leftarrow> aupd child (\<lambda>_. \<lparr>p_id = child, p_privilege_level = p_privilege_level me, p_cr3 = child_pdt,
         p_esp = (if p_privilege_level me = PL_KERNEL then K_IN_SWITCH_ESP else U_IN_SWITCH_ESP),
         p_next_empty_page_addr = p_next_empty_page_addr me, p_prev = FREE_QUEUE, p_next = FREE_QUEUE\<rparr>) (processes s);
     let s = s\<lparr>processes := ps\<rparr>;
     pdt \<leftarrow> cur_pdt s;
     s \<leftarrow> copy_nonkernel_pages pdt child_pdt s;
     pdt \<leftarrow> cur_pdt s;
     s \<leftarrow> create_child_kernel_stack pdt child_pdt s;
     s \<leftarrow> device_copy_fds (cur_pid s) child s;
     s \<leftarrow> sched_load child s;
     Some (child, s)
   }"

subsection \<open>Pages on demand, copy on write and sharing\<close>

text \<open>
  The process may be killed here: the state is then the one in which the next process
  runs, and nothing after the call happens. \<open>True\<close> is that the process goes on.
\<close>

definition not_enough_memory :: "'a runner \<Rightarrow> 'a device_state_scheme \<Rightarrow> (bool \<times> 'a device_state_scheme) option" where
  "not_enough_memory saver s = do {
     (n, s) \<leftarrow> printf (\<lambda>_. []) (chars ''Not enough memory! Killing process %d.'' @ [0x0A]) [word_of_int (cur_pid s)] s;
     s \<leftarrow> loader_exit saver s;
     Some (False, s)
   }"

definition mm_user_allocate :: "'a runner \<Rightarrow> u32 \<Rightarrow> 'a device_state_scheme \<Rightarrow> (bool \<times> 'a device_state_scheme) option" where
  "mm_user_allocate saver vaddr s = do {
     (frame, s) \<leftarrow> mm_mem_alloc s;
     if frame = 0 then not_enough_memory saver s
     else do {
       pdt \<leftarrow> cur_pdt s;
       s \<leftarrow> mm_map_frame frame vaddr pdt PL_USER s;
       Some (True, s)
     }
   }"

definition mm_copy_on_write :: "'a runner \<Rightarrow> u32 \<Rightarrow> 'a device_state_scheme \<Rightarrow> (bool \<times> 'a device_state_scheme) option" where
  "mm_copy_on_write saver vaddr s = do {
     other \<leftarrow> is_to_be_copied_on_write_by_other_processes vaddr s;
     pdt \<leftarrow> cur_pdt s;
     if \<not> other then do {
       pt_entry \<leftarrow> mm_pt_entry_for vaddr pdt s;
       kassert (pt_entry \<noteq> 0);
       let s = entry_set MM_ATTR_RW pt_entry s;
       Some (True, entry_clear MM_ATTR_USR_COR pt_entry s)
     } else do {
       (frame, s) \<leftarrow> mm_mem_alloc s;
       if frame = 0 then not_enough_memory saver s
       else do {
         s \<leftarrow> mm_map_frame frame MM_TMP_PAGE pdt PL_KERNEL s;
         s \<leftarrow> memcpy_virt 4096 vaddr MM_TMP_PAGE s;
         s \<leftarrow> mm_unmap_page MM_TMP_PAGE pdt s;
         e \<leftarrow> mm_pt_entry_for vaddr pdt s;
         kassert (e \<noteq> 0);
         s \<leftarrow> mm_map_frame frame vaddr pdt (if attr_of (get32 e s) AND MM_ATTR_US_U \<noteq> 0 then PL_USER else PL_KERNEL) s;
         Some (True, s)
       }
     }
   }"

abbreviation (input) PF_PRESENT :: u32 where "PF_PRESENT \<equiv> 1"
abbreviation (input) PF_WRITE :: u32 where "PF_WRITE \<equiv> 2"
abbreviation (input) PF_FETCH :: u32 where "PF_FETCH \<equiv> 16"

text \<open>\<open>cr2\<close> is the address at fault. A fault of a kernel process stops the kernel.\<close>

definition page_fault_handler :: "'a runner \<Rightarrow> u32 \<Rightarrow> registers \<Rightarrow> 'a device_state_scheme \<Rightarrow> (bool \<times> 'a device_state_scheme) option" where
  "page_fault_handler saver cr2 regs s = do {
     p \<leftarrow> aget (processes s) (cur_pid s);
     if p_privilege_level p = PL_USER then do {
       let fail_page = cr2 AND NOT 0xFFF;
       pdt \<leftarrow> cur_pdt s;
       req \<leftarrow> is_requested fail_page pdt s;
       if req then mm_user_allocate saver fail_page s
       else do {
         cow \<leftarrow> is_to_be_copied_on_write fail_page pdt s;
         if cow then mm_copy_on_write saver fail_page s
         else do {
           let access = (if r_err_code regs AND PF_WRITE \<noteq> 0 then ''write'' else if r_err_code regs AND PF_FETCH \<noteq> 0 then ''fetch'' else ''read'');
           let page = (if r_err_code regs AND PF_PRESENT \<noteq> 0 then ''present'' else ''non present'');
           (n, s) \<leftarrow> printf (\<lambda>a. chars (if a = 0 then access else page))
             (chars ''Invalid %s at vaddr %x on a %s page, process %d. Killed.'' @ [0x0A]) [0, cr2, 1, word_of_int (cur_pid s)] s;
           s \<leftarrow> loader_exit saver s;
           Some (False, s)
         }
       }
     } else None
   }"

definition mm_share_page :: "'a runner \<Rightarrow> u32 \<Rightarrow> 'a device_state_scheme \<Rightarrow> (int option \<times> 'a device_state_scheme) option" where
  "mm_share_page saver vaddr s = do {
     pdt \<leftarrow> cur_pdt s;
     entry \<leftarrow> mm_pt_entry_for vaddr pdt s;
     if entry \<noteq> 0 \<and> attr_of (get32 entry s) AND MM_ATTR_P \<noteq> 0 then Some (Some 0, entry_set MM_ATTR_USR_SHARED entry s)
     else if entry \<noteq> 0 \<and> attr_of (get32 entry s) AND PAGE_REQUESTED \<noteq> 0 then do {
       (alive, s) \<leftarrow> mm_user_allocate saver vaddr s;
       if alive then Some (Some 0, entry_set MM_ATTR_USR_SHARED entry s) else Some (None, s)
     }
     else Some (Some (-1), s)
   }"

definition share_page :: "'a runner \<Rightarrow> u32 \<Rightarrow> 'a device_state_scheme \<Rightarrow> (int option \<times> 'a device_state_scheme) option" where
  "share_page saver vaddr s = mm_share_page saver vaddr s"

definition sleep :: "registers \<Rightarrow> 'a hw_state_scheme \<Rightarrow> 'a hw_state_scheme option" where
  "sleep regs s = do {
     time \<leftarrow> get_virt32 (r_user_esp regs + 8) s;
     loader_sleep time s
   }"

end
