(* ===== verification/Files.thy ===== *)
theory Files
  imports Ext2
begin

section \<open>What the file system gives\<close>

text \<open>
  The operations of \<^verbatim>\<open>kernel/ext2.c\<close> over an abstract disk: a function from byte numbers to
  bytes that the driver's sector reads agree with (\<open>reads_disk\<close>). A range of bytes is read as it
  lies on the disk; a path is resolved name by name; the search of a directory returns its first
  entry of a name; reading a file gives the bytes behind the direct and indirect block numbers.
\<close>

subsection \<open>A range of bytes\<close>

text \<open>
  What the file system relies on of its disk: a sector read returns its 512 bytes, and while
  the caller waits for it nobody touches the memory, the frames, the files and the disks.
\<close>

definition undisturbed :: "'a ext2_state_scheme \<Rightarrow> 'a ext2_state_scheme \<Rightarrow> bool" where
  "undisturbed s s' \<longleftrightarrow> phys s' = phys s \<and> mm_bitmap s' = mm_bitmap s \<and> mm_bitmap_byte_len s' = mm_bitmap_byte_len s \<and>
     disk s' = disk s \<and> ext2_files s' = ext2_files s \<and> processes s' = processes s \<and> cur_pid s' = cur_pid s \<and>
     (\<forall>d. bd_size (hdd_devs s' ! d) = bd_size (hdd_devs s ! d)) \<and> length (hdd_enhanced_buffer s') = length (hdd_enhanced_buffer s)"

lemma undisturbed_refl [simp]: "undisturbed s s"
  by (simp add: undisturbed_def)

lemma undisturbed_trans: "undisturbed s s' \<Longrightarrow> undisturbed s' s'' \<Longrightarrow> undisturbed s s''"
  by (auto simp: undisturbed_def)

definition disk_bytes :: "(nat \<Rightarrow> u8) \<Rightarrow> nat \<Rightarrow> nat \<Rightarrow> u8 list" where
  "disk_bytes D start n = map (\<lambda>i. D (start + i)) [0..<n]"

definition reads_disk :: "'a reader \<Rightarrow> nat \<Rightarrow> (nat \<Rightarrow> u8) \<Rightarrow> bool" where
  "reads_disk rd dev D \<longleftrightarrow> (\<forall>pos s. \<exists>s'. rd dev pos 512 s = Some (512, disk_bytes D (512 * unat pos) 512, s') \<and> undisturbed s s')"

definition disk_ready :: "nat \<Rightarrow> 'a ext2_state_scheme \<Rightarrow> bool" where
  "disk_ready dev s \<longleftrightarrow> e2_dev (disk s) = Some dev \<and> bd_size (hdd_devs s ! dev) = 512 \<and> length (hdd_enhanced_buffer s) = 512"

lemma disk_ready_undisturbed: "undisturbed s s' \<Longrightarrow> disk_ready dev s' = disk_ready dev s"
  by (auto simp: undisturbed_def disk_ready_def)

lemma length_disk_bytes [simp]: "length (disk_bytes D a n) = n"
  by (simp add: disk_bytes_def)

lemma disk_bytes_append: "disk_bytes D a m @ disk_bytes D (a + m) n = disk_bytes D a (m + n)"
  by (rule nth_equalityI) (auto simp: disk_bytes_def nth_append)

lemma disk_bytes_part: "k + m \<le> n \<Longrightarrow> take m (drop k (disk_bytes D a n)) = disk_bytes D (a + k) m"
  by (rule nth_equalityI) (auto simp: disk_bytes_def add.assoc)

lemma enhanced_loop_reads:
  assumes rd: "reads_disk rd dev D"
  shows "bd_size (hdd_devs s ! dev) = 512 \<Longrightarrow> length (hdd_enhanced_buffer s) = 512 \<Longrightarrow> unat span < 512 \<Longrightarrow>
    k = (unat span + unat n + 511) div 512 \<Longrightarrow> unat pos + k < 2 ^ 32 \<Longrightarrow>
    \<exists>s'. enhanced_loop rd dev k pos span n s = Some (disk_bytes D (512 * unat pos + unat span) (unat n), s') \<and> undisturbed s s'"
proof (induction k arbitrary: pos span n s)
  case 0
  then have "unat n = 0" by simp
  then show ?case by (simp add: disk_bytes_def)
next
  case (Suc k)
  obtain s1 where r: "rd dev pos 512 s = Some (512, disk_bytes D (512 * unat pos) 512, s1)" "undisturbed s s1"
    using rd unfolding reads_disk_def by blast
  define s2 where "s2 = s1\<lparr>hdd_enhanced_buffer := disk_bytes D (512 * unat pos) 512\<rparr>"
  have u2: "undisturbed s s2" "bd_size (hdd_devs s2 ! dev) = 512" "length (hdd_enhanced_buffer s2) = 512" "length (hdd_enhanced_buffer s1) = 512"
    using r(2) Suc.prems(1,2) by (auto simp: undisturbed_def s2_def)
  define c where "c = (if 512 - span < n then 512 - span else n)"
  have us: "unat (512 - span) = 512 - unat span" using Suc.prems(3) by (simp add: unat_sub word_le_nat_alt)
  then have c: "unat c = min (512 - unat span) (unat n)" by (simp add: c_def word_less_nat_alt)
  then have cn: "c \<le> n" by (simp add: word_le_nat_alt)
  then have un: "unat (n - c) = unat n - unat c" by (simp add: unat_sub)
  have pos: "unat (pos + 1) = Suc (unat pos)" using Suc.prems(5) by (subst unat_add_lem [THEN iffD1]) simp_all
  have k: "k = (unat (0 :: u32) + unat (n - c) + 511) div 512"
  proof (cases "unat n \<le> 512 - unat span")
    case True
    then have "Suc k \<le> 1" using Suc.prems(3,4) by simp
    then show ?thesis using True c un by simp
  next
    case False
    then have "unat span + unat n + 511 = 512 + (unat (n - c) + 511)" using c un Suc.prems(3) by simp
    then show ?thesis using Suc.prems(4) by simp
  qed
  have "unat (pos + 1) + k < 2 ^ 32" using Suc.prems(5) pos by simp
  from Suc.IH [OF u2(2,3) _ k this] obtain s' where
    rest: "enhanced_loop rd dev k (pos + 1) 0 (n - c) s2 = Some (disk_bytes D (512 * unat (pos + 1)) (unat (n - c)), s')" "undisturbed s2 s'"
    by auto
  have part: "take (unat c) (drop (unat span) (disk_bytes D (512 * unat pos) 512)) = disk_bytes D (512 * unat pos + unat span) (unat c)"
    by (rule disk_bytes_part) (use c Suc.prems(3) in simp)
  have join: "disk_bytes D (512 * unat pos + unat span) (unat c) @ disk_bytes D (512 * unat (pos + 1)) (unat (n - c)) =
      disk_bytes D (512 * unat pos + unat span) (unat n)"
  proof (cases "unat n \<le> 512 - unat span")
    case True
    then show ?thesis using c un by (simp add: disk_bytes_def)
  next
    case False
    then have "512 * unat (pos + 1) = 512 * unat pos + unat span + unat c" "unat n = unat c + unat (n - c)"
      using c un pos Suc.prems(3) by simp_all
    then show ?thesis using disk_bytes_append [of D "512 * unat pos + unat span" "unat c" "unat (n - c)"] by simp
  qed
  have "enhanced_loop rd dev (Suc k) pos span n s = Some (disk_bytes D (512 * unat pos + unat span) (unat n), s')"
    using Suc.prems(1,3) r(1) u2(4) c part join rest(1)
    by (simp add: Let_def c_def [symmetric] s2_def [symmetric]) (simp add: s2_def)
  then show ?case using undisturbed_trans [OF u2(1) rest(2)] by blast
qed

text \<open>Any range of bytes is read from the disk as it lies there, however it is aligned with the
  sectors and however many of them it spans.\<close>

lemma hdd_enhanced_read_range:
  assumes "reads_disk rd dev D" and "disk_ready dev s" and "unat n \<le> 2 ^ 32 - 1024"
  shows "\<exists>s'. hdd_enhanced_read rd start n s = Some (disk_bytes D (unat start) (unat n), s') \<and> undisturbed s s'"
proof -
  have r: "e2_dev (disk s) = Some dev" "bd_size (hdd_devs s ! dev) = 512" "length (hdd_enhanced_buffer s) = 512"
    using assms(2) by (simp_all add: disk_ready_def)
  have span: "unat (start mod 512) = unat start mod 512" "unat (start div 512) = unat start div 512"
    by (simp_all add: unat_mod unat_div)
  define real where "real = start mod 512 + n"
  have ur: "unat real = unat start mod 512 + unat n"
  proof -
    have "unat (start mod 512) < 512" unfolding span(1) by simp
    then have "unat (start mod 512) + unat n < 2 ^ 32" using assms(3) by simp
    then show ?thesis unfolding real_def using span by (subst unat_add_lem [THEN iffD1]) simp_all
  qed
  define k where "k = (if real mod 512 \<noteq> 0 then real div 512 + 1 else real div 512)"
  have rk: "unat (real div 512) = unat real div 512" "real mod 512 = 0 \<longleftrightarrow> unat real mod 512 = 0"
  proof -
    show "unat (real div 512) = unat real div 512" by (simp add: unat_div)
    have "unat (real mod 512) = unat real mod 512" by (simp add: unat_mod)
    then show "real mod 512 = 0 \<longleftrightarrow> unat real mod 512 = 0" using unat_eq_0 [of "real mod 512"] by simp
  qed
  have b: "unat real < 2 ^ 32" "unat start < 2 ^ 32" using unsigned_less [of real] unsigned_less [of start] by simp_all
  have "unat (real div 512 + 1) = Suc (unat real div 512)" using rk(1) b by (subst unat_add_lem [THEN iffD1]) simp_all
  moreover have "(x + 511) div 512 = (if x mod 512 \<noteq> 0 then Suc (x div 512) else x div 512)" for x :: nat
  proof -
    have "(x + 511) div 512 = (512 * (x div 512) + (x mod 512 + 511)) div 512" by (simp only: mult_div_mod_eq add.assoc [symmetric])
    also have "\<dots> = x div 512 + (x mod 512 + 511) div 512" by (rule div_mult_self4) simp
    finally have "(x + 511) div 512 = x div 512 + (x mod 512 + 511) div 512" .
    moreover have "(y + 511) div 512 = (if y \<noteq> 0 then Suc 0 else 0)" if "y < 512" for y :: nat using that by (auto simp: div_nat_eqI)
    ultimately show ?thesis by simp
  qed
  ultimately have uk: "unat k = (unat start mod 512 + unat n + 511) div 512"
    using rk by (simp add: k_def flip: ur)
  have "unat k \<le> 8388609" using b(1) unfolding uk ur [symmetric] by simp
  moreover have "unat start div 512 < 8388608" using b(2) by simp
  ultimately have "unat (start div 512) + unat k < 2 ^ 32" by (simp add: span)
  from enhanced_loop_reads [OF assms(1) r(2,3) _ _ this, of "start mod 512" n] obtain s' where
    l: "enhanced_loop rd dev (unat k) (start div 512) (start mod 512) n s =
      Some (disk_bytes D (512 * unat (start div 512) + unat (start mod 512)) (unat n), s')" "undisturbed s s'"
    using uk by (auto simp: span)
  moreover have "hdd_enhanced_read rd start n s = enhanced_loop rd dev (unat k) (start div 512) (start mod 512) n s"
    using r unfolding k_def real_def by (simp add: hdd_enhanced_read_def Let_def)
  ultimately show ?thesis by (simp add: span)
qed

subsection \<open>Paths\<close>

text \<open>A comparison of \<open>n\<close> characters looks at no others, so the search for a name does not see the rest of its path.\<close>

lemma strncmp_take: "strncmp p (take (unat n) q) n = strncmp p q n"
proof (induction p q n rule: strncmp.induct)
  case (1 p q n)
  show ?case
  proof (cases "n = 0")
    case False
    then have "0 < n" by (simp add: word_neq_0_conv)
    then have n: "unat n = Suc (unat (n - 1))" using unat_pred [of n] by (simp add: word_less_nat_alt)
    then have t: "ch (take (unat n) q) = ch q" "tl (take (unat n) q) = take (unat (n - 1)) (tl q)" by (cases q; simp)+
    show ?thesis
    proof (cases "ch p \<noteq> 0 \<and> ch q \<noteq> 0 \<and> ch p = ch q")
      case True
      then have "n \<noteq> 0 \<and> ch p \<noteq> 0 \<and> ch q \<noteq> 0 \<and> ch p = ch q" using False by simp
      from this 1 [OF this] show ?thesis
        unfolding strncmp.simps [of p q n] strncmp.simps [of p "take (unat n) q" n] t by (simp only: if_True simp_thms)
    next
      case no: False
      then have "\<not> (n \<noteq> 0 \<and> ch p \<noteq> 0 \<and> ch q \<noteq> 0 \<and> ch p = ch q)" by simp
      then show ?thesis
        unfolding strncmp.simps [of p q n] strncmp.simps [of p "take (unat n) q" n] t by (simp only: if_False simp_thms)
    qed
  qed (simp add: strncmp.simps)
qed

lemma find_entry_cong:
  assumes "\<And>p. strncmp p str l = strncmp p str' l" and f: "find_entry str l sz k e s = Some r"
  shows "find_entry str' l sz k e s = Some r"
proof -
  have "(\<forall>p. strncmp p str l = strncmp p str' l) \<longrightarrow> find_entry str' l sz k e s = Some r"
  proof (rule find_entry.raw_induct [where P = "\<lambda>str l sz k e s r. (\<forall>p. strncmp p str l = strncmp p str' l) \<longrightarrow> find_entry str' l sz k e s = Some r", OF _ f])
    fix g and str l sz k e and s :: "'a ext2_state_scheme" and r
    assume IH: "\<And>str l sz k e (s :: 'a ext2_state_scheme) r. g str l sz k e s = Some r \<Longrightarrow>
        (\<forall>p. strncmp p str l = strncmp p str' l) \<longrightarrow> find_entry str' l sz k e s = Some r"
      and step: "(if k < sz then if ucast (de_name_len e s) = l \<and> strncmp (de_name e s) str l = 0 then Some (de_inode e s)
        else g str l sz (k + ucast (de_rec_len e s)) (e + ucast (de_rec_len e s)) s else Some 0) = Some r"
    show "(\<forall>p. strncmp p str l = strncmp p str' l) \<longrightarrow> find_entry str' l sz k e s = Some r"
    proof
      assume eq: "\<forall>p. strncmp p str l = strncmp p str' l"
      then show "find_entry str' l sz k e s = Some r"
        using step IH by (subst find_entry.simps) (auto split: if_splits)
    qed
  qed
  then show ?thesis using assms(1) by blast
qed

lemma find_entry_take: "find_entry (take (unat l) str) l sz k e s = find_entry str l sz k e s"
proof -
  have "\<And>p. strncmp p str l = strncmp p (take (unat l) str) l" "\<And>p. strncmp p (take (unat l) str) l = strncmp p str l"
    by (simp_all add: strncmp_take)
  then show ?thesis using find_entry_cong by (metis not_Some_eq)
qed

lemma str_get_inode_take: "str_get_inode rd (take (unat l) str) l i s = str_get_inode rd str l i s"
  by (simp add: str_get_inode_def find_entry_take)

text \<open>A path as the list of its names, and its resolution name by name.\<close>

fun join :: "u8 list list \<Rightarrow> u8 list" where
  "join [] = []"
| "join (n # ns) = n @ (if ns = [] then [] else 0x2F # join ns)"

fun resolve :: "'a reader \<Rightarrow> u8 list list \<Rightarrow> u32 \<Rightarrow> 'a ext2_state_scheme \<Rightarrow> (u32 \<times> 'a ext2_state_scheme) option" where
  "resolve rd [] i s = Some (i, s)"
| "resolve rd (n # ns) i s = do {
     (j, s) \<leftarrow> str_get_inode rd n (of_nat (length n)) i s;
     if j = 0 then Some (0, s) else resolve rd ns j s
   }"

definition plain_name :: "u8 list \<Rightarrow> bool" where
  "plain_name n \<longleftrightarrow> 0x2F \<notin> set n \<and> 0 \<notin> set n"

lemma join_no_nul: "\<forall>n\<in>set ns. plain_name n \<Longrightarrow> 0 \<notin> set (join ns)"
  by (induction ns) (auto simp: plain_name_def)

lemma index_where_slash: "plain_name n \<Longrightarrow> index_where ((=) 0x2F) (n @ 0x2F # r) = length n"
  by (induction n) (auto simp: plain_name_def)

lemma next_slash:
  assumes "\<forall>n\<in>set (n # ns). plain_name n" "0 \<notin> set pre"
  shows "char_pos (pre @ join (n # ns)) 0x2F (length pre) = Some (if ns = [] then 0 else Suc (length pre + length n))"
proof -
  have "0 \<notin> set (pre @ join (n # ns))" using assms join_no_nul [of "n # ns"] by auto
  from char_pos_spec [OF this, of "0x2F" "length pre"] show ?thesis
    using assms(1) index_where_slash [of n "join ns"] by (auto simp: plain_name_def)
qed

lemma name_of_rest:
  assumes "length n < 2 ^ 32"
  shows "str_get_inode rd (n @ r) (of_nat (length n)) i s = str_get_inode rd n (of_nat (length n)) i s"
proof -
  have "unat (of_nat (length n) :: u32) = length n" using assms by (simp add: unat_of_nat take_bit_nat_eq_self)
  then show ?thesis using str_get_inode_take [of rd "of_nat (length n)" "n @ r" i s] by simp
qed

lemma path_loop_resolves:
  assumes "\<forall>n\<in>set (n # ns). plain_name n" "0 \<notin> set pre" "length (pre @ join (n # ns)) < 2 ^ 32"
  shows "path_loop rd (pre @ join (n # ns)) (length (pre @ join (n # ns))) (length pre)
     (if ns = [] then 0 else Suc (length pre + length n)) i s = resolve rd (n # ns) i s"
  using assms
proof (induction ns arbitrary: n pre i s)
  case Nil
  have "Option.bind m (\<lambda>(j, s). if j = 0 then Some (0, s) else Some (j, s)) = m" for m :: "(u32 \<times> 'a ext2_state_scheme) option"
    by (cases m) auto
  then show ?case unfolding resolve.simps by (subst path_loop.simps) simp
next
  case (Cons m ns)
  let ?f = "pre @ n @ 0x2F # join (m # ns)" and ?pre = "pre @ n @ [0x2F]"
  have j: "pre @ join (n # m # ns) = ?f" "?f = ?pre @ join (m # ns)" "Suc (length pre + length n) = length ?pre" by simp_all
  have "0 \<notin> set ?pre" using Cons.prems(1,2) by (auto simp: plain_name_def)
  moreover have "\<forall>n\<in>set (m # ns). plain_name n" "length (?pre @ join (m # ns)) < 2 ^ 32" using Cons.prems by simp_all
  ultimately have IH: "path_loop rd (?pre @ join (m # ns)) (length (?pre @ join (m # ns))) (length ?pre)
      (if ns = [] then 0 else Suc (length ?pre + length m)) i s = resolve rd (m # ns) i s"
    and nx: "char_pos (?pre @ join (m # ns)) 0x2F (length ?pre) = Some (if ns = [] then 0 else Suc (length ?pre + length m))" for i s
    using Cons.IH [of m ?pre] next_slash [of m ns ?pre] by blast+
  have nm: "str_get_inode rd (drop (length pre) ?f) (of_nat (length n)) i s = str_get_inode rd n (of_nat (length n)) i s"
    using name_of_rest [of n rd "0x2F # join (m # ns)" i s] Cons.prems(3) by simp
  let ?k = "if ns = [] then 0 else Suc (length ?pre + length m)"
  have "path_loop rd ?f (length ?f) (length pre) (length ?pre) i s =
      Option.bind (str_get_inode rd (drop (length pre) ?f) (of_nat (length ?pre - length pre - 1)) i s) (\<lambda>(found, s).
        if found = 0 then Some (0, s)
        else Option.bind (char_pos ?f 0x2F (length ?pre)) (\<lambda>i_next. path_loop rd ?f (length ?f) (length ?pre) i_next found s))"
    by (subst path_loop.simps) simp
  also have "length ?pre - length pre - 1 = length n" by simp
  also have "char_pos ?f 0x2F (length ?pre) = Some ?k" using nx unfolding j(2) .
  finally have "path_loop rd ?f (length ?f) (length pre) (length ?pre) i s = resolve rd (n # m # ns) i s"
    unfolding nm Option.bind.simps IH [unfolded j(2) [symmetric]] resolve.simps(2) [of rd n "m # ns"] .
  moreover have "(if m # ns = [] then 0 else Suc (length pre + length n)) = length ?pre" by simp
  ultimately show ?case unfolding j(1) by (simp only:)
qed

text \<open>C35: A path is resolved name by name: looking up \<^verbatim>\<open>/n1/n2/.../nk\<close> searches the root for
  \<^verbatim>\<open>n1\<close>, the directory found for \<^verbatim>\<open>n2\<close> and so on, ends with 0 at the first name that is
  not there, and is the root itself for the path of no names.\<close>

theorem get_file_inode_resolves:
  assumes "\<forall>n\<in>set names. plain_name n" and "names \<noteq> [[]]" and "length (join names) < 2 ^ 32 - 1"
  shows "get_file_inode rd (0x2F # join names) (Suc (length (join names))) s = Option.bind (ensure_loaded rd s) (resolve rd names ROOT_DIR_INODE)"
proof -
  have nn: "0 \<notin> set (0x2F # join names)" using join_no_nul [OF assms(1)] by simp
  have "index_where ((=) 0x2F) (0x2F # join names) = 0" by simp
  then have first: "char_at (0x2F # join names) 0 = Some 0x2F" "char_pos (0x2F # join names) 0x2F 0 = Some 1"
    using char_pos_spec [OF nn, of "0x2F" 0] by (simp_all add: char_at_def)
  show ?thesis
  proof (cases names)
    case Nil
    then show ?thesis using first by (simp add: get_file_inode_def cong: Option.bind_cong)
  next
    case (Cons n ns)
    have ne: "join names \<noteq> []" using assms(2) Cons by auto
    have l: "path_loop rd ([0x2F] @ join (n # ns)) (length ([0x2F] @ join (n # ns))) (length [0x2F :: u8])
        (if ns = [] then 0 else Suc (length [0x2F :: u8] + length n)) i s = resolve rd (n # ns) i s" for i s
      by (rule path_loop_resolves) (use assms(1,3) Cons in auto)
    have nx: "char_pos ([0x2F] @ join (n # ns)) 0x2F (length [0x2F :: u8]) = Some (if ns = [] then 0 else Suc (length [0x2F :: u8] + length n))"
      by (rule next_slash) (use assms(1) Cons in auto)
    have "get_file_inode rd ([0x2F] @ join (n # ns)) (length ([0x2F] @ join (n # ns))) s =
        Option.bind (ensure_loaded rd s) (\<lambda>s. path_loop rd ([0x2F] @ join (n # ns)) (length ([0x2F] @ join (n # ns))) (length [0x2F :: u8])
        (if ns = [] then 0 else Suc (length [0x2F :: u8] + length n)) ROOT_DIR_INODE s)"
      using first ne Cons nx by (cases "ensure_loaded rd s") (simp_all add: get_file_inode_def del: join.simps)
    then show ?thesis unfolding l by (simp add: Cons del: join.simps resolve.simps)
  qed
qed

subsection \<open>Directories\<close>

text \<open>A directory in memory: entry after entry, each with its inode, its name and its length.\<close>

fun dir_at :: "u32 \<Rightarrow> (u32 \<times> u8 list \<times> nat) list \<Rightarrow> 'a ext2_state_scheme \<Rightarrow> bool" where
  "dir_at e [] s \<longleftrightarrow> True"
| "dir_at e ((i, n, l) # ds) s \<longleftrightarrow> de_inode e s = i \<and> de_name e s = n \<and> 0 \<notin> set n \<and> unat (de_rec_len e s) = l \<and> 0 < l \<and>
     dir_at (e + of_nat l) ds s"

definition dir_length :: "(u32 \<times> u8 list \<times> nat) list \<Rightarrow> nat" where
  "dir_length ds = sum_list (map (\<lambda>(i, n, l). l) ds)"

lemma dir_length_simps [simp]: "dir_length [] = 0" "dir_length ((i, n, l) # ds) = l + dir_length ds"
  by (simp_all add: dir_length_def)

lemma name_matches:
  assumes "0 \<notin> set n" "0 \<notin> set m" "length n < 2 ^ 32"
  shows "strncmp n m (of_nat (length n)) = 0 \<longleftrightarrow> n = take (length n) m"
proof -
  have "unat (of_nat (length n) :: u32) = length n" using assms(3) by (simp add: unat_of_nat take_bit_nat_eq_self)
  moreover have "0 \<notin> set (take (length n) m)" using assms(2) by (auto dest: in_set_takeD)
  ultimately show ?thesis using strncmp_prefix [OF assms(1,2), of "of_nat (length n)"] strcmp_nonul [of n "take (length n) m"] assms(1) by simp
qed

lemma find_entry_at:
  assumes "0 \<notin> set name" "length name < 256"
  shows "dir_at e ds s \<Longrightarrow> k + dir_length ds = unat sz \<Longrightarrow>
    find_entry name (of_nat (length name)) sz (of_nat k) e s = Some (case find (\<lambda>(i, n, l). n = name) ds of Some (i, n, l) \<Rightarrow> i | None \<Rightarrow> 0)"
proof (induction ds arbitrary: k e)
  case Nil
  then have "of_nat k = sz" by simp
  then show ?case by (subst find_entry.simps) simp
next
  case (Cons d ds)
  obtain i n l where d: "d = (i, n, l)" by (cases d)
  have s: "k < unat sz" using Cons.prems d by auto
  moreover have "unat sz < 2 ^ 32" using unsigned_less [of sz] by simp
  ultimately have "k < 2 ^ 32" by linarith
  then have lt: "of_nat k < sz" using s by (simp add: word_less_nat_alt unat_of_nat take_bit_nat_eq_self)
  have ln: "length n = unat (de_name_len e s)" "0 \<notin> set n" using Cons.prems(1) d by (auto simp: de_name_def)
  have nl: "(ucast (de_name_len e s) :: u32) = of_nat (length n)" unfolding ln(1) by simp
  have b: "length n < 256" using ln(1) unsigned_less [of "de_name_len e s"] by simp
  then have len: "(of_nat (length n) :: u32) = of_nat (length name) \<longleftrightarrow> length n = length name"
    using assms(2) of_nat_inj_small [of "length n" "length name"] by simp
  have hit: "(ucast (de_name_len e s) = (of_nat (length name) :: u32) \<and> strncmp (de_name e s) name (of_nat (length name)) = 0) \<longleftrightarrow> n = name"
    unfolding nl len using name_matches [OF ln(2) assms(1)] b Cons.prems(1) d by auto
  have rl: "(ucast (de_rec_len e s) :: u32) = of_nat l" using Cons.prems(1) d by auto
  have st: "find_entry name (of_nat (length name)) sz (of_nat k) e s =
      (if n = name then Some (de_inode e s) else find_entry name (of_nat (length name)) sz (of_nat (k + l)) (e + of_nat l) s)"
    by (subst find_entry.simps) (simp add: lt hit rl)
  have i: "de_inode e s = i" "dir_at (e + of_nat l) ds s" "k + l + dir_length ds = unat sz" using Cons.prems d by auto
  show ?case using Cons.IH [OF i(2,3)] i(1) st d by simp
qed

text \<open>C36: The search of a directory returns, and gives the inode of the first entry with the name
  looked for, or 0 when no entry has it.\<close>

theorem find_entry_first:
  assumes "0 \<notin> set name" and "length name < 256" and "dir_at e ds s" and "dir_length ds = unat sz"
  shows "find_entry name (of_nat (length name)) sz 0 e s = Some (case find (\<lambda>(i, n, l). n = name) ds of Some (i, n, l) \<Rightarrow> i | None \<Rightarrow> 0)"
  using find_entry_at [OF assms(1-3), of 0 sz] assms(4) by simp

text \<open>An entry of length 0 that is not the one looked for keeps the search from ever returning.\<close>

lemma find_entry_stuck:
  assumes "k < sz" and "de_rec_len e s = 0" and "\<not> (ucast (de_name_len e s) = l \<and> strncmp (de_name e s) str l = 0)"
  shows "find_entry str l sz k e s = None"
proof (rule ccontr)
  assume "find_entry str l sz k e s \<noteq> None"
  then obtain r where f: "find_entry str l sz k e s = Some r" by blast
  have "k < sz \<and> de_rec_len e s = 0 \<and> \<not> (ucast (de_name_len e s) = l \<and> strncmp (de_name e s) str l = 0) \<longrightarrow> False"
  proof (rule find_entry.raw_induct [where P = "\<lambda>str l sz k e s r. k < sz \<and> de_rec_len e s = 0 \<and> \<not> (ucast (de_name_len e s) = l \<and> strncmp (de_name e s) str l = 0) \<longrightarrow> False", OF _ f])
    fix g and str l sz k e and s :: "'a ext2_state_scheme" and r
    assume "\<And>str l sz k e (s :: 'a ext2_state_scheme) r. g str l sz k e s = Some r \<Longrightarrow>
        k < sz \<and> de_rec_len e s = 0 \<and> \<not> (ucast (de_name_len e s) = l \<and> strncmp (de_name e s) str l = 0) \<longrightarrow> False"
      and "(if k < sz then if ucast (de_name_len e s) = l \<and> strncmp (de_name e s) str l = 0 then Some (de_inode e s)
        else g str l sz (k + ucast (de_rec_len e s)) (e + ucast (de_rec_len e s)) s else Some 0) = Some r"
    then show "k < sz \<and> de_rec_len e s = 0 \<and> \<not> (ucast (de_name_len e s) = l \<and> strncmp (de_name e s) str l = 0) \<longrightarrow> False"
      by (auto split: if_splits)
  qed
  then show False using assms by blast
qed

subsection \<open>Files\<close>

definition block_no :: "ext2_file \<Rightarrow> 'a ext2_state_scheme \<Rightarrow> nat \<Rightarrow> u32" where
  "block_no f s k = (if k < 12 then i_block (inode f) ! k else get32 (block_list f + 4 * of_nat (k - 12)) s)"

definition file_byte :: "(nat \<Rightarrow> u8) \<Rightarrow> ext2_file \<Rightarrow> 'a ext2_state_scheme \<Rightarrow> nat \<Rightarrow> u8" where
  "file_byte D f s i = (let bs = unat (fs_block_size s) in D (unat (block_no f s (i div bs) * fs_block_size s) + i mod bs))"

text \<open>Everything but the memory at \<open>B\<close> and the files is as it was.\<close>

definition changes :: "u32 set \<Rightarrow> 'a ext2_state_scheme \<Rightarrow> 'a ext2_state_scheme \<Rightarrow> bool" where
  "changes B s s' \<longleftrightarrow> (\<forall>x. x \<notin> B \<longrightarrow> phys s' x = phys s x) \<and> mm_bitmap s' = mm_bitmap s \<and> mm_bitmap_byte_len s' = mm_bitmap_byte_len s \<and>
     disk s' = disk s \<and> processes s' = processes s \<and> cur_pid s' = cur_pid s \<and>
     (\<forall>d. bd_size (hdd_devs s' ! d) = bd_size (hdd_devs s ! d)) \<and> length (hdd_enhanced_buffer s') = length (hdd_enhanced_buffer s)"

lemma changes_refl [simp]: "changes B s s"
  by (simp add: changes_def)

lemma changes_trans: "changes B s s' \<Longrightarrow> changes B s' s'' \<Longrightarrow> changes B s s''"
  by (simp add: changes_def)

lemma changes_mono: "changes A s s' \<Longrightarrow> A \<subseteq> B \<Longrightarrow> changes B s s'"
  unfolding changes_def by blast

lemma undisturbed_changes: "undisturbed s s' \<Longrightarrow> changes {} s s'" "undisturbed s s' \<Longrightarrow> ext2_files s' = ext2_files s"
  by (simp_all add: undisturbed_def changes_def)

lemma changes_upd_file [simp]: "changes B s (upd_file i g s') = changes B s s'"
  by (simp add: changes_def upd_file_def)

lemma poke_region: "x \<notin> region a (length bs) \<Longrightarrow> poke a bs m x = m x"
  by (induction bs arbitrary: a m) (auto simp: region_Suc)

lemma poke_bytes: "length bs < 2 ^ 32 \<Longrightarrow> bytes_at a (length bs) (poke a bs m) = bs"
proof (induction bs arbitrary: a m)
  case (Cons b bs)
  have "poke (a + 1) bs (m(a := b)) a = b"
    using poke_region [of a "a + 1" bs] head_not_in_region [of "length bs" a] Cons.prems by simp
  then show ?case using Cons by simp
qed simp

lemma changes_store: "changes (region a (length bs)) s (store a bs s)" "ext2_files (store a bs s) = ext2_files s"
  by (simp_all add: changes_def store_def poke_region)

lemma changes_get32: "changes B s s' \<Longrightarrow> aligned4 a \<Longrightarrow> (\<And>x. x \<in> B \<Longrightarrow> page_of x \<noteq> page_of a) \<Longrightarrow> get32 a s' = get32 a s"
  unfolding get32_def by (rule ld32_cong) (use page_of_word in \<open>fastforce simp: changes_def\<close>)+

lemma changes_disk_ready: "changes B s s' \<Longrightarrow> disk_ready dev s' = disk_ready dev s"
  by (simp add: changes_def disk_ready_def)

text \<open>The kernel pages a file needs: its buffer, its block list and the superblock.\<close>

definition file_ready :: "nat \<Rightarrow> ext2_file \<Rightarrow> 'a ext2_state_scheme \<Rightarrow> bool" where
  "file_ready dev f s \<longleftrightarrow> disk_ready dev s \<and> s_log_block_size s \<in> {0, 1, 2} \<and> buf_len f = 4096 \<and>
     aligned (ef_buffer f) \<and> aligned (block_list f) \<and> aligned (e2_sb (disk s)) \<and>
     ef_buffer f \<noteq> block_list f \<and> ef_buffer f \<noteq> e2_sb (disk s)"

definition block_bytes :: "'a ext2_state_scheme \<Rightarrow> nat" where
  "block_bytes s = unat (fs_block_size s)"

lemma file_ready_block_size:
  assumes "file_ready dev f s"
  shows "block_bytes s \<in> {1024, 2048, 4096}" "fs_block_size s = of_nat (block_bytes s)"
  using assms by (auto simp: file_ready_def fs_block_size_def block_bytes_def)

lemma list_slot:
  assumes "aligned a" "n < 1024"
  shows "aligned4 (a + 4 * of_nat n)" "page_of (a + 4 * of_nat n) = a"
proof -
  have "(of_nat n :: u32) < 1024" using assms(2) by (simp add: word_less_nat_alt unat_of_nat take_bit_nat_eq_self)
  then show "page_of (a + 4 * of_nat n) = a" "aligned4 (a + 4 * of_nat n)" using index_addr [OF assms(1)] by blast+
qed

lemma region_in_page: "aligned p \<Longrightarrow> k + n \<le> 4096 \<Longrightarrow> x \<in> region (p + of_nat k) n \<Longrightarrow> page_of x = p"
proof -
  assume p: "aligned p" and kn: "k + n \<le> 4096" and "x \<in> region (p + of_nat k) n"
  then obtain i where i: "i < n" "x = p + of_nat (k + i)" by (auto simp: region_def add.assoc)
  then have "(of_nat (k + i) :: u32) < 4096" using kn by (simp add: word_less_nat_alt unat_of_nat take_bit_nat_eq_self del: of_nat_add)
  then show ?thesis using page_of_add [OF p] i(2) by simp
qed

lemma file_ready_changes:
  assumes "file_ready dev f s" "changes B s s'" "\<And>x. x \<in> B \<Longrightarrow> page_of x \<noteq> e2_sb (disk s)"
  shows "file_ready dev f s'" "fs_block_size s' = fs_block_size s" "block_bytes s' = block_bytes s"
proof -
  have a: "aligned4 (e2_sb (disk s) + 4 * 6)" "page_of (e2_sb (disk s) + 4 * 6) = e2_sb (disk s)"
    using list_slot [of "e2_sb (disk s)" 6] assms(1) by (simp_all add: file_ready_def)
  have "get32 (e2_sb (disk s) + 4 * 6) s' = get32 (e2_sb (disk s) + 4 * 6) s"
    by (rule changes_get32 [OF assms(2) a(1)]) (use a(2) assms(3) in simp)
  moreover have d: "disk s' = disk s" using assms(2) by (simp add: changes_def)
  ultimately have l: "s_log_block_size s' = s_log_block_size s" by (simp add: s_log_block_size_def)
  then show b: "fs_block_size s' = fs_block_size s" by (simp add: fs_block_size_def)
  then show "block_bytes s' = block_bytes s" by (simp add: block_bytes_def)
  show "file_ready dev f s'" using assms(1) changes_disk_ready [OF assms(2)] by (simp add: file_ready_def l d)
qed

lemma block_no_changes:
  assumes "aligned (block_list f)" "changes B s s'" "\<And>x. x \<in> B \<Longrightarrow> page_of x \<noteq> block_list f" "k < 1036"
  shows "block_no f s' k = block_no f s k"
proof -
  have "aligned4 (block_list f + 4 * of_nat (k - 12))" "page_of (block_list f + 4 * of_nat (k - 12)) = block_list f"
    using list_slot [OF assms(1), of "k - 12"] assms(4) by simp_all
  then have "get32 (block_list f + 4 * of_nat (k - 12)) s' = get32 (block_list f + 4 * of_nat (k - 12)) s"
    using changes_get32 [OF assms(2)] assms(3) by metis
  then show ?thesis unfolding block_no_def by (simp only:)
qed

lemma bytes_at_append: "bytes_at a (m + n) p = bytes_at a m p @ bytes_at (a + of_nat m) n p"
  by (rule nth_equalityI) (auto simp: bytes_at_def nth_append algebra_simps simp flip: of_nat_add)

lemma region_disjoint: "m + n < 2 ^ 32 \<Longrightarrow> region a m \<inter> region (a + of_nat m) n = {}"
proof -
  assume b: "m + n < 2 ^ 32"
  have "(of_nat i :: u32) \<noteq> of_nat (m + j)" if "i < m" "j < n" for i j using of_nat_inj_small [of i "m + j"] that b by simp
  then show ?thesis by (auto simp: region_def add.assoc)
qed

lemma region_append: "region a m \<union> region (a + of_nat m) n = region a (m + n)"
proof (induction m arbitrary: a)
  case (Suc m)
  from Suc [of "a + 1"] show ?case by (simp add: region_Suc add.assoc)
qed (simp add: region_def)

lemma file_bytes_block:
  assumes "bs = block_bytes s" "0 < bs"
  shows "map (file_byte D f s) [k * bs..<Suc k * bs] = disk_bytes D (unat (block_no f s k * fs_block_size s)) bs"
proof (rule nth_equalityI)
  fix i assume "i < length (map (file_byte D f s) [k * bs..<Suc k * bs])"
  then have "i < bs" by simp
  then have "(k * bs + i) div bs = k" "(k * bs + i) mod bs = i" using assms(2) by (simp_all add: div_nat_eqI)
  then show "map (file_byte D f s) [k * bs..<Suc k * bs] ! i = disk_bytes D (unat (block_no f s k * fs_block_size s)) bs ! i"
    using \<open>i < bs\<close> by (simp add: file_byte_def disk_bytes_def Let_def assms(1) block_bytes_def)
qed simp

lemma file_byte_changes:
  assumes "aligned (block_list f)" "changes B s s'" "\<And>x. x \<in> B \<Longrightarrow> page_of x \<noteq> block_list f"
    and "fs_block_size s' = fs_block_size s" "0 < block_bytes s" "i < 1036 * block_bytes s"
  shows "file_byte D f s' i = file_byte D f s i"
proof -
  have "i div block_bytes s < 1036" using assms(5,6) by (simp add: less_mult_imp_div_less)
  then have "block_no f s' (i div block_bytes s) = block_no f s (i div block_bytes s)" using block_no_changes [OF assms(1-3)] by blast
  then show ?thesis using assms(4) by (simp add: file_byte_def block_bytes_def Let_def)
qed

lemma load_buffer_loop_loads:
  assumes rd: "reads_disk rd dev D"
  shows "file_ready dev f s \<Longrightarrow> ext2_files s ! self = f \<Longrightarrow> bs = block_bytes s \<Longrightarrow> off + j * bs = 4096 \<Longrightarrow> k + j \<le> 1036 \<Longrightarrow>
    \<exists>s'. load_buffer_loop rd self (fs_block_size s) (of_nat k) (of_nat (j * bs)) (ef_buffer f + of_nat off) s = Some s' \<and>
      changes (region (ef_buffer f + of_nat off) (j * bs)) s s' \<and> ext2_files s' = ext2_files s \<and>
      bytes_at (ef_buffer f + of_nat off) (j * bs) (phys s') = map (file_byte D f s) [k * bs..<(k + j) * bs]"
proof (induction j arbitrary: k off s)
  case 0
  then show ?case by (subst load_buffer_loop.simps) simp
next
  case (Suc j)
  note fr = Suc.prems(1) and bs = file_ready_block_size [OF Suc.prems(1)]
  have b: "0 < bs" "bs \<le> 4096" "fs_block_size s = of_nat bs" using bs Suc.prems(3) by auto
  define p where "p = ef_buffer f + of_nat off"
  define bn where "bn = block_no f s k"
  have rdy: "disk_ready dev s" and al: "aligned (ef_buffer f)" "aligned (block_list f)" using fr by (auto simp: file_ready_def)
  have ub: "unat (of_nat bs :: u32) = bs" "unat (of_nat (Suc j * bs) :: u32) = Suc j * bs" "unat (of_nat k :: u32) = k"
    using b(2) Suc.prems(4,5) by (simp_all add: unat_of_nat take_bit_nat_eq_self del: of_nat_add of_nat_mult of_nat_Suc mult_Suc)
  have sz: "(0 :: u32) < of_nat (Suc j * bs)" "\<not> (of_nat (Suc j * bs) :: u32) < of_nat bs"
    using b(1) unfolding word_less_nat_alt ub by simp_all
  have k12: "(of_nat k :: u32) < 12 \<longleftrightarrow> k < 12" using ub(3) by (simp add: word_less_nat_alt)
  have start: "(if (of_nat k :: u32) < 12 then i_block (inode f) ! k else get32 (block_list f + 4 * (of_nat k - 12)) s) = bn"
    unfolding bn_def block_no_def k12 by (cases "k < 12") (simp_all add: of_nat_diff)
  have "unat (of_nat bs :: u32) \<le> 2 ^ 32 - 1024" using ub(1) b(2) by simp
  from hdd_enhanced_read_range [OF rd rdy this, of "bn * of_nat bs"] obtain s1 where
    r: "hdd_enhanced_read rd (bn * of_nat bs) (of_nat bs) s = Some (disk_bytes D (unat (bn * of_nat bs)) bs, s1)" "undisturbed s s1"
    unfolding ub(1) by blast
  define s2 where "s2 = store p (disk_bytes D (unat (bn * of_nat bs)) bs) s1"
  have c2: "changes (region p bs) s s2" "ext2_files s2 = ext2_files s"
    using changes_store [of p "disk_bytes D (unat (bn * of_nat bs)) bs" s1] undisturbed_changes [OF r(2)]
    unfolding s2_def by (auto intro: changes_trans changes_mono)
  have pg: "page_of x = ef_buffer f" if "x \<in> region p bs" for x
    by (rule region_in_page [OF al(1) _ that [unfolded p_def]]) (use Suc.prems(4) in simp)
  have r2: "file_ready dev f s2" "fs_block_size s2 = fs_block_size s" "block_bytes s2 = block_bytes s"
    by (rule file_ready_changes [OF fr c2(1)]; use pg fr in \<open>auto simp: file_ready_def\<close>)+
  have fb: "file_byte D f s2 i = file_byte D f s i" if "i < 1036 * bs" for i
    by (rule file_byte_changes [OF al(2) c2(1)]) (use pg fr r2(2) b(1) Suc.prems(3) that in \<open>auto simp: file_ready_def\<close>)
  have "ext2_files s2 ! self = f" "bs = block_bytes s2" "off + bs + j * bs = 4096" "Suc k + j \<le> 1036"
    using Suc.prems c2(2) r2(3) by simp_all
  from Suc.IH [OF r2(1) this] obtain s' where
    rest: "load_buffer_loop rd self (fs_block_size s) (of_nat (Suc k)) (of_nat (j * bs)) (p + of_nat bs) s2 = Some s'"
      "changes (region (p + of_nat bs) (j * bs)) s2 s'" "ext2_files s' = ext2_files s2"
      "bytes_at (p + of_nat bs) (j * bs) (phys s') = map (file_byte D f s2) [Suc k * bs..<(Suc k + j) * bs]"
    unfolding r2(2) p_def by (auto simp: add.assoc)
  have "load_buffer_loop rd self (fs_block_size s) (of_nat k) (of_nat (Suc j * bs)) p s =
      load_buffer_loop rd self (fs_block_size s) (of_nat k + 1) (of_nat (Suc j * bs) - of_nat bs) (p + of_nat bs) s2"
    unfolding b(3) by (subst load_buffer_loop.simps)
      (simp only: sz if_True if_False Let_def Suc.prems(2) ub(3) start r(1) Option.bind.simps prod.case s2_def)
  also have "(of_nat k + 1 :: u32) = of_nat (Suc k)" by simp
  also have "(of_nat (Suc j * bs) - of_nat bs :: u32) = of_nat (j * bs)" by simp
  finally have run: "load_buffer_loop rd self (fs_block_size s) (of_nat k) (of_nat (Suc j * bs)) p s = Some s'" unfolding rest(1) .
  have jb: "bs + j * bs < 2 ^ 32" using Suc.prems(4) by simp
  have first: "bytes_at p bs (phys s') = disk_bytes D (unat (bn * of_nat bs)) bs"
  proof -
    have "bytes_at p bs (phys s') = bytes_at p bs (phys s2)"
      by (rule bytes_at_cong) (use rest(2) region_disjoint [OF jb, of p] in \<open>auto simp: changes_def\<close>)
    then show ?thesis using poke_bytes [of "disk_bytes D (unat (bn * of_nat bs)) bs" p "phys s1"] b(2) by (simp add: s2_def store_def)
  qed
  have "bytes_at p (Suc j * bs) (phys s') = map (file_byte D f s) [k * bs..<Suc k * bs] @ map (file_byte D f s2) [Suc k * bs..<(Suc k + j) * bs]"
    using file_bytes_block [OF Suc.prems(3) b(1), of D f k] first rest(4) bytes_at_append [of p bs "j * bs"] by (simp add: bn_def b(3))
  also have "map (file_byte D f s2) [Suc k * bs..<(Suc k + j) * bs] = map (file_byte D f s) [Suc k * bs..<(Suc k + j) * bs]"
  proof (rule map_cong [OF refl fb])
    fix i assume "i \<in> set [Suc k * bs..<(Suc k + j) * bs]"
    then have "i < (Suc k + j) * bs" by simp
    moreover have "(Suc k + j) * bs \<le> 1036 * bs" using Suc.prems(5) by (intro mult_le_mono1) simp
    ultimately show "i < 1036 * bs" by linarith
  qed
  also have "map (file_byte D f s) [k * bs..<Suc k * bs] @ map (file_byte D f s) [Suc k * bs..<(Suc k + j) * bs] = map (file_byte D f s) [k * bs..<(k + Suc j) * bs]"
  proof -
    have "[k * bs..<Suc k * bs] @ [Suc k * bs..<(Suc k + j) * bs] = [k * bs..<(k + Suc j) * bs]"
      using upt_add_eq_append [of "k * bs" "Suc k * bs" "j * bs"] by (simp add: algebra_simps)
    then show ?thesis by (simp only: map_append [symmetric])
  qed
  finally have "bytes_at p (Suc j * bs) (phys s') = map (file_byte D f s) [k * bs..<(k + Suc j) * bs]" .
  moreover have "changes (region p (Suc j * bs)) s s'"
  proof (rule changes_trans)
    have r: "region p (Suc j * bs) = region p bs \<union> region (p + of_nat bs) (j * bs)" by (simp only: region_append mult_Suc)
    show "changes (region p (Suc j * bs)) s s2" using c2(1) by (rule changes_mono) (simp only: r Un_upper1)
    show "changes (region p (Suc j * bs)) s2 s'" using rest(2) by (rule changes_mono) (simp only: r Un_upper2)
  qed
  ultimately show ?case using run rest(3) c2(2) unfolding p_def by auto
qed

lemma page_blocks: "(bs :: nat) \<in> {1024, 2048, 4096} \<Longrightarrow> x < 1036 * bs \<Longrightarrow> \<exists>j. j * bs = 4096 \<and> 4096 * (x div 4096) = x div 4096 * j * bs \<and> x div 4096 * j + j \<le> 1036"
proof -
  assume bs: "bs \<in> {1024, 2048, 4096}" and x: "x < 1036 * bs"
  consider "bs = 1024" | "bs = 2048" | "bs = 4096" using bs by blast
  then show ?thesis
  proof cases
    case 1
    then show ?thesis using x by (intro exI [of _ 4]) simp
  next
    case 2
    then show ?thesis using x by (intro exI [of _ 2]) simp
  next
    case 3
    then show ?thesis using x by (intro exI [of _ 1]) simp
  qed
qed

lemma page_end: "(bs :: nat) \<in> {1024, 2048, 4096} \<Longrightarrow> x < 1036 * bs \<Longrightarrow> 4096 * (x div 4096) + 4096 \<le> 1036 * bs"
proof -
  assume "bs \<in> {1024, 2048, 4096}" "x < 1036 * bs"
  from page_blocks [OF this] obtain j where j: "j * bs = 4096" "4096 * (x div 4096) = x div 4096 * j * bs" "x div 4096 * j + j \<le> 1036" by blast
  then have "4096 * (x div 4096) + 4096 = (x div 4096 * j + j) * bs" by (simp add: distrib_right)
  also have "\<dots> \<le> 1036 * bs" using j(3) by (rule mult_le_mono1)
  finally show ?thesis .
qed

lemma e2f_load_buffer_loads:
  assumes "reads_disk rd dev D" and fr: "file_ready dev f s" and f: "ext2_files s ! self = f"
    and lim: "unat (stream_pos f) < 1036 * block_bytes s"
  defines "base \<equiv> 4096 * (unat (stream_pos f) div 4096)"
  shows "\<exists>s'. e2f_load_buffer rd self s = Some s' \<and> changes (region (ef_buffer f) 4096) s s' \<and>
    ext2_files s' = (ext2_files s)[self := f\<lparr>buf_pos := stream_pos f mod 4096, buffer_empty := False\<rparr>] \<and>
    bytes_at (ef_buffer f) 4096 (phys s') = map (file_byte D f s) [base..<base + 4096]"
proof -
  note bs = file_ready_block_size [OF fr]
  from page_blocks [OF bs(1) lim] obtain j where
    j: "j * block_bytes s = 4096" "base = unat (stream_pos f) div 4096 * j * block_bytes s" "unat (stream_pos f) div 4096 * j + j \<le> 1036"
    unfolding base_def by blast
  define k where "k = unat (stream_pos f) div 4096 * j"
  have bl: "buf_len f = 4096" using fr by (simp add: file_ready_def)
  have nz: "block_bytes s \<noteq> 0" "block_bytes s < 2 ^ 32" using bs(1) by auto
  have off: "stream_pos f div 4096 * 4096 div fs_block_size s = of_nat k"
  proof -
    have "unat (stream_pos f div 4096) * 4096 < 2 ^ 32" using unsigned_less [of "stream_pos f", where ?'a = nat] by (simp add: unat_div)
    then have "unat (stream_pos f div 4096 * 4096) = unat (stream_pos f div 4096) * unat (4096 :: u32)"
      by (intro unat_mult_lem [THEN iffD1]) simp
    then have "unat (stream_pos f div 4096 * 4096) = base" by (simp add: base_def unat_div)
    moreover have "unat (fs_block_size s) = block_bytes s" by (simp add: block_bytes_def)
    ultimately have "unat (stream_pos f div 4096 * 4096 div fs_block_size s) = k"
      using j(2) nz by (simp add: unat_div k_def)
    moreover have "(of_nat (unat x) :: u32) = x" for x :: u32 by simp
    ultimately show ?thesis by metis
  qed
  from load_buffer_loop_loads [OF assms(1) fr f refl, of 0 j k] obtain s' where
    l: "load_buffer_loop rd self (fs_block_size s) (of_nat k) 4096 (ef_buffer f) s = Some s'"
      "changes (region (ef_buffer f) 4096) s s'" "ext2_files s' = ext2_files s"
      "bytes_at (ef_buffer f) 4096 (phys s') = map (file_byte D f s) [k * block_bytes s..<(k + j) * block_bytes s]"
    using j(1,3) by (auto simp: k_def)
  have "k * block_bytes s = base" "(k + j) * block_bytes s = base + 4096" using j(1,2) by (simp_all add: k_def algebra_simps)
  moreover have "fs_block_size s \<noteq> 0" using nz(1) by (auto simp: block_bytes_def)
  moreover have "ext2_files (upd_file self (\<lambda>f. f\<lparr>buf_pos := stream_pos f mod 4096, buffer_empty := False\<rparr>) s') =
      (ext2_files s)[self := f\<lparr>buf_pos := stream_pos f mod 4096, buffer_empty := False\<rparr>]"
    using l(3) f by (simp add: upd_file_def)
  moreover have "e2f_load_buffer rd self s = Some (upd_file self (\<lambda>f. f\<lparr>buf_pos := stream_pos f mod 4096, buffer_empty := False\<rparr>) s')"
    using l(1,3) f bl off calculation(3) by (simp add: e2f_load_buffer_def Let_def upd_file_def)
  moreover have "phys (upd_file self g s') = phys s'" for g by (simp add: upd_file_def)
  moreover have "changes (region (ef_buffer f) 4096) s (upd_file self (\<lambda>f. f\<lparr>buf_pos := stream_pos f mod 4096, buffer_empty := False\<rparr>) s')"
    using l(2) by simp
  ultimately show ?thesis using l(4) by (intro exI [of _ "upd_file self (\<lambda>f. f\<lparr>buf_pos := stream_pos f mod 4096, buffer_empty := False\<rparr>) s'"]) simp
qed

lemma changes_user:
  assumes p: "cur_pdt s = Some pdt" "dir_ok pdt s" and c: "changes B s s'" and o: "\<And>x. x \<in> B \<Longrightarrow> page_of x \<notin> owned pdt s"
  shows "cur_pdt s' = Some pdt" "user_phys v s' = user_phys v s" "dir_ok pdt s'" "owned pdt s' = owned pdt s"
    "mm_pl_of_vaddr v pdt s' = mm_pl_of_vaddr v pdt s"
proof -
  have m: "phys s' x = phys s x" if "page_of x \<in> owned pdt s" for x using c o that by (auto simp: changes_def)
  note u = user_phys_cong [OF p, of "phys s'", OF m]
  have g: "get32 a s' = get32 a (s\<lparr>phys := phys s'\<rparr>)" for a by (simp add: get32_def)
  have e: "mm_pt_entry_for w q s' = mm_pt_entry_for w q (s\<lparr>phys := phys s'\<rparr>)" for w q
    by (simp add: mm_pt_entry_for_def g)
  have cp: "cur_pdt s' = cur_pdt (s\<lparr>phys := phys s'\<rparr>)" using c by (simp add: cur_pdt_def changes_def)
  then show "cur_pdt s' = Some pdt" using p(1) by simp
  show "user_phys v s' = user_phys v s" using u(1) by (simp add: user_phys_def cp e g)
  have ow: "owned pdt s' = owned pdt (s\<lparr>phys := phys s'\<rparr>)" by (simp add: owned_def present_def table_for_def g)
  then show "owned pdt s' = owned pdt s" using u(3) by simp
  have "mm_pl_of_vaddr v pdt s' = mm_pl_of_vaddr v pdt (s\<lparr>phys := phys s'\<rparr>)" unfolding mm_pl_of_vaddr_def e g ..
  then show "mm_pl_of_vaddr v pdt s' = mm_pl_of_vaddr v pdt s" using u(4) by simp
  show "dir_ok pdt s'" using u(2) c by (simp add: dir_ok_def ow present_def table_for_def g taken_frames_def changes_def)
qed

text \<open>The buffer of a file holds a page of it around the position.\<close>

definition page_loaded :: "(nat \<Rightarrow> u8) \<Rightarrow> ext2_file \<Rightarrow> 'a ext2_state_scheme \<Rightarrow> bool" where
  "page_loaded D f s \<longleftrightarrow> (\<exists>base. unat (stream_pos f) = base + unat (buf_pos f) \<and> unat (buf_pos f) \<le> 4096 \<and> base + 4096 \<le> 1036 * block_bytes s \<and>
     bytes_at (ef_buffer f) 4096 (phys s) = map (file_byte D f s) [base..<base + 4096])"

text \<open>The process's buffer, outside of the pages the kernel needs for the file.\<close>

definition user_ready :: "u32 \<Rightarrow> u32 list \<Rightarrow> ext2_file \<Rightarrow> 'a ext2_state_scheme \<Rightarrow> bool" where
  "user_ready v as f s \<longleftrightarrow> user_buffer v (length as) as s \<and> (\<forall>i<length as. may_write (v + of_nat i) s) \<and>
     (\<forall>a\<in>set as. page_of a \<noteq> ef_buffer f \<and> page_of a \<noteq> block_list f \<and> page_of a \<noteq> e2_sb (disk s)) \<and>
     (\<forall>pdt. cur_pdt s = Some pdt \<longrightarrow> ef_buffer f \<notin> owned pdt s)"

lemma user_ready_changes:
  assumes "user_ready v as f s" "changes B s s'" "\<And>x pdt. x \<in> B \<Longrightarrow> cur_pdt s = Some pdt \<Longrightarrow> page_of x \<notin> owned pdt s"
  shows "user_ready v as f s'"
proof -
  obtain pdt where p: "cur_pdt s = Some pdt" "dir_ok pdt s" using assms(1) by (auto simp: user_ready_def user_buffer_def)
  note u = changes_user [OF p assms(2) assms(3) [OF _ p(1)]]
  have "disk s' = disk s" using assms(2) by (simp add: changes_def)
  then show ?thesis using assms(1) p by (simp add: user_ready_def user_buffer_def may_write_def u)
qed

lemma user_ready_drop:
  assumes "user_ready v as f s" "k \<le> length as"
  shows "user_ready (v + of_nat k) (drop k as) f s"
proof -
  have "may_write (v + of_nat k + of_nat i) s" "user_phys (v + of_nat k + of_nat i) s = Some (as ! (k + i))" if "i < length as - k" for i
    using assms that by (auto simp: user_ready_def user_buffer_def add.assoc simp flip: of_nat_add)
  moreover have "\<forall>a\<in>set (drop k as). a \<in> set as" using in_set_dropD by fast
  moreover have "\<exists>pdt. cur_pdt s = Some pdt \<and> dir_ok pdt s \<and> (\<forall>a\<in>set as. page_of a \<notin> owned pdt s)"
    using assms(1) by (simp add: user_ready_def user_buffer_def)
  then have "\<exists>pdt. cur_pdt s = Some pdt \<and> dir_ok pdt s \<and> (\<forall>a\<in>set (drop k as). page_of a \<notin> owned pdt s)"
    using calculation(3) by blast
  ultimately show ?thesis using assms by (simp add: user_ready_def user_buffer_def)
qed

lemma file_copy2user:
  assumes "user_ready v as f s" "k \<le> length as" "0 < length as" "length as < 2 ^ 31" "src = ef_buffer f + of_nat j" "j + k \<le> 4096" "aligned (ef_buffer f)"
  shows "\<exists>s'. copy2user src v (of_nat k) s = Some (int k, s') \<and> changes (set (take k as)) s s' \<and> ext2_files s' = ext2_files s \<and>
    map (phys s') (take k as) = bytes_at src k (phys s)"
proof -
  have k: "unat (of_nat k :: u32) = k" "k < 2 ^ 31" using assms(2,4) by (simp_all add: unat_of_nat take_bit_nat_eq_self)
  obtain pdt pl where p: "cur_pdt s = Some pdt" "mm_pl_of_vaddr v pdt s = Some pl" "pl \<noteq> PL_KERNEL"
    using assms(1,3) by (force simp: user_ready_def may_write_def)
  have ub: "user_buffer v (unat (of_nat k :: u32)) (take k as) s" using assms(1,2) user_buffer_take by (auto simp: user_ready_def k)
  have "page_of x = ef_buffer f" if "x \<in> region src k" for x using region_in_page [OF assms(7,6)] that assms(5) by simp
  then have "region src (unat (of_nat k :: u32)) \<inter> set (take k as) = {}" unfolding k
    using assms(1) set_take_subset [of k as] by (fastforce simp: user_ready_def)
  from to_user_copies [OF ub _ this] k p obtain m where
    m: "copy2user src v (of_nat k) s = Some (sint (of_nat k :: u32), s\<lparr>phys := m\<rparr>)" "map m (take k as) = bytes_at src k (phys s)"
      "\<forall>x. x \<notin> set (take k as) \<longrightarrow> m x = phys s x" by (auto simp: copy2user_def)
  have "sint (of_nat k :: u32) = int k" using k(2) by (simp add: signed_of_nat signed_take_bit_int_eq_self)
  then show ?thesis using m by (intro exI [of _ "s\<lparr>phys := m\<rparr>"]) (simp add: changes_def)
qed

text \<open>Reading bytes \<open>pos\<close> up to \<open>pos + length as\<close> of a file to the places \<open>as\<close> of the process.\<close>

definition read_done :: "(nat \<Rightarrow> u8) \<Rightarrow> nat \<Rightarrow> nat \<Rightarrow> u32 list \<Rightarrow> 'a ext2_state_scheme \<Rightarrow> 'a ext2_state_scheme \<Rightarrow> bool" where
  "read_done D dev self as s s' \<longleftrightarrow> (let f = ext2_files s ! self in
     map (phys s') as = map (file_byte D f s) [unat (stream_pos f)..<unat (stream_pos f) + length as] \<and>
     (\<exists>p e. ext2_files s' = (ext2_files s)[self := f\<lparr>buf_pos := p, stream_pos := stream_pos f + of_nat (length as), buffer_empty := e\<rparr>]) \<and>
     page_loaded D (ext2_files s' ! self) s' \<and> file_ready dev f s' \<and> changes (set as \<union> region (ef_buffer f) 4096) s s')"

lemma ready_pages:
  assumes "file_ready dev f s" "user_ready v as f s"
  shows "x \<in> region (ef_buffer f) 4096 \<Longrightarrow> page_of x = ef_buffer f"
    "x \<in> set as \<union> region (ef_buffer f) 4096 \<Longrightarrow> page_of x \<noteq> e2_sb (disk s) \<and> page_of x \<noteq> block_list f"
    "x \<in> set as \<union> region (ef_buffer f) 4096 \<Longrightarrow> cur_pdt s = Some pdt \<Longrightarrow> page_of x \<notin> owned pdt s"
proof -
  have pg: "page_of x = ef_buffer f" if "x \<in> region (ef_buffer f) 4096" for x
    by (rule region_in_page [of "ef_buffer f" 0 4096]) (use assms(1) that in \<open>simp_all add: file_ready_def\<close>)
  then show "x \<in> region (ef_buffer f) 4096 \<Longrightarrow> page_of x = ef_buffer f" .
  show "x \<in> set as \<union> region (ef_buffer f) 4096 \<Longrightarrow> page_of x \<noteq> e2_sb (disk s) \<and> page_of x \<noteq> block_list f"
    using pg assms by (auto simp: file_ready_def user_ready_def)
  show "x \<in> set as \<union> region (ef_buffer f) 4096 \<Longrightarrow> cur_pdt s = Some pdt \<Longrightarrow> page_of x \<notin> owned pdt s"
    using pg assms by (auto simp: user_ready_def user_buffer_def)
qed

lemma block_no_upd [simp]:
  "block_no (f\<lparr>buf_pos := a\<rparr>) s = block_no f s" "block_no (f\<lparr>stream_pos := b\<rparr>) s = block_no f s"
  "block_no (f\<lparr>buffer_empty := c\<rparr>) s = block_no f s"
  by (simp_all add: block_no_def fun_eq_iff)

lemma file_upd [simp]:
  "file_byte D (f\<lparr>buf_pos := a\<rparr>) s = file_byte D f s" "file_byte D (f\<lparr>stream_pos := b\<rparr>) s = file_byte D f s"
  "file_byte D (f\<lparr>buffer_empty := c\<rparr>) s = file_byte D f s"
  "file_ready dev (f\<lparr>buf_pos := a\<rparr>) s = file_ready dev f s" "file_ready dev (f\<lparr>stream_pos := b\<rparr>) s = file_ready dev f s"
  "file_ready dev (f\<lparr>buffer_empty := c\<rparr>) s = file_ready dev f s"
  "user_ready v as (f\<lparr>buf_pos := a\<rparr>) s = user_ready v as f s" "user_ready v as (f\<lparr>stream_pos := b\<rparr>) s = user_ready v as f s"
  "user_ready v as (f\<lparr>buffer_empty := c\<rparr>) s = user_ready v as f s"
  by (simp_all add: file_byte_def file_ready_def user_ready_def fun_eq_iff)

lemma map_file_byte_changes:
  assumes "file_ready dev f s" "changes B s s'" "\<And>x. x \<in> B \<Longrightarrow> page_of x \<noteq> e2_sb (disk s) \<and> page_of x \<noteq> block_list f"
    and "n \<le> 1036 * block_bytes s"
  shows "map (file_byte D f s') [m..<n] = map (file_byte D f s) [m..<n]"
proof (rule map_cong [OF refl])
  have b: "0 < block_bytes s" "aligned (block_list f)" using file_ready_block_size(1) [OF assms(1)] assms(1) by (auto simp: file_ready_def)
  have "fs_block_size s' = fs_block_size s" by (rule file_ready_changes(2) [OF assms(1,2)]) (use assms(3) in blast)
  then show "file_byte D f s' i = file_byte D f s i" if "i \<in> set [m..<n]" for i
    by (intro file_byte_changes [OF b(2) assms(2)]) (use b(1) assms(3,4) that in auto)
qed

lemma page_loaded_changes:
  assumes "page_loaded D f s" "file_ready dev f s" "changes B s s'"
    and "\<And>x. x \<in> B \<Longrightarrow> page_of x \<noteq> e2_sb (disk s) \<and> page_of x \<noteq> block_list f \<and> page_of x \<noteq> ef_buffer f"
    and "unat (buf_pos f) + k \<le> 4096" "unat (stream_pos f) + k < 2 ^ 32"
  shows "page_loaded D (f\<lparr>buf_pos := buf_pos f + of_nat k, stream_pos := stream_pos f + of_nat k\<rparr>) s'"
proof -
  obtain base where b: "unat (stream_pos f) = base + unat (buf_pos f)" "base + 4096 \<le> 1036 * block_bytes s"
    "bytes_at (ef_buffer f) 4096 (phys s) = map (file_byte D f s) [base..<base + 4096]" using assms(1) by (auto simp: page_loaded_def)
  have k: "unat (of_nat k :: u32) = k" using assms(6) by (simp add: unat_of_nat take_bit_nat_eq_self)
  have al: "aligned (ef_buffer f)" using assms(2) by (simp add: file_ready_def)
  have "phys s' x = phys s x" if "x \<in> region (ef_buffer f) 4096" for x
    using region_in_page [OF al, of 0 4096 x] that assms(3,4) by (auto simp: changes_def)
  then have "bytes_at (ef_buffer f) 4096 (phys s') = bytes_at (ef_buffer f) 4096 (phys s)" by (rule bytes_at_cong)
  moreover have "map (file_byte D f s') [base..<base + 4096] = map (file_byte D f s) [base..<base + 4096]"
    by (rule map_file_byte_changes [OF assms(2,3) _ b(2)]) (use assms(4) in blast)
  moreover have "block_bytes s' = block_bytes s" by (rule file_ready_changes(3) [OF assms(2,3)]) (use assms(4) in blast)
  moreover have "unat (stream_pos f + of_nat k) = unat (stream_pos f) + k" "unat (buf_pos f + of_nat k) = unat (buf_pos f) + k"
    using assms(5,6) k by (simp_all add: unat_add_lem [THEN iffD1])
  ultimately show ?thesis unfolding page_loaded_def using b assms(5) by (intro exI [of _ base]) simp
qed

lemma loaded_part:
  assumes "page_loaded D f s" "unat (buf_pos f) + k \<le> 4096"
  shows "bytes_at (ef_buffer f + buf_pos f) k (phys s) = map (file_byte D f s) [unat (stream_pos f)..<unat (stream_pos f) + k]"
proof (rule nth_equalityI)
  obtain base where b: "unat (stream_pos f) = base + unat (buf_pos f)"
    "bytes_at (ef_buffer f) 4096 (phys s) = map (file_byte D f s) [base..<base + 4096]" using assms(1) by (auto simp: page_loaded_def)
  fix i assume "i < length (bytes_at (ef_buffer f + buf_pos f) k (phys s))"
  then have i: "i < k" "unat (buf_pos f) + i < 4096" using assms(2) by simp_all
  have "bytes_at (ef_buffer f) 4096 (phys s) ! (unat (buf_pos f) + i) = map (file_byte D f s) [base..<base + 4096] ! (unat (buf_pos f) + i)"
    using b(2) by simp
  then show "bytes_at (ef_buffer f + buf_pos f) k (phys s) ! i = map (file_byte D f s) [unat (stream_pos f)..<unat (stream_pos f) + k] ! i"
    using i b(1) by (simp add: bytes_at_def add.assoc)
qed simp

lemma read_done_append:
  assumes r: "read_done D dev self as s s1" "read_done D dev self bs s1 s2" and self: "self < length (ext2_files s)" and d: "set as \<inter> set bs = {}"
    and fr: "file_ready dev (ext2_files s ! self) s" and u: "user_ready v as (ext2_files s ! self) s"
    and lim: "unat (stream_pos (ext2_files s ! self)) + length (as @ bs) \<le> 1036 * block_bytes s"
  shows "read_done D dev self (as @ bs) s s2"
proof -
  let ?f = "ext2_files s ! self" and ?f1 = "ext2_files s1 ! self"
  from r(1) obtain p1 e1 where r1: "map (phys s1) as = map (file_byte D ?f s) [unat (stream_pos ?f)..<unat (stream_pos ?f) + length as]"
    "ext2_files s1 = (ext2_files s)[self := ?f\<lparr>buf_pos := p1, stream_pos := stream_pos ?f + of_nat (length as), buffer_empty := e1\<rparr>]"
    "changes (set as \<union> region (ef_buffer ?f) 4096) s s1"
    by (auto simp: read_done_def Let_def)
  have f1: "?f1 = ?f\<lparr>buf_pos := p1, stream_pos := stream_pos ?f + of_nat (length as), buffer_empty := e1\<rparr>" using r1(2) self by simp
  from r(2) obtain p2 e2 where r2: "map (phys s2) bs = map (file_byte D ?f1 s1) [unat (stream_pos ?f1)..<unat (stream_pos ?f1) + length bs]"
    "ext2_files s2 = (ext2_files s1)[self := ?f1\<lparr>buf_pos := p2, stream_pos := stream_pos ?f1 + of_nat (length bs), buffer_empty := e2\<rparr>]"
    "page_loaded D (ext2_files s2 ! self) s2" "file_ready dev ?f1 s2" "changes (set bs \<union> region (ef_buffer ?f) 4096) s1 s2"
    by (auto simp: read_done_def Let_def f1)
  have bb: "1036 * block_bytes s < 2 ^ 32" using file_ready_block_size(1) [OF fr] by auto
  then have l: "unat (of_nat (length as) :: u32) = length as" using lim by (simp add: unat_of_nat take_bit_nat_eq_self)
  have sp: "unat (stream_pos ?f1) = unat (stream_pos ?f) + length as"
    using lim bb l unfolding f1 by (simp add: unat_add_lem [THEN iffD1])
  have "map (file_byte D ?f s1) [unat (stream_pos ?f1)..<unat (stream_pos ?f1) + length bs] = map (file_byte D ?f s) [unat (stream_pos ?f1)..<unat (stream_pos ?f1) + length bs]"
    by (rule map_file_byte_changes [OF fr r1(3)]) (use ready_pages(2) [OF fr u] lim sp in auto)
  then have b: "map (phys s2) bs = map (file_byte D ?f s) [unat (stream_pos ?f) + length as..<unat (stream_pos ?f) + length as + length bs]"
    using r2(1) unfolding sp by (simp add: f1)
  have "phys s2 a = phys s1 a" if "a \<in> set as" for a
  proof -
    have "page_of a \<noteq> ef_buffer ?f" using u that by (auto simp: user_ready_def)
    then have "a \<notin> set bs \<union> region (ef_buffer ?f) 4096" using ready_pages(1) [OF fr u] d that by blast
    then show ?thesis using r2(5) by (auto simp: changes_def)
  qed
  then have a: "map (phys s2) as = map (file_byte D ?f s) [unat (stream_pos ?f)..<unat (stream_pos ?f) + length as]"
    unfolding r1(1) [symmetric] by simp
  have "[unat (stream_pos ?f)..<unat (stream_pos ?f) + length (as @ bs)] = [unat (stream_pos ?f)..<unat (stream_pos ?f) + length as] @
      [unat (stream_pos ?f) + length as..<unat (stream_pos ?f) + length as + length bs]"
    using upt_add_eq_append [of "unat (stream_pos ?f)" "unat (stream_pos ?f) + length as" "length bs"] by (simp add: add.assoc)
  then have "map (phys s2) (as @ bs) = map (file_byte D ?f s) [unat (stream_pos ?f)..<unat (stream_pos ?f) + length (as @ bs)]"
    by (simp only: map_append a b)
  moreover have "ext2_files s2 = (ext2_files s)[self := ?f\<lparr>buf_pos := p2, stream_pos := stream_pos ?f + of_nat (length (as @ bs)), buffer_empty := e2\<rparr>]"
    unfolding r2(2) f1 unfolding r1(2) by (simp add: add.assoc)
  moreover have "file_ready dev ?f s2" using r2(4) by (simp add: f1)
  moreover have "changes (set (as @ bs) \<union> region (ef_buffer ?f) 4096) s s2"
    by (rule changes_trans; rule changes_mono [OF r1(3)] changes_mono [OF r2(5)]) auto
  ultimately show ?thesis using r2(3) unfolding read_done_def Let_def by blast
qed

lemma read_done_user_ready:
  assumes "read_done D dev self as s s1" "user_ready v bs f s" "ef_buffer f = ef_buffer (ext2_files s ! self)" "file_ready dev f s" "set as \<subseteq> set bs"
  shows "user_ready v bs f s1" "block_bytes s1 = block_bytes s"
proof -
  have c: "changes (set bs \<union> region (ef_buffer f) 4096) s s1"
    using assms(1,3,5) by (auto simp: read_done_def Let_def intro: changes_mono)
  show "user_ready v bs f s1" by (rule user_ready_changes [OF assms(2) c]) (rule ready_pages(3) [OF assms(4,2)])
  show "block_bytes s1 = block_bytes s" by (rule file_ready_changes(3) [OF assms(4) c]) (use ready_pages(2) [OF assms(4,2)] in blast)
qed

lemma file_read_step:
  assumes rd: "reads_disk rd dev D" and self: "self < length (ext2_files s)" and f: "ext2_files s ! self = f" and fr: "file_ready dev f s"
    and u: "user_ready v as f s" and pl: "page_loaded D f s" and lim: "unat (stream_pos f) + length as \<le> 1036 * block_bytes s" and ne: "as \<noteq> []"
    and k: "k = min (length as) (4096 - unat (buf_pos f))"
  shows "\<exists>s3. file_read_loop rd self v (of_nat (length as)) c s = file_read_loop rd self (v + of_nat k) (of_nat (length (drop k as))) (c + of_nat k) s3 \<and>
    read_done D dev self (take k as) s s3 \<and> (drop k as \<noteq> [] \<longrightarrow> unat (buf_pos (ext2_files s3 ! self)) < 4096)"
proof -
  have bp: "unat (buf_pos f) \<le> 4096" "buf_len f = 4096" and al: "aligned (ef_buffer f)" using pl fr by (auto simp: page_loaded_def file_ready_def)
  have len: "length as < 2 ^ 31" using lim file_ready_block_size(1) [OF fr] by auto
  have kk: "k \<le> length as" "unat (buf_pos f) + k \<le> 4096" "length as - k < 2 ^ 32" using k bp len by auto
  have ul: "unat (of_nat (length as) :: u32) = length as" "unat (of_nat k :: u32) = k" using len kk by (simp_all add: unat_of_nat take_bit_nat_eq_self)
  have "unat (4096 - buf_pos f) = 4096 - unat (buf_pos f)" using bp by (simp add: unat_sub word_le_nat_alt)
  then have chunk: "(if of_nat (length as) < 4096 - buf_pos f then of_nat (length as) else 4096 - buf_pos f) = (of_nat k :: u32)"
    using k ul(1) bp(1) by (auto simp: word_less_nat_alt min_def of_nat_diff)
  have pos: "(0 :: u32) < of_nat (length as)" using ne ul(1) by (simp add: word_less_nat_alt)
  have "ef_buffer f + buf_pos f = ef_buffer f + of_nat (unat (buf_pos f))" by simp
  from file_copy2user [OF u kk(1) _ len this kk(2) al] ne obtain s1 where
    c1: "copy2user (ef_buffer f + buf_pos f) v (of_nat k) s = Some (int k, s1)" "changes (set (take k as)) s s1" "ext2_files s1 = ext2_files s"
      "map (phys s1) (take k as) = bytes_at (ef_buffer f + buf_pos f) k (phys s)" by auto
  define f1 where "f1 = f\<lparr>buf_pos := buf_pos f + of_nat k, stream_pos := stream_pos f + of_nat k\<rparr>"
  define s2 where "s2 = upd_file self (\<lambda>f. f\<lparr>buf_pos := buf_pos f + of_nat k, stream_pos := stream_pos f + of_nat k\<rparr>) s1"
  have s2: "ext2_files s2 = (ext2_files s)[self := f1]" "phys s2 = phys s1" "changes (set (take k as)) s s2"
    using c1(2,3) f by (simp_all add: s2_def) (simp_all add: upd_file_def f1_def)
  have pg: "page_of x \<noteq> e2_sb (disk s) \<and> page_of x \<noteq> block_list f \<and> page_of x \<noteq> ef_buffer f" if "x \<in> set (take k as)" for x
    using u in_set_takeD [OF that] by (auto simp: user_ready_def)
  have fr2: "file_ready dev f s2" "block_bytes s2 = block_bytes s" by (rule file_ready_changes [OF fr s2(3)]; use pg in blast)+
  have pl2: "page_loaded D f1 s2" unfolding f1_def
    by (rule page_loaded_changes [OF pl fr s2(3) pg kk(2)]) (use lim kk file_ready_block_size(1) [OF fr] in auto)
  have data: "map (phys s2) (take k as) = map (file_byte D f s) [unat (stream_pos f)..<unat (stream_pos f) + length (take k as)]"
    using c1(4) loaded_part [OF pl kk(2)] kk(1) s2(2) by simp
  have sp1: "unat (stream_pos f1) = unat (stream_pos f) + k"
    using lim kk ul file_ready_block_size(1) [OF fr] by (auto simp: f1_def unat_add_lem [THEN iffD1])
  have rem: "(of_nat (length as) - of_nat k :: u32) = of_nat (length (drop k as))" using kk(1) by simp
  have nz: "(0 :: u32) < of_nat (length (drop k as)) \<longleftrightarrow> drop k as \<noteq> []"
    using kk(3) by (auto simp: word_less_nat_alt unat_of_nat take_bit_nat_eq_self)
  have run: "file_read_loop rd self v (of_nat (length as)) c s =
      Option.bind (if drop k as \<noteq> [] then e2f_load_buffer rd self s2 else Some s2)
        (file_read_loop rd self (v + of_nat k) (of_nat (length (drop k as))) (c + of_nat k))"
    by (subst file_read_loop.simps)
      (simp only: pos if_True Let_def f bp(2) chunk c1(1) Option.bind.simps prod.case of_int_of_nat_eq not_True_eq_False if_False simp_thms s2_def rem nz)
  show ?thesis
  proof (cases "drop k as = []")
    case True
    have "read_done D dev self (take k as) s s2" unfolding read_done_def Let_def f
    proof (intro conjI)
      show "\<exists>p e. ext2_files s2 = (ext2_files s)[self := f\<lparr>buf_pos := p, stream_pos := stream_pos f + of_nat (length (take k as)), buffer_empty := e\<rparr>]"
        using s2(1) kk(1) by (intro exI [of _ "buf_pos f + of_nat k"] exI [of _ "buffer_empty f"]) (simp add: f1_def)
      show "changes (set (take k as) \<union> region (ef_buffer f) 4096) s s2" using s2(3) by (rule changes_mono) simp
    qed (use data fr2 pl2 s2(1) self in simp_all)
    then show ?thesis using run True by (intro exI [of _ s2]) simp
  next
    case False
    have f2: "ext2_files s2 ! self = f1" using s2(1) self by simp
    have "unat (stream_pos f1) < 1036 * block_bytes s2" using sp1 lim False fr2(2) by auto
    from e2f_load_buffer_loads [OF rd _ f2 this] fr2(1) obtain s3 where
      l: "e2f_load_buffer rd self s2 = Some s3" "changes (region (ef_buffer f) 4096) s2 s3"
        "ext2_files s3 = (ext2_files s2)[self := f1\<lparr>buf_pos := stream_pos f1 mod 4096, buffer_empty := False\<rparr>]"
        "bytes_at (ef_buffer f) 4096 (phys s3) = map (file_byte D f s2) [4096 * (unat (stream_pos f1) div 4096)..<4096 * (unat (stream_pos f1) div 4096) + 4096]"
      by (auto simp: f1_def)
    have pg3: "page_of x \<noteq> e2_sb (disk s2) \<and> page_of x \<noteq> block_list f" "page_of x = ef_buffer f" if "x \<in> region (ef_buffer f) 4096" for x
      using ready_pages [OF fr u, of x] that s2(3) by (auto simp: changes_def)
    have r3: "file_ready dev f s3" "block_bytes s3 = block_bytes s2" by (rule file_ready_changes [OF fr2(1) l(2)]; use pg3 in blast)+
    have f3: "ext2_files s3 ! self = f1\<lparr>buf_pos := stream_pos f1 mod 4096, buffer_empty := False\<rparr>" using l(3) s2(1) self by simp
    have m: "unat (stream_pos f1 mod 4096) = unat (stream_pos f1) mod 4096" by (simp add: unat_mod)
    have bound: "4096 * (unat (stream_pos f1) div 4096) + 4096 \<le> 1036 * block_bytes s2"
      using page_end [OF file_ready_block_size(1) [OF fr2(1)] \<open>unat (stream_pos f1) < _\<close>] .
    have "map (file_byte D f s3) [4096 * (unat (stream_pos f1) div 4096)..<4096 * (unat (stream_pos f1) div 4096) + 4096] =
        map (file_byte D f s2) [4096 * (unat (stream_pos f1) div 4096)..<4096 * (unat (stream_pos f1) div 4096) + 4096]"
      by (rule map_file_byte_changes [OF fr2(1) l(2) pg3(1) bound])
    then have "page_loaded D (ext2_files s3 ! self) s3" unfolding page_loaded_def f3
      using l(4) m bound r3(2) by (intro exI [of _ "4096 * (unat (stream_pos f1) div 4096)"]) (simp add: f1_def)
    moreover have "map (phys s3) (take k as) = map (phys s2) (take k as)"
      using l(2) pg pg3(2) by (auto simp: changes_def)
    moreover have "ext2_files s3 = (ext2_files s)[self := f\<lparr>buf_pos := stream_pos f1 mod 4096, stream_pos := stream_pos f + of_nat (length (take k as)), buffer_empty := False\<rparr>]"
      unfolding l(3) s2(1) using kk(1) by (cases f) (simp add: f1_def)
    moreover have "changes (set (take k as) \<union> region (ef_buffer f) 4096) s s3"
      by (rule changes_trans; rule changes_mono [OF s2(3)] changes_mono [OF l(2)]) auto
    ultimately have "read_done D dev self (take k as) s s3" unfolding read_done_def Let_def f using data r3(1) by metis
    moreover have "unat (buf_pos (ext2_files s3 ! self)) < 4096" unfolding f3 by (simp add: m)
    ultimately show ?thesis using run l(1) False by (intro exI [of _ s3]) simp
  qed
qed

lemma file_read_loop_reads:
  assumes rd: "reads_disk rd dev D"
  shows "self < length (ext2_files s) \<Longrightarrow> ext2_files s ! self = f \<Longrightarrow> file_ready dev f s \<Longrightarrow> user_ready v as f s \<Longrightarrow> page_loaded D f s \<Longrightarrow>
    unat (stream_pos f) + length as \<le> 1036 * block_bytes s \<Longrightarrow>
    \<exists>s'. file_read_loop rd self v (of_nat (length as)) c s = Some (Some (c + of_nat (length as)), s') \<and> read_done D dev self as s s'"
proof (induction "2 * length as + (if unat (buf_pos f) = 4096 then 1 else 0)" arbitrary: as v c s f rule: less_induct)
  case less
  show ?case
  proof (cases "as = []")
    case True
    have "read_done D dev self as s s" unfolding read_done_def Let_def less.prems(2)
    proof (intro conjI)
      show "\<exists>p e. ext2_files s = (ext2_files s)[self := f\<lparr>buf_pos := p, stream_pos := stream_pos f + of_nat (length as), buffer_empty := e\<rparr>]"
        using True less.prems(2) by (intro exI [of _ "buf_pos f"] exI [of _ "buffer_empty f"]) auto
    qed (use less.prems True in simp_all)
    then show ?thesis using True by (subst file_read_loop.simps) simp
  next
    case False
    note fr = less.prems(3) and u = less.prems(4)
    define k where "k = min (length as) (4096 - unat (buf_pos f))"
    have bp: "unat (buf_pos f) \<le> 4096" using less.prems(5) by (auto simp: page_loaded_def)
    from file_read_step [OF rd less.prems(1-6) False k_def, of c] obtain s3 where
      s3: "file_read_loop rd self v (of_nat (length as)) c s = file_read_loop rd self (v + of_nat k) (of_nat (length (drop k as))) (c + of_nat k) s3"
        "read_done D dev self (take k as) s s3" "drop k as \<noteq> [] \<longrightarrow> unat (buf_pos (ext2_files s3 ! self)) < 4096" by blast
    let ?f3 = "ext2_files s3 ! self"
    have kl: "k \<le> length as" by (simp add: k_def)
    have ef: "ef_buffer f = ef_buffer (ext2_files s ! self)" using less.prems(2) by simp
    note rdu = read_done_user_ready [OF s3(2) u ef fr set_take_subset]
    have "length (take k as) = k" using kl by simp
    with s3(2) obtain p e where e3: "ext2_files s3 = (ext2_files s)[self := f\<lparr>buf_pos := p, stream_pos := stream_pos f + of_nat k, buffer_empty := e\<rparr>]"
      unfolding read_done_def Let_def less.prems(2) by metis
    have f3: "?f3 = f\<lparr>buf_pos := p, stream_pos := stream_pos f + of_nat k, buffer_empty := e\<rparr>"
      "length (ext2_files s3) = length (ext2_files s)" "page_loaded D ?f3 s3" "file_ready dev f s3"
      using e3 less.prems(1) s3(2) unfolding read_done_def Let_def less.prems(2) by simp_all
    have bb: "1036 * block_bytes s < 2 ^ 32" using file_ready_block_size(1) [OF fr] by auto
    then have "unat (of_nat k :: u32) = k" using less.prems(6) kl by (simp add: unat_of_nat take_bit_nat_eq_self)
    then have sp: "unat (stream_pos ?f3) + length (drop k as) = unat (stream_pos f) + length as"
      using less.prems(6) kl bb by (simp add: f3(1) unat_add_lem [THEN iffD1])
    define n where "n = length as"
    have "1 \<le> n" "k < n \<longrightarrow> unat (buf_pos ?f3) < 4096" "k = min n (4096 - unat (buf_pos f))"
      using False s3(3) by (simp_all add: n_def k_def Suc_le_eq)
    then have "2 * (n - k) + (if unat (buf_pos ?f3) = 4096 then 1 else 0) < 2 * n + (if unat (buf_pos f) = 4096 then 1 else 0)"
      using bp by (auto simp: min_def split: if_splits)
    then have "2 * length (drop k as) + (if unat (buf_pos ?f3) = 4096 then 1 else 0) < 2 * length as + (if unat (buf_pos f) = 4096 then 1 else 0)"
      unfolding n_def length_drop .
    moreover have "self < length (ext2_files s3)" using f3(2) less.prems(1) by simp
    moreover have "file_ready dev ?f3 s3" using f3(4) unfolding f3(1) by simp
    moreover have "user_ready (v + of_nat k) (drop k as) ?f3 s3" using user_ready_drop [OF rdu(1) kl] unfolding f3(1) by simp
    moreover have "unat (stream_pos ?f3) + length (drop k as) \<le> 1036 * block_bytes s3" unfolding sp rdu(2) by (rule less.prems(6))
    ultimately obtain s' where
      s': "file_read_loop rd self (v + of_nat k) (of_nat (length (drop k as))) (c + of_nat k) s3 = Some (Some (c + of_nat k + of_nat (length (drop k as))), s')"
        "read_done D dev self (drop k as) s3 s'"
      using less.hyps [OF _ _ refl _ _ f3(3)] by blast
    have "distinct as" using u by (simp add: user_ready_def user_buffer_def)
    then have dis: "set (take k as) \<inter> set (drop k as) = {}" by (rule set_take_disj_set_drop_if_distinct) simp
    have ut: "user_ready v (take k as) f s"
      using u user_buffer_take [of v "length as" as s k] kl by (auto simp: user_ready_def min_def dest: in_set_takeD)
    have "read_done D dev self (take k as @ drop k as) s s'"
      by (rule read_done_append [OF s3(2) s'(2) less.prems(1) dis]) (use less.prems ut kl in simp_all)
    moreover have "c + of_nat k + of_nat (length (drop k as)) = c + of_nat (length as)" using kl by simp
    ultimately show ?thesis using s3(1) s'(1) by (metis append_take_drop_id)
  qed
qed

text \<open>A file that is open: its buffer is empty or holds a page around the position.\<close>

definition file_open :: "(nat \<Rightarrow> u8) \<Rightarrow> nat \<Rightarrow> ext2_file \<Rightarrow> 'a ext2_state_scheme \<Rightarrow> bool" where
  "file_open D dev f s \<longleftrightarrow> file_ready dev f s \<and> (buffer_empty f \<or> page_loaded D f s) \<and>
     unat (stream_pos f) \<le> unat (file_size f) \<and> unat (file_size f) < 1036 * block_bytes s"

lemma ensure_page:
  assumes rd: "reads_disk rd dev D" and self: "self < length (ext2_files s)" and f: "ext2_files s ! self = f"
    and op: "file_open D dev f s" and u: "user_ready v as f s"
  shows "\<exists>s1 p. (if buffer_empty f then e2f_load_buffer rd self s else Some s) = Some s1 \<and>
    ext2_files s1 = (ext2_files s)[self := f\<lparr>buf_pos := p, buffer_empty := False\<rparr>] \<and> page_loaded D (f\<lparr>buf_pos := p, buffer_empty := False\<rparr>) s1 \<and>
    changes (region (ef_buffer f) 4096) s s1"
proof (cases "buffer_empty f")
  case True
  have fr: "file_ready dev f s" and lim: "unat (stream_pos f) < 1036 * block_bytes s" using op by (auto simp: file_open_def)
  from e2f_load_buffer_loads [OF rd fr f lim] obtain s1 where
    l: "e2f_load_buffer rd self s = Some s1" "changes (region (ef_buffer f) 4096) s s1"
      "ext2_files s1 = (ext2_files s)[self := f\<lparr>buf_pos := stream_pos f mod 4096, buffer_empty := False\<rparr>]"
      "bytes_at (ef_buffer f) 4096 (phys s1) = map (file_byte D f s) [4096 * (unat (stream_pos f) div 4096)..<4096 * (unat (stream_pos f) div 4096) + 4096]"
    by blast
  have bound: "4096 * (unat (stream_pos f) div 4096) + 4096 \<le> 1036 * block_bytes s"
    by (rule page_end [OF file_ready_block_size(1) [OF fr] lim])
  have pg: "page_of x \<noteq> e2_sb (disk s) \<and> page_of x \<noteq> block_list f" if "x \<in> region (ef_buffer f) 4096" for x
    using ready_pages(2) [OF fr u] that by blast
  have bb: "block_bytes s1 = block_bytes s" by (rule file_ready_changes(3) [OF fr l(2)]) (use pg in blast)
  have "map (file_byte D f s1) [4096 * (unat (stream_pos f) div 4096)..<4096 * (unat (stream_pos f) div 4096) + 4096] =
      map (file_byte D f s) [4096 * (unat (stream_pos f) div 4096)..<4096 * (unat (stream_pos f) div 4096) + 4096]"
    by (rule map_file_byte_changes [OF fr l(2) pg bound])
  then have "page_loaded D (f\<lparr>buf_pos := stream_pos f mod 4096, buffer_empty := False\<rparr>) s1" unfolding page_loaded_def
    using l(4) bound bb by (intro exI [of _ "4096 * (unat (stream_pos f) div 4096)"]) (simp add: unat_mod)
  then show ?thesis using l True by (intro exI [of _ s1] exI [of _ "stream_pos f mod 4096"]) simp
next
  case False
  then have e: "f\<lparr>buf_pos := buf_pos f, buffer_empty := False\<rparr> = f" by (cases f) simp
  have "(ext2_files s)[self := f] = ext2_files s" unfolding f [symmetric] by simp
  moreover have "page_loaded D f s" using False op by (simp add: file_open_def)
  ultimately show ?thesis using False by (intro exI [of _ s] exI [of _ "buf_pos f"]) (simp only: e if_False simp_thms changes_refl)
qed


subsection \<open>Witnesses\<close>

definition demo_disk :: "nat \<Rightarrow> u8" where
  "demo_disk i = of_nat i"

definition demo_reader :: "'a reader" where
  "demo_reader dev pos n s = Some (512, disk_bytes demo_disk (512 * unat pos) 512, s)"

definition demo_file :: ext2_file where
  "demo_file = \<lparr>klass = CLASS_DEV_EXT2_FILE, refcount = 1, dv_flush = Some Ext2_file_flush, dv_read = Some Ext2_file_read, dv_write = None,
     dv_seek = Some Ext2_file_seek, inode = (inode_of (replicate 128 0))\<lparr>i_block := map of_nat [0..<15]\<rparr>, file_size = 5000, block_list = 0x103000,
     stream_pos = 4090, ef_buffer = 0x102000, buf_pos = 0, buf_len = 4096, buffer_empty = True\<rparr>"

definition ext2_demo :: ext2_state where
  "ext2_demo = drv_demo (\<lambda>_ _. 0) \<lparr>proc_cpuid_devs = [], disk = \<lparr>loaded = True, e2_dev = Some 0, e2_sb = 0x200000, bgdt = 0x200400, bgd_count = 1\<rparr>,
     ext2_files = [demo_file], hdd_enhanced_buffer = replicate 512 0\<rparr>"

lemma ext2_demo_is_demo: "\<exists>y. ext2_demo = demo y"
  unfolding ext2_demo_def by (rule drv_demo_is_demo)

lemma ext2_demo_fields: "disk ext2_demo = \<lparr>loaded = True, e2_dev = Some 0, e2_sb = 0x200000, bgdt = 0x200400, bgd_count = 1\<rparr>"
  "ext2_files ext2_demo = [demo_file]" "length (hdd_enhanced_buffer ext2_demo) = 512" "bd_size (hdd_devs ext2_demo ! 0) = 512"
  by (simp_all add: ext2_demo_def drv_demo_def con_demo_def hw_demo_def demo_def Let_def)

lemma demo_reads: "reads_disk demo_reader 0 demo_disk"
  by (simp add: reads_disk_def demo_reader_def)

lemma ext2_demo_ready: "file_open demo_disk 0 demo_file ext2_demo" "block_bytes ext2_demo = 1024"
  "n \<le> 4096 \<Longrightarrow> user_ready 0 (map (\<lambda>i. 0xB8000 + of_nat i) [0..<n]) demo_file ext2_demo"
proof -
  obtain y where y: "ext2_demo = demo y" using ext2_demo_is_demo by (rule exE)
  have "get32 0x200018 ext2_demo = 0" unfolding y by (rule demo_words(3)) (simp_all add: aligned4_def)
  then have l: "s_log_block_size ext2_demo = 0" by (simp add: s_log_block_size_def ext2_demo_fields)
  then show bs: "block_bytes ext2_demo = 1024" by (simp add: block_bytes_def fs_block_size_def)
  have al: "aligned 0x102000" "aligned 0x103000" "aligned 0x200000" by (simp_all add: aligned_def)
  show "file_open demo_disk 0 demo_file ext2_demo"
    by (simp add: file_open_def file_ready_def disk_ready_def l bs ext2_demo_fields) (simp add: demo_file_def al)
  show "user_ready 0 (map (\<lambda>i. 0xB8000 + of_nat i) [0..<n]) demo_file ext2_demo" if n: "n \<le> 4096"
  proof -
    have k: "(of_nat i :: u32) < 4096" if "i < n" for i
      using that n by (simp add: word_less_nat_alt unat_of_nat take_bit_nat_eq_self)
    have "page_of (0xB8000 + of_nat i) = 0xB8000" if "i < n" for i
      using page_of_add [OF _ k [OF that], of "0xB8000"] by (simp add: aligned_def)
    moreover have "may_write (of_nat i) (demo y)" if "i < n" for i
    proof -
      have "mask 12 = (0xFFF :: u32)" by (simp add: mask_eq_exp_minus_1)
      moreover have "v AND NOT (mask 12) = page_of v" for v by (rule bit_word_eqI) (auto simp: page_of_def bit_simps)
      ultimately have "(of_nat i :: u32) AND NOT 0xFFF = 0 AND NOT 0xFFF"
        using page_of_add [OF _ k [OF that], of 0] page_of_aligned [of 0] by (simp add: aligned_def)
      then show ?thesis using demo_may_write [of y] unfolding may_write_def mm_pl_of_vaddr_def by simp
    qed
    moreover have "0x102000 \<notin> owned 0x100000 (demo y)" by (simp add: demo_owned)
    ultimately show ?thesis using demo_buffer [OF n, of y] demo_cur_pdt [of y]
      by (simp add: user_ready_def ext2_demo_fields y) (simp add: demo_file_def flip: y, simp add: ext2_demo_fields)
  qed
qed

lemma ext2_demo_block_size: "fs_block_size ext2_demo = 1024"
  using file_ready_block_size(2) [of 0 demo_file ext2_demo] ext2_demo_ready by (simp add: file_open_def)


theorem get_file_inode_resolves_witness:
  "\<forall>(rd :: unit reader) s. get_file_inode rd [0x2F, 0x61, 0x2F, 0x62] 4 s = Option.bind (ensure_loaded rd s) (resolve rd [[0x61], [0x62]] 2)"
proof (intro allI)
  fix rd :: "unit reader" and s :: ext2_state
  have "\<forall>n\<in>set [[0x61], [0x62]]. plain_name n" "[[0x61], [0x62]] \<noteq> [[] :: u8 list]" "length (join [[0x61], [0x62]]) < 2 ^ 32 - 1"
    by (simp_all add: plain_name_def)
  from get_file_inode_resolves [OF this, of rd s]
  show "get_file_inode rd [0x2F, 0x61, 0x2F, 0x62] 4 s = Option.bind (ensure_loaded rd s) (resolve rd [[0x61], [0x62]] 2)"
    by (simp add: eval_nat_numeral)
qed

definition demo_dir :: "ext2_state" where
  "demo_dir = store 0x300000 ([12, 0, 0, 0, 12, 0, 1, 2, 0x61, 0, 0, 0] @ [13, 0, 0, 0, 12, 0, 1, 1, 0x62, 0, 0, 0]) ext2_demo"

theorem find_entry_first_witness: "find_entry [0x62] 1 24 0 0x300000 demo_dir = Some 13"
proof -
  have "dir_at 0x300000 [(12, [0x61], 12), (13, [0x62], 12)] demo_dir"
    by (simp add: demo_dir_def de_inode_def de_name_def de_name_len_def de_rec_len_def get32_def ld32_def ld16_def store_def)
  from find_entry_first [OF _ _ this, of "[0x62]" 24] show ?thesis by simp
qed

end
