(* ===== verification/Cow.thy ===== *)
theory Cow
  imports Loader Files
begin

section \<open>Copy on write and fork\<close>

text \<open>
  What the operations of \<^verbatim>\<open>Loader\<close> on shared memory achieve: a write to a page that other
  processes may hold too gives the process a frame of its own with the same bytes; forking
  gives the child every page of its parent, both of them protected against writes; and what
  goes wrong at the edges.
\<close>

subsection \<open>Bytes of memory that an operation keeps\<close>

text \<open>\<open>keeps X s s'\<close>: only bytes of the pages in \<open>X\<close> may differ.\<close>

definition keeps :: "u32 set \<Rightarrow> 'a mm_state_scheme \<Rightarrow> 'a mm_state_scheme \<Rightarrow> bool" where
  "keeps X s s' \<longleftrightarrow> (\<forall>x. page_of x \<notin> X \<longrightarrow> phys s' x = phys s x)"

lemma keeps_refl [simp]: "keeps X s s"
  by (simp add: keeps_def)

lemma keeps_trans: "keeps X s s' \<Longrightarrow> keeps Y s' s'' \<Longrightarrow> keeps (X \<union> Y) s s''"
  by (simp add: keeps_def)

lemma keeps_mono: "keeps X s s' \<Longrightarrow> X \<subseteq> Y \<Longrightarrow> keeps Y s s'"
  by (auto simp: keeps_def)

lemma ld32_byte: "k < 4 \<Longrightarrow> m (a + of_nat k) = ucast (drop_bit (8 * k) (ld32 m a))"
proof -
  assume "k < 4"
  then consider "k = 0" | "k = 1" | "k = 2" | "k = 3" by linarith
  moreover have high: "\<not> bit (b :: u8) (8 + n)" "\<not> bit b (16 + n)" "\<not> bit b (24 + n)" for b n
    using bit_imp_le_length [of b] by fastforce+
  ultimately show ?thesis
    by cases (auto intro!: bit_word_eqI simp: ld32_def bit_simps high)
qed

lemma word_of_byte: "x = push_bit 2 (drop_bit 2 x) + of_nat (unat (take_bit 2 (x :: u32)))" "unat (take_bit 2 (x :: u32)) < 4"
  "aligned4 (push_bit 2 (drop_bit 2 (x :: u32)))" "page_of (push_bit 2 (drop_bit 2 x)) = page_of (x :: u32)"
proof -
  show a: "aligned4 (push_bit 2 (drop_bit 2 (x :: u32)))" by (simp add: aligned4_def take_bit_push_bit)
  have t: "take_bit 2 (take_bit 2 x) = take_bit 2 x" by simp
  have "push_bit 2 (drop_bit 2 x) + take_bit 2 x = x"
    using add_low(1) [OF a [unfolded aligned4_def] t] low_high [of 2 x] by simp
  then show "x = push_bit 2 (drop_bit 2 x) + of_nat (unat (take_bit 2 (x :: u32)))" by simp
  have "take_bit 2 x = x AND mask 2" by (simp add: take_bit_eq_mask)
  also have "\<dots> < 2 ^ 2" by (rule and_mask_less') simp
  finally have "take_bit 2 x < 4" by simp
  then show "unat (take_bit 2 (x :: u32)) < 4" by (simp add: word_less_nat_alt)
  show "page_of (push_bit 2 (drop_bit 2 x)) = page_of (x :: u32)"
    by (rule bit_word_eqI) (auto simp: page_of_def bit_simps)
qed

lemma keeps_words:
  assumes "\<And>a. aligned4 a \<Longrightarrow> page_of a \<notin> X \<Longrightarrow> get32 a s' = get32 a s"
  shows "keeps X s s'"
  unfolding keeps_def
proof (intro allI impI)
  fix x assume x: "page_of x \<notin> X"
  let ?a = "push_bit 2 (drop_bit 2 x)" and ?k = "unat (take_bit 2 x)"
  note W = word_of_byte [where x = x]
  have "ld32 (phys s') ?a = ld32 (phys s) ?a" using assms [OF W(3)] W(4) x by (simp add: get32_def)
  then have "phys s' (?a + of_nat ?k) = phys s (?a + of_nat ?k)" using ld32_byte [OF W(2)] by metis
  then show "phys s' x = phys s x" using W(1) by metis
qed

lemma keeps_put32: "aligned4 a \<Longrightarrow> keeps {page_of a} s (put32 a v s)"
  by (rule keeps_words) (auto simp: get_put)

lemma keeps_bytes: "keeps X s s' \<Longrightarrow> aligned f \<Longrightarrow> f \<notin> X \<Longrightarrow> n \<le> 4096 \<Longrightarrow> bytes_at f n (phys s') = bytes_at f n (phys s)"
  by (rule bytes_at_cong) (use region_in_page [of f 0 n] in \<open>auto simp: keeps_def\<close>)

lemma keeps_bitmap [simp]: "keeps X s (s'\<lparr>mm_bitmap := b\<rparr>) = keeps X s s'" "keeps X (s\<lparr>mm_bitmap := b\<rparr>) s' = keeps X s s'"
  by (simp_all add: keeps_def)

text \<open>What a directory translates depends on the bytes of its own frames only.\<close>

lemma keeps_dir:
  assumes k: "keeps X s s'" and ok: "dir_ok pdt s" and d: "owned pdt s \<inter> X = {}" and t: "taken_frames s \<subseteq> taken_frames s'"
  shows "\<And>v. pte v pdt s' = pte v pdt s" "\<And>v. present pdt v s' = present pdt v s" "\<And>v. table_for pdt v s' = table_for pdt v s"
    "owned pdt s' = owned pdt s" "dir_ok pdt s'"
proof -
  have al: "aligned pdt" using dir_okD [OF ok] by blast
  have g: "get32 a s' = get32 a s" if "aligned4 a" "page_of a \<in> owned pdt s" for a
  proof -
    have "page_of a \<notin> X" using d that(2) by blast
    then show ?thesis unfolding get32_def using k page_of_word [OF that(1)] by (intro ld32_cong) (simp add: keeps_def)
  qed
  have pd: "get32 (pd_entry v pdt) s' = get32 (pd_entry v pdt) s" for v
    by (rule g) (use entry_addrs [OF al] in \<open>simp_all add: owned_def\<close>)
  show pr: "\<And>v. present pdt v s' = present pdt v s" "\<And>v. table_for pdt v s' = table_for pdt v s"
    by (simp_all add: present_def table_for_def pd)
  have ta: "aligned (table_for pdt v s)" for v by (simp add: table_for_def entry_parts)
  have "get32 (pt_slot v (table_for pdt v s)) s' = get32 (pt_slot v (table_for pdt v s)) s" if "present pdt v s" for v
    by (rule g) (use entry_addrs [OF ta] that in \<open>auto simp: owned_def\<close>)
  then show "\<And>v. pte v pdt s' = pte v pdt s" by (simp add: pte_def pr)
  show own: "owned pdt s' = owned pdt s" by (simp add: owned_def pr)
  show "dir_ok pdt s'" using ok t by (auto simp: dir_ok_def own pr)
qed

lemma pte_present: "pte v pdt s \<noteq> 0 \<Longrightarrow> present pdt v s"
  by (simp add: pte_def split: if_splits)

lemma pte_entry: "present pdt v s \<Longrightarrow> get32 (pt_slot v (table_for pdt v s)) s = pte v pdt s"
  by (simp add: pte_def)

text \<open>The user's zone hands out its frames like the kernel's.\<close>

lemma alloc_Some:
  assumes "frames_ok s" "frames MM_REQUEST_USER s - taken_frames s \<noteq> {}"
  obtains f b where "mm_mem_alloc s = Some (f, s\<lparr>mm_bitmap := b\<rparr>)" "f \<notin> taken_frames s" "f \<noteq> 0" "aligned f"
    "f \<in> frames MM_REQUEST_USER s" "taken_frames (s\<lparr>mm_bitmap := b\<rparr>) = insert f (taken_frames s)"
    "frames_ok (s\<lparr>mm_bitmap := b\<rparr>)" "\<And>r. frames r (s\<lparr>mm_bitmap := b\<rparr>) = frames r s"
proof -
  obtain f s' where f: "mm_mem_alloc s = Some (f, s')" "f \<in> frames MM_REQUEST_USER s - taken_frames s" "frames_ok s'"
    "taken_frames s' = insert f (taken_frames s)"
    using uf.alloc [OF assms] by blast
  have nz: "f \<noteq> 0" using f(2) frames_nonzero [OF assms(1)] by auto
  moreover have "aligned f" using f(2) by (auto simp: frames_def aligned_def)
  moreover obtain b where b: "s' = s\<lparr>mm_bitmap := b\<rparr>"
    using mem_seek_more f(1) by (metis alloc_seek)
  moreover have "frames r (s\<lparr>mm_bitmap := b\<rparr>) = frames r s" for r
    by (cases r) (simp_all add: frames_def zone_bits_def zone.simps)
  ultimately show thesis using that f by blast
qed

lemma memcpy_virt_copies:
  assumes "user_buffer src n as s" "user_buffer dst n bs s" "set as \<inter> set bs = {}"
  shows "\<exists>m. memcpy_virt n src dst s = Some (s\<lparr>phys := m\<rparr>) \<and> map m bs = map (phys s) as \<and> (\<forall>x. x \<notin> set bs \<longrightarrow> m x = phys s x)"
  using assms
proof (induction n arbitrary: src dst as bs s)
  case 0
  then show ?case by (intro exI [of _ "phys s"]) (simp add: user_buffer_def)
next
  case (Suc n)
  then obtain a as' b bs' where l: "as = a # as'" "bs = b # bs'" by (cases as; cases bs) (auto simp: user_buffer_def)
  obtain pdt where pdt: "cur_pdt s = Some pdt" "\<forall>a\<in>set bs. page_of a \<notin> owned pdt s"
    using Suc.prems(2) by (auto simp: user_buffer_def)
  let ?s = "s\<lparr>phys := (phys s)(b := phys s a)\<rparr>"
  note t = user_buffer_tl [OF Suc.prems(1) [unfolded l] pdt(1)] and u = user_buffer_tl [OF Suc.prems(2) [unfolded l] pdt(1)]
  have nb: "page_of b \<notin> owned pdt s" using pdt(2) l by simp
  have d: "set as' \<inter> set bs' = {}" "b \<notin> set as'" "b \<notin> set bs'"
    using Suc.prems(2,3) l by (auto simp: user_buffer_def)
  have "user_buffer (src + 1) n as' ?s" "user_buffer (dst + 1) n bs' ?s" using t(2) u(2) nb by auto
  from Suc.IH [OF this d(1)] obtain m where m: "memcpy_virt n (src + 1) (dst + 1) ?s = Some (?s\<lparr>phys := m\<rparr>)"
    "map m bs' = map (phys ?s) as'" "\<forall>x. x \<notin> set bs' \<longrightarrow> m x = phys ?s x" by blast
  have "map (phys ?s) as' = map (phys s) as'" using d(2) by auto
  then show ?case using m t(1) u(1) l d by (intro exI [of _ m]) (auto simp: user_byte_def)
qed

lemma memcpy_virt_page:
  assumes s: "frames_ok s" "dir_ok pdt s" "cur_pdt s = Some pdt" and v: "aligned v" "aligned w"
    and f: "attr_of (pte v pdt s) AND MM_ATTR_P \<noteq> 0" "f = base_addr (pte v pdt s)" "f \<notin> owned pdt s"
    and g: "attr_of (pte w pdt s) AND MM_ATTR_P \<noteq> 0" "g = base_addr (pte w pdt s)" "g \<notin> owned pdt s" "f \<noteq> g"
  obtains m where "memcpy_virt 4096 v w s = Some (s\<lparr>phys := m\<rparr>)" "bytes_at g 4096 m = bytes_at f 4096 (phys s)"
    "keeps {g} s (s\<lparr>phys := m\<rparr>)"
proof -
  let ?l = "\<lambda>f :: u32. map (\<lambda>i. f + of_nat i) [0..<4096]"
  have al: "aligned f" "aligned g" using f(2) g(2) entry_parts(5) by simp_all
  have r: "set (?l f) = region f 4096" "set (?l g) = region g 4096" by (auto simp: region_def)
  have pg: "page_of x = f" if "x \<in> region f 4096" "aligned f" for x f
    using region_in_page [OF that(2), of 0 4096 x] that(1) by simp
  then have d: "set (?l f) \<inter> set (?l g) = {}" using al g(4) unfolding r by blast
  obtain m where m: "memcpy_virt 4096 v w s = Some (s\<lparr>phys := m\<rparr>)" "map m (?l g) = map (phys s) (?l f)"
    "\<forall>x. x \<notin> set (?l g) \<longrightarrow> m x = phys s x"
    using memcpy_virt_copies [OF mapped_buffer [OF s v(1) _ f(1)] mapped_buffer [OF s v(2) _ g(1)] d] f(2,3) g(2,3) by auto
  have "bytes_at g 4096 m = bytes_at f 4096 (phys s)" using m(2) by (simp add: bytes_at_def o_def)
  moreover have "keeps {g} s (s\<lparr>phys := m\<rparr>)" using m(3) pg [OF _ al(2)] unfolding r by (auto simp: keeps_def)
  ultimately show thesis using that m(1) by blast
qed

subsection \<open>Copy on write\<close>

lemma with_attr_or: "with_attr (attr_of e OR a) e = e OR (a AND 0xFFF)" "with_attr (attr_of e AND NOT a) e = e AND NOT (a AND 0xFFF)"
proof -
  have m: "(0xFFF :: u32) = mask 12" by (simp add: mask_eq_exp_minus_1)
  show "with_attr (attr_of e OR a) e = e OR (a AND 0xFFF)" "with_attr (attr_of e AND NOT a) e = e AND NOT (a AND 0xFFF)"
    unfolding m with_attr_def attr_of_def base_addr_def
    by (rule bit_word_eqI, rename_tac n, case_tac "n < 12"; auto simp: bit_simps)+
qed

lemma entry_set_eq: "entry_set a e s = put32 e (get32 e s OR (a AND 0xFFF)) s"
  and entry_clear_eq: "entry_clear a e s = put32 e (get32 e s AND NOT (a AND 0xFFF)) s"
  by (simp_all add: entry_set_def entry_clear_def with_attr_or)

text \<open>An entry of a directory that is changed in its attributes.\<close>

lemma entry_change:
  assumes ok: "dir_ok pdt s" and pr: "present pdt v s" and v: "aligned v"
  defines "e \<equiv> pt_slot v (table_for pdt v s)"
  shows "keeps (owned pdt s) s (put32 e x s)" "dir_ok pdt (put32 e x s)" "owned pdt (put32 e x s) = owned pdt s"
    "pte v pdt (put32 e x s) = x" "\<And>w. aligned w \<Longrightarrow> w \<noteq> v \<Longrightarrow> pte w pdt (put32 e x s) = pte w pdt s"
    "present pdt v (put32 e x s)" "pt_slot v (table_for pdt v (put32 e x s)) = e"
proof -
  note W = pte_write [OF ok pr v, where x = x, folded e_def]
  show "dir_ok pdt (put32 e x s)" "owned pdt (put32 e x s) = owned pdt s" "pte v pdt (put32 e x s) = x"
    by (rule W)+
  show "pte w pdt (put32 e x s) = pte w pdt s" if "aligned w" "w \<noteq> v" for w by (rule W(2) [OF that])
  have ta: "aligned (table_for pdt v s)" by (simp add: table_for_def entry_parts)
  note E = entry_addrs(3,4) [OF ta, of v, folded e_def]
  show "keeps (owned pdt s) s (put32 e x s)"
    by (rule keeps_mono [OF keeps_put32 [OF E(1)]]) (use pr E(2) in \<open>auto simp: owned_def\<close>)
  have "page_of (pd_entry v pdt) \<noteq> page_of e"
    using entry_addrs(2) [OF dir_okD(1) [OF ok]] dir_okD(3) [OF ok pr] E(2) by simp
  then have "get32 (pd_entry v pdt) (put32 e x s) = get32 (pd_entry v pdt) s"
    using entry_addrs(1) [OF dir_okD(1) [OF ok]] E(1) by (auto simp: get_put)
  then show "present pdt v (put32 e x s)" "pt_slot v (table_for pdt v (put32 e x s)) = e"
    using pr by (simp_all add: present_def table_for_def e_def)
qed

lemma entry_slot: "present pdt v s \<Longrightarrow> get32 (pt_slot v (table_for pdt v s)) s = pte v pdt s" "aligned4 (pt_slot v (table_for pdt v s))"
  by (simp_all add: pte_def table_for_def entry_addrs entry_parts)

lemma map_frame_keeps:
  assumes "frames_ok s" "dir_ok pdt s" "aligned pa" "aligned va"
    and "present pdt va s \<or> frames MM_REQUEST_KERNEL s - taken_frames s \<noteq> {}"
  obtains s' where "mm_map_frame pa va pdt pl s = Some s'" "pte va pdt s' = pa OR map_attrs pl"
    "\<forall>v. aligned v \<longrightarrow> v \<noteq> va \<longrightarrow> pte v pdt s' = pte v pdt s" "dir_ok pdt s'" "frames_ok s'"
    "taken_frames s \<subseteq> taken_frames s'" "owned pdt s' \<subseteq> owned pdt s \<union> - taken_frames s"
    "owned pdt s \<subseteq> owned pdt s'" "keeps (owned pdt s') s s'" "cur_pdt s' = cur_pdt s"
proof -
  obtain s' where s': "mm_map_frame pa va pdt pl s = Some s'" "pte va pdt s' = pa OR map_attrs pl"
    "\<And>v. aligned v \<Longrightarrow> v \<noteq> va \<Longrightarrow> pte v pdt s' = pte v pdt s" "dir_ok pdt s'" "frames_ok s'"
    "taken_frames s \<subseteq> taken_frames s'" "owned pdt s' \<subseteq> owned pdt s \<union> - taken_frames s" "owned pdt s \<subseteq> owned pdt s'"
    "\<And>a. aligned4 a \<Longrightarrow> page_of a \<notin> owned pdt s' \<Longrightarrow> get32 a s' = get32 a s"
    "processes s' = processes s" "cur_pid s' = cur_pid s"
    using map_frame_spec [OF assms, of pl] by blast
  show thesis by (rule that [OF s'(1,2) _ s'(4-8) keeps_words [OF s'(9)]]) (use s'(3,10,11) in \<open>simp_all add: cur_pdt_def\<close>)
qed

lemma mapped_entry:
  assumes "aligned pa"
  shows "base_addr (pa OR map_attrs pl) = pa" "attr_of (pa OR map_attrs pl) = map_attrs pl"
    "attr_of (pa OR map_attrs pl) AND MM_ATTR_P \<noteq> 0" "pa OR map_attrs pl \<noteq> 0"
proof -
  have m: "map_attrs pl = 3 \<or> map_attrs pl = 7" by (simp add: map_attrs_def)
  then have w: "with_attr (map_attrs pl) pa = pa OR map_attrs pl"
    using assms by (auto simp: with_attr_def base_addr_aligned)
  show "base_addr (pa OR map_attrs pl) = pa" "attr_of (pa OR map_attrs pl) = map_attrs pl"
    using assms m entry_parts(1,2) [of "map_attrs pl" pa] by (auto simp: w base_addr_aligned)
  then show a: "attr_of (pa OR map_attrs pl) AND MM_ATTR_P \<noteq> 0" using m by auto
  then show "pa OR map_attrs pl \<noteq> 0" by (auto simp: attr_of_def)
qed

lemma copy_to_frame:
  assumes s: "frames_ok s" "dir_ok pdt s" "cur_pdt s = Some pdt" and v: "aligned v" "v \<noteq> MM_TMP_PAGE"
    and e: "attr_of (pte v pdt s) AND MM_ATTR_P \<noteq> 0" and g: "base_addr (pte v pdt s) \<in> taken_frames s - owned pdt s"
    and f: "aligned f" "f \<in> taken_frames s - owned pdt s" "f \<noteq> base_addr (pte v pdt s)"
    and room: "present pdt MM_TMP_PAGE s \<or> frames MM_REQUEST_KERNEL s - taken_frames s \<noteq> {}"
  obtains s' where "do {
         s \<leftarrow> mm_map_frame f MM_TMP_PAGE pdt PL_KERNEL s;
         s \<leftarrow> memcpy_virt 4096 v MM_TMP_PAGE s;
         s \<leftarrow> mm_unmap_page MM_TMP_PAGE pdt s;
         e \<leftarrow> mm_pt_entry_for v pdt s;
         kassert (e \<noteq> 0);
         s \<leftarrow> mm_map_frame f v pdt (if attr_of (get32 e s) AND MM_ATTR_US_U \<noteq> 0 then PL_USER else PL_KERNEL) s;
         Some (True, s)
       } = Some (True, s')"
    "dir_ok pdt s'" "keeps (insert f (owned pdt s')) s s'" "owned pdt s' \<subseteq> owned pdt s \<union> - taken_frames s"
    "\<And>w. aligned w \<Longrightarrow> w \<noteq> v \<Longrightarrow> w \<noteq> MM_TMP_PAGE \<Longrightarrow> pte w pdt s' = pte w pdt s" "pte MM_TMP_PAGE pdt s' = 0"
    "pte v pdt s' = f OR map_attrs (if attr_of (pte v pdt s) AND MM_ATTR_US_U \<noteq> 0 then PL_USER else PL_KERNEL)"
    "bytes_at f 4096 (phys s') = bytes_at (base_addr (pte v pdt s)) 4096 (phys s)"
proof -
  let ?g = "base_addr (pte v pdt s)"
  let ?pl = "if attr_of (pte v pdt s) AND MM_ATTR_US_U \<noteq> 0 then PL_USER else PL_KERNEL"
  have tmp: "aligned MM_TMP_PAGE" by (simp add: aligned_def)
  obtain s1 where s1: "mm_map_frame f MM_TMP_PAGE pdt PL_KERNEL s = Some s1" "pte MM_TMP_PAGE pdt s1 = f OR map_attrs PL_KERNEL"
    "\<forall>w. aligned w \<longrightarrow> w \<noteq> MM_TMP_PAGE \<longrightarrow> pte w pdt s1 = pte w pdt s" "dir_ok pdt s1" "frames_ok s1"
    "taken_frames s \<subseteq> taken_frames s1" "owned pdt s1 \<subseteq> owned pdt s \<union> - taken_frames s" "owned pdt s \<subseteq> owned pdt s1"
    "keeps (owned pdt s1) s s1" "cur_pdt s1 = cur_pdt s"
    by (rule map_frame_keeps [OF s(1,2) f(1) tmp room, of PL_KERNEL])
  have c1: "cur_pdt s1 = Some pdt" using s1(10) s(3) by simp
  have own: "?g \<notin> owned pdt s1" "f \<notin> owned pdt s1" using g f(2) s1(7) by auto
  note M = mapped_entry [OF f(1), of PL_KERNEL]
  have E: "attr_of (pte v pdt s1) AND MM_ATTR_P \<noteq> 0" "attr_of (pte MM_TMP_PAGE pdt s1) AND MM_ATTR_P \<noteq> 0"
    "?g = base_addr (pte v pdt s1)" "f = base_addr (pte MM_TMP_PAGE pdt s1)"
    using e M unfolding s1(2) s1(3) [rule_format, OF v] by simp_all
  obtain m where m: "memcpy_virt 4096 v MM_TMP_PAGE s1 = Some (s1\<lparr>phys := m\<rparr>)" "bytes_at f 4096 m = bytes_at ?g 4096 (phys s1)"
    "keeps {f} s1 (s1\<lparr>phys := m\<rparr>)"
    by (rule memcpy_virt_page [OF s1(5,4) c1 v(1) tmp E(1,3) own(1) E(2,4) own(2) f(3) [symmetric]])
  let ?s2 = "s1\<lparr>phys := m\<rparr>"
  have t2: "taken_frames ?s2 = taken_frames s1" by (simp add: taken_frames_def)
  have fk2: "frames_ok ?s2" using s1(5) by (simp add: frames_ok_def)
  have D2: "pte w pdt ?s2 = pte w pdt s1" "present pdt w ?s2 = present pdt w s1" "table_for pdt w ?s2 = table_for pdt w s1"
    "owned pdt ?s2 = owned pdt s1" "dir_ok pdt ?s2" for w
    using keeps_dir [OF m(3) s1(4)] own(2) t2 by simp_all
  have prT: "present pdt MM_TMP_PAGE ?s2" using pte_present [of MM_TMP_PAGE pdt ?s2] D2(1) s1(2) M(4) by simp
  let ?e = "pt_slot MM_TMP_PAGE (table_for pdt MM_TMP_PAGE ?s2)"
  define s3 where "s3 = put32 ?e 0 ?s2"
  note E = entry_change [OF D2(5) prT tmp, where x = 0, folded s3_def]
  have u: "mm_unmap_page MM_TMP_PAGE pdt ?s2 = Some s3"
    using prT tmp by (simp add: mm_unmap_page_def s3_def present_def table_for_def Let_def)
  have pv: "pte v pdt s3 = pte v pdt s" using E(5) [OF v] D2(1) s1(3) [rule_format, OF v] by simp
  have prv: "present pdt v s3" by (rule pte_present) (use pv e in \<open>auto simp: attr_of_def\<close>)
  have fk3: "frames_ok s3" using fk2 by (simp add: s3_def)
  have c3: "taken_frames s3 = taken_frames s1" by (simp add: s3_def t2)
  have slot: "mm_pt_entry_for v pdt s3 = Some (pt_slot v (table_for pdt v s3))" "pt_slot v (table_for pdt v s3) \<noteq> 0"
    "get32 (pt_slot v (table_for pdt v s3)) s3 = pte v pdt s"
    using prv table_nonzero [OF fk3 E(2) prv] pv by (simp_all add: pt_entry_for_eq [OF v(1)] pte_def)
  obtain s4 where s4: "mm_map_frame f v pdt ?pl s3 = Some s4" "pte v pdt s4 = f OR map_attrs ?pl"
    "\<forall>w. aligned w \<longrightarrow> w \<noteq> v \<longrightarrow> pte w pdt s4 = pte w pdt s3" "dir_ok pdt s4"
    "frames_ok s4" "taken_frames s3 \<subseteq> taken_frames s4"
    "owned pdt s4 \<subseteq> owned pdt s3 \<union> - taken_frames s3" "owned pdt s3 \<subseteq> owned pdt s4" "keeps (owned pdt s4) s3 s4" "cur_pdt s4 = cur_pdt s3"
    by (rule map_frame_keeps [OF fk3 E(2) f(1) v(1) disjI1 [OF prv], of ?pl])
  have o4: "owned pdt s1 \<subseteq> owned pdt s4" "owned pdt s4 \<subseteq> owned pdt s \<union> - taken_frames s"
    using s4(7,8) E(3) D2(4) s1(6,7) c3 by auto
  have "keeps (owned pdt s1 \<union> {f} \<union> owned pdt s1 \<union> owned pdt s4) s s4"
    using keeps_trans [OF keeps_trans [OF keeps_trans [OF s1(9) m(3)] E(1)] s4(9)] D2(4) by simp
  then have k: "keeps (insert f (owned pdt s4)) s s4" by (rule keeps_mono) (use o4 in auto)
  have f4: "f \<notin> owned pdt s4" using o4(2) f(2) by auto
  have "bytes_at f 4096 (phys s4) = bytes_at f 4096 (phys s3)" by (rule keeps_bytes [OF s4(9) f(1) f4]) simp
  also have "\<dots> = bytes_at f 4096 m" using keeps_bytes [OF E(1) f(1)] own(2) D2(4) by simp
  also have "\<dots> = bytes_at ?g 4096 (phys s)"
    using m(2) keeps_bytes [OF s1(9) entry_parts(5) own(1)] by simp
  finally have bytes: "bytes_at f 4096 (phys s4) = bytes_at ?g 4096 (phys s)" .
  show thesis
  proof (rule that [OF _ s4(4) k o4(2) _ _ s4(2) bytes])
    show "pte w pdt s4 = pte w pdt s" if "aligned w" "w \<noteq> v" "w \<noteq> MM_TMP_PAGE" for w
      using s4(3) [rule_format, OF that(1,2)] E(5) [OF that(1,3)] D2(1) s1(3) [rule_format, OF that(1,3)] by simp
    show "pte MM_TMP_PAGE pdt s4 = 0" using s4(3) [rule_format, OF tmp] v(2) E(4) by simp
  qed (simp add: s1(1) m(1) u slot s4(1))
qed

text \<open>C3: When a process writes to a page marked for copy on write that another process may still
  hold, it gets a frame of its own, unused before, with the bytes of the old one and with write
  access; when nobody else may hold it, the page just becomes writable. In both cases every
  other page of the process is translated as before (the page used for the copy is unmapped
  again) and no byte of any frame in use outside the page tables of the process changes, among
  them the old frame.\<close>

theorem copy_on_write_gives:
  fixes s :: "'a device_state_scheme"
  assumes "frames_ok s" and "dir_ok pdt s" and "cur_pdt s = Some pdt" and "aligned v" and "v \<noteq> MM_TMP_PAGE"
    and "attr_of (pte v pdt s) AND MM_ATTR_P \<noteq> 0" and "base_addr (pte v pdt s) \<in> taken_frames s - owned pdt s"
    and "is_to_be_copied_on_write_by_other_processes v s = Some other"
    and "present pdt MM_TMP_PAGE s \<or> frames MM_REQUEST_KERNEL s - taken_frames s \<noteq> {}"
    and "frames MM_REQUEST_USER s - taken_frames s \<noteq> {}"
  shows "\<exists>s'. mm_copy_on_write saver v s = Some (True, s') \<and> dir_ok pdt s' \<and>
    (\<forall>x. page_of x \<in> taken_frames s - owned pdt s \<longrightarrow> phys s' x = phys s x) \<and>
    (\<forall>w. aligned w \<and> w \<noteq> v \<and> w \<noteq> MM_TMP_PAGE \<longrightarrow> pte w pdt s' = pte w pdt s) \<and>
    (if other
     then \<exists>f. f \<notin> taken_frames s \<and> pte v pdt s' = f OR map_attrs (if attr_of (pte v pdt s) AND MM_ATTR_US_U \<noteq> 0 then PL_USER else PL_KERNEL) \<and>
       bytes_at f 4096 (phys s') = bytes_at (base_addr (pte v pdt s)) 4096 (phys s) \<and> pte MM_TMP_PAGE pdt s' = 0
     else pte v pdt s' = (pte v pdt s OR MM_ATTR_RW) AND NOT MM_ATTR_USR_COR)"
proof -
  have pr: "present pdt v s" using assms(6) by (intro pte_present) (auto simp: attr_of_def)
  have slot: "mm_pt_entry_for v pdt s = Some (pt_slot v (table_for pdt v s))" "pt_slot v (table_for pdt v s) \<noteq> 0"
    using pr table_nonzero [OF assms(1,2) pr] by (simp_all add: pt_entry_for_eq [OF assms(4)])
  show ?thesis
  proof (cases other)
    case False
    let ?e = "pt_slot v (table_for pdt v s)" and ?x = "(pte v pdt s OR MM_ATTR_RW) AND NOT MM_ATTR_USR_COR"
    note E = entry_change [OF assms(2) pr assms(4), where x = ?x]
    have "mm_copy_on_write saver v s = Some (True, put32 ?e ?x s)"
      using assms(3,8) slot entry_slot(1) [OF pr] entry_slot(2) [of v pdt s] False
      by (simp add: mm_copy_on_write_def entry_set_eq entry_clear_eq get_put put_put Let_def)
    then show ?thesis using E(1,2,4,5) False by (auto simp: keeps_def)
  next
    case True
    obtain f b where f: "mm_mem_alloc s = Some (f, s\<lparr>mm_bitmap := b\<rparr>)" "f \<notin> taken_frames s" "f \<noteq> 0" "aligned f"
      "f \<in> frames MM_REQUEST_USER s" "taken_frames (s\<lparr>mm_bitmap := b\<rparr>) = insert f (taken_frames s)"
      "frames_ok (s\<lparr>mm_bitmap := b\<rparr>)" "\<And>r. frames r (s\<lparr>mm_bitmap := b\<rparr>) = frames r s"
      using alloc_Some [OF assms(1,10)] by metis
    define s1 where "s1 = s\<lparr>mm_bitmap := b\<rparr>"
    have k1: "keeps {} s s1" "taken_frames s \<subseteq> taken_frames s1" using f(6) by (auto simp: s1_def)
    have D1: "pte w pdt s1 = pte w pdt s" "present pdt w s1 = present pdt w s" "owned pdt s1 = owned pdt s" "dir_ok pdt s1" for w
      using keeps_dir [OF k1(1) assms(2) _ k1(2)] by simp_all
    have "f \<notin> frames MM_REQUEST_KERNEL s" using zones_disjoint [OF assms(1)] f(5) by auto
    then have room: "present pdt MM_TMP_PAGE s1 \<or> frames MM_REQUEST_KERNEL s1 - taken_frames s1 \<noteq> {}"
      using assms(9) D1(2) f(6,8) by (auto simp: s1_def)
    have fo: "f \<in> taken_frames s1 - owned pdt s1" "base_addr (pte v pdt s) \<in> taken_frames s1 - owned pdt s1" "f \<noteq> base_addr (pte v pdt s)"
      using f(2,6) assms(2,7) D1(3) by (auto simp: s1_def dir_ok_def)
    have c1: "cur_pdt s1 = Some pdt" using assms(3) by (simp add: s1_def cur_pdt_def)
    obtain s' where s': "do {
         s \<leftarrow> mm_map_frame f MM_TMP_PAGE pdt PL_KERNEL s1;
         s \<leftarrow> memcpy_virt 4096 v MM_TMP_PAGE s;
         s \<leftarrow> mm_unmap_page MM_TMP_PAGE pdt s;
         e \<leftarrow> mm_pt_entry_for v pdt s;
         kassert (e \<noteq> 0);
         s \<leftarrow> mm_map_frame f v pdt (if attr_of (get32 e s) AND MM_ATTR_US_U \<noteq> 0 then PL_USER else PL_KERNEL) s;
         Some (True, s)
       } = Some (True, s')" "dir_ok pdt s'" "keeps (insert f (owned pdt s')) s1 s'" "owned pdt s' \<subseteq> owned pdt s1 \<union> - taken_frames s1"
      "\<And>w. aligned w \<Longrightarrow> w \<noteq> v \<Longrightarrow> w \<noteq> MM_TMP_PAGE \<Longrightarrow> pte w pdt s' = pte w pdt s1" "pte MM_TMP_PAGE pdt s' = 0"
      "pte v pdt s' = f OR map_attrs (if attr_of (pte v pdt s1) AND MM_ATTR_US_U \<noteq> 0 then PL_USER else PL_KERNEL)"
      "bytes_at f 4096 (phys s') = bytes_at (base_addr (pte v pdt s1)) 4096 (phys s1)"
      by (rule copy_to_frame [OF f(7) [folded s1_def] D1(4) c1 assms(4,5), of f]) (use D1(1) assms(6) fo f(4) room in simp_all)
    have "mm_copy_on_write saver v s = Some (True, s')"
      using s'(1) assms(3,8) f(1,3) True by (simp add: mm_copy_on_write_def s1_def)
    moreover have "\<forall>x. page_of x \<in> taken_frames s - owned pdt s \<longrightarrow> phys s' x = phys s x"
      using s'(3,4) D1(3) f(2) k1(2) by (auto simp: keeps_def s1_def)
    moreover have "phys s1 = phys s" by (simp add: s1_def)
    ultimately show ?thesis using s'(2,5-8) D1(1) f(2) True by (intro exI [of _ s']) auto
  qed
qed

end
