(* ===== verification/Fork.thy ===== *)
theory Fork
  imports Cow
begin

section \<open>The memory of a forked process\<close>

text \<open>
  \<^verbatim>\<open>copy_nonkernel_pages\<close> goes through the page tables of the parent and gives the child an
  entry for every page: the same frame, shared for good or to be copied at the first write,
  and pages only reserved as such. The proof follows the loops with one invariant on the two
  directories.
\<close>

subsection \<open>Writing one entry\<close>

definition memory_only :: "'a mm_state_scheme \<Rightarrow> 'a mm_state_scheme \<Rightarrow> bool" where
  "memory_only s s' \<longleftrightarrow> s'\<lparr>phys := phys s, mm_bitmap := mm_bitmap s\<rparr> = s"

lemma memory_only_fields:
  assumes "memory_only s s'"
  shows "processes s' = processes s" "cur_pid s' = cur_pid s" "cur_pdt s' = cur_pdt s"
    "kernel_pagetable s' = kernel_pagetable s" "mm_bitmap_byte_len s' = mm_bitmap_byte_len s"
proof -
  let ?t = "s'\<lparr>phys := phys s, mm_bitmap := mm_bitmap s\<rparr>"
  have e: "?t = s" using assms by (simp add: memory_only_def)
  have "processes ?t = processes s'" "cur_pid ?t = cur_pid s'" "kernel_pagetable ?t = kernel_pagetable s'"
    "mm_bitmap_byte_len ?t = mm_bitmap_byte_len s'" by simp_all
  then show p: "processes s' = processes s" "cur_pid s' = cur_pid s" "kernel_pagetable s' = kernel_pagetable s"
    "mm_bitmap_byte_len s' = mm_bitmap_byte_len s" unfolding e by simp_all
  then show "cur_pdt s' = cur_pdt s" by (simp add: cur_pdt_def)
qed

lemma memory_only_refl [simp]: "memory_only s s"
  by (simp add: memory_only_def)

lemma memory_only_trans: "memory_only s s' \<Longrightarrow> memory_only s' s'' \<Longrightarrow> memory_only s s''"
proof -
  assume a: "memory_only s s'" "memory_only s' s''"
  have "s''\<lparr>phys := phys s, mm_bitmap := mm_bitmap s\<rparr> =
    (s''\<lparr>phys := phys s', mm_bitmap := mm_bitmap s'\<rparr>)\<lparr>phys := phys s, mm_bitmap := mm_bitmap s\<rparr>" by simp
  also have "\<dots> = s" using a by (simp add: memory_only_def)
  finally show ?thesis by (simp add: memory_only_def)
qed

lemma memory_only_steps [simp]: "memory_only s (put32 a v s)" "memory_only s (zero_page p s)" "memory_only s (s\<lparr>mm_bitmap := b\<rparr>)"
  "memory_only s (s\<lparr>phys := m\<rparr>)"
  by (simp_all add: memory_only_def put32_def zero_page_def)

text \<open>
  \<open>written pdt v x s s'\<close>: the entry of page \<open>v\<close> in the directory is \<open>x\<close>, nothing else that
  anybody translates has changed, and at most one kernel frame has been taken, for a table.
\<close>

definition takes_for :: "u32 \<Rightarrow> u32 \<Rightarrow> 'a mm_state_scheme \<Rightarrow> 'a mm_state_scheme \<Rightarrow> bool" where
  "takes_for pdt v s s' \<longleftrightarrow> (if present pdt v s then taken_frames s' = taken_frames s
     else \<exists>f\<in>frames MM_REQUEST_KERNEL s - taken_frames s. taken_frames s' = insert f (taken_frames s))"

text \<open>
  The kernel's own table is the same frame in every directory; what belongs to one directory
  alone is its page and its tables above the kernel's 4 MB.
\<close>

definition alone :: "u32 \<Rightarrow> 'a mm_state_scheme \<Rightarrow> u32 set" where
  "alone pdt s = insert pdt {table_for pdt v s | v. present pdt v s \<and> PD_ENTRY_FOR v \<noteq> 0}"

lemma alone_owned: "alone pdt s \<subseteq> owned pdt s"
  by (auto simp: alone_def owned_def)

definition grown :: "u32 \<Rightarrow> u32 \<Rightarrow> 'a mm_state_scheme \<Rightarrow> 'a mm_state_scheme \<Rightarrow> bool" where
  "grown pdt v s s' \<longleftrightarrow> dir_ok pdt s' \<and> frames_ok s' \<and> present pdt v s' \<and>
     (\<forall>w. present pdt w s \<longrightarrow> present pdt w s' \<and> table_for pdt w s' = table_for pdt w s) \<and>
     (\<forall>w. present pdt w s' \<longrightarrow> present pdt w s \<or> PD_ENTRY_FOR w = PD_ENTRY_FOR v) \<and> (present pdt v s \<or> table_for pdt v s' \<notin> taken_frames s) \<and>
     (\<forall>r. frames r s' = frames r s) \<and> keeps {pdt, table_for pdt v s'} s s' \<and> owned pdt s' \<subseteq> owned pdt s \<union> - taken_frames s \<and>
     owned pdt s \<subseteq> owned pdt s' \<and> takes_for pdt v s s' \<and> memory_only s s'"

lemma grown_alone:
  assumes g: "grown pdt v s s'" and v: "PD_ENTRY_FOR v \<noteq> 0"
  shows "alone pdt s \<subseteq> alone pdt s'" "alone pdt s' \<subseteq> alone pdt s \<union> - taken_frames s" "keeps (alone pdt s') s s'"
proof -
  have g': "\<And>w. present pdt w s \<Longrightarrow> present pdt w s' \<and> table_for pdt w s' = table_for pdt w s"
    "\<And>w. present pdt w s' \<Longrightarrow> present pdt w s \<or> PD_ENTRY_FOR w = PD_ENTRY_FOR v" "present pdt v s \<or> table_for pdt v s' \<notin> taken_frames s"
    "present pdt v s'" "keeps {pdt, table_for pdt v s'} s s'"
    using g unfolding grown_def by blast+
  have "table_for pdt w s \<in> alone pdt s'" if "present pdt w s" "PD_ENTRY_FOR w \<noteq> 0" for w
    using g'(1) [OF that(1)] that(2) by (auto simp: alone_def)
  then show "alone pdt s \<subseteq> alone pdt s'" by (auto simp: alone_def [of pdt s]) (auto simp: alone_def)
  have "table_for pdt w s' \<in> alone pdt s \<union> - taken_frames s" if w: "present pdt w s'" "PD_ENTRY_FOR w \<noteq> 0" for w
  proof (cases "present pdt w s")
    case True
    then have "table_for pdt w s' = table_for pdt w s" using g'(1) by blast
    then show ?thesis using True w(2) by (auto simp: alone_def)
  next
    case False
    then have e: "PD_ENTRY_FOR w = PD_ENTRY_FOR v" using g'(2) w(1) by blast
    show ?thesis using g'(3) dir_at [OF e, of pdt s] dir_at [OF e, of pdt s'] False by simp
  qed
  then show "alone pdt s' \<subseteq> alone pdt s \<union> - taken_frames s" by (auto simp: alone_def [of pdt s'])  (auto simp: alone_def)
  show "keeps (alone pdt s') s s'" by (rule keeps_mono [OF g'(5)]) (use g'(4) v in \<open>auto simp: alone_def\<close>)
qed

lemma table_made:
  assumes fok: "frames_ok s" and ok: "dir_ok pdt s"
    and room: "present pdt v s \<or> frames MM_REQUEST_KERNEL s - taken_frames s \<noteq> {}"
  obtains s1 where "(if attr_of (get32 (pd_entry v pdt) s) AND MM_ATTR_P = 0 then do {
             (frame, s) \<leftarrow> mm_mem_kalloc s;
             install_table (pd_entry v pdt) frame s
           } else Some s) = Some s1" "grown pdt v s s1" "\<forall>w. pte w pdt s1 = pte w pdt s"
    "\<forall>x. aligned v \<longrightarrow> x AND MM_ATTR_P = 0 \<longrightarrow> mm_set_pt_entry v x pdt s = Some (True, put32 (pt_slot v (table_for pdt v s1)) x s1)"
proof (cases "present pdt v s")
  case True
  show thesis
  proof (rule that)
    show "grown pdt v s s" using True ok fok by (auto simp: grown_def takes_for_def)
    show "\<forall>x. aligned v \<longrightarrow> x AND MM_ATTR_P = 0 \<longrightarrow> mm_set_pt_entry v x pdt s = Some (True, put32 (pt_slot v (table_for pdt v s)) x s)"
      using True by (simp add: mm_set_pt_entry_def present_def table_for_def Let_def)
  qed (use True in \<open>simp_all add: present_def\<close>)
next
  case False
  obtain f b where f: "mm_mem_kalloc s = Some (f, s\<lparr>mm_bitmap := b\<rparr>)" "f \<notin> taken_frames s" "f \<noteq> 0" "aligned f"
    "f \<in> frames MM_REQUEST_KERNEL s" "taken_frames (s\<lparr>mm_bitmap := b\<rparr>) = insert f (taken_frames s)"
    using kalloc_Some [OF fok] room False by metis
  let ?s0 = "s\<lparr>mm_bitmap := b\<rparr>"
  have fp: "f \<noteq> pdt" "aligned pdt" using f(2) dir_okD(1,2) [OF ok] by auto
  obtain s1 where s1: "install_table (pd_entry v pdt) f ?s0 = Some s1"
    "\<And>a. aligned4 a \<Longrightarrow> get32 a s1 = (if page_of a = f then 0 else if a = pd_entry v pdt then f OR 7 else get32 a ?s0)"
    "taken_frames s1 = taken_frames ?s0" "frames_ok s1 = frames_ok ?s0" "\<And>r. frames r s1 = frames r ?s0"
    by (rule install_table_spec [OF fp(2) f(4,3) fp(1), of v ?s0]) blast
  have g0: "get32 a ?s0 = get32 a s" for a by simp
  note I = dir_ok_install [OF ok f(2-4,6) g0 False s1(1)]
  have np: "attr_of (get32 (pd_entry v pdt) s) AND MM_ATTR_P = 0" using False by (simp add: present_def)
  have fr: "frames r ?s0 = frames r s" for r by (cases r) (simp_all add: frames_def zone_bits_def zone.simps)
  note e = entry_addrs(1,2,5) [OF fp(2)]
  have other: "present pdt w s1 = present pdt w s" "table_for pdt w s1 = table_for pdt w s" if "PD_ENTRY_FOR w \<noteq> PD_ENTRY_FOR v" for w
  proof -
    have "get32 (pd_entry w pdt) s1 = get32 (pd_entry w pdt) s" using s1(2) [OF e(1)] e(2,3) fp(1) that by simp
    then show "present pdt w s1 = present pdt w s" "table_for pdt w s1 = table_for pdt w s" by (simp_all add: present_def table_for_def)
  qed
  have mono: "present pdt w s1 \<and> table_for pdt w s1 = table_for pdt w s" if "present pdt w s" for w
    using other [of w] dir_at [of w v pdt s] that False by blast
  have older: "present pdt w s1 \<Longrightarrow> present pdt w s \<or> PD_ENTRY_FOR w = PD_ENTRY_FOR v" for w using other [of w] by blast
  have "keeps {pdt, f} s s1" by (rule keeps_words) (use I(7) in auto)
  then have k: "keeps {pdt, table_for pdt v s1} s s1" "table_for pdt v s1 \<notin> taken_frames s" using I(5) f(2) by simp_all
  have mo: "memory_only s s1"
    using s1(1) by (auto simp: install_table_def Let_def memory_only_def put32_def zero_page_def split: if_splits)
  have own: "owned pdt s1 \<subseteq> owned pdt s \<union> - taken_frames s" using I(3) f(2) by auto
  have tk: "takes_for pdt v s s1" using False f(2,5,6) s1(3) by (auto simp: takes_for_def)
  have g: "grown pdt v s s1" using I(1,4) s1(4,5) fr fok mono older k own tk mo I(3) by (auto simp: grown_def frames_ok_def)
  show thesis
  proof (rule that [OF _ g])
    show "\<forall>x. aligned v \<longrightarrow> x AND MM_ATTR_P = 0 \<longrightarrow> mm_set_pt_entry v x pdt s = Some (True, put32 (pt_slot v (table_for pdt v s1)) x s1)"
      using np f(1,3) s1(1) by (simp add: mm_set_pt_entry_def table_for_def Let_def)
  qed (use np f(1) s1(1) I(2) in simp_all)
qed

definition written :: "u32 \<Rightarrow> u32 \<Rightarrow> u32 \<Rightarrow> 'a mm_state_scheme \<Rightarrow> 'a mm_state_scheme \<Rightarrow> bool" where
  "written pdt v x s s' \<longleftrightarrow> grown pdt v s s' \<and> pte v pdt s' = x \<and> (\<forall>w. aligned w \<longrightarrow> w \<noteq> v \<longrightarrow> pte w pdt s' = pte w pdt s)"

lemma written_put:
  assumes g: "grown pdt v s s1" and same: "\<forall>w. pte w pdt s1 = pte w pdt s" and v: "aligned v"
  shows "written pdt v x s (put32 (pt_slot v (table_for pdt v s1)) x s1)"
proof -
  have g': "dir_ok pdt s1" "present pdt v s1" "frames_ok s1" "keeps {pdt, table_for pdt v s1} s s1" "owned pdt s1 \<subseteq> owned pdt s \<union> - taken_frames s"
    "takes_for pdt v s s1" "memory_only s s1" "owned pdt s \<subseteq> owned pdt s1" "\<forall>r. frames r s1 = frames r s"
    "\<forall>w. present pdt w s \<longrightarrow> present pdt w s1 \<and> table_for pdt w s1 = table_for pdt w s"
    "\<forall>w. present pdt w s1 \<longrightarrow> present pdt w s \<or> PD_ENTRY_FOR w = PD_ENTRY_FOR v" "present pdt v s \<or> table_for pdt v s1 \<notin> taken_frames s"
    using g unfolding grown_def by blast+
  let ?e = "pt_slot v (table_for pdt v s1)" and ?s = "put32 (pt_slot v (table_for pdt v s1)) x s1"
  note E = entry_change [OF g'(1,2) v, where x = x]
  have al: "aligned pdt" using dir_okD [OF g'(1)] by blast
  have ta: "aligned (table_for pdt v s1)" by (simp add: table_for_def entry_parts)
  have "get32 (pd_entry w pdt) ?s = get32 (pd_entry w pdt) s1" for w
  proof -
    have "page_of (pd_entry w pdt) \<noteq> page_of ?e" using entry_addrs(2) [OF al] entry_addrs(4) [OF ta] dir_okD(3) [OF g'(1,2)] by simp
    then show ?thesis using entry_addrs(1) [OF al] entry_addrs(3) [OF ta] by (auto simp: get_put)
  qed
  then have pr: "present pdt w ?s = present pdt w s1" "table_for pdt w ?s = table_for pdt w s1" for w
    by (simp_all add: present_def table_for_def)
  have "keeps {table_for pdt v s1} s1 ?s" using keeps_put32 [OF entry_slot(2), of v pdt s1 s1 x] entry_addrs(4) [OF ta, of v] by simp
  from keeps_trans [OF g'(4) this] have "keeps {pdt, table_for pdt v ?s} s ?s" unfolding pr by (rule keeps_mono) auto
  moreover have "memory_only s ?s" by (rule memory_only_trans [OF g'(7)]) simp
  moreover have "takes_for pdt v s ?s" using g'(6) by (simp add: takes_for_def)
  ultimately show ?thesis using E g' pr same by (simp add: written_def grown_def)
qed

lemma map_frame_written:
  assumes "frames_ok s" "dir_ok pdt s" "aligned pa" "aligned v"
    and "present pdt v s \<or> frames MM_REQUEST_KERNEL s - taken_frames s \<noteq> {}"
  obtains s1 e where "mm_map_frame pa v pdt pl s = Some s1" "mm_pt_entry_for v pdt s1 = Some e" "e \<noteq> 0" "aligned4 e"
    "get32 e s1 = pa OR map_attrs pl" "\<forall>x. written pdt v x s (put32 e x s1)" "written pdt v (pa OR map_attrs pl) s s1"
proof -
  obtain s1 where s1: "(if attr_of (get32 (pd_entry v pdt) s) AND MM_ATTR_P = 0 then do {
             (frame, s) \<leftarrow> mm_mem_kalloc s;
             install_table (pd_entry v pdt) frame s
           } else Some s) = Some s1" "grown pdt v s s1" "\<forall>w. pte w pdt s1 = pte w pdt s"
    using table_made [OF assms(1,2,5)] by blast
  let ?e = "pt_slot v (table_for pdt v s1)" and ?x = "pa OR map_attrs pl"
  have a4: "aligned4 ?e" by (rule entry_slot(2))
  have at: "(MM_ATTR_P OR MM_ATTR_RW OR (if pl = PL_KERNEL then MM_ATTR_US_S else MM_ATTR_US_U)) AND 0xFFF = map_attrs pl"
    by (simp add: map_attrs_def)
  have run: "mm_map_frame pa v pdt pl s = Some (put32 ?e ?x s1)"
    unfolding mm_map_frame_def using assms(3,4) s1(1)
    by (simp add: map_entry [OF a4 assms(3), unfolded table_for_def] at Let_def flip: table_for_def)
      (simp add: map_entry [OF a4 assms(3)] map_attrs_def)
  let ?s = "put32 ?e ?x s1"
  have d: "dir_ok pdt s1" "present pdt v s1" using s1(2) by (simp_all add: grown_def)
  note E = entry_change [OF d assms(4), where x = ?x]
  have W: "written pdt v ?x s ?s" by (rule written_put [OF s1(2,3) assms(4)])
  then have f: "frames_ok ?s" by (simp add: written_def grown_def)
  have "mm_pt_entry_for v pdt ?s = Some ?e" "?e \<noteq> 0"
    using E(6,7) table_nonzero [OF f E(2,6)] by (simp_all add: pt_entry_for_eq [OF assms(4)])
  moreover have "get32 ?e ?s = ?x" using a4 by (simp add: get_put)
  moreover have "written pdt v x s (put32 ?e x ?s)" for x using written_put [OF s1(2,3) assms(4)] by (simp add: put_put)
  ultimately show thesis using that run a4 W by blast
qed

lemma set_pt_entry_written:
  assumes "frames_ok s" "dir_ok pdt s" "aligned v" "x AND MM_ATTR_P = 0"
    and "present pdt v s \<or> frames MM_REQUEST_KERNEL s - taken_frames s \<noteq> {}"
  obtains s' where "mm_set_pt_entry v x pdt s = Some (True, s')" "written pdt v x s s'"
proof -
  obtain s1 where s1: "grown pdt v s s1" "\<forall>w. pte w pdt s1 = pte w pdt s"
    "\<forall>x. aligned v \<longrightarrow> x AND MM_ATTR_P = 0 \<longrightarrow> mm_set_pt_entry v x pdt s = Some (True, put32 (pt_slot v (table_for pdt v s1)) x s1)"
    by (rule table_made [OF assms(1,2,5)]) blast
  show thesis by (rule that [OF s1(3) [rule_format, OF assms(3,4)] written_put [OF s1(1,2) assms(3)]])
qed

subsection \<open>The entries of parent and child\<close>

definition entry_pl :: "u32 \<Rightarrow> u32" where
  "entry_pl e = (if attr_of e AND MM_ATTR_US_U \<noteq> 0 then PL_USER else PL_KERNEL)"

definition child_entry :: "u32 \<Rightarrow> u32" where
  "child_entry e =
     (if attr_of e AND MM_ATTR_P = 0 then e
      else if attr_of e AND MM_ATTR_USR_SHARED \<noteq> 0 then (base_addr e OR map_attrs (entry_pl e)) OR MM_ATTR_USR_SHARED
      else ((base_addr e OR map_attrs (entry_pl e)) OR MM_ATTR_USR_COR) AND NOT MM_ATTR_RW)"

definition parent_entry :: "u32 \<Rightarrow> u32" where
  "parent_entry e =
     (if attr_of e AND MM_ATTR_P \<noteq> 0 \<and> attr_of e AND MM_ATTR_USR_SHARED = 0 then (e OR MM_ATTR_USR_COR) AND NOT MM_ATTR_RW else e)"

text \<open>
  The state of the loops: the pages in \<open>Df\<close> have their new entry in the parent and those in
  \<open>Dc\<close> in the child, there are enough frames for the tables still missing, and no other
  memory has changed since \<open>s0\<close>.
\<close>

definition missing :: "u32 \<Rightarrow> u32 \<Rightarrow> 'a mm_state_scheme \<Rightarrow> 'a mm_state_scheme \<Rightarrow> u32 set" where
  "missing father child s0 s = PD_ENTRY_FOR ` {w. present father w s0 \<and> \<not> present child w s}"

definition fork_inv :: "u32 \<Rightarrow> u32 \<Rightarrow> 'a mm_state_scheme \<Rightarrow> u32 set \<Rightarrow> u32 set \<Rightarrow> 'a mm_state_scheme \<Rightarrow> bool" where
  "fork_inv father child s0 Df Dc s \<longleftrightarrow> frames_ok s \<and> dir_ok father s \<and> dir_ok child s \<and> owned father s = owned father s0 \<and>
     owned father s0 \<inter> alone child s = {} \<and> alone father s0 \<inter> owned child s = {} \<and> (\<forall>w. present father w s = present father w s0 \<and> table_for father w s = table_for father w s0) \<and>
     (\<forall>w. aligned w \<longrightarrow> pte w father s = (if w \<in> Df then parent_entry (pte w father s0) else pte w father s0)) \<and>
     (\<forall>w. aligned w \<longrightarrow> pte w child s = (if w \<in> Dc then child_entry (pte w father s0) else pte w child s0)) \<and>
     taken_frames s0 \<subseteq> taken_frames s \<and> (\<forall>r. frames r s = frames r s0) \<and> keeps (alone father s0 \<union> alone child s) s0 s \<and>
     owned child s \<subseteq> owned child s0 \<union> - taken_frames s0 \<and> alone child s \<subseteq> alone child s0 \<union> - taken_frames s0 \<and> memory_only s0 s \<and>
     card (missing father child s0 s) \<le> card (frames MM_REQUEST_KERNEL s - taken_frames s)"

lemma room_for:
  assumes "fork_inv father child s0 Df Dc s" "present father v s0"
  shows "present child v s \<or> frames MM_REQUEST_KERNEL s - taken_frames s \<noteq> {}"
proof (rule disjCI)
  assume "\<not> frames MM_REQUEST_KERNEL s - taken_frames s \<noteq> {}"
  then have "frames MM_REQUEST_KERNEL s - taken_frames s = {}" by simp
  moreover have "card (missing father child s0 s) \<le> card (frames MM_REQUEST_KERNEL s - taken_frames s)" using assms(1) unfolding fork_inv_def by blast
  ultimately have "card (missing father child s0 s) = 0" by (metis card.empty le_zero_eq)
  then have "missing father child s0 s = {}" by simp
  then show "present child v s" using assms(2) by (auto simp: missing_def)
qed

lemma child_step:
  assumes I: "fork_inv father child s0 Df Dc s" and v: "aligned v" "present father v s0" "PD_ENTRY_FOR v \<noteq> 0"
    and w: "written child v (child_entry (pte v father s0)) s s'"
  shows "fork_inv father child s0 Df (insert v Dc) s'"
proof -
  have i: "frames_ok s" "dir_ok father s" "owned father s = owned father s0" "owned father s0 \<inter> alone child s = {} \<and> alone father s0 \<inter> owned child s = {}"
    "\<And>w. present father w s = present father w s0" "\<And>w. table_for father w s = table_for father w s0"
    "\<And>w. aligned w \<Longrightarrow> pte w father s = (if w \<in> Df then parent_entry (pte w father s0) else pte w father s0)"
    "\<And>w. aligned w \<Longrightarrow> pte w child s = (if w \<in> Dc then child_entry (pte w father s0) else pte w child s0)"
    "taken_frames s0 \<subseteq> taken_frames s" "\<And>r. frames r s = frames r s0" "keeps (alone father s0 \<union> alone child s) s0 s"
    "owned child s \<subseteq> owned child s0 \<union> - taken_frames s0 \<and> alone child s \<subseteq> alone child s0 \<union> - taken_frames s0" "memory_only s0 s"
    "card (missing father child s0 s) \<le> card (frames MM_REQUEST_KERNEL s - taken_frames s)"
    using I unfolding fork_inv_def by blast+
  have g: "dir_ok child s'" "frames_ok s'" "present child v s'" "\<And>w. present child w s \<Longrightarrow> present child w s'"
    "\<And>r. frames r s' = frames r s" "keeps (alone child s') s s'" "owned child s' \<subseteq> owned child s \<union> - taken_frames s"
    "owned child s \<subseteq> owned child s'" "takes_for child v s s'" "memory_only s s'" "pte v child s' = child_entry (pte v father s0)"
    "\<And>w. aligned w \<Longrightarrow> w \<noteq> v \<Longrightarrow> pte w child s' = pte w child s"
    "alone child s \<subseteq> alone child s'" "alone child s' \<subseteq> alone child s \<union> - taken_frames s"
    using w grown_alone [OF _ v(3), of child s s'] unfolding written_def grown_def by blast+
  have t: "taken_frames s \<subseteq> taken_frames s'" using g(9) by (auto simp: takes_for_def split: if_splits)
  have "owned father s \<subseteq> taken_frames s" using i(2) by (simp add: dir_ok_def)
  moreover have "alone father s0 \<subseteq> owned father s0" by (rule alone_owned)
  ultimately have dj: "owned father s0 \<inter> alone child s' = {}" "alone father s0 \<inter> owned child s' = {}" using i(3,4) g(7,14) by blast+
  note F = keeps_dir [OF g(6) i(2) _ t, unfolded i(3), OF dj(1)]
  have k: "keeps (alone father s0 \<union> alone child s') s0 s'"
    by (rule keeps_mono [OF keeps_trans [OF i(11) g(6)]]) (use g(13) in auto)
  have c: "card (missing father child s0 s') \<le> card (frames MM_REQUEST_KERNEL s' - taken_frames s')"
  proof (cases "present child v s")
    case True
    have "missing father child s0 s' \<subseteq> missing father child s0 s" using g(4) by (auto simp: missing_def)
    then have "card (missing father child s0 s') \<le> card (missing father child s0 s)" by (rule card_mono [rotated]) simp
    then show ?thesis using i(14) g(5,9) True by (simp add: takes_for_def)
  next
    case False
    then obtain f where f: "f \<in> frames MM_REQUEST_KERNEL s - taken_frames s" "taken_frames s' = insert f (taken_frames s)"
      using g(9) by (auto simp: takes_for_def)
    have "PD_ENTRY_FOR v \<notin> missing father child s0 s'" using dir_at g(3) by (fastforce simp: missing_def)
    moreover have "PD_ENTRY_FOR v \<in> missing father child s0 s" using False v(2) by (auto simp: missing_def)
    moreover have "missing father child s0 s' \<subseteq> missing father child s0 s" using g(4) by (auto simp: missing_def)
    ultimately have "missing father child s0 s' \<subset> missing father child s0 s" by blast
    then have "card (missing father child s0 s') < card (missing father child s0 s)" by (rule psubset_card_mono [rotated]) simp
    moreover have "frames MM_REQUEST_KERNEL s' - taken_frames s' = (frames MM_REQUEST_KERNEL s - taken_frames s) - {f}"
      using f g(5) by auto
    then have "card (frames MM_REQUEST_KERNEL s' - taken_frames s') = card (frames MM_REQUEST_KERNEL s - taken_frames s) - 1"
      using f(1) by (simp add: card_Diff_singleton)
    ultimately show ?thesis using i(14) by linarith
  qed
  show ?thesis unfolding fork_inv_def
  proof (intro conjI allI impI)
    show "pte w father s' = (if w \<in> Df then parent_entry (pte w father s0) else pte w father s0)" if "aligned w" for w
      using F(1) i(7) [OF that] by simp
    show "pte w child s' = (if w \<in> insert v Dc then child_entry (pte w father s0) else pte w child s0)" if "aligned w" for w
      using g(11) i(8) [OF that] g(12) [OF that] by (cases "w = v") simp_all
    show "taken_frames s0 \<subseteq> taken_frames s'" using i(9) t by blast
    show "owned child s' \<subseteq> owned child s0 \<union> - taken_frames s0" using g(7) i(9,12) by blast
    show "alone child s' \<subseteq> alone child s0 \<union> - taken_frames s0" using g(14) i(9,12) by blast
    show "memory_only s0 s'" by (rule memory_only_trans [OF i(13) g(10)])
  qed (use g F i dj k c in simp_all)
qed

lemma father_step:
  assumes I: "fork_inv father child s0 Df Dc s" and v: "aligned v" "present father v s0" "PD_ENTRY_FOR v \<noteq> 0"
  shows "fork_inv father child s0 (insert v Df) Dc (put32 (pt_slot v (table_for father v s0)) (parent_entry (pte v father s0)) s)"
proof -
  have i: "frames_ok s" "dir_ok father s" "owned father s = owned father s0" "owned father s0 \<inter> alone child s = {} \<and> alone father s0 \<inter> owned child s = {}"
    "\<And>w. present father w s = present father w s0" "\<And>w. table_for father w s = table_for father w s0"
    "\<And>w. aligned w \<Longrightarrow> pte w father s = (if w \<in> Df then parent_entry (pte w father s0) else pte w father s0)"
    "\<And>w. aligned w \<Longrightarrow> pte w child s = (if w \<in> Dc then child_entry (pte w father s0) else pte w child s0)"
    "taken_frames s0 \<subseteq> taken_frames s" "\<And>r. frames r s = frames r s0" "keeps (alone father s0 \<union> alone child s) s0 s"
    "owned child s \<subseteq> owned child s0 \<union> - taken_frames s0 \<and> alone child s \<subseteq> alone child s0 \<union> - taken_frames s0" "memory_only s0 s" "dir_ok child s"
    "card (missing father child s0 s) \<le> card (frames MM_REQUEST_KERNEL s - taken_frames s)"
    using I unfolding fork_inv_def by blast+
  have pr: "present father v s" using i(5) v(2) by simp
  let ?s = "put32 (pt_slot v (table_for father v s)) (parent_entry (pte v father s0)) s"
  note E = entry_change [OF i(2) pr v(1), where x = "parent_entry (pte v father s0)"]
  have T: "table_for father v s \<in> alone father s0" using i(6) v(2,3) by (auto simp: alone_def)
  have ts: "page_of (pt_slot v (table_for father v s)) = table_for father v s" by (rule entry_addrs(4)) (simp add: table_for_def entry_parts)
  have k: "keeps {table_for father v s} s ?s" using keeps_put32 [OF entry_slot(2), of v father s s] ts by simp
  have d: "owned child s \<inter> {table_for father v s} = {}" using i(4) T by auto
  have C: "pte w child ?s = pte w child s" "present child w ?s = present child w s" "owned child ?s = owned child s" "dir_ok child ?s"
    "table_for child w ?s = table_for child w s" for w
    using keeps_dir [OF k i(14) d] by simp_all
  have Cp: "alone child ?s = alone child s" by (simp add: alone_def C)
  have "present father w ?s = present father w s" "table_for father w ?s = table_for father w s" for w
  proof -
    have al: "aligned father" using dir_okD [OF i(2)] by blast
    have ta: "aligned (table_for father v s)" by (simp add: table_for_def entry_parts)
    have "page_of (pd_entry w father) \<noteq> page_of (pt_slot v (table_for father v s))"
      using entry_addrs(2) [OF al] entry_addrs(4) [OF ta] dir_okD(3) [OF i(2) pr] by simp
    then have "get32 (pd_entry w father) ?s = get32 (pd_entry w father) s"
      using entry_addrs(1) [OF al] entry_addrs(3) [OF ta] by (auto simp: get_put)
    then show "present father w ?s = present father w s" "table_for father w ?s = table_for father w s"
      by (simp_all add: present_def table_for_def)
  qed note P = this
  have "fork_inv father child s0 (insert v Df) Dc ?s" unfolding fork_inv_def
  proof (intro conjI allI impI)
    show "pte w father ?s = (if w \<in> insert v Df then parent_entry (pte w father s0) else pte w father s0)" if "aligned w" for w
      using E(4) E(5) [OF that] i(7) [OF that] by (cases "w = v") simp_all
    show "pte w child ?s = (if w \<in> Dc then child_entry (pte w father s0) else pte w child s0)" if "aligned w" for w
      using C(1) i(8) [OF that] by simp
    show "keeps (alone father s0 \<union> alone child ?s) s0 ?s"
      by (rule keeps_mono [OF keeps_trans [OF i(11) k]]) (use T Cp in auto)
    show "memory_only s0 ?s" by (rule memory_only_trans [OF i(13)]) simp
    show "card (missing father child s0 ?s) \<le> card (frames MM_REQUEST_KERNEL ?s - taken_frames ?s)"
      using i(15) by (simp add: missing_def C)
  qed (use E C Cp P i in simp_all)
  then show ?thesis using i(6) by simp
qed

lemma father_same:
  "fork_inv father child s0 Df Dc s \<Longrightarrow> parent_entry (pte v father s0) = pte v father s0 \<Longrightarrow> fork_inv father child s0 (insert v Df) Dc s"
  unfolding fork_inv_def by (elim conjE, intro conjI) (assumption | simp)+

lemma set_clear:
  "aligned4 e \<Longrightarrow> entry_clear MM_ATTR_RW e (entry_set MM_ATTR_USR_COR e s) = put32 e ((get32 e s OR MM_ATTR_USR_COR) AND NOT MM_ATTR_RW) s"
  by (simp add: entry_set_eq entry_clear_eq get_put put_put)

lemma attr_low: "attr_of x AND MM_ATTR_P = x AND MM_ATTR_P"
  by (simp add: attr_of_def and.assoc)

lemma copy_page_step:
  assumes I: "fork_inv father child s0 D D s" and v: "v \<notin> D" "aligned v" "v \<noteq> TASK_K_STACK_ADDRESS" "present father v s0" "PD_ENTRY_FOR v \<noteq> 0"
  shows "\<exists>s'. copy_page (pt_slot v (table_for father v s0)) v child s = Some s' \<and> fork_inv father child s0 (insert v D) (insert v D) s'"
proof -
  let ?slot = "pt_slot v (table_for father v s0)" and ?e = "pte v father s0"
  have i: "frames_ok s" "dir_ok child s" using I unfolding fork_inv_def by blast+
  have entry: "get32 ?slot t = pte v father t" "present father v t" if "fork_inv father child s0 Df Dc t" for t Df Dc
    using that v(4) by (auto simp: fork_inv_def pte_def)
  have e: "get32 ?slot t = ?e" if "fork_inv father child s0 D Dc t" for t Dc
    using entry(1) [OF that] that v(1,2) by (simp add: fork_inv_def)
  note room = room_for [OF I v(4)]
  have a4: "aligned4 ?slot" by (rule entry_slot(2))
  show ?thesis
  proof (cases "attr_of ?e AND MM_ATTR_P = 0")
    case True
    then have x: "?e AND MM_ATTR_P = 0" by (simp add: attr_low)
    obtain s' where s': "mm_set_pt_entry v ?e child s = Some (True, s')" "written child v ?e s s'"
      by (rule set_pt_entry_written [OF i v(2) x room])
    have "child_entry ?e = ?e" "parent_entry ?e = ?e" using True by (simp_all add: child_entry_def parent_entry_def)
    then have "fork_inv father child s0 (insert v D) (insert v D) s'"
      using father_same child_step [OF I v(2,4,5)] s'(2) by metis
    then show ?thesis using s'(1) True e [OF I] by (simp add: copy_page_def)
  next
    case False
    obtain s1 c where s1: "mm_map_frame (base_addr ?e) v child (entry_pl ?e) s = Some s1" "mm_pt_entry_for v child s1 = Some c" "c \<noteq> 0"
      "aligned4 c" "get32 c s1 = base_addr ?e OR map_attrs (entry_pl ?e)" "\<forall>x. written child v x s (put32 c x s1)"
      "written child v (base_addr ?e OR map_attrs (entry_pl ?e)) s s1"
      by (rule map_frame_written [OF i entry_parts(5) v(2) room, of ?e "entry_pl ?e"])
    let ?s2 = "put32 c (child_entry ?e) s1"
    note C = child_step [OF I v(2,4,5) s1(6) [rule_format]]
    show ?thesis
    proof (cases "attr_of ?e AND MM_ATTR_USR_SHARED = 0")
      case True
      let ?s3 = "put32 ?slot (parent_entry ?e) ?s2"
      have "copy_page ?slot v child s = Some ?s3"
        using False True v(3) s1 e [OF I] e [OF C] a4
        by (simp add: copy_page_def set_clear child_entry_def parent_entry_def entry_pl_def Let_def)
      then show ?thesis using father_step [OF C v(2,4,5)] by blast
    next
      case sh: False
      have "copy_page ?slot v child s = Some ?s2"
        using False sh v(3) s1 e [OF I] by (simp add: copy_page_def entry_set_eq child_entry_def entry_pl_def Let_def)
      moreover have "parent_entry ?e = ?e" using sh by (simp add: parent_entry_def)
      ultimately show ?thesis using father_same [OF C] by blast
    qed
  qed
qed

text \<open>The addresses of the pages, from their two indices.\<close>

definition vpage :: "u32 \<Rightarrow> u32 \<Rightarrow> u32" where
  "vpage pde pt = push_bit 22 pde + push_bit 12 pt"

lemma vpage_parts:
  assumes "p < 1024" "q < 1024"
  shows "aligned (vpage p q)" "PD_ENTRY_FOR (vpage p q) = p" "PT_ENTRY_FOR (vpage p q) = q"
proof -
  have m: "take_bit 10 p = p" "take_bit 10 q = q" using assms small_take_bit [of p 10] small_take_bit [of q 10] by simp_all
  have b: "bit p n \<Longrightarrow> n < 10" "bit q n \<Longrightarrow> n < 10" for n
    using m by (metis bit_take_bit_iff)+
  have "\<not> bit (push_bit 22 p) n \<or> \<not> bit (push_bit 12 q) n" for n
    using b(2) [of "n - 12"] by (auto simp: bit_simps)
  then have v: "vpage p q = push_bit 22 p OR push_bit 12 q" unfolding vpage_def by (rule disjunctive_add)
  show "aligned (vpage p q)" unfolding aligned_def' v by (rule bit_word_eqI) (auto simp: bit_simps)
  show "PD_ENTRY_FOR (vpage p q) = p" unfolding PD_ENTRY_FOR_def v
    by (rule bit_word_eqI) (use b in \<open>force simp: bit_simps\<close>)
  have k: "(0x3FF000 :: u32) = push_bit 12 (mask 10)" by (simp add: mask_eq_exp_minus_1)
  show "PT_ENTRY_FOR (vpage p q) = q" unfolding PT_ENTRY_FOR_def v k
    by (rule bit_word_eqI) (use b in \<open>force simp: bit_simps\<close>)
qed

lemma vpage_of: "aligned v \<Longrightarrow> vpage (PD_ENTRY_FOR v) (PT_ENTRY_FOR v) = v"
  using page_indices vpage_parts index_small by metis

subsection \<open>The loops\<close>

definition table_pages :: "u32 \<Rightarrow> nat \<Rightarrow> u32 set" where
  "table_pages p n = (\<lambda>j. vpage p (of_nat j)) ` {n..<1024} - {TASK_K_STACK_ADDRESS}"

lemma small_word: "j < 1024 \<Longrightarrow> (of_nat j :: u32) < 1024"
  by (simp add: word_less_nat_alt unat_of_nat take_bit_nat_eq_self)

lemma copy_table_copies:
  assumes "fork_inv father child s0 D D s" and "j + n = 1024" and p: "p < 1024" "present father (vpage p 0) s0" "p \<noteq> 0"
    and "table_pages p j \<inter> D = {}" and k: "attr_of (pte TASK_K_STACK_ADDRESS father s0) AND MM_ATTR_P \<noteq> 0" "TASK_K_STACK_ADDRESS \<notin> D"
  shows "\<exists>s'. copy_table n (table_for father (vpage p 0) s0) p (of_nat j) child s = Some s' \<and>
    fork_inv father child s0 (table_pages p j \<union> D) (table_pages p j \<union> D) s'"
  using assms(1,2,6,8)
proof (induction n arbitrary: j D s)
  case 0
  then show ?case by (simp add: table_pages_def)
next
  case (Suc n)
  let ?T = "table_for father (vpage p 0) s0"
  let ?q = "of_nat j :: u32" and ?v = "vpage p (of_nat j)"
  have q: "?q < 1024" using Suc.prems(2) by (intro small_word) simp
  note V = vpage_parts [OF p(1) q]
  have at: "present father ?v s0" "table_for father ?v s0 = ?T"
    using dir_at [of ?v "vpage p 0" father s0] V(2) vpage_parts(2) [OF p(1), of 0] p(2) by simp_all
  have slot: "?T + 4 * ?q = pt_slot ?v (table_for father ?v s0)" using V(3) at(2) by (simp add: pt_slot_def)
  have nxt: "?q + 1 = of_nat (Suc j)" by simp
  have split: "table_pages p j = (if ?v = TASK_K_STACK_ADDRESS then table_pages p (Suc j) else insert ?v (table_pages p (Suc j)))"
  proof -
    have "{j..<1024} = insert j {Suc j..<1024}" using Suc.prems(2) by auto
    then have "(\<lambda>j. vpage p (of_nat j)) ` {j..<1024} = insert ?v ((\<lambda>j. vpage p (of_nat j)) ` {Suc j..<1024})" by simp
    then show ?thesis unfolding table_pages_def by auto
  qed
  have inj: "?v \<notin> table_pages p (Suc j)"
  proof
    assume "?v \<in> table_pages p (Suc j)"
    then obtain i where i: "Suc j \<le> i" "i < 1024" "?v = vpage p (of_nat i)" unfolding table_pages_def by auto
    then have "?q = of_nat i" using V(3) vpage_parts(3) [OF p(1) small_word [OF i(2)]] by metis
    then show False using i(1,2) Suc.prems(2) of_nat_inj_small [of j i] by simp
  qed
  show ?case
  proof (cases "?v = TASK_K_STACK_ADDRESS")
    case True
    have i: "pte ?v father s = pte ?v father s0" "get32 (pt_slot ?v (table_for father ?v s0)) s = pte ?v father s"
      using Suc.prems(1,4) V(1) at(1) True by (auto simp: fork_inv_def pte_def)
    have "copy_page (?T + 4 * ?q) ?v child s = Some s" using i k(1) True unfolding slot by (simp add: copy_page_def)
    moreover have "table_pages p (Suc j) \<inter> D = {}" using Suc.prems(3) split True by simp
    then obtain s' where "copy_table n ?T p (of_nat (Suc j)) child s = Some s'"
      "fork_inv father child s0 (table_pages p (Suc j) \<union> D) (table_pages p (Suc j) \<union> D) s'"
      using Suc.IH [OF Suc.prems(1) _ _ Suc.prems(4), of "Suc j"] Suc.prems(2) by auto
    ultimately show ?thesis using nxt split True by (simp add: vpage_def add.commute)
  next
    case False
    have d: "?v \<notin> D" "table_pages p (Suc j) \<inter> insert ?v D = {}" "TASK_K_STACK_ADDRESS \<notin> insert ?v D"
      using Suc.prems(3,4) split False inj by auto
    obtain s1 where s1: "copy_page (pt_slot ?v (table_for father ?v s0)) ?v child s = Some s1"
      "fork_inv father child s0 (insert ?v D) (insert ?v D) s1"
      using copy_page_step [OF Suc.prems(1) d(1) V(1) False at(1)] p(3) unfolding V(2) by blast
    obtain s' where s': "copy_table n ?T p (of_nat (Suc j)) child s1 = Some s'"
      "fork_inv father child s0 (table_pages p (Suc j) \<union> insert ?v D) (table_pages p (Suc j) \<union> insert ?v D) s'"
      using Suc.IH [OF s1(2) _ d(2,3)] Suc.prems(2) by simp blast
    have "copy_table (Suc n) ?T p ?q child s = Some s'" using s1(1) s'(1) nxt unfolding slot [symmetric] by (simp add: vpage_def add.commute)
    then show ?thesis using s'(2) split False by simp
  qed
qed

text \<open>The pages that the loop over the directory has gone through, from entry \<open>n\<close> on.\<close>

definition directory_pages :: "u32 \<Rightarrow> 'a mm_state_scheme \<Rightarrow> nat \<Rightarrow> u32 set" where
  "directory_pages father s0 n = {v. aligned v \<and> n \<le> unat (PD_ENTRY_FOR v) \<and> present father v s0} - {TASK_K_STACK_ADDRESS}"

lemma table_pages_all: "p < 1024 \<Longrightarrow> table_pages p 0 = {v. aligned v \<and> PD_ENTRY_FOR v = p} - {TASK_K_STACK_ADDRESS}"
proof -
  assume p: "p < 1024"
  have "(\<lambda>j. vpage p (of_nat j)) ` {0..<1024} = {v. aligned v \<and> PD_ENTRY_FOR v = p}"
  proof (intro equalityI subsetI)
    fix v assume "v \<in> (\<lambda>j. vpage p (of_nat j)) ` {0..<1024}"
    then show "v \<in> {v. aligned v \<and> PD_ENTRY_FOR v = p}" using vpage_parts [OF p small_word] by auto
  next
    fix v assume "v \<in> {v. aligned v \<and> PD_ENTRY_FOR v = p}"
    then have "v = vpage p (of_nat (unat (PT_ENTRY_FOR v)))" using vpage_of by auto
    moreover have "unat (PT_ENTRY_FOR v) < 1024" using index_small(2) [of v] by (simp add: word_less_nat_alt)
    ultimately show "v \<in> (\<lambda>j. vpage p (of_nat j)) ` {0..<1024}" by (intro image_eqI) auto
  qed
  then show ?thesis by (simp add: table_pages_def)
qed

lemma copy_tables_copies:
  assumes "fork_inv father child s0 D D s" and "j + n = 1024" "j \<noteq> 0"
    and "directory_pages father s0 j \<inter> D = {}" and k: "attr_of (pte TASK_K_STACK_ADDRESS father s0) AND MM_ATTR_P \<noteq> 0"
    and "TASK_K_STACK_ADDRESS \<notin> D"
  shows "\<exists>s'. copy_tables n (of_nat j) father child s = Some s' \<and>
    fork_inv father child s0 (directory_pages father s0 j \<union> D) (directory_pages father s0 j \<union> D) s'"
  using assms(1-4,6)
proof (induction n arbitrary: j D s)
  case 0
  have "unat (PD_ENTRY_FOR v) < 1024" for v using index_small(1) [of v] by (simp add: word_less_nat_alt)
  then have "directory_pages father s0 1024 = {}" by (auto simp: directory_pages_def not_le)
  then show ?case using 0 by simp
next
  case (Suc n)
  let ?p = "of_nat j :: u32"
  have p: "?p < 1024" "unat ?p = j"
    using Suc.prems(2) small_word [of j] by (simp_all add: unat_of_nat take_bit_nat_eq_self)
  have p0: "?p \<noteq> 0" using p(2) Suc.prems(3) by (metis unat_0)
  have nxt: "?p + 1 = of_nat (Suc j)" by simp
  have pd: "get32 (father + 4 * ?p) s = get32 (pd_entry (vpage ?p 0) father) s" using vpage_parts(2) [OF p(1), of 0] by (simp add: pd_entry_def)
  have same: "present father (vpage ?p 0) s = present father (vpage ?p 0) s0" "table_for father (vpage ?p 0) s = table_for father (vpage ?p 0) s0"
    using Suc.prems(1) unfolding fork_inv_def by blast+
  have ge: "j \<le> unat q \<longleftrightarrow> q = ?p \<or> Suc j \<le> unat q" for q :: u32
    using p(2) by (metis Suc_le_eq le_eq_less_or_eq unsigned_word_eqI)
  have split: "directory_pages father s0 j =
      (if present father (vpage ?p 0) s0 then table_pages ?p 0 else {}) \<union> directory_pages father s0 (Suc j)"
  proof -
    have "present father v s0 = present father (vpage ?p 0) s0" if "PD_ENTRY_FOR v = ?p" for v
      using dir_at [of v "vpage ?p 0" father s0] vpage_parts(2) [OF p(1), of 0] that by simp
    then show ?thesis by (auto simp: directory_pages_def table_pages_all [OF p(1)] ge)
  qed
  have dj: "table_pages ?p 0 \<inter> directory_pages father s0 (Suc j) = {}"
    using p(2) Suc.prems(2) by (auto simp: directory_pages_def table_pages_all [OF p(1)])
  show ?case
  proof (cases "present father (vpage ?p 0) s0")
    case True
    have "table_pages ?p 0 \<inter> D = {}" using Suc.prems(4) split True by auto
    then obtain s1 where s1: "copy_table 1024 (table_for father (vpage ?p 0) s0) ?p 0 child s = Some s1"
      "fork_inv father child s0 (table_pages ?p 0 \<union> D) (table_pages ?p 0 \<union> D) s1"
      using copy_table_copies [OF Suc.prems(1) _ p(1) True p0 _ k Suc.prems(5), of 0 1024] by auto
    have "directory_pages father s0 (Suc j) \<inter> (table_pages ?p 0 \<union> D) = {}" "TASK_K_STACK_ADDRESS \<notin> table_pages ?p 0 \<union> D"
      using dj Suc.prems(4,5) split by (auto simp: table_pages_def)
    then obtain s' where s': "copy_tables n (of_nat (Suc j)) father child s1 = Some s'"
      "fork_inv father child s0 (directory_pages father s0 (Suc j) \<union> (table_pages ?p 0 \<union> D)) (directory_pages father s0 (Suc j) \<union> (table_pages ?p 0 \<union> D)) s'"
      using Suc.IH [OF s1(2), of "Suc j"] Suc.prems(2) by auto
    have "copy_tables (Suc n) ?p father child s = Some s'"
      using s1(1) s'(1) nxt True same pd by (simp add: present_def table_for_def add.commute)
    then show ?thesis using s'(2) split True by (simp add: Un_assoc Un_left_commute)
  next
    case False
    obtain s' where s': "copy_tables n (of_nat (Suc j)) father child s = Some s'"
      "fork_inv father child s0 (directory_pages father s0 (Suc j) \<union> D) (directory_pages father s0 (Suc j) \<union> D) s'"
      using Suc.IH [OF Suc.prems(1), of "Suc j"] Suc.prems(2-5) split False by auto
    have "copy_tables (Suc n) ?p father child s = Some s'"
      using s'(1) nxt False same pd by (simp add: present_def add.commute)
    then show ?thesis using s'(2) split False by simp
  qed
qed

text \<open>C2: Forking shares the memory of the parent above the kernel's 4 MB: every page the parent
  has a table for gets in the child the same frame, writable for both when it was marked as
  shared and otherwise protected in both and marked for copy on write; a page only reserved is
  reserved in the child too. The kernel stack and the pages without a table are left alone, and
  no byte in use outside the frames of the two directories changes. The two directories may have
  the kernel's own table in common. The frames needed are one for each table of the parent.\<close>

theorem fork_shares:
  assumes "frames_ok s" and "dir_ok father s" and "dir_ok child s" and "owned father s \<inter> alone child s = {}" and "alone father s \<inter> owned child s = {}"
    and "card (missing father child s s) \<le> card (frames MM_REQUEST_KERNEL s - taken_frames s)"
    and "attr_of (pte TASK_K_STACK_ADDRESS father s) AND MM_ATTR_P \<noteq> 0"
  shows "\<exists>s'. copy_nonkernel_pages father child s = Some s' \<and> dir_ok father s' \<and> dir_ok child s' \<and>
    (\<forall>v. aligned v \<longrightarrow>
       (if PD_ENTRY_FOR v \<noteq> 0 \<and> present father v s \<and> v \<noteq> TASK_K_STACK_ADDRESS
        then pte v child s' = child_entry (pte v father s) \<and> pte v father s' = parent_entry (pte v father s)
        else pte v child s' = pte v child s \<and> pte v father s' = pte v father s)) \<and>
    (\<forall>x. page_of x \<in> taken_frames s - alone father s - alone child s \<longrightarrow> phys s' x = phys s x)"
proof -
  have I: "fork_inv father child s {} {} s" using assms by (simp add: fork_inv_def)
  obtain s' where s': "copy_tables 1023 1 father child s = Some s'"
    "fork_inv father child s (directory_pages father s 1) (directory_pages father s 1) s'"
    using copy_tables_copies [OF I, of 1 1023] assms(7) by auto
  have d: "v \<in> directory_pages father s 1 \<longleftrightarrow> PD_ENTRY_FOR v \<noteq> 0 \<and> present father v s \<and> v \<noteq> TASK_K_STACK_ADDRESS" if "aligned v" for v
  proof -
    have "1 \<le> unat (PD_ENTRY_FOR v) \<longleftrightarrow> PD_ENTRY_FOR v \<noteq> 0" by (simp add: Suc_le_eq unat_gt_0)
    then show ?thesis using that by (auto simp: directory_pages_def)
  qed
  have f: "pte v father s' = (if v \<in> directory_pages father s 1 then parent_entry (pte v father s) else pte v father s)"
    "pte v child s' = (if v \<in> directory_pages father s 1 then child_entry (pte v father s) else pte v child s)" if "aligned v" for v
    using s'(2) that by (simp_all add: fork_inv_def)
  have "keeps (alone father s \<union> alone child s') s s'" "alone child s' \<subseteq> alone child s \<union> - taken_frames s" "dir_ok father s'" "dir_ok child s'"
    using s'(2) unfolding fork_inv_def by blast+
  then show ?thesis using s'(1) f d by (intro exI [of _ s']) (auto simp: copy_nonkernel_pages_def keeps_def)
qed

text \<open>What the entries after a fork mean: the same frame in both, and a write faults unless it
  is shared.\<close>

lemma entries_after_fork:
  assumes "attr_of e AND MM_ATTR_P \<noteq> 0"
  shows "base_addr (child_entry e) = base_addr e" "base_addr (parent_entry e) = base_addr e"
    "attr_of e AND MM_ATTR_USR_SHARED = 0 \<Longrightarrow> child_entry e AND MM_ATTR_RW = 0 \<and> parent_entry e AND MM_ATTR_RW = 0 \<and>
       child_entry e AND MM_ATTR_USR_COR \<noteq> 0 \<and> parent_entry e AND MM_ATTR_USR_COR \<noteq> 0"
proof -
  have b: "base_addr (base_addr e) = base_addr e" "base_addr 0x200 = 0" "base_addr 0x400 = 0" "base_addr 3 = 0" "base_addr 7 = 0"
    by (simp_all add: base_addr_aligned entry_parts) (simp_all add: base_addr_def)
  have o: "base_addr (x OR y) = base_addr x OR base_addr y" "base_addr (x AND NOT 2) = base_addr x" for x y
  proof -
    show "base_addr (x OR y) = base_addr x OR base_addr y" by (rule bit_word_eqI) (auto simp: base_addr_def bit_simps)
    have "with_attr (attr_of x AND NOT 2) x = x AND NOT 2" using with_attr_or(2) [of x 2] by simp
    then show "base_addr (x AND NOT 2) = base_addr x" using entry_parts(1) by metis
  qed
  show "base_addr (child_entry e) = base_addr e" "base_addr (parent_entry e) = base_addr e"
    using o(2) by (auto simp: child_entry_def parent_entry_def o(1) b map_attrs_def)
  have k: "(x AND NOT 2) AND 2 = 0" "((x OR 0x400) AND NOT 2) AND 0x400 = 0x400" for x :: u32
    by (rule bit_word_eqI; auto simp: bit_simps)+
  have n: "(- 3 :: u32) = NOT 2" by simp
  show "child_entry e AND MM_ATTR_RW = 0 \<and> parent_entry e AND MM_ATTR_RW = 0 \<and>
       child_entry e AND MM_ATTR_USR_COR \<noteq> 0 \<and> parent_entry e AND MM_ATTR_USR_COR \<noteq> 0" if "attr_of e AND MM_ATTR_USR_SHARED = 0"
    using assms that k [folded n] by (auto simp: child_entry_def parent_entry_def)
qed

subsection \<open>Witnesses\<close>

text \<open>
  Process 1 (directory in frame 0) and process 2 (directory in frame 5) hold frame 2 at 4 MB,
  marked for copy on write; process 1 has a kernel stack; frame 7 is an empty directory.
\<close>

definition pair_phys :: "u32 \<Rightarrow> u8" where
  "pair_phys = st32 (0x100000 + 4 * 1) 0x101007 (st32 (0x100000 + 4 * 1021) 0x103007 (st32 (0x101000 + 4 * 0) 0x102405
     (st32 (0x103000 + 4 * 1023) 0x104003 (st32 (0x105000 + 4 * 1) 0x106007 (st32 (0x106000 + 4 * 0) 0x102405 (\<lambda>_. 0))))))"

definition pair_demo :: device_state where
  "pair_demo = dev_demo\<lparr>cur_pid := 1, phys := pair_phys, mm_bitmap := \<lambda>c. if c = 0 then 255 else 0,
     processes := (replicate MAX_PID blank_pcb)[1 := blank_pcb\<lparr>p_id := 1, p_cr3 := 0x100000\<rparr>, 2 := blank_pcb\<lparr>p_id := 2, p_cr3 := 0x105000\<rparr>]\<rparr>"

lemma pair_words:
  "aligned4 a \<Longrightarrow> get32 a pair_demo = (if a = 0x100000 + 4 * 1 then 0x101007 else if a = 0x100000 + 4 * 1021 then 0x103007
     else if a = 0x101000 + 4 * 0 then 0x102405 else if a = 0x103000 + 4 * 1023 then 0x104003
     else if a = 0x105000 + 4 * 1 then 0x106007 else if a = 0x106000 + 4 * 0 then 0x102405 else 0)"
proof -
  assume a: "aligned4 a"
  have z: "ld32 (\<lambda>_. 0) a = 0" by (simp add: ld32_def)
  have st: "ld32 (st32 b x m) a = (if a = b then x else ld32 m a)" if "aligned4 b" for b x m
    using ld32_st32_same ld32_st32_other [OF a that] by auto
  show ?thesis unfolding get32_def pair_demo_def pair_phys_def by (simp add: st z aligned4_def)
qed

lemma entry_at:
  assumes "aligned d" "aligned c" "k < 1024"
  shows "pd_entry v d = c + 4 * k \<longleftrightarrow> d = c \<and> PD_ENTRY_FOR v = k" "pt_slot v d = c + 4 * k \<longleftrightarrow> d = c \<and> PT_ENTRY_FOR v = k"
proof -
  have "d = c" if "d + 4 * i = c + 4 * k" "i < 1024" for i
    using that index_addr(1) [OF assms(1) that(2)] index_addr(1) [OF assms(2,3)] by simp
  then show "pd_entry v d = c + 4 * k \<longleftrightarrow> d = c \<and> PD_ENTRY_FOR v = k" "pt_slot v d = c + 4 * k \<longleftrightarrow> d = c \<and> PT_ENTRY_FOR v = k"
    using index_small [of v] index_inj assms(3) unfolding pd_entry_def pt_slot_def by metis+
qed

lemma pair_pages: "aligned 0x100000" "aligned 0x101000" "aligned 0x103000" "aligned 0x105000" "aligned 0x106000" "aligned 0x107000"
  by (simp_all add: aligned_def)

lemma pair_pd:
  assumes "aligned d"
  shows "get32 (pd_entry v d) pair_demo = (if d = 0x100000 \<and> PD_ENTRY_FOR v = 1 then 0x101007 else if d = 0x100000 \<and> PD_ENTRY_FOR v = 1021 then 0x103007
     else if d = 0x101000 \<and> PD_ENTRY_FOR v = 0 then 0x102405 else if d = 0x103000 \<and> PD_ENTRY_FOR v = 1023 then 0x104003
     else if d = 0x105000 \<and> PD_ENTRY_FOR v = 1 then 0x106007 else if d = 0x106000 \<and> PD_ENTRY_FOR v = 0 then 0x102405 else 0)"
    "get32 (pt_slot v d) pair_demo = (if d = 0x100000 \<and> PT_ENTRY_FOR v = 1 then 0x101007 else if d = 0x100000 \<and> PT_ENTRY_FOR v = 1021 then 0x103007
     else if d = 0x101000 \<and> PT_ENTRY_FOR v = 0 then 0x102405 else if d = 0x103000 \<and> PT_ENTRY_FOR v = 1023 then 0x104003
     else if d = 0x105000 \<and> PT_ENTRY_FOR v = 1 then 0x106007 else if d = 0x106000 \<and> PT_ENTRY_FOR v = 0 then 0x102405 else 0)"
proof -
  have k: "(1 :: u32) < 1024" "(1021 :: u32) < 1024" "(0 :: u32) < 1024" "(1023 :: u32) < 1024" by simp_all
  note at = entry_at(1) [OF assms pair_pages(1) k(1), of v] entry_at(1) [OF assms pair_pages(1) k(2), of v]
    entry_at(1) [OF assms pair_pages(2) k(3), of v] entry_at(1) [OF assms pair_pages(3) k(4), of v]
    entry_at(1) [OF assms pair_pages(4) k(1), of v] entry_at(1) [OF assms pair_pages(5) k(3), of v]
  show "get32 (pd_entry v d) pair_demo = (if d = 0x100000 \<and> PD_ENTRY_FOR v = 1 then 0x101007 else if d = 0x100000 \<and> PD_ENTRY_FOR v = 1021 then 0x103007
     else if d = 0x101000 \<and> PD_ENTRY_FOR v = 0 then 0x102405 else if d = 0x103000 \<and> PD_ENTRY_FOR v = 1023 then 0x104003
     else if d = 0x105000 \<and> PD_ENTRY_FOR v = 1 then 0x106007 else if d = 0x106000 \<and> PD_ENTRY_FOR v = 0 then 0x102405 else 0)"
    unfolding pair_words [OF entry_addrs(1) [OF assms]] at by (rule refl)
  note at = entry_at(2) [OF assms pair_pages(1) k(1), of v] entry_at(2) [OF assms pair_pages(1) k(2), of v]
    entry_at(2) [OF assms pair_pages(2) k(3), of v] entry_at(2) [OF assms pair_pages(3) k(4), of v]
    entry_at(2) [OF assms pair_pages(4) k(1), of v] entry_at(2) [OF assms pair_pages(5) k(3), of v]
  show "get32 (pt_slot v d) pair_demo = (if d = 0x100000 \<and> PT_ENTRY_FOR v = 1 then 0x101007 else if d = 0x100000 \<and> PT_ENTRY_FOR v = 1021 then 0x103007
     else if d = 0x101000 \<and> PT_ENTRY_FOR v = 0 then 0x102405 else if d = 0x103000 \<and> PT_ENTRY_FOR v = 1023 then 0x104003
     else if d = 0x105000 \<and> PT_ENTRY_FOR v = 1 then 0x106007 else if d = 0x106000 \<and> PT_ENTRY_FOR v = 0 then 0x102405 else 0)"
    unfolding pair_words [OF entry_addrs(3) [OF assms]] at by (rule refl)
qed

lemma pair_present:
  "present 0x100000 v pair_demo \<longleftrightarrow> PD_ENTRY_FOR v = 1 \<or> PD_ENTRY_FOR v = 1021"
  "PD_ENTRY_FOR v = 1 \<Longrightarrow> table_for 0x100000 v pair_demo = 0x101000" "PD_ENTRY_FOR v = 1021 \<Longrightarrow> table_for 0x100000 v pair_demo = 0x103000"
  "present 0x105000 v pair_demo \<longleftrightarrow> PD_ENTRY_FOR v = 1" "PD_ENTRY_FOR v = 1 \<Longrightarrow> table_for 0x105000 v pair_demo = 0x106000"
  "\<not> present 0x107000 v pair_demo"
  using pair_pd [OF pair_pages(1)] pair_pd [OF pair_pages(4)] pair_pd [OF pair_pages(6)]
  by (simp_all add: present_def table_for_def attr_of_def base_addr_def)

lemma pair_bitmap: "used_bit (mm_bitmap pair_demo) p \<longleftrightarrow> 0 \<le> p \<and> p < 8"
proof -
  have "bit (255 :: u8) n \<longleftrightarrow> n < 8" for n
  proof -
    have "(255 :: u8) = mask 8" by (simp add: mask_eq_exp_minus_1)
    then show ?thesis by (simp only: bit_mask_iff) auto
  qed
  moreover have "mm_bitmap pair_demo = (\<lambda>c. if c = 0 then 255 else 0)" by (simp add: pair_demo_def)
  ultimately have "used_bit (mm_bitmap pair_demo) p \<longleftrightarrow> (if p div 8 = 0 then nat (7 - p mod 8) < 8 else False)"
    by (simp only: used_bit_def) simp
  moreover have "nat (7 - p mod 8) < 8" by linarith
  moreover have "p div 8 = 0 \<longleftrightarrow> 0 \<le> p \<and> p < 8" by presburger
  ultimately show ?thesis by (simp only: if_True simp_thms split: if_splits)
qed

lemma pair_frames: "frames_ok pair_demo" "taken_frames pair_demo = frame_at ` {0..<8}"
  "8 \<le> p \<Longrightarrow> p < 768 \<Longrightarrow> frame_at p \<in> frames MM_REQUEST_KERNEL pair_demo - taken_frames pair_demo"
  "frame_at 1000 \<in> frames MM_REQUEST_USER pair_demo - taken_frames pair_demo"
proof -
  have l: "mm_bitmap_byte_len pair_demo = 256"
    by (simp add: pair_demo_def dev_demo_def drv_demo_def con_demo_def hw_demo_def demo_def Let_def)
  show ok: "frames_ok pair_demo" by (simp add: frames_ok_def l)
  have "{p \<in> {0..<2048}. used_bit (mm_bitmap pair_demo) p} = {0..<8}" by (auto simp: pair_bitmap)
  then show "taken_frames pair_demo = frame_at ` {0..<8}" by (simp add: taken_frames_def l)
  have free: "frame_at p \<in> frames r pair_demo - taken_frames pair_demo" if "p \<in> zone_bits r pair_demo" "8 \<le> p" "p < 2048" for r p
    using that taken_iff [OF ok, of p] by (auto simp: frames_def l pair_bitmap)
  show "frame_at p \<in> frames MM_REQUEST_KERNEL pair_demo - taken_frames pair_demo" if "8 \<le> p" "p < 768"
    by (rule free) (use that in \<open>simp_all add: zone_bits_def\<close>)
  show "frame_at 1000 \<in> frames MM_REQUEST_USER pair_demo - taken_frames pair_demo"
    by (rule free) (simp_all add: zone_bits_def l)
qed

lemma pair_taken: "x \<in> {0x100000, 0x101000, 0x102000, 0x103000, 0x104000, 0x105000, 0x106000, 0x107000} \<Longrightarrow> x \<in> taken_frames pair_demo"
proof -
  have "frame_at 0 = 0x100000" "frame_at 1 = 0x101000" "frame_at 2 = 0x102000" "frame_at 3 = 0x103000" "frame_at 4 = 0x104000"
    "frame_at 5 = 0x105000" "frame_at 6 = 0x106000" "frame_at 7 = 0x107000" by (simp_all add: frame_at_def)
  then have "{0x100000, 0x101000, 0x102000, 0x103000, 0x104000, 0x105000, 0x106000, 0x107000} = frame_at ` {0, 1, 2, 3, 4, 5, 6, 7}" by simp
  moreover have "{0, 1, 2, 3, 4, 5, 6, 7} \<subseteq> {0 :: int ..< 8}" by simp
  ultimately show "x \<in> {0x100000, 0x101000, 0x102000, 0x103000, 0x104000, 0x105000, 0x106000, 0x107000} \<Longrightarrow> x \<in> taken_frames pair_demo"
    unfolding pair_frames(2) by blast
qed

lemma pair_owned: "owned 0x100000 pair_demo = {0x100000, 0x101000, 0x103000}" "owned 0x105000 pair_demo = {0x105000, 0x106000}"
  "owned 0x107000 pair_demo = {0x107000}"
proof -
  have ex: "PD_ENTRY_FOR 0x400000 = 1" "PD_ENTRY_FOR 0xff7ff000 = 1021" by (simp_all add: PD_ENTRY_FOR_def)
  have "{table_for 0x100000 v pair_demo | v. PD_ENTRY_FOR v = 1 \<or> PD_ENTRY_FOR v = 1021} = {0x101000, 0x103000}"
  proof (intro equalityI subsetI)
    fix x assume "x \<in> {table_for 0x100000 v pair_demo | v. PD_ENTRY_FOR v = 1 \<or> PD_ENTRY_FOR v = 1021}"
    then obtain v where v: "x = table_for 0x100000 v pair_demo" "PD_ENTRY_FOR v = 1 \<or> PD_ENTRY_FOR v = 1021" by blast
    then show "x \<in> {0x101000, 0x103000}" using pair_present(2,3) [of v] by (elim disjE) simp_all
  next
    fix x :: u32 assume "x \<in> {0x101000, 0x103000}"
    then consider "x = table_for 0x100000 0x400000 pair_demo" | "x = table_for 0x100000 0xff7ff000 pair_demo"
      using pair_present(2) [OF ex(1)] pair_present(3) [OF ex(2)] by fastforce
    then show "x \<in> {table_for 0x100000 v pair_demo | v. PD_ENTRY_FOR v = 1 \<or> PD_ENTRY_FOR v = 1021}"
      using ex by cases blast+
  qed
  then show "owned 0x100000 pair_demo = {0x100000, 0x101000, 0x103000}" by (simp add: owned_def pair_present(1))
  have "{table_for 0x105000 v pair_demo | v. PD_ENTRY_FOR v = 1} = {0x106000}"
  proof (intro equalityI subsetI)
    fix x :: u32 assume "x \<in> {0x106000}"
    then have "x = table_for 0x105000 0x400000 pair_demo" using pair_present(5) [OF ex(1)] by simp
    then show "x \<in> {table_for 0x105000 v pair_demo | v. PD_ENTRY_FOR v = 1}" using ex(1) by blast
  qed (auto simp: pair_present(5))
  then show "owned 0x105000 pair_demo = {0x105000, 0x106000}" by (simp add: owned_def pair_present(4))
  show "owned 0x107000 pair_demo = {0x107000}" by (simp add: owned_def pair_present(6))
qed

lemma pair_dirs: "dir_ok 0x100000 pair_demo" "dir_ok 0x105000 pair_demo" "dir_ok 0x107000 pair_demo"
proof -
  note D = dir_ok_def pair_owned
  show "dir_ok 0x105000 pair_demo" using pair_taken pair_pages by (auto simp: D pair_present(4,5))
  show "dir_ok 0x107000 pair_demo" using pair_taken pair_pages by (auto simp: D pair_present(6))
  have t: "table_for 0x100000 v pair_demo = (if PD_ENTRY_FOR v = 1 then 0x101000 else 0x103000)" if "PD_ENTRY_FOR v = 1 \<or> PD_ENTRY_FOR v = 1021" for v
    using that pair_present(2,3) [of v] by auto
  show "dir_ok 0x100000 pair_demo" unfolding D
  proof (intro conjI allI impI)
    show "aligned 0x100000" by (rule pair_pages)
    show "{0x100000, 0x101000, 0x103000} \<subseteq> taken_frames pair_demo" using pair_taken by blast
    show "table_for 0x100000 v pair_demo \<noteq> 0x100000" if "present 0x100000 v pair_demo" for v
      using t [OF that [unfolded pair_present(1)]] by (simp split: if_splits)
    show "PD_ENTRY_FOR v = PD_ENTRY_FOR w"
      if "present 0x100000 v pair_demo \<and> present 0x100000 w pair_demo \<and> table_for 0x100000 v pair_demo = table_for 0x100000 w pair_demo" for v w
    proof -
      have v: "PD_ENTRY_FOR v = 1 \<or> PD_ENTRY_FOR v = 1021" "PD_ENTRY_FOR w = 1 \<or> PD_ENTRY_FOR w = 1021"
        using that by (simp_all add: pair_present(1))
      then show ?thesis using that t [OF v(1)] t [OF v(2)] by (elim disjE) (simp_all split: if_splits)
    qed
  qed
qed

lemma pair_pte: "pte 0x400000 0x100000 pair_demo = 0x102405" "pte 0xff7ff000 0x100000 pair_demo = 0x104003"
  "pte 0x400000 0x105000 pair_demo = 0x102405"
proof -
  have ex: "PD_ENTRY_FOR 0x400000 = 1" "PD_ENTRY_FOR 0xff7ff000 = 1021" "PT_ENTRY_FOR 0x400000 = 0" "PT_ENTRY_FOR 0xff7ff000 = 1023"
    by (simp_all add: PD_ENTRY_FOR_def PT_ENTRY_FOR_def)
  show "pte 0x400000 0x100000 pair_demo = 0x102405" "pte 0xff7ff000 0x100000 pair_demo = 0x104003" "pte 0x400000 0x105000 pair_demo = 0x102405"
    using pair_pd(2) [OF pair_pages(2)] pair_pd(2) [OF pair_pages(3)] pair_pd(2) [OF pair_pages(5)]
    by (simp_all add: pte_def pair_present ex)
qed

lemma pair_running: "cur_pdt pair_demo = Some 0x100000"
  "is_to_be_copied_on_write_by_other_processes 0x400000 pair_demo = Some True"
proof -
  have p: "processes pair_demo = (replicate MAX_PID blank_pcb)[1 := blank_pcb\<lparr>p_id := 1, p_cr3 := 0x100000\<rparr>, 2 := blank_pcb\<lparr>p_id := 2, p_cr3 := 0x105000\<rparr>]"
    "cur_pid pair_demo = 1" by (simp_all add: pair_demo_def)
  have at: "aget (processes pair_demo) 0 = Some blank_pcb" "aget (processes pair_demo) 1 = Some (blank_pcb\<lparr>p_id := 1, p_cr3 := 0x100000\<rparr>)"
    "aget (processes pair_demo) 2 = Some (blank_pcb\<lparr>p_id := 2, p_cr3 := 0x105000\<rparr>)"
    unfolding p by (simp_all add: aget_def nth_list_update)
  show "cur_pdt pair_demo = Some 0x100000" by (simp add: cur_pdt_def p(2) at)
  have pr: "present 0x105000 0x400000 pair_demo" by (simp add: pair_present PD_ENTRY_FOR_def)
  note S = any_other.simps(2) [of 31] any_other.simps(2) [of 30] any_other.simps(2) [of 29]
  show "is_to_be_copied_on_write_by_other_processes 0x400000 pair_demo = Some True"
    using pr pair_pte(3) table_nonzero [OF pair_frames(1) pair_dirs(2) pr] pair_pages
    by (simp add: is_to_be_copied_on_write_by_other_processes_def S [simplified] at p(2) pt_entry_for_eq aligned_def entry_slot(1) attr_of_def blank_pcb_def)
qed

theorem fork_shares_witness:
  "\<exists>s'. copy_nonkernel_pages 0x100000 0x107000 pair_demo = Some s' \<and> pte 0x400000 0x107000 s' = 0x102405 \<and> pte 0x400000 0x100000 s' = 0x102405"
proof -
  have dj: "owned 0x100000 pair_demo \<inter> alone 0x107000 pair_demo = {}" "alone 0x100000 pair_demo \<inter> owned 0x107000 pair_demo = {}"
    using pair_owned alone_owned [of "0x107000" pair_demo] alone_owned [of "0x100000" pair_demo] by auto
  have "missing 0x100000 0x107000 pair_demo pair_demo \<subseteq> {1, 1021}" by (auto simp: missing_def pair_present)
  then have "card (missing 0x100000 0x107000 pair_demo pair_demo) \<le> card {1, 1021 :: u32}" by (rule card_mono [rotated]) simp
  moreover have "card {frame_at 10, frame_at 11} \<le> card (frames MM_REQUEST_KERNEL pair_demo - taken_frames pair_demo)"
    by (rule card_mono) (use frames_finite [OF pair_frames(1)] pair_frames(3) [of 10] pair_frames(3) [of 11] in auto)
  moreover have "frame_at 10 \<noteq> frame_at 11" by (simp add: frame_at_inj)
  ultimately have c: "card (missing 0x100000 0x107000 pair_demo pair_demo) \<le> card (frames MM_REQUEST_KERNEL pair_demo - taken_frames pair_demo)"
    by simp
  have k: "attr_of (pte 0xff7ff000 0x100000 pair_demo) AND MM_ATTR_P \<noteq> 0" by (simp add: pair_pte attr_of_def)
  have v: "aligned 0x400000" "PD_ENTRY_FOR 0x400000 \<noteq> 0" "present 0x100000 0x400000 pair_demo"
    by (simp_all add: aligned_def PD_ENTRY_FOR_def pair_present)
  have "child_entry 0x102405 = 0x102405" "parent_entry 0x102405 = 0x102405"
    by (simp_all add: child_entry_def parent_entry_def attr_of_def entry_pl_def base_addr_def map_attrs_def)
  then show ?thesis using fork_shares [OF pair_frames(1) pair_dirs(1,3) dj c k] v by (fastforce simp: pair_pte)
qed

theorem copy_on_write_gives_witness:
  "\<forall>saver. \<exists>(s' :: device_state) f. mm_copy_on_write saver 0x400000 pair_demo = Some (True, s') \<and> f \<notin> taken_frames pair_demo \<and>
     pte 0x400000 0x100000 s' = f OR map_attrs PL_USER \<and> bytes_at f 4096 (phys s') = bytes_at 0x102000 4096 (phys pair_demo)"
proof
  fix saver :: "unit runner"
  have v: "aligned 0x400000" "(0x400000 :: u32) \<noteq> MM_TMP_PAGE" by (simp_all add: aligned_def)
  have e: "attr_of (pte 0x400000 0x100000 pair_demo) AND MM_ATTR_P \<noteq> 0" "base_addr (pte 0x400000 0x100000 pair_demo) = 0x102000"
    "attr_of (pte 0x400000 0x100000 pair_demo) AND MM_ATTR_US_U \<noteq> 0" by (simp_all add: pair_pte attr_of_def base_addr_def)
  have b: "base_addr (pte 0x400000 0x100000 pair_demo) \<in> taken_frames pair_demo - owned 0x100000 pair_demo"
    unfolding e pair_owned using pair_taken by simp
  have r: "present 0x100000 MM_TMP_PAGE pair_demo \<or> frames MM_REQUEST_KERNEL pair_demo - taken_frames pair_demo \<noteq> {}"
    "frames MM_REQUEST_USER pair_demo - taken_frames pair_demo \<noteq> {}" using pair_frames(3) [of 10] pair_frames(4) by auto
  from copy_on_write_gives [OF pair_frames(1) pair_dirs(1) pair_running(1) v e(1) b pair_running(2) r, where saver = saver]
  show "\<exists>(s' :: device_state) f. mm_copy_on_write saver 0x400000 pair_demo = Some (True, s') \<and> f \<notin> taken_frames pair_demo \<and>
     pte 0x400000 0x100000 s' = f OR map_attrs PL_USER \<and> bytes_at f 4096 (phys s') = bytes_at 0x102000 4096 (phys pair_demo)"
    using e unfolding e(2) by (elim exE conjE, unfold if_True) (elim exE conjE, intro exI conjI, assumption+, simp_all)
qed

subsection \<open>Two slips\<close>

text \<open>
  The test for other holders of a page to be copied takes any page that another process has at
  the same address for one, so the frame of a dying process is not released while any other
  process uses that address.
\<close>

lemma any_other_found:
  assumes "aget (processes s) (i + int j) = Some p" "p_id p \<noteq> FREE_PCB_PID" "i + int j \<noteq> cur_pid s" "test p = Some True" "j < n"
    and "\<And>q. test q \<noteq> None" "\<And>k. k < j \<Longrightarrow> aget (processes s) (i + int k) \<noteq> None"
  shows "any_other n i test s = Some True"
  using assms(1,3,5,7)
proof (induction n arbitrary: i j)
  case (Suc n)
  show ?case
  proof (cases j)
    case 0
    then show ?thesis using Suc.prems assms(2,4) by simp
  next
    case (Suc k)
    have IH: "any_other n (i + 1) test s = Some True"
      by (rule Suc.IH [of "i + 1" k]) (use Suc.prems Suc in \<open>force simp: algebra_simps\<close>)+
    obtain q where q: "aget (processes s) i = Some q" using Suc.prems(4) [of 0] Suc by auto
    obtain t where "test q = Some t" using assms(6) by blast
    then show ?thesis using IH q by auto
  qed
qed simp

lemma exit_keeps_the_frame:
  assumes "frames_ok s" "dir_ok (p_cr3 p) s" "aget (processes s) (int j) = Some p" "p_id p \<noteq> FREE_PCB_PID" "int j \<noteq> cur_pid s" "j < MAX_PID"
    and "length (processes s) = MAX_PID" "aligned (push_bit 22 pde + push_bit 12 pt)"
    and other: "attr_of (pte (push_bit 22 pde + push_bit 12 pt) (p_cr3 p) s) AND MM_ATTR_P \<noteq> 0"
    and "dir_free_pte table pde pt s = Some s'"
  shows "mm_bitmap s' = mm_bitmap s"
proof -
  let ?v = "push_bit 22 pde + push_bit 12 pt"
  have pr: "present (p_cr3 p) ?v s" using other by (intro pte_present) (auto simp: attr_of_def)
  have e: "attr_of (pte ?v (p_cr3 p) s) AND (MM_ATTR_P OR MM_ATTR_USR_COR) \<noteq> 0" "attr_of (pte ?v (p_cr3 p) s) AND NOT MM_ATTR_RW \<noteq> 0"
  proof -
    have "bit (attr_of (pte ?v (p_cr3 p) s)) 0" using other by (simp add: and1)
    then have "bit (attr_of (pte ?v (p_cr3 p) s) AND (MM_ATTR_P OR MM_ATTR_USR_COR)) 0" "bit (attr_of (pte ?v (p_cr3 p) s) AND NOT MM_ATTR_RW) 0"
      by (simp_all add: bit_simps)
    then show "attr_of (pte ?v (p_cr3 p) s) AND (MM_ATTR_P OR MM_ATTR_USR_COR) \<noteq> 0" "attr_of (pte ?v (p_cr3 p) s) AND NOT MM_ATTR_RW \<noteq> 0"
      by auto
  qed
  have "is_to_be_copied_on_write_by_other_processes ?v s = Some True"
    unfolding is_to_be_copied_on_write_by_other_processes_def
    by (rule any_other_found [where j = j and p = p])
      (use assms e table_nonzero [OF assms(1,2) pr] pr entry_slot(1) [OF pr] in \<open>simp_all add: pt_entry_for_eq aget_def\<close>)
  then show ?thesis using assms(10) by (auto simp: dir_free_pte_def Let_def put32_def split: if_splits)
qed

text \<open>
  After a program has been loaded, the page of the running process that served for the copy is
  mapped again, but writable whatever it was: a page shared with a child for copy on write is
  from then on written by both.
\<close>

lemma load_loses_copy_on_write:
  assumes "frames_ok s" "dir_ok pdt s" "aligned temp" "aligned old" "present pdt temp s" "cur_pid s \<noteq> IDLE_PID"
    and "aget (processes s) (cur_pid s) = Some p"
  shows "\<exists>s'. undo_temp_mapping_on temp old pdt s = Some s' \<and> pte temp pdt s' = old OR map_attrs (p_privilege_level p)"
proof -
  let ?s = "put32 (pt_slot temp (table_for pdt temp s)) 0 s"
  note E = entry_change [OF assms(2,5,3), where x = 0]
  have f: "frames_ok ?s" using assms(1) by simp
  obtain s' where s': "mm_map_frame old temp pdt (p_privilege_level p) ?s = Some s'" "pte temp pdt s' = old OR map_attrs (p_privilege_level p)"
    "\<forall>w. aligned w \<longrightarrow> w \<noteq> temp \<longrightarrow> pte w pdt s' = pte w pdt ?s" "dir_ok pdt s'" "frames_ok s'"
    "taken_frames ?s \<subseteq> taken_frames s'" "owned pdt s' \<subseteq> owned pdt ?s \<union> - taken_frames ?s"
    "owned pdt ?s \<subseteq> owned pdt s'" "keeps (owned pdt s') ?s s'" "cur_pdt s' = cur_pdt ?s"
    by (rule map_frame_keeps [OF f E(2) assms(4,3) disjI1 [OF E(6)], of "p_privilege_level p"])
  have "mm_unmap_page temp pdt s = Some ?s" using assms(3,5) by (simp add: mm_unmap_page_def present_def table_for_def Let_def)
  then show ?thesis using s'(1,2) assms(6,7) by (simp add: undo_temp_mapping_on_def)
qed

end
