(* ===== verification/Kernel.thy ===== *)
theory Kernel
  imports Loader
begin

section \<open>The kernel's entry points\<close>

text \<open>
  The ways into the kernel: the start (\<^verbatim>\<open>kernel/kernel.c\<close> and the registrations of the
  interrupts in \<^verbatim>\<open>kernel/debug.c\<close>, \<^verbatim>\<open>kernel/mm.c\<close>, \<^verbatim>\<open>kernel/loader.c\<close>), the
  dispatch of interrupts (\<^verbatim>\<open>kernel/isr.c\<close>), the system calls (\<^verbatim>\<open>kernel/syscalls.c\<close>, on
  both sides of the interrupt, with the printing ones of \<^verbatim>\<open>kernel/vga.c\<close>), the panic
  (\<^verbatim>\<open>kernel/debug.c\<close>) and the clocks (\<^verbatim>\<open>kernel/timer.c\<close>). The table of symbols is a
  file that the build generates; it is a field of the state. What the processor finds in
  \<^verbatim>\<open>cr2\<close> is an argument.
\<close>

record kernel_state = device_state +
  symbols :: "(u32 \<times> u8 list) list"
  in_panic :: bool
  cr0_reg :: u32
  task_reg :: u16
  tss_ss0 :: u16
  interrupts :: bool

subsection \<open>Printing for the kernel and for processes\<close>

text \<open>A format that only prints, with its strings in a list.\<close>

definition say :: "u8 list \<Rightarrow> u8 list list \<Rightarrow> u32 list \<Rightarrow> 'a hw_state_scheme \<Rightarrow> 'a hw_state_scheme option" where
  "say format strs args s =
     map_option snd (printf (\<lambda>a. if unat a < length strs then strs ! unat a else []) format args s)"

text \<open>A string of the running process.\<close>

partial_function (option) user_string :: "u32 \<Rightarrow> 'a mm_state_scheme \<Rightarrow> u8 list option" where
  "user_string v s = do {
     c \<leftarrow> user_byte v s;
     if c = 0 then Some []
     else do {
       cs \<leftarrow> user_string (v + 1) s;
       Some (c # cs)
     }
   }"

text \<open>The words of the process's stack from an address on, as many of the first \<open>n\<close> as are mapped.\<close>

fun arg_words :: "nat \<Rightarrow> u32 \<Rightarrow> 'a mm_state_scheme \<Rightarrow> u32 list" where
  "arg_words 0 v s = []"
| "arg_words (Suc n) v s = (case get_virt32 v s of None \<Rightarrow> [] | Some w \<Rightarrow> w # arg_words n (v + 4) s)"

text \<open>The arguments that a format takes as strings.\<close>

fun string_args :: "u8 list \<Rightarrow> u32 list \<Rightarrow> u32 list" where
  "string_args (c # e # format) args =
     (if c = 0 then []
      else if c = 0x25 then
        (if e = 0x73 then (case args of [] \<Rightarrow> [] | a # args \<Rightarrow> a # string_args format args)
         else if e = 0x63 \<or> e = 0x64 \<or> e = 0x75 \<or> e = 0x78 \<or> e = 0x70 then string_args format (drop 1 args)
         else string_args format args)
      else if c = 0x5C \<and> e = 0x63 then string_args (drop 2 format) args
      else string_args (e # format) args)"
| "string_args _ args = []"

text \<open>Every string a process has a format print must be mapped.\<close>

definition user_format :: "u32 \<Rightarrow> u32 \<Rightarrow> 'a mm_state_scheme \<Rightarrow> ((u32 \<Rightarrow> u8 list) \<times> u8 list \<times> u32 list) option" where
  "user_format fmt args s = do {
     format \<leftarrow> user_string fmt s;
     let ws = arg_words (length format) args s;
     kassert (\<forall>a\<in>set (string_args format ws). user_string a s \<noteq> None);
     Some ((\<lambda>a. case user_string a s of None \<Rightarrow> [] | Some t \<Rightarrow> t), format, ws)
   }"

definition print :: "registers \<Rightarrow> 'a hw_state_scheme \<Rightarrow> (registers \<times> 'a hw_state_scheme) option" where
  "print regs s = do {
     fmt \<leftarrow> get_virt32 (r_ebp regs + 8) s;
     (str, format, args) \<leftarrow> user_format fmt (r_ebp regs + 12) s;
     (ret, d) \<leftarrow> vga_printf_fixed_args str format args (display_of s);
     Some (regs\<lparr>r_eax := word_of_int ret\<rparr>, show_display d s)
   }"

definition loc_print :: "registers \<Rightarrow> 'a hw_state_scheme \<Rightarrow> (registers \<times> 'a hw_state_scheme) option" where
  "loc_print regs s = do {
     row \<leftarrow> get_virt32 (r_ebp regs + 8) s;
     col \<leftarrow> get_virt32 (r_ebp regs + 12) s;
     fmt \<leftarrow> get_virt32 (r_ebp regs + 16) s;
     (str, format, args) \<leftarrow> user_format fmt (r_ebp regs + 20) s;
     (ret, d) \<leftarrow> vga_loc_printf_fixed_args str row col format args (display_of s);
     Some (regs\<lparr>r_eax := word_of_int ret\<rparr>, show_display d s)
   }"

definition loc_print_alpha :: "registers \<Rightarrow> 'a hw_state_scheme \<Rightarrow> (registers \<times> 'a hw_state_scheme) option" where
  "loc_print_alpha regs s = do {
     row \<leftarrow> get_virt32 (r_ebp regs + 8) s;
     col \<leftarrow> get_virt32 (r_ebp regs + 12) s;
     fmt \<leftarrow> get_virt32 (r_ebp regs + 16) s;
     (str, format, args) \<leftarrow> user_format fmt (r_ebp regs + 20) s;
     (ret, d) \<leftarrow> vga_loc_alpha_printf_fixed_args str row col format args (display_of s);
     Some (regs\<lparr>r_eax := word_of_int ret\<rparr>, show_display d s)
   }"

subsection \<open>Clocks\<close>

definition clock_anim :: "u8 list" where
  "clock_anim = [0x2D, 0x5C, 0x7C, 0x2F]"

definition move_to :: "u8 \<Rightarrow> u8 \<Rightarrow> 'a hw_state_scheme \<Rightarrow> 'a hw_state_scheme" where
  "move_to x y s = s\<lparr>vga_state := (vga_state s)\<lparr>scr_x := x, scr_y := y\<rparr>\<rparr>"

definition timer_draw_clock :: "'a hw_state_scheme \<Rightarrow> 'a hw_state_scheme option" where
  "timer_draw_clock s = do {
     let old_x = scr_x (vga_state s);
     let old_y = scr_y (vga_state s);
     let s = move_to (vga_cols - 2) (vga_cols - 1) s;
     s \<leftarrow> say (0x5C # chars ''c09%c'') [] [ucast (clock_anim ! unat (timer_count s mod 4))] s;
     Some (move_to old_x old_y s)
   }"

definition timer_digital_clock :: "'a hw_state_scheme \<Rightarrow> 'a hw_state_scheme option" where
  "timer_digital_clock s = do {
     let time = timer_count s div 100;
     let old_x = scr_x (vga_state s);
     let old_y = scr_y (vga_state s);
     l \<leftarrow> ulen (time div 10) 10;
     let s = move_to (ucast ((80 :: u32) - l - 4)) 0 s;
     s \<leftarrow> say (0x5C # chars ''c0B%u.%us'') [] [time div 10, time mod 10] s;
     Some (move_to old_x old_y s)
   }"

subsection \<open>Panic\<close>

text \<open>
  The first entry of the symbol table that the address lies behind; the table is read at
  the entry after it too.
\<close>

fun find_symbol :: "nat \<Rightarrow> int \<Rightarrow> u32 \<Rightarrow> (u32 \<times> u8 list) list \<Rightarrow> (u32 \<times> u8 list option) option" where
  "find_symbol 0 i address syms = Some (0, None)"
| "find_symbol (Suc n) i address syms = do {
     e \<leftarrow> aget syms i;
     if address \<ge> fst e then do {
       e' \<leftarrow> aget syms (i + 1);
       if address < fst e' then Some (address - fst e, Some (snd e)) else find_symbol n (i + 1) address syms
     } else find_symbol n (i + 1) address syms
   }"

definition symbol_name :: "u32 \<Rightarrow> 'a kernel_state_scheme \<Rightarrow> (u32 \<times> u8 list option) option" where
  "symbol_name address s = find_symbol (length (symbols s)) 0 address (symbols s)"

definition show_cs_eip :: "u32 \<Rightarrow> u32 \<Rightarrow> 'a kernel_state_scheme \<Rightarrow> 'a kernel_state_scheme option" where
  "show_cs_eip cs eip s = do {
     s \<leftarrow> say (0x5C # chars ''c0FAt (CS:EIP) %x:%x'') [] [cs, eip] s;
     (displacement, name) \<leftarrow> symbol_name eip s;
     s \<leftarrow> (case name of None \<Rightarrow> Some s
        | Some name \<Rightarrow> if displacement > 0 then say (0x5C # chars ''c0F [%s+%u]'') [name] [0, displacement] s
                      else say (0x5C # chars ''c0F [%s]'') [name] [0] s);
     say (0x5C # chars ''c0F - privilege level %d'' @ [0x0A]) [] [cs AND 3] s
   }"

definition show_eflags :: "u32 \<Rightarrow> 'a hw_state_scheme \<Rightarrow> 'a hw_state_scheme option" where
  "show_eflags eflags s =
     say (chars ''Flags are %s%s%s%s%s%s%s%s%s(%x)'' @ [0x0A])
       (map (\<lambda>(mask, name). if eflags AND mask \<noteq> 0 then chars name else [])
         [(1, ''CF ''), (4, ''PF ''), (16, ''AF ''), (64, ''ZF ''), (128, ''SF ''), (256, ''TF ''), (512, ''IF ''), (1024, ''DF ''), (2048, ''OF '')])
       [0, 1, 2, 3, 4, 5, 6, 7, 8, eflags] s"

fun show_chars :: "nat \<Rightarrow> u8 list \<Rightarrow> 'a hw_state_scheme \<Rightarrow> 'a hw_state_scheme" where
  "show_chars n cs s = on_screen (fold (\<lambda>c d. snd (vga_putchar c d)) (take n cs)) s"

fun user_bytes :: "nat \<Rightarrow> u32 \<Rightarrow> 'a mm_state_scheme \<Rightarrow> u8 list option" where
  "user_bytes 0 v s = Some []"
| "user_bytes (Suc n) v s = do {
     c \<leftarrow> user_byte v s;
     cs \<leftarrow> user_bytes n (v + 1) s;
     Some (c # cs)
   }"

fun show_stack_lines :: "nat \<Rightarrow> u32 \<Rightarrow> 'a hw_state_scheme \<Rightarrow> 'a hw_state_scheme option" where
  "show_stack_lines 0 esp s = Some s"
| "show_stack_lines (Suc n) esp s = do {
     char_stack \<leftarrow> user_bytes 16 esp s;
     a \<leftarrow> get_virt32 esp s;
     b \<leftarrow> get_virt32 (esp + 4) s;
     c \<leftarrow> get_virt32 (esp + 8) s;
     d \<leftarrow> get_virt32 (esp + 12) s;
     s \<leftarrow> say (chars ''%p: %x %x %x %x '') [] [esp, a, b, c, d] s;
     s \<leftarrow> say [0x0A] [] [] (show_chars 16 char_stack s);
     show_stack_lines n (esp + 16) s
   }"

definition show_stack :: "u32 \<Rightarrow> 'a hw_state_scheme \<Rightarrow> 'a hw_state_scheme option" where
  "show_stack esp s = do {
     s \<leftarrow> say (0x0A # chars ''Stack'' @ [0x0A]) [] [] s;
     show_stack_lines 7 esp s
   }"

partial_function (option) show_params :: "u32 \<Rightarrow> u32 \<Rightarrow> u32 \<Rightarrow> 'a hw_state_scheme \<Rightarrow> (u32 \<times> 'a hw_state_scheme) option" where
  "show_params stack ebp param_id s =
     (if stack < ebp then do {
        w \<leftarrow> get_virt32 stack s;
        s \<leftarrow> (if param_id < 2 \<and> stack < ebp - 4 then say (chars ''%x, '') [] [w] s
          else if param_id = 2 \<and> stack < ebp - 4 then say (chars ''%x...)'' @ [0x0A]) [] [w] s
          else if param_id < 2 \<and> stack = ebp - 4 then say (chars ''%x)'' @ [0x0A]) [] [w] s
          else Some s);
        show_params (stack + 4) ebp (param_id + 1) s
      } else Some (stack, s))"

definition show_symbol :: "u8 list \<Rightarrow> u8 list \<Rightarrow> u8 list \<Rightarrow> u32 \<Rightarrow> 'a kernel_state_scheme \<Rightarrow> 'a kernel_state_scheme option" where
  "show_symbol beyond plain nameless address s = do {
     (displacement, name) \<leftarrow> symbol_name address s;
     (case name of None \<Rightarrow> say nameless [] [address] s
      | Some name \<Rightarrow> if displacement > 0 then say beyond [name] [0, displacement] s else say plain [name] [0] s)
   }"

fun show_frames :: "nat \<Rightarrow> u32 \<Rightarrow> u32 \<Rightarrow> 'a kernel_state_scheme \<Rightarrow> 'a kernel_state_scheme option" where
  "show_frames 0 stack ebp s = Some s"
| "show_frames (Suc n) stack ebp s = do {
     saved \<leftarrow> get_virt32 stack s;
     if saved < ebp then Some s
     else do {
       let ebp = saved;
       let stack = stack + 4;
       ret \<leftarrow> get_virt32 stack s;
       if ret = 0 \<or> ret = NOT 0 then say (0x09 # chars ''Invalid return address (%x)'' @ [0x0A]) [] [ret] s
       else do {
         let from = ret - 5;
         offset \<leftarrow> get_virt32 (from + 1) s;
         let dest = from + 5 + offset;
         s \<leftarrow> show_symbol (0x09 # chars ''[%s+%u]'') (0x09 # chars ''[%s]'') (0x09 # chars ''%p'') from s;
         s \<leftarrow> show_symbol (chars '' -> [%s+%u] ('') (chars '' -> [%s] ('') (chars '' -> %p ('') dest s;
         let stack = stack + 4;
         s \<leftarrow> (if stack \<ge> ebp then say (chars '')'' @ [0x0A]) [] [] s else Some s);
         (stack, s) \<leftarrow> show_params stack ebp 0 s;
         show_frames n stack ebp s
       }
     }
   }"

definition show_backtrace :: "u32 \<Rightarrow> 'a kernel_state_scheme \<Rightarrow> 'a kernel_state_scheme option" where
  "show_backtrace ebp s = do {
     s \<leftarrow> say (0x0A # chars ''Backtrace at %p'' @ [0x0A]) [] [ebp] s;
     show_frames 5 ebp ebp s
   }"

definition exp_name :: "string list" where
  "exp_name = [''Divide Error'', ''Debug Interrupt'', ''NMI Interrupt'', ''Breakpoint'', ''Interrupt on overflow'',
     ''BOUND range exceeded'', ''Invalid Opcode'', ''Device not available'', ''Double fault'', ''Coprocessor Segment Overrun'',
     ''Invalid TSS'', ''Segment not present'', ''Stack exception'', ''General protection fault'', ''Page fault'', ''Reserved'',
     ''Floating point exception'', ''Alignment check'']"

text \<open>
  The state in which the machine stops: the panic never returns. The names of the
  exceptions are read out of their array for the vectors 18 and 19.
\<close>

definition debug_kernelpanic :: "u32 \<Rightarrow> registers \<Rightarrow> 'a kernel_state_scheme \<Rightarrow> 'a kernel_state_scheme option" where
  "debug_kernelpanic cr2 regs s =
     (if in_panic s then Some s
      else do {
        let s = s\<lparr>in_panic := True\<rparr>;
        let s = on_screen vga_clear s;
        name \<leftarrow> aget exp_name (uint (r_int_no regs));
        s \<leftarrow> say (0x5C # chars ''c0CPanic caused by [%s] '') [chars name] [0] s;
        s \<leftarrow> (if r_err_code regs \<noteq> 0 then say (0x5C # chars ''c0Cwith error code %x (%d)'' @ [0x0A]) [] [r_err_code regs, r_err_code regs] s
          else say (0x5C # chars ''c0Cwith no error code'' @ [0x0A]) [] [] s);
        s \<leftarrow> (if r_int_no regs = 0xE then
            say (0x5C # chars ''c0FAt vaddr %x, CR3 is %x, code = %s %s %s %s %s'' @ [0x0A])
              (map (\<lambda>(mask, yes, no). chars (if r_err_code regs AND mask \<noteq> 0 then yes else no))
                [(1, ''P'', ''N/P''), (2, ''W'', ''R''), (4, ''U'', ''S''), (8, ''R'', ''N/R''), (16, ''F'', ''N/F'')])
              [cr2, cr3_reg s, 0, 1, 2, 3, 4] s
          else Some s);
        s \<leftarrow> show_cs_eip (r_cs regs) (r_eip regs) s;
        s \<leftarrow> show_eflags (r_eflags regs) s;
        s \<leftarrow> show_stack (if r_cs regs AND 3 \<noteq> PL_KERNEL then r_user_esp regs else r_esp regs) s;
        s \<leftarrow> show_backtrace (r_ebp regs) s;
        s \<leftarrow> say (0x0A # chars ''Registers'' @ [0x0A] @ chars ''  EAX = %x (%d), EBX = %x (%d), ECX = %x (%d)'' @ [0x0A] @
            chars ''  EDX = %x (%d), ESI = %x (%d), EDI = %x (%d)'' @ [0x0A]) []
          [r_eax regs, r_eax regs, r_ebx regs, r_ebx regs, r_ecx regs, r_ecx regs,
           r_edx regs, r_edx regs, r_esi regs, r_esi regs, r_edi regs, r_edi regs] s;
        Some (s\<lparr>interrupts := False\<rparr>)
      })"


subsection \<open>The start\<close>

abbreviation (input) CR0_PG :: u32 where "CR0_PG \<equiv> 0x80000000"
abbreviation (input) SS_TSS :: u16 where "SS_TSS \<equiv> 0x28"
abbreviation (input) SS_K_DATA :: u16 where "SS_K_DATA \<equiv> 0x10"

fun register_panic :: "nat \<Rightarrow> int \<Rightarrow> 'a hw_state_scheme \<Rightarrow> 'a hw_state_scheme option" where
  "register_panic 0 i s = Some s"
| "register_panic (Suc n) i s = do {
     s \<leftarrow> idt_register i Debug_kernelpanic PL_KERNEL s;
     register_panic n (i + 1) s
   }"

definition debug_init :: "'a hw_state_scheme \<Rightarrow> 'a hw_state_scheme option" where
  "debug_init s = do {
     s \<leftarrow> register_panic 20 0 s;
     s \<leftarrow> idt_register_asm ISR_IRQ7 (stub_addr s Spurious_master_handler) PL_KERNEL s;
     idt_register_asm ISR_IRQ15 (stub_addr s Spurious_slave_handler) PL_KERNEL s
   }"

text \<open>The start of the memory management and of the loader, with their registrations.\<close>

definition start_mm :: "mmap_entry list \<Rightarrow> 'a hw_state_scheme \<Rightarrow> 'a hw_state_scheme option" where
  "start_mm mmap_addr s = do {
     s \<leftarrow> debug_log (chars ''initializing memory management'') s;
     s \<leftarrow> mm_init mmap_addr s;
     idt_register ISR_PGFLT Page_fault_handler PL_KERNEL s
   }"

definition start_loader :: "'a hw_state_scheme \<Rightarrow> 'a hw_state_scheme option" where
  "start_loader s = do {
     s \<leftarrow> debug_log (chars ''initializing loader'') s;
     s \<leftarrow> idt_register_asm ISR_IRQ0 (stub_addr s Timer_handler) PL_KERNEL s;
     s \<leftarrow> timer_init 1193 s;
     loader_init s
   }"

definition syscalls_init :: "'a hw_state_scheme \<Rightarrow> 'a hw_state_scheme option" where
  "syscalls_init s = idt_register (int SYS_INT) Syscalls_handler PL_USER s"

definition enable_paging :: "'a kernel_state_scheme \<Rightarrow> 'a kernel_state_scheme option" where
  "enable_paging s = do {
     (kernel_page_dir, s) \<leftarrow> mm_dir_new s;
     let s = s\<lparr>cr3_reg := kernel_page_dir\<rparr>;
     let cr0 = cr0_reg s;
     let cr0 = cr0 OR CR0_PG;
     Some (s\<lparr>cr0_reg := cr0\<rparr>)
   }"

definition be_task :: "'a kernel_state_scheme \<Rightarrow> 'a kernel_state_scheme" where
  "be_task s = s\<lparr>task_reg := SS_TSS\<rparr>"

text \<open>The state in which the idle process stays until an interrupt comes.\<close>

definition go_idle :: "'a kernel_state_scheme \<Rightarrow> 'a kernel_state_scheme option" where
  "go_idle s = do {
     s \<leftarrow> debug_log (chars ''the kernel is going idle'') s;
     let s = s\<lparr>tss_ss0 := SS_K_DATA\<rparr>;
     ps \<leftarrow> aupd IDLE_PID (\<lambda>p. p\<lparr>p_esp := esp_reg s\<rparr>) (processes s);
     let s = be_task (s\<lparr>processes := ps\<rparr>);
     Some (s\<lparr>interrupts := True\<rparr>)
   }"

definition fancy_logo :: "u8 list list" where
  "fancy_logo = [
     chars ''    //   ) )                                //   ) ) //   ) )'',
     chars ''   ((         ___               __     ( ) //   / / (('' @ replicate 7 0x20,
     chars ''     '' @ [0x5C, 0x5C] @ chars ''     //   ) ) //   / / //  ) ) / / //   / /    '' @ [0x5C, 0x5C, 0x20],
     chars ''       ) ) //___/ / //   / / //      / / //   / /       ) )  '',
     chars ''((___ / / //       ((___( ( //      / / ((___/ / ((___ / /   '']"

definition set_light :: "u8 \<Rightarrow> u8" where
  "set_light attr = attr OR 0x08"

fun logo_lines :: "u8 \<Rightarrow> u8 list list \<Rightarrow> 'a hw_state_scheme \<Rightarrow> 'a hw_state_scheme option" where
  "logo_lines i [] s = Some s"
| "logo_lines i (line # lines) s = do {
     let s = s\<lparr>vga_state := (vga_state s)\<lparr>scr_attr := set_light (set_forecolor (i + 2) (scr_attr (vga_state s)))\<rparr>\<rparr>;
     s \<leftarrow> say (chars ''%s'' @ [0x0A]) [line] [0] s;
     logo_lines (i + 1) lines s
   }"

definition print_logo :: "'a hw_state_scheme \<Rightarrow> 'a hw_state_scheme option" where
  "print_logo s = do {
     s \<leftarrow> logo_lines 0 fancy_logo s;
     s \<leftarrow> say [0x0A] [] [] s;
     Some (on_screen vga_reset_colors s)
   }"

text \<open>\<^verbatim>\<open>kernel_init\<close> up to the first program.\<close>

definition kernel_start :: "mmap_entry list \<Rightarrow> 'a kernel_state_scheme \<Rightarrow> 'a kernel_state_scheme option" where
  "kernel_start mmap_addr s = do {
     let s = on_screen vga_init s;
     let s = gdt_init s;
     s \<leftarrow> idt_init s;
     s \<leftarrow> debug_init s;
     s \<leftarrow> start_mm mmap_addr s;
     s \<leftarrow> enable_paging s;
     s \<leftarrow> start_loader s;
     let s = sched_init s;
     s \<leftarrow> syscalls_init s;
     s \<leftarrow> device_init s;
     print_logo s
   }"

text \<open>\<open>task_init_pso\<close> is where the linker put the first program.\<close>

definition kernel_init :: "mmap_entry list \<Rightarrow> u32 \<Rightarrow> 'a kernel_state_scheme \<Rightarrow> 'a kernel_state_scheme option" where
  "kernel_init mmap_addr task_init_pso s = do {
     s \<leftarrow> kernel_start mmap_addr s;
     (pid, s) \<leftarrow> loader_load task_init_pso PL_USER s;
     go_idle s
   }"

subsection \<open>System calls\<close>

abbreviation (input) SYS_GETPID :: u32 where "SYS_GETPID \<equiv> 0"
abbreviation (input) SYS_EXIT :: u32 where "SYS_EXIT \<equiv> 1"
abbreviation (input) SYS_PALLOC :: u32 where "SYS_PALLOC \<equiv> 2"
abbreviation (input) SYS_PRINT :: u32 where "SYS_PRINT \<equiv> 3"
abbreviation (input) SYS_SLEEP :: u32 where "SYS_SLEEP \<equiv> 5"
abbreviation (input) SYS_LOCPRINT :: u32 where "SYS_LOCPRINT \<equiv> 6"
abbreviation (input) SYS_RUN :: u32 where "SYS_RUN \<equiv> 7"
abbreviation (input) SYS_FORK :: u32 where "SYS_FORK \<equiv> 8"
abbreviation (input) SYS_PIPE :: u32 where "SYS_PIPE \<equiv> 9"
abbreviation (input) SYS_SHARE_PAGE :: u32 where "SYS_SHARE_PAGE \<equiv> 10"
abbreviation (input) SYS_OPEN :: u32 where "SYS_OPEN \<equiv> 30"
abbreviation (input) SYS_CLOSE :: u32 where "SYS_CLOSE \<equiv> 31"
abbreviation (input) SYS_READ :: u32 where "SYS_READ \<equiv> 32"
abbreviation (input) SYS_WRITE :: u32 where "SYS_WRITE \<equiv> 33"
abbreviation (input) SYS_SEEK :: u32 where "SYS_SEEK \<equiv> 34"
abbreviation (input) SYS_LOCPRINTALPHA :: u32 where "SYS_LOCPRINTALPHA \<equiv> 50"

text \<open>
  What becomes of the process that entered the kernel: it goes back with these registers
  (after a sleep, when it runs again), it waits in a queue for the rest of its call, it is
  gone, or the machine has stopped.
\<close>

datatype outcome = Returns registers | Waits u32 | Ends | Halts

definition in_eax :: "registers \<Rightarrow> int \<Rightarrow> registers" where
  "in_eax regs n = regs\<lparr>r_eax := word_of_int n\<rparr>"

definition io_outcome :: "registers \<Rightarrow> io \<Rightarrow> outcome" where
  "io_outcome regs r = (case r of Done n \<Rightarrow> Returns (in_eax regs n) | Blocked k \<Rightarrow> Waits k)"

text \<open>\<open>rd\<close> reads the disk and \<open>fin\<close> ends a wait, as in \<^verbatim>\<open>run\<close>.\<close>

definition syscalls_handler :: "'a kernel_state_ext device_state_ext reader \<Rightarrow> 'a kernel_state_ext waiter \<Rightarrow> registers \<Rightarrow>
    'a kernel_state_scheme \<Rightarrow> (outcome \<times> 'a kernel_state_scheme) option" where
  "syscalls_handler rd fin regs s =
     (let saver = start_screen_saver rd fin in
      if r_eax regs = SYS_GETPID then Some (Returns (in_eax regs (getpid s)), s)
      else if r_eax regs = SYS_PALLOC then do {
        (page, s) \<leftarrow> palloc s;
        Some (Returns (regs\<lparr>r_eax := page\<rparr>), s)
      }
      else if r_eax regs = SYS_EXIT then do {
        s \<leftarrow> exit saver s;
        Some (Ends, s)
      }
      else if r_eax regs = SYS_PRINT then do {
        (regs, s) \<leftarrow> print regs s;
        Some (Returns regs, s)
      }
      else if r_eax regs = SYS_LOCPRINT then do {
        (regs, s) \<leftarrow> loc_print regs s;
        Some (Returns regs, s)
      }
      else if r_eax regs = SYS_LOCPRINTALPHA then do {
        (regs, s) \<leftarrow> loc_print_alpha regs s;
        Some (Returns regs, s)
      }
      else if r_eax regs = SYS_SLEEP then do {
        s \<leftarrow> sleep regs s;
        Some (Returns regs, s)
      }
      else if r_eax regs = SYS_OPEN then do {
        filename \<leftarrow> user_string (r_ebx regs) s;
        (fd, s) \<leftarrow> open_file rd filename (r_ecx regs) s;
        Some (Returns (in_eax regs fd), s)
      }
      else if r_eax regs = SYS_CLOSE then do {
        (r, s) \<leftarrow> close saver (sint (r_ebx regs)) s;
        Some (Returns (in_eax regs r), s)
      }
      else if r_eax regs = SYS_READ then do {
        (r, s) \<leftarrow> read_fd rd (sint (r_ebx regs)) (r_ecx regs) (r_edx regs) s;
        Some (io_outcome regs r, s)
      }
      else if r_eax regs = SYS_WRITE then do {
        (r, s) \<leftarrow> write_fd (sint (r_ebx regs)) (r_ecx regs) (r_edx regs) s;
        Some (io_outcome regs r, s)
      }
      else if r_eax regs = SYS_SEEK then do {
        (r, s) \<leftarrow> seek_fd rd (sint (r_ebx regs)) (r_ecx regs) s;
        Some (Returns (in_eax regs r), s)
      }
      else if r_eax regs = SYS_RUN then do {
        filename \<leftarrow> user_string (r_ebx regs) s;
        (r, s) \<leftarrow> run rd fin saver filename s;
        Some (Returns (in_eax regs r), s)
      }
      else if r_eax regs = SYS_FORK then do {
        (pid, s) \<leftarrow> fork s;
        Some (Returns (in_eax regs pid), s)
      }
      else if r_eax regs = SYS_PIPE then do {
        (r, s) \<leftarrow> pipe (r_ebx regs) s;
        Some (Returns (in_eax regs r), s)
      }
      else if r_eax regs = SYS_SHARE_PAGE then do {
        (r, s) \<leftarrow> share_page saver (r_ebx regs) s;
        Some (case r of Some n \<Rightarrow> Returns (in_eax regs n) | None \<Rightarrow> Ends, s)
      }
      else do {
        s \<leftarrow> say (chars ''Invalid system call! Exited'') [] [] s;
        s \<leftarrow> exit saver s;
        Some (Ends, s)
      })"

subsection \<open>Interrupts\<close>

definition run_handler :: "isr \<Rightarrow> 'a kernel_state_ext device_state_ext reader \<Rightarrow> 'a kernel_state_ext waiter \<Rightarrow> u32 \<Rightarrow> registers \<Rightarrow>
    'a kernel_state_scheme \<Rightarrow> (outcome \<times> 'a kernel_state_scheme) option" where
  "run_handler handler rd fin cr2 regs s = (case handler of
       Debug_kernelpanic \<Rightarrow> map_option (Pair Halts) (debug_kernelpanic cr2 regs s)
     | Page_fault_handler \<Rightarrow> do {
         p \<leftarrow> aget (processes s) (cur_pid s);
         if p_privilege_level p = PL_USER then do {
           (alive, s) \<leftarrow> page_fault_handler (start_screen_saver rd fin) cr2 regs s;
           Some (if alive then Returns regs else Ends, s)
         } else map_option (Pair Halts) (debug_kernelpanic cr2 regs s)
       }
     | Keyboard_handler \<Rightarrow> map_option (Pair (Returns regs)) (keyboard_handler s)
     | Com_1_3_handler \<Rightarrow> map_option (Pair (Returns regs)) (com_1_3_handler s)
     | Com_2_4_handler \<Rightarrow> map_option (Pair (Returns regs)) (com_2_4_handler s)
     | Hdd_primary_handler \<Rightarrow> map_option (Pair (Returns regs)) (hdd_primary_handler s)
     | Syscalls_handler \<Rightarrow> syscalls_handler rd fin regs s)"

definition isr_handler :: "'a kernel_state_ext device_state_ext reader \<Rightarrow> 'a kernel_state_ext waiter \<Rightarrow> u32 \<Rightarrow> registers \<Rightarrow>
    'a kernel_state_scheme \<Rightarrow> (outcome \<times> 'a kernel_state_scheme) option" where
  "isr_handler rd fin cr2 regs s = do {
     h \<leftarrow> aget (interrupt_handlers s) (uint (r_int_no regs));
     handler \<leftarrow> h;
     run_handler handler rd fin cr2 regs s
   }"

definition irq_handler :: "'a kernel_state_ext device_state_ext reader \<Rightarrow> 'a kernel_state_ext waiter \<Rightarrow> u32 \<Rightarrow> registers \<Rightarrow>
    'a kernel_state_scheme \<Rightarrow> (outcome \<times> 'a kernel_state_scheme) option" where
  "irq_handler rd fin cr2 regs s = do {
     let s = send_EOI (ucast (r_err_code regs)) s;
     h \<leftarrow> aget (interrupt_handlers s) (uint (r_int_no regs));
     handler \<leftarrow> h;
     run_handler handler rd fin cr2 regs s
   }"


subsection \<open>The library's side of a system call\<close>

text \<open>
  The instruction \<^verbatim>\<open>int $0x30\<close> of a process: the gate must be open to user level and lead
  to the stub \<^verbatim>\<open>sysint\<close>, which pushes the number, an error code of 0 and the registers and
  calls \<^verbatim>\<open>isr_handler\<close>.
\<close>

definition int_0x30 :: "'a kernel_state_ext device_state_ext reader \<Rightarrow> 'a kernel_state_ext waiter \<Rightarrow> u32 \<Rightarrow> registers \<Rightarrow>
    'a kernel_state_scheme \<Rightarrow> (outcome \<times> 'a kernel_state_scheme) option" where
  "int_0x30 rd fin cr2 regs s = do {
     g \<leftarrow> aget (idt s) 0x30;
     kassert (snd g AND 0xE000 = 0xE000);
     kassert (gate_offset g = stub_addr s Sysint);
     isr_handler rd fin cr2 (regs\<lparr>r_int_no := 0x30, r_err_code := 0\<rparr>) s
   }"

text \<open>What the library's function returns: the process's \<open>eax\<close>, or nothing yet, or never.\<close>

datatype answer = Answers u32 | Later u32 | Never

definition answer_of :: "outcome \<times> 's \<Rightarrow> answer \<times> 's" where
  "answer_of r = (case fst r of Returns regs \<Rightarrow> Answers (r_eax regs) | Waits k \<Rightarrow> Later k | _ \<Rightarrow> Never, snd r)"

type_synonym 'a library_call = "(registers \<Rightarrow> 'a kernel_state_scheme \<Rightarrow> (outcome \<times> 'a kernel_state_scheme) option) \<Rightarrow>
    registers \<Rightarrow> 'a kernel_state_scheme \<Rightarrow> (answer \<times> 'a kernel_state_scheme) option"

definition lib_getpid :: "'a library_call" where
  "lib_getpid int30 regs s = map_option answer_of (int30 (regs\<lparr>r_eax := SYS_GETPID\<rparr>) s)"

definition lib_exit :: "'a library_call" where
  "lib_exit int30 regs s = map_option answer_of (int30 (regs\<lparr>r_eax := SYS_EXIT\<rparr>) s)"

definition lib_palloc :: "'a library_call" where
  "lib_palloc int30 regs s = map_option answer_of (int30 (regs\<lparr>r_eax := SYS_PALLOC\<rparr>) s)"

definition lib_printf :: "'a library_call" where
  "lib_printf int30 regs s = map_option answer_of (int30 (regs\<lparr>r_eax := SYS_PRINT\<rparr>) s)"

definition lib_loc_printf :: "'a library_call" where
  "lib_loc_printf int30 regs s = map_option answer_of (int30 (regs\<lparr>r_eax := SYS_LOCPRINT\<rparr>) s)"

definition lib_loc_alpha_printf :: "'a library_call" where
  "lib_loc_alpha_printf int30 regs s = map_option answer_of (int30 (regs\<lparr>r_eax := SYS_LOCPRINTALPHA\<rparr>) s)"

definition lib_sleep :: "'a library_call" where
  "lib_sleep int30 regs s = map_option answer_of (int30 (regs\<lparr>r_eax := SYS_SLEEP\<rparr>) s)"

definition lib_open :: "u32 \<Rightarrow> u32 \<Rightarrow> 'a library_call" where
  "lib_open filename flags int30 regs s =
     map_option answer_of (int30 (regs\<lparr>r_eax := SYS_OPEN, r_ebx := filename, r_ecx := flags\<rparr>) s)"

definition lib_close :: "int \<Rightarrow> 'a library_call" where
  "lib_close fd int30 regs s = map_option answer_of (int30 (regs\<lparr>r_eax := SYS_CLOSE, r_ebx := word_of_int fd\<rparr>) s)"

definition lib_read :: "int \<Rightarrow> u32 \<Rightarrow> u32 \<Rightarrow> 'a library_call" where
  "lib_read fd buf sz int30 regs s =
     map_option answer_of (int30 (regs\<lparr>r_eax := SYS_READ, r_ebx := word_of_int fd, r_ecx := buf, r_edx := sz\<rparr>) s)"

definition lib_write :: "int \<Rightarrow> u32 \<Rightarrow> u32 \<Rightarrow> 'a library_call" where
  "lib_write fd buf sz int30 regs s =
     map_option answer_of (int30 (regs\<lparr>r_eax := SYS_WRITE, r_ebx := word_of_int fd, r_ecx := buf, r_edx := sz\<rparr>) s)"

definition lib_seek :: "int \<Rightarrow> u32 \<Rightarrow> 'a library_call" where
  "lib_seek fd sz int30 regs s =
     map_option answer_of (int30 (regs\<lparr>r_eax := SYS_SEEK, r_ebx := word_of_int fd, r_ecx := sz\<rparr>) s)"

definition lib_run :: "u32 \<Rightarrow> 'a library_call" where
  "lib_run filename int30 regs s = map_option answer_of (int30 (regs\<lparr>r_eax := SYS_RUN, r_ebx := filename\<rparr>) s)"

text \<open>The registers that \<^verbatim>\<open>fork\<close> saves around the interrupt come back from the stack unchanged.\<close>

definition lib_fork :: "'a library_call" where
  "lib_fork int30 regs s = map_option answer_of (int30 (regs\<lparr>r_eax := SYS_FORK\<rparr>) s)"

definition lib_pipe :: "u32 \<Rightarrow> 'a library_call" where
  "lib_pipe pipes int30 regs s = map_option answer_of (int30 (regs\<lparr>r_eax := SYS_PIPE, r_ebx := pipes\<rparr>) s)"

definition lib_share_page :: "u32 \<Rightarrow> 'a library_call" where
  "lib_share_page addr int30 regs s = map_option answer_of (int30 (regs\<lparr>r_eax := SYS_SHARE_PAGE, r_ebx := addr\<rparr>) s)"

subsection \<open>Calls arrive\<close>

lemma answer_simps [simp]:
  "answer_of (Returns regs, s) = (Answers (r_eax regs), s)" "answer_of (Waits k, s) = (Later k, s)"
  "answer_of (Ends, s) = (Never, s)" "answer_of (Halts, s) = (Never, s)"
  by (simp_all add: answer_of_def)

text \<open>What the library answers with, for a result of the kernel's function.\<close>

definition answered :: "(int \<times> 's) option \<Rightarrow> (answer \<times> 's) option" where
  "answered r = map_option (\<lambda>(n, s). (Answers (word_of_int n), s)) r"

definition answered_io :: "(io \<times> 's) option \<Rightarrow> (answer \<times> 's) option" where
  "answered_io r = map_option (\<lambda>(n, s). (case n of Done n \<Rightarrow> Answers (word_of_int n) | Blocked k \<Rightarrow> Later k, s)) r"

lemma r_eax_in_eax [simp]: "r_eax (in_eax regs n) = word_of_int n"
  by (simp add: in_eax_def)

lemma answer_of_in_eax [simp]: "answer_of (Returns (in_eax regs n), s) = (Answers (word_of_int n), s)"
  by simp

lemma answer_of_io [simp]:
  "answer_of (io_outcome regs r, s) = (case r of Done n \<Rightarrow> Answers (word_of_int n) | Blocked k \<Rightarrow> Later k, s)"
  by (cases r) (simp_all add: io_outcome_def in_eax_def)

lemma syscalls_init_opens:
  assumes "length (idt s0) = 256" "length (interrupt_handlers s0) = 256" "length (idt_handlers s0) = 256"
    and "idt_handlers s0 ! 0x30 = stub_addr s0 Sysint"
  shows "\<exists>s. syscalls_init s0 = Some s \<and>
    (\<forall>rd fin cr2 regs. int_0x30 rd fin cr2 regs s = syscalls_handler rd fin (regs\<lparr>r_int_no := 0x30, r_err_code := 0\<rparr>) s)"
proof -
  obtain e where e: "idt_register (int SYS_INT) Syscalls_handler PL_USER s0 =
      Some (s0\<lparr>interrupt_handlers := (interrupt_handlers s0)[nat (int SYS_INT) := Some Syscalls_handler], idt := (idt s0)[nat (int SYS_INT) := e]\<rparr>)"
    "gate_offset e = idt_handlers s0 ! nat (int SYS_INT)" "gate_attr e = 0xEE00"
    using idt_register_eq [OF assms(1,2,3), of PL_USER "int SYS_INT" Syscalls_handler] by auto
  have "snd e AND 0xE000 = gate_attr e AND 0xE000" by (simp add: gate_attr_def and.assoc)
  then have "snd e AND 0xE000 = 0xE000" by (simp add: e(3))
  then show ?thesis using e(1,2) assms by (simp add: syscalls_init_def int_0x30_def isr_handler_def run_handler_def aget_def)
qed


lemma answer_or_end [simp]:
  "answer_of (case r of None \<Rightarrow> Ends | Some n \<Rightarrow> Returns (f n), s) = (case r of None \<Rightarrow> Never | Some n \<Rightarrow> Answers (r_eax (f n)), s)"
  by (cases r) simp_all

definition syscall_numbers :: "u32 set" where
  "syscall_numbers = {SYS_GETPID, SYS_EXIT, SYS_PALLOC, SYS_PRINT, SYS_SLEEP, SYS_LOCPRINT, SYS_RUN, SYS_FORK, SYS_PIPE,
     SYS_SHARE_PAGE, SYS_OPEN, SYS_CLOSE, SYS_READ, SYS_WRITE, SYS_SEEK, SYS_LOCPRINTALPHA}"

lemmas library_calls = lib_getpid_def lib_exit_def lib_palloc_def lib_printf_def lib_loc_printf_def lib_loc_alpha_printf_def
  lib_sleep_def lib_open_def lib_close_def lib_read_def lib_write_def lib_seek_def lib_run_def lib_fork_def lib_pipe_def lib_share_page_def

lemma map_bind: "map_option f (Option.bind m g) = Option.bind m (\<lambda>x. map_option f (g x))"
  by (cases m) auto

lemma bind_pairs: "Option.bind m (\<lambda>(a, b). Some (f a b)) = map_option (\<lambda>(a, b). f a b) m"
  by (cases m) auto

text \<open>C7: Every function of the tasks' library that asks the kernel for something, once the system
  call interrupt is registered, runs the kernel's function of that name with the arguments it
  was called with and returns its result; a process that asks for a call that does not exist is
  told so and ended.\<close>

theorem library_calls_arrive:
  assumes "length (idt s0) = 256" "length (interrupt_handlers s0) = 256" "length (idt_handlers s0) = 256"
    and "idt_handlers s0 ! 0x30 = stub_addr s0 Sysint" and "syscalls_init s0 = Some s"
    and fd: "- (2 ^ 31) \<le> fd" "fd < 2 ^ 31"
  shows "let call = (\<lambda>f. f (int_0x30 rd fin cr2) regs s); saver = start_screen_saver rd fin in
    call lib_getpid = answered (Some (getpid s, s)) \<and>
    call lib_palloc = map_option (\<lambda>(page, s). (Answers page, s)) (palloc s) \<and>
    call (lib_open filename flags) = Option.bind (user_string filename s) (\<lambda>f. answered (open_file rd f flags s)) \<and>
    call (lib_close fd) = answered (close saver fd s) \<and>
    call (lib_read fd buf sz) = answered_io (read_fd rd fd buf sz s) \<and>
    call (lib_write fd buf sz) = answered_io (write_fd fd buf sz s) \<and>
    call (lib_seek fd sz) = answered (seek_fd rd fd sz s) \<and>
    call (lib_run filename) = Option.bind (user_string filename s) (\<lambda>f. answered (run rd fin saver f s)) \<and>
    call lib_fork = answered (fork s) \<and>
    call (lib_pipe buf) = answered (pipe buf s) \<and>
    call (lib_share_page buf) = map_option (\<lambda>(r, s). (case r of None \<Rightarrow> Never | Some n \<Rightarrow> Answers (word_of_int n), s)) (share_page saver buf s) \<and>
    call lib_exit = map_option (Pair Never) (exit saver s) \<and>
    map_option snd (call lib_sleep) = sleep regs s \<and>
    call lib_printf = map_option (\<lambda>(regs, s). (Answers (r_eax regs), s)) (print regs s) \<and>
    call lib_loc_printf = map_option (\<lambda>(regs, s). (Answers (r_eax regs), s)) (loc_print regs s) \<and>
    call lib_loc_alpha_printf = map_option (\<lambda>(regs, s). (Answers (r_eax regs), s)) (loc_print_alpha regs s) \<and>
    (r_eax regs \<notin> syscall_numbers \<longrightarrow> int_0x30 rd fin cr2 regs s =
       Option.bind (say (chars ''Invalid system call! Exited'') [] [] s) (\<lambda>s. map_option (Pair Ends) (exit saver s)))"
proof -
  have i: "int_0x30 rd fin cr2 regs s = syscalls_handler rd fin (regs\<lparr>r_int_no := 0x30, r_err_code := 0\<rparr>) s" for regs
    using syscalls_init_opens [OF assms(1,2,3,4)] assms(5) by auto
  have w: "sint (word_of_int fd :: u32) = fd" using fd by (intro sint_of_int_small) auto
  show ?thesis unfolding Let_def
    by (intro conjI)
      (simp_all add: library_calls i syscalls_handler_def answered_def answered_io_def w map_bind bind_pairs option.map_comp
        comp_def case_prod_unfold sleep_def print_def loc_print_def loc_print_alpha_def syscall_numbers_def Let_def
        map_conv_bind_option cong: option.case_cong split: option.splits)
qed


subsection \<open>Witnesses\<close>

definition kernel_demo :: kernel_state where
  "kernel_demo = device_state.extend dev_demo (kernel_state.fields [(0x1000, chars ''start''), (0x1200, chars ''stop''), (0x1300, [])] False 0 0 0 False)"

lemma kernel_demo_fields:
  "length (idt kernel_demo) = 256" "length (interrupt_handlers kernel_demo) = 256" "length (idt_handlers kernel_demo) = 256"
  "idt_handlers kernel_demo ! 0x30 = stub_addr kernel_demo Sysint" "cur_pid kernel_demo = 1" "devices kernel_demo = devices dev_demo"
  by (simp_all add: kernel_demo_def device_state.defs kernel_state.defs dev_demo_def drv_demo_def con_demo_def hw_demo_def demo_def Let_def)

theorem library_calls_arrive_witness:
  "\<exists>s. syscalls_init kernel_demo = Some s \<and>
     (\<forall>rd fin cr2 regs. lib_getpid (int_0x30 rd fin cr2) regs s = Some (Answers 1, s) \<and>
        lib_read 5 0x400000 3 (int_0x30 rd fin cr2) regs s = Some (Answers (- 2), s))"
proof -
  obtain s where s: "syscalls_init kernel_demo = Some s" using syscalls_init_opens [OF kernel_demo_fields(1-4)] by blast
  have k: "getpid s = 1" "read_fd rd 5 0x400000 3 s = Some (Done (- 2), s)" for rd
    using s kernel_demo_fields(5,6)
    by (auto simp: syscalls_init_def idt_register_def aupd_def aget_def getpid_def read_fd_def fd_slot_def dev_demo_fields Let_def)
  have "lib_getpid (int_0x30 rd fin cr2) regs s = Some (Answers 1, s) \<and>
     lib_read 5 0x400000 3 (int_0x30 rd fin cr2) regs s = Some (Answers (- 2), s)" for rd fin cr2 regs
    using library_calls_arrive [OF kernel_demo_fields(1-4) s, where fd = 5 and rd = rd and fin = fin and ?cr2.0 = cr2 and regs = regs and
        buf = "0x400000" and sz = 3 and filename = 0 and flags = 0, unfolded Let_def]
    by (simp add: k answered_def answered_io_def)
  then show ?thesis using s by blast
qed

end
