(* ===== verification/Boot.thy ===== *)
theory Boot
  imports Kernel
begin

section \<open>What the start of the kernel leaves behind\<close>

text \<open>
  The start of the kernel (\<^verbatim>\<open>kernel_init\<close> in \<^verbatim>\<open>kernel/kernel.c\<close>) up to the first
  program: every step is followed for the entries of the interrupt table and for the free
  frames that it needs, so that the start is shown to run through and the final table is known
  entry by entry.
\<close>

subsection \<open>Entries of the interrupt table\<close>

definition kernel_gate :: "u32 \<Rightarrow> u32 \<times> u32" where
  "kernel_gate offset = make_idt_entry offset SS_K_CODE (IDT_INT OR IDT_ATTR_DPL0)"

definition user_gate :: "u32 \<Rightarrow> u32 \<times> u32" where
  "user_gate offset = make_idt_entry offset SS_K_CODE (IDT_INT OR IDT_ATTR_DPL3)"

text \<open>The tables of \<open>s\<close> after these registrations, the other facts of the machine as at \<open>o\<close>.\<close>

definition wired :: "(nat \<times> isr) list \<Rightarrow> (nat \<times> (u32 \<times> u32)) list \<Rightarrow> u32 list \<Rightarrow> (asm_stub \<Rightarrow> u32) \<Rightarrow> nat \<Rightarrow> 'a hw_state_scheme \<Rightarrow> bool" where
  "wired H G stubs at np s \<longleftrightarrow> idt s = fold (\<lambda>(k, g) t. t[k := g]) G (replicate 256 (0, 0)) \<and>
     interrupt_handlers s = fold (\<lambda>(k, h) hs. hs[k := Some h]) H (replicate 256 None) \<and>
     idt_handlers s = stubs \<and> length stubs = 256 \<and> stub_addr s = at \<and> length (processes s) = np"

lemma length_fold_upd [simp]: "length (fold (\<lambda>(k, g) t. t[k := f g]) G t) = length t"
  by (induction G arbitrary: t) auto

lemma nth_fold_upd: "n < length t \<Longrightarrow> fold (\<lambda>(k, g) t. t[k := f g]) G t ! n = (case map_of (rev G) n of None \<Rightarrow> t ! n | Some g \<Rightarrow> f g)"
  by (induction G arbitrary: t rule: rev_induct) (auto simp: nth_list_update)

lemma wired_lengths: "wired H G stubs at np s \<Longrightarrow> length (idt s) = 256 \<and> length (interrupt_handlers s) = 256 \<and> length (idt_handlers s) = 256"
  using length_fold_upd [of "\<lambda>g. g" G] length_fold_upd [of Some H] by (simp add: wired_def)

lemma wired_register:
  assumes "wired H G stubs at np s" "0 \<le> i" "i < 256"
  shows "\<exists>s'. idt_register i h PL_KERNEL s = Some s' \<and> wired (H @ [(nat i, h)]) (G @ [(nat i, kernel_gate (stubs ! nat i))]) stubs at np s'"
    and "\<exists>s'. idt_register i h PL_USER s = Some s' \<and> wired (H @ [(nat i, h)]) (G @ [(nat i, user_gate (stubs ! nat i))]) stubs at np s'"
    and "\<exists>s'. idt_register_asm i stub PL_KERNEL s = Some s' \<and> wired H (G @ [(nat i, kernel_gate stub)]) stubs at np s'"
  using assms wired_lengths [OF assms(1)]
  by (simp_all add: idt_register_def idt_register_asm_def aupd_def aget_def kernel_gate_def user_gate_def wired_def)

lemma wired_register_panic:
  "wired H G stubs at np s \<Longrightarrow> 0 \<le> i \<Longrightarrow> i + int n \<le> 256 \<Longrightarrow> \<exists>s'. register_panic n i s = Some s' \<and>
    wired (H @ map (\<lambda>k. (k, Debug_kernelpanic)) [nat i..<nat i + n]) (G @ map (\<lambda>k. (k, kernel_gate (stubs ! k))) [nat i..<nat i + n]) stubs at np s'"
proof (induction n arbitrary: H G i s)
  case (Suc n)
  obtain s1 where s1: "idt_register i Debug_kernelpanic PL_KERNEL s = Some s1"
    "wired (H @ [(nat i, Debug_kernelpanic)]) (G @ [(nat i, kernel_gate (stubs ! nat i))]) stubs at np s1"
    using wired_register(1) [OF Suc.prems(1,2), of Debug_kernelpanic] Suc.prems(3) by auto
  have u: "[nat i..<nat i + Suc n] = nat i # [nat (i + 1)..<nat (i + 1) + n]"
    using Suc.prems(2) by (simp add: upt_conv_Cons nat_add_distrib)
  have "\<exists>s'. register_panic n (i + 1) s1 = Some s' \<and> wired ((H @ [(nat i, Debug_kernelpanic)]) @ map (\<lambda>k. (k, Debug_kernelpanic)) [nat (i + 1)..<nat (i + 1) + n])
      ((G @ [(nat i, kernel_gate (stubs ! nat i))]) @ map (\<lambda>k. (k, kernel_gate (stubs ! k))) [nat (i + 1)..<nat (i + 1) + n]) stubs at np s'"
    by (rule Suc.IH [OF s1(2)]) (use Suc.prems(2,3) in auto)
  then show ?case unfolding u using s1(1) by (simp del: upt_Suc)
qed simp

text \<open>What leaves the tables alone.\<close>

lemma wired_same:
  "wired H G stubs at np s \<Longrightarrow> idt s' = idt s \<Longrightarrow> interrupt_handlers s' = interrupt_handlers s \<Longrightarrow> idt_handlers s' = idt_handlers s \<Longrightarrow>
   stub_addr s' = stub_addr s \<Longrightarrow> length (processes s') = length (processes s) \<Longrightarrow> wired H G stubs at np s'"
  by (simp add: wired_def)

lemma wired_show [simp]: "wired H G stubs at np (show_display d s) = wired H G stubs at np s"
  by (simp add: wired_def show_display_def)

lemma wired_vga [simp]: "wired H G stubs at np (s\<lparr>vga_state := v\<rparr>) = wired H G stubs at np s"
  by (simp add: wired_def)

lemma wired_port [simp]: "wired H G stubs at np (port_out p v s) = wired H G stubs at np s"
  by (simp add: wired_def port_out_def)

lemma wired_unmask [simp]: "wired H G stubs at np (pic_clear_irq_mask irq s) = wired H G stubs at np s"
  by (simp add: wired_def port_out_def pic_clear_irq_mask_def inb_def Let_def split: prod.splits)

lemma wired_log: "wired H G stubs at np s \<Longrightarrow> \<exists>s'. debug_log m s = Some s' \<and> wired H G stubs at np s'"
  using debug_log_logs [of m s] by auto

lemma wired_devices [simp]:
  "wired H G stubs at np (upd_serial i f1 s1) = wired H G stubs at np s1" "wired H G stubs at np (upd_hdd i f2 s2) = wired H G stubs at np s2"
  "wired H G stubs at np (s3\<lparr>consoles := v3\<rparr>) = wired H G stubs at np s3" "wired H G stubs at np (s3\<lparr>current := v4\<rparr>) = wired H G stubs at np s3"
  "wired H G stubs at np (s3\<lparr>screen_saver_path := v5\<rparr>) = wired H G stubs at np s3"
  "wired H G stubs at np (proc_init s6) = wired H G stubs at np s6" "wired H G stubs at np (pipe_init s7) = wired H G stubs at np s7"
  "wired H G stubs at np (ext2_create dev s8) = wired H G stubs at np s8" "wired H G stubs at np (init_fd_association s9) = wired H G stubs at np s9"
  by (simp_all add: wired_def upd_serial_def upd_hdd_def proc_init_def pipe_init_def ext2_create_def init_fd_association_def)


subsection \<open>The steps of the start\<close>

lemma say_defined:
  assumes "\<And>str d. \<exists>r. printf_loop False str format args 0 d = Some r"
  shows "\<exists>d. say format strs args s = Some (show_display d s)"
proof -
  let ?str = "\<lambda>a. if unat a < length strs then strs ! unat a else []"
  obtain n d where "printf_loop False ?str format args 0 (display_of s) = Some (n, d)" using assms [of ?str "display_of s"] by auto
  then show ?thesis by (auto simp: say_def printf_def vga_printf_def vga_printf_fixed_args_def)
qed

lemma say_shows: "\<exists>d. say (chars ''%s'' @ [0x0A]) [line] [0] s = Some (show_display d s)" "\<exists>d. say [0x0A] [] [] s = Some (show_display d s)"
proof -
  have "\<exists>r. printf_loop False str (chars ''%s'' @ [0x0A]) [0] 0 d = Some r" for str d
    by (simp add: chars_def) (subst printf_loop.simps, simp)+
  then show "\<exists>d. say (chars ''%s'' @ [0x0A]) [line] [0] s = Some (show_display d s)" by (rule say_defined)
  have "\<exists>r. printf_loop False str [0x0A] [] 0 d = Some r" for str d by (subst printf_loop.simps, simp)+
  then show "\<exists>d. say [0x0A] [] [] s = Some (show_display d s)" by (rule say_defined)
qed

lemma wired_logo_lines: "wired H G stubs at np s \<Longrightarrow> \<exists>s'. logo_lines i lines s = Some s' \<and> wired H G stubs at np s'"
proof (induction lines arbitrary: i s)
  case (Cons line lines)
  let ?s = "s\<lparr>vga_state := (vga_state s)\<lparr>scr_attr := set_light (set_forecolor (i + 2) (scr_attr (vga_state s)))\<rparr>\<rparr>"
  obtain d where d: "say (chars ''%s'' @ [0x0A]) [line] [0] ?s = Some (show_display d ?s)" using say_shows(1) by blast
  have "wired H G stubs at np (show_display d ?s)" using Cons.prems by simp
  then show ?case using Cons.IH d by simp
qed simp

lemma wired_print_logo: "wired H G stubs at np s \<Longrightarrow> \<exists>s'. print_logo s = Some s' \<and> wired H G stubs at np s'"
proof -
  assume "wired H G stubs at np s"
  then obtain s1 where s1: "logo_lines 0 fancy_logo s = Some s1" "wired H G stubs at np s1" using wired_logo_lines by blast
  obtain d where "say [0x0A] [] [] s1 = Some (show_display d s1)" using say_shows(2) by blast
  then show ?thesis using s1 by (simp add: print_logo_def on_screen_def)
qed

lemma wired_idt_init:
  assumes "length (idt_handlers s) = 256" "interrupt_handlers s = replicate 256 None"
  shows "\<exists>s'. idt_init s = Some s' \<and>
    wired [] [] (fold (\<lambda>(k, stub) hs. hs[k := stub_addr s stub]) idt_stubs (idt_handlers s)) (stub_addr s) (length (processes s)) s'"
proof -
  obtain d where d: "debug_log (chars ''initializing interrupt handling'') s = Some (show_display d s)" using debug_log_logs by blast
  show ?thesis using assms
    by (simp add: idt_init_def d wired_def pic_reset_def port_out_def show_display_def Let_def)
qed

lemma wired_debug_init:
  assumes "wired [] [] stubs at np s"
  shows "\<exists>s'. debug_init s = Some s' \<and> wired (map (\<lambda>k. (k, Debug_kernelpanic)) [0..<20])
    (map (\<lambda>k. (k, kernel_gate (stubs ! k))) [0..<20] @
      [(0x27, kernel_gate (at Spurious_master_handler)), (0x2F, kernel_gate (at Spurious_slave_handler))]) stubs at np s'"
proof -
  obtain s1 where s1: "register_panic 20 0 s = Some s1"
    "wired ([] @ map (\<lambda>k. (k, Debug_kernelpanic)) [nat 0..<nat 0 + 20]) ([] @ map (\<lambda>k. (k, kernel_gate (stubs ! k))) [nat 0..<nat 0 + 20]) stubs at np s1"
    using wired_register_panic [OF assms, of 0 20] by auto
  obtain s2 where s2: "idt_register_asm ISR_IRQ7 (at Spurious_master_handler) PL_KERNEL s1 = Some s2"
    "wired (map (\<lambda>k. (k, Debug_kernelpanic)) [0..<20])
      (map (\<lambda>k. (k, kernel_gate (stubs ! k))) [0..<20] @ [(0x27, kernel_gate (at Spurious_master_handler))]) stubs at np s2"
    using wired_register(3) [OF s1(2), of ISR_IRQ7 "at Spurious_master_handler"] by (auto simp del: upt_rec_numeral)
  obtain s3 where s3: "idt_register_asm ISR_IRQ15 (at Spurious_slave_handler) PL_KERNEL s2 = Some s3"
    "wired (map (\<lambda>k. (k, Debug_kernelpanic)) [0..<20]) ((map (\<lambda>k. (k, kernel_gate (stubs ! k))) [0..<20] @
      [(0x27, kernel_gate (at Spurious_master_handler))]) @ [(0x2F, kernel_gate (at Spurious_slave_handler))]) stubs at np s3"
    using wired_register(3) [OF s2(2), of ISR_IRQ15 "at Spurious_slave_handler"] by (auto simp del: upt_rec_numeral)
  have a: "stub_addr s1 = at" "stub_addr s2 = at" using s1(2) s2(2) by (simp_all add: wired_def)
  show ?thesis using s1(1) s2(1) s3 by (simp add: debug_init_def a del: upt_rec_numeral)
qed


subsection \<open>Memory for the kernel\<close>

text \<open>The pages of the kernel's zone that the boot code finds free.\<close>

definition kernel_pages :: "mmap_entry list \<Rightarrow> int set" where
  "kernel_pages es = {p \<in> {0..<768}. \<not> p * PAGE_SIZE < boot_len es \<and> \<not> (\<exists>e\<in>set (seen_entries es). reserved e \<and> p \<in> region_pages e)}"

text \<open>The memory map lets the boot code build its bitmap, and leaves two pages for the kernel.\<close>

definition map_ok :: "mmap_entry list \<Rightarrow> bool" where
  "map_ok es \<longleftrightarrow> 96 \<le> boot_len es \<and> boot_len es \<le> 65536 \<and> unat (mm_mmap_last_valid_entry es) < length es \<and>
     (\<forall>e\<in>set (seen_entries es). reserved e \<longrightarrow> uint (me_addr e) + uint (me_len e) \<le> HIMEM_BEGIN + boot_len es * 32768) \<and>
     2 \<le> card (kernel_pages es)"

lemma fill_kernel_table_phys: "\<exists>m. fill_kernel_table n e s = s\<lparr>phys := m\<rparr>"
proof (induction n arbitrary: e s)
  case 0
  then show ?case by (intro exI [of _ "phys s"]) simp
next
  case (Suc n)
  have "\<exists>m. put32 a v s = s\<lparr>phys := m\<rparr>" for a v and s :: "'a mm_state_scheme" by (auto simp: put32_def)
  then obtain m where m: "fill_kernel_table (Suc n) e s = fill_kernel_table n (e + 1) (s\<lparr>phys := m\<rparr>)"
    by (simp add: put32_def Let_def)
  obtain m' where "fill_kernel_table n (e + 1) (s\<lparr>phys := m\<rparr>) = s\<lparr>phys := m\<rparr>\<lparr>phys := m'\<rparr>" using Suc.IH by blast
  then show ?case using m by auto
qed

lemma mm_init_starts:
  assumes "map_ok es"
  shows "\<exists>b m kp. let s' = s\<lparr>mmap := es, mm_bitmap_byte_len := boot_len es, mm_bitmap := b, phys := m, kernel_pagetable := kp\<rparr> in
    mm_init es s = Some s' \<and> frames_ok s' \<and> frames MM_REQUEST_KERNEL s' - taken_frames s' \<noteq> {}"
proof -
  have h: "96 \<le> boot_len es" "boot_len es \<le> 65536" "unat (mm_mmap_last_valid_entry es) < length es"
    "\<forall>e\<in>set (seen_entries es). reserved e \<longrightarrow> uint (me_addr e) + uint (me_len e) \<le> HIMEM_BEGIN + boot_len es * 32768"
    using assms by (simp_all add: map_ok_def)
  obtain b where b: "mm_setup_bitmap es (s\<lparr>mmap := es\<rparr>) = Some (s\<lparr>mmap := es, mm_bitmap_byte_len := boot_len es, mm_bitmap := b\<rparr>)"
    "frames_ok (s\<lparr>mmap := es, mm_bitmap_byte_len := boot_len es, mm_bitmap := b\<rparr>)"
    "\<forall>p\<in>{0..<boot_len es * 8}. used_bit b p \<longleftrightarrow> p * PAGE_SIZE < boot_len es \<or> (\<exists>e\<in>set (seen_entries es). reserved e \<and> p \<in> region_pages e)"
    using setup_bitmap_spec [OF h, of "s\<lparr>mmap := es\<rparr>"] by blast
  let ?s1 = "s\<lparr>mmap := es, mm_bitmap_byte_len := boot_len es, mm_bitmap := b\<rparr>"
  have u: "frame_at p \<in> frames MM_REQUEST_KERNEL ?s1 - taken_frames ?s1" if "p \<in> kernel_pages es" for p
  proof -
    have r: "0 \<le> p" "p < 768" "p < boot_len es * 8" using that h(1) by (auto simp: kernel_pages_def)
    then have "\<not> used_bit b p" using b(3) that by (auto simp: kernel_pages_def)
    then show ?thesis using taken_iff [OF b(2), of p] r by (auto simp: frames_def zone_bits_def)
  qed
  have "\<not> card (kernel_pages es) \<le> Suc 0" using assms by (simp add: map_ok_def)
  moreover have "finite (kernel_pages es)" by (rule finite_subset [of _ "{0..<768}"]) (auto simp: kernel_pages_def)
  ultimately obtain p q where pq: "p \<in> kernel_pages es" "q \<in> kernel_pages es" "p \<noteq> q" by (auto simp: card_le_Suc0_iff_eq)
  have d: "frame_at p \<noteq> frame_at q" using frame_at_inj [of p q] pq by (auto simp: kernel_pages_def)
  have "frames MM_REQUEST_KERNEL ?s1 - taken_frames ?s1 \<noteq> {}" using u [OF pq(1)] by blast
  then obtain f b' where f: "mm_mem_kalloc ?s1 = Some (f, ?s1\<lparr>mm_bitmap := b'\<rparr>)"
    "taken_frames (?s1\<lparr>mm_bitmap := b'\<rparr>) = insert f (taken_frames ?s1)"
    by (rule kalloc_Some [OF b(2)]) blast
  obtain m where m: "fill_kernel_table 1023 1 (put32 f 0 (?s1\<lparr>mm_bitmap := b', kernel_pagetable := f\<rparr>)) =
      ?s1\<lparr>mm_bitmap := b', kernel_pagetable := f, phys := m\<rparr>"
    using fill_kernel_table_phys [of 1023 1 "put32 f 0 (?s1\<lparr>mm_bitmap := b', kernel_pagetable := f\<rparr>)"] by (auto simp: put32_def)
  let ?s' = "s\<lparr>mmap := es, mm_bitmap_byte_len := boot_len es, mm_bitmap := b', phys := m, kernel_pagetable := f\<rparr>"
  have run: "mm_init es s = Some ?s'" using b(1) f(1) m by (simp add: mm_init_def mm_init_kernel_pagetable_def)
  have t: "taken_frames ?s' = insert f (taken_frames ?s1)" using f(2) by (simp add: taken_frames_def)
  have "frames MM_REQUEST_KERNEL ?s' = frames MM_REQUEST_KERNEL ?s1" by (simp add: frames_def zone_bits_def)
  then have "frames MM_REQUEST_KERNEL ?s' - taken_frames ?s' \<noteq> {}" using u [OF pq(1)] u [OF pq(2)] d unfolding t by auto
  moreover have "frames_ok ?s'" using b(2) by (simp add: frames_ok_def)
  ultimately show ?thesis using run unfolding Let_def by blast
qed

lemma enable_paging_starts:
  assumes "frames_ok s" "frames MM_REQUEST_KERNEL s - taken_frames s \<noteq> {}" "wired H G stubs at np s"
  shows "\<exists>s'. enable_paging s = Some s' \<and> wired H G stubs at np s'"
proof -
  obtain f b where f: "mm_mem_kalloc s = Some (f, s\<lparr>mm_bitmap := b\<rparr>)" "f \<noteq> 0" by (rule kalloc_Some [OF assms(1,2)]) blast
  then show ?thesis using assms(3)
    by (simp add: enable_paging_def mm_dir_new_def zero_page_def put32_def wired_def Let_def)
qed

lemma start_mm_starts:
  assumes "map_ok es" "wired H G stubs at np s"
  shows "\<exists>s'. start_mm es s = Some s' \<and> frames_ok s' \<and> frames MM_REQUEST_KERNEL s' - taken_frames s' \<noteq> {} \<and>
    wired (H @ [(14, Page_fault_handler)]) (G @ [(14, kernel_gate (stubs ! 14))]) stubs at np s'"
proof -
  obtain s1 where s1: "debug_log (chars ''initializing memory management'') s = Some s1" "wired H G stubs at np s1" using wired_log [OF assms(2)] by blast
  obtain b m kp s2 where e2: "s2 = s1\<lparr>mmap := es, mm_bitmap_byte_len := boot_len es, mm_bitmap := b, phys := m, kernel_pagetable := kp\<rparr>"
    and s2: "mm_init es s1 = Some s2" "frames_ok s2" "frames MM_REQUEST_KERNEL s2 - taken_frames s2 \<noteq> {}"
    using mm_init_starts [OF assms(1), of s1] unfolding Let_def by blast
  have w2: "wired H G stubs at np s2" using s1(2) by (simp add: wired_def e2)
  obtain s3 where s3: "idt_register ISR_PGFLT Page_fault_handler PL_KERNEL s2 = Some s3"
    "wired (H @ [(14, Page_fault_handler)]) (G @ [(14, kernel_gate (stubs ! 14))]) stubs at np s3"
    using wired_register(1) [OF w2, of ISR_PGFLT Page_fault_handler] by auto
  have "s3 = s2\<lparr>interrupt_handlers := interrupt_handlers s3, idt := idt s3\<rparr>"
    using s3(1) by (auto simp: idt_register_def aupd_def aget_def Let_def split: if_splits)
  then obtain i t where e: "s3 = s2\<lparr>interrupt_handlers := i, idt := t\<rparr>" by blast
  have "frames_ok s3" "frames MM_REQUEST_KERNEL s3 - taken_frames s3 \<noteq> {}"
    using s2(2,3) unfolding e by (simp_all add: frames_ok_def frames_def zone_bits_def taken_frames_def)
  then show ?thesis using s1(1) s2(1) s3 by (simp add: start_mm_def)
qed

lemma start_loader_starts:
  assumes "wired H G stubs at np s" "0 < np"
  shows "\<exists>s'. start_loader s = Some s' \<and> wired H (G @ [(0x20, kernel_gate (at Timer_handler))]) stubs at np s'"
proof -
  obtain s1 where s1: "debug_log (chars ''initializing loader'') s = Some s1" "wired H G stubs at np s1" using wired_log [OF assms(1)] by blast
  obtain s2 where s2: "idt_register_asm ISR_IRQ0 (at Timer_handler) PL_KERNEL s1 = Some s2"
    "wired H (G @ [(0x20, kernel_gate (at Timer_handler))]) stubs at np s2"
    using wired_register(3) [OF s1(2), of ISR_IRQ0 "at Timer_handler"] by auto
  have a: "stub_addr s1 = at" using s1(2) by (simp add: wired_def)
  obtain s3 where s3: "timer_init 1193 s2 = Some s3" "wired H (G @ [(0x20, kernel_gate (at Timer_handler))]) stubs at np s3"
    using s2(2) by (simp add: timer_init_def Let_def)
  have "\<exists>s4. loader_init s3 = Some s4 \<and> wired H (G @ [(0x20, kernel_gate (at Timer_handler))]) stubs at np s4"
    using s3(2) assms(2) by (auto simp: loader_init_def initialize_process_list_def initialize_sleeping_list_def aupd_def aget_def wired_def Let_def)
  then show ?thesis using s1(1) s2(1) s3(1) by (simp add: start_loader_def a)
qed


subsection \<open>Devices\<close>

lemma con_init_starts:
  assumes "wired H G stubs at np s"
  shows "\<exists>s'. con_init saver s = Some s' \<and> wired (H @ [(0x21, Keyboard_handler)]) (G @ [(0x21, kernel_gate (stubs ! 0x21))]) stubs at np s'"
proof -
  obtain s1 where s1: "debug_log (chars ''initializing console'') s = Some s1" "wired H G stubs at np s1" using wired_log [OF assms] by blast
  let ?s2 = "s1\<lparr>consoles := map (\<lambda>c. c\<lparr>klass := CLASS_DEV_NONE\<rparr>) (consoles s1), current := None, screen_saver_path := saver\<rparr>"
  have w2: "wired H G stubs at np ?s2" using s1(2) by simp
  obtain s3 where s3: "debug_log (chars ''setting up keyboard'') ?s2 = Some s3" "wired H G stubs at np s3" using wired_log [OF w2] by blast
  have w4: "wired H G stubs at np (pic_clear_irq_mask 1 s3)" using s3(2) by simp
  show ?thesis using wired_register(1) [OF w4, of ISR_IRQ1 Keyboard_handler] s1(1) s3(1) by (simp add: con_init_def init_keyboard_def)
qed

lemma serial_init_starts:
  assumes "wired H G stubs at np s"
  shows "\<exists>s'. serial_init s = Some s' \<and> wired (H @ [(0x24, Com_1_3_handler), (0x23, Com_2_4_handler)])
    (G @ [(0x24, kernel_gate (stubs ! 0x24)), (0x23, kernel_gate (stubs ! 0x23))]) stubs at np s'"
proof -
  obtain s1 where s1: "idt_register ISR_IRQ4 Com_1_3_handler PL_KERNEL s = Some s1"
    "wired (H @ [(0x24, Com_1_3_handler)]) (G @ [(0x24, kernel_gate (stubs ! 0x24))]) stubs at np s1"
    using wired_register(1) [OF assms, of ISR_IRQ4 Com_1_3_handler] by auto
  have w2: "wired (H @ [(0x24, Com_1_3_handler)]) (G @ [(0x24, kernel_gate (stubs ! 0x24))]) stubs at np (pic_clear_irq_mask 4 s1)"
    using s1(2) by simp
  obtain s3 where s3: "idt_register ISR_IRQ3 Com_2_4_handler PL_KERNEL (pic_clear_irq_mask 4 s1) = Some s3"
    "wired (H @ [(0x24, Com_1_3_handler), (0x23, Com_2_4_handler)]) (G @ [(0x24, kernel_gate (stubs ! 0x24)), (0x23, kernel_gate (stubs ! 0x23))]) stubs at np s3"
    using wired_register(1) [OF w2, of ISR_IRQ3 Com_2_4_handler] by auto
  have "wired H' G' stubs at np (init_serial_dev i port s)" if "wired H' G' stubs at np s" for H' G' i port and s :: "'a serial_state_scheme"
    using that by (simp add: init_serial_dev_def Let_def)
  then show ?thesis using s1(1) s3 by (simp add: serial_init_def)
qed

lemma hdd_init_starts:
  assumes "wired H G stubs at np s"
  shows "\<exists>s'. hdd_init s = Some s' \<and> wired (H @ [(0x2E, Hdd_primary_handler)]) (G @ [(0x2E, kernel_gate (stubs ! 0x2E))]) stubs at np s'"
proof -
  obtain s1 where "idt_register ISR_IRQ14 Hdd_primary_handler PL_KERNEL s = Some s1"
    "wired (H @ [(0x2E, Hdd_primary_handler)]) (G @ [(0x2E, kernel_gate (stubs ! 0x2E))]) stubs at np s1"
    using wired_register(1) [OF assms, of ISR_IRQ14 Hdd_primary_handler] by auto
  then show ?thesis by (simp add: hdd_init_def init_hdd_def Let_def)
qed

lemma fs_init_starts:
  assumes "wired H G stubs at np s"
  shows "\<exists>s'. fs_init s = Some s' \<and> wired H G stubs at np s'"
proof -
  obtain s1 where "debug_log (chars ''initializing file system'') s = Some s1" "wired H G stubs at np s1" using wired_log [OF assms] by blast
  then show ?thesis by (simp add: fs_init_def hdd_open_def Let_def)
qed

lemma device_init_starts:
  assumes "wired H G stubs at np s"
  shows "\<exists>s'. device_init s = Some s' \<and>
    wired (H @ [(0x21, Keyboard_handler), (0x24, Com_1_3_handler), (0x23, Com_2_4_handler), (0x2E, Hdd_primary_handler)])
      (G @ map (\<lambda>k. (k, kernel_gate (stubs ! k))) [0x21, 0x24, 0x23, 0x2E]) stubs at np s'"
proof -
  obtain s1 where s1: "debug_log (chars ''initializing device drivers'') s = Some s1" "wired H G stubs at np s1" using wired_log [OF assms] by blast
  have w1: "wired H G stubs at np (proc_init (init_fd_association s1))" using s1(2) by simp
  obtain s2 where s2: "con_init (chars ''/disk/bin/screen_saver.pso'') (proc_init (init_fd_association s1)) = Some s2"
    "wired (H @ [(0x21, Keyboard_handler)]) (G @ [(0x21, kernel_gate (stubs ! 0x21))]) stubs at np s2" using con_init_starts [OF w1] by blast
  obtain s3 where s3: "serial_init s2 = Some s3" "wired ((H @ [(0x21, Keyboard_handler)]) @ [(0x24, Com_1_3_handler), (0x23, Com_2_4_handler)])
    ((G @ [(0x21, kernel_gate (stubs ! 0x21))]) @ [(0x24, kernel_gate (stubs ! 0x24)), (0x23, kernel_gate (stubs ! 0x23))]) stubs at np s3"
    using serial_init_starts [OF s2(2)] by blast
  obtain s4 where s4: "hdd_init s3 = Some s4" "wired (H @ [(0x21, Keyboard_handler), (0x24, Com_1_3_handler), (0x23, Com_2_4_handler), (0x2E, Hdd_primary_handler)])
      (G @ map (\<lambda>k. (k, kernel_gate (stubs ! k))) [0x21, 0x24, 0x23, 0x2E]) stubs at np s4"
    using hdd_init_starts [OF s3(2)] by auto
  obtain s5 where "fs_init s4 = Some s5" "wired (H @ [(0x21, Keyboard_handler), (0x24, Com_1_3_handler), (0x23, Com_2_4_handler), (0x2E, Hdd_primary_handler)])
      (G @ map (\<lambda>k. (k, kernel_gate (stubs ! k))) [0x21, 0x24, 0x23, 0x2E]) stubs at np s5"
    using fs_init_starts [OF s4(2)] by blast
  then show ?thesis using s1(1) s2(1) s3(1) s4(1) by (simp add: device_init_def init_dev_modules_def Let_def)
qed

subsection \<open>The tables after the start\<close>

definition started_handlers :: "(nat \<times> isr) list" where
  "started_handlers = map (\<lambda>k. (k, Debug_kernelpanic)) [0..<20] @ [(14, Page_fault_handler), (0x30, Syscalls_handler),
     (0x21, Keyboard_handler), (0x24, Com_1_3_handler), (0x23, Com_2_4_handler), (0x2E, Hdd_primary_handler)]"

definition started_gates :: "u32 list \<Rightarrow> (asm_stub \<Rightarrow> u32) \<Rightarrow> (nat \<times> (u32 \<times> u32)) list" where
  "started_gates stubs at = map (\<lambda>k. (k, kernel_gate (stubs ! k))) [0..<20] @
     [(0x27, kernel_gate (at Spurious_master_handler)), (0x2F, kernel_gate (at Spurious_slave_handler)), (14, kernel_gate (stubs ! 14)),
      (0x20, kernel_gate (at Timer_handler)), (0x30, user_gate (stubs ! 0x30))] @
     map (\<lambda>k. (k, kernel_gate (stubs ! k))) [0x21, 0x24, 0x23, 0x2E]"

lemma kernel_start_wires:
  assumes es: "map_ok es" and t: "length (idt_handlers s) = 256" "interrupt_handlers s = replicate 256 None" and p: "processes s \<noteq> []"
  shows "\<exists>s'. kernel_start es s = Some s' \<and> wired started_handlers
    (started_gates (fold (\<lambda>(k, stub) hs. hs[k := stub_addr s stub]) idt_stubs (idt_handlers s)) (stub_addr s))
    (fold (\<lambda>(k, stub) hs. hs[k := stub_addr s stub]) idt_stubs (idt_handlers s)) (stub_addr s) (length (processes s)) s'"
proof -
  define at stubs np where "at = stub_addr s" and "stubs = fold (\<lambda>(k, stub) hs. hs[k := at stub]) idt_stubs (idt_handlers s)" and "np = length (processes s)"
  let ?s0 = "gdt_init (on_screen vga_init s)"
  have s0: "idt_handlers ?s0 = idt_handlers s" "interrupt_handlers ?s0 = interrupt_handlers s" "stub_addr ?s0 = stub_addr s" "processes ?s0 = processes s"
    by (simp_all add: gdt_init_def on_screen_def show_display_def)
  obtain s1 where s1: "idt_init ?s0 = Some s1" "wired [] [] stubs at np s1"
    using wired_idt_init [of ?s0, unfolded s0, OF t, folded at_def, folded stubs_def np_def] by blast
  obtain s2 where s2: "debug_init s1 = Some s2" "wired (map (\<lambda>k. (k, Debug_kernelpanic)) [0..<20])
    (map (\<lambda>k. (k, kernel_gate (stubs ! k))) [0..<20] @
      [(0x27, kernel_gate (at Spurious_master_handler)), (0x2F, kernel_gate (at Spurious_slave_handler))]) stubs at np s2"
    using wired_debug_init [OF s1(2)] by blast
  obtain s3 H3 G3 where s3: "start_mm es s2 = Some s3" "frames_ok s3" "frames MM_REQUEST_KERNEL s3 - taken_frames s3 \<noteq> {}" "wired H3 G3 stubs at np s3"
    and H3: "H3 = map (\<lambda>k. (k, Debug_kernelpanic)) [0..<20] @ [(14, Page_fault_handler)]"
    and G3: "G3 = (map (\<lambda>k. (k, kernel_gate (stubs ! k))) [0..<20] @
      [(0x27, kernel_gate (at Spurious_master_handler)), (0x2F, kernel_gate (at Spurious_slave_handler))]) @ [(14, kernel_gate (stubs ! 14))]"
    using start_mm_starts [OF es s2(2)] by blast
  obtain s4 where s4: "enable_paging s3 = Some s4" "wired H3 G3 stubs at np s4" using enable_paging_starts [OF s3(2,3,4)] by blast
  obtain s5 where s5: "start_loader s4 = Some s5" "wired H3 (G3 @ [(0x20, kernel_gate (at Timer_handler))]) stubs at np s5"
    using start_loader_starts [OF s4(2)] p by (auto simp: np_def)
  have w6: "wired H3 (G3 @ [(0x20, kernel_gate (at Timer_handler))]) stubs at np (sched_init s5)" using s5(2) by (simp add: wired_def sched_init_def)
  obtain s7 where s7: "syscalls_init (sched_init s5) = Some s7" "wired (H3 @ [(0x30, Syscalls_handler)])
    ((G3 @ [(0x20, kernel_gate (at Timer_handler))]) @ [(0x30, user_gate (stubs ! 0x30))]) stubs at np s7"
    using wired_register(2) [OF w6, of 48 Syscalls_handler] by (auto simp: syscalls_init_def)
  obtain s8 where s8: "device_init s7 = Some s8" "wired started_handlers (started_gates stubs at) stubs at np s8"
    using device_init_starts [OF s7(2)] by (auto simp: started_handlers_def started_gates_def H3 G3 simp del: upt_rec_numeral)
  obtain s9 where "print_logo s8 = Some s9" "wired started_handlers (started_gates stubs at) stubs at np s9" using wired_print_logo [OF s8(2)] by blast
  then show ?thesis using s1(1) s2(1) s3(1) s4(1) s5(1) s7(1) s8(1)
    by (simp add: kernel_start_def stubs_def at_def np_def)
qed


lemma gates [simp]:
  "gate_attr (kernel_gate a) = 0x8E00" "gate_selector (kernel_gate a) = SS_K_CODE" "gate_offset (kernel_gate a) = a"
  "gate_attr (user_gate a) = 0xEE00" "gate_selector (user_gate a) = SS_K_CODE" "gate_offset (user_gate a) = a"
  using idt_entry_gate [of PL_KERNEL "kernel_gate a" a] idt_entry_gate [of PL_USER "user_gate a" a]
  by (simp_all add: kernel_gate_def user_gate_def)

text \<open>The handlers in the order of their interrupts.\<close>

definition handler_of :: "nat \<Rightarrow> isr option" where
  "handler_of n = (if n = 14 then Some Page_fault_handler else if n < 20 then Some Debug_kernelpanic
     else map_of [(0x21, Keyboard_handler), (0x23, Com_2_4_handler), (0x24, Com_1_3_handler), (0x2E, Hdd_primary_handler), (0x30, Syscalls_handler)] n)"

definition stub_of :: "nat \<Rightarrow> asm_stub" where
  "stub_of n = (if n < 20 then Idt_exception n else if n = 0x20 then Timer_handler else if n = 0x27 then Spurious_master_handler
     else if n = 0x2F then Spurious_slave_handler else if n = 0x30 then Sysint else Irq (n - 0x20))"

lemma map_of_panic: "map_of (map (\<lambda>k. (k, f k)) ks @ xs) n = (if n \<in> set ks then Some (f n) else map_of xs n)"
    "map_of (map (\<lambda>k. (k, f k)) ks) n = (if n \<in> set ks then Some (f n) else None)"
  by (induction ks) auto

lemma started_handlers_of: "map_of (rev started_handlers) n = handler_of n"
  unfolding started_handlers_def rev_append rev_map rev.simps append.simps append_assoc
  by (simp add: map_of_panic handler_of_def del: upt_rec_numeral)

lemma started_gates_of: "map_of (rev (started_gates stubs at)) n =
   (if n = 0x20 then Some (kernel_gate (at Timer_handler)) else if n = 0x27 then Some (kernel_gate (at Spurious_master_handler))
    else if n = 0x2F then Some (kernel_gate (at Spurious_slave_handler)) else if n = 0x30 then Some (user_gate (stubs ! 0x30))
    else if handler_of n \<noteq> None then Some (kernel_gate (stubs ! n)) else None)"
  unfolding started_gates_def rev_append rev_map rev.simps append.simps append_assoc list.map
  by (simp add: map_of_panic handler_of_def del: upt_rec_numeral)

lemma stubs_of:
  assumes "length hs = 256" "n < 20 \<and> n \<noteq> 15 \<or> 0x20 \<le> n \<and> n \<le> 0x30"
  shows "fold (\<lambda>(k, stub) hs. hs[k := at stub]) idt_stubs hs ! n =
    at (if n < 20 then Idt_exception n else if n = 0x30 then Sysint else Irq (n - 0x20))"
proof -
  have "[0x20..<0x30] = map (\<lambda>i. i + 0x20) [0..<16]" by (simp add: map_add_upt del: upt_rec_numeral)
  then have i: "map (\<lambda>i. (0x20 + i, Irq i)) [0..<16] = map (\<lambda>k. (k, Irq (k - 0x20))) [0x20..<0x30]"
    by (simp add: comp_def add.commute del: upt_rec_numeral)
  have "map_of (rev idt_stubs) n = Some (if n < 20 then Idt_exception n else if n = 0x30 then Sysint else Irq (n - 0x20))"
    using assms(2)
    unfolding idt_stubs_def i rev_append rev_map rev.simps append.simps append_assoc
    by (auto simp: map_of_panic map_add_def simp del: upt_rec_numeral)
  moreover have "n < length hs" using assms by auto
  ultimately show ?thesis using nth_fold_upd [of n hs at idt_stubs] by (simp only: option.case)
qed

text \<open>C6: The start of the kernel, on every memory map that leaves two pages for it, runs through to
  the first program without a failed assertion. Of all 256 gates only the one of the system
  calls can then be raised by a process. Every exception goes to the panic but the page fault,
  every interrupt that has a C handler goes there by its own stub (but exception 15, whose
  stub is what the table held before), the timer and the spurious interrupts to their own
  routines, and no other gate is there.\<close>

theorem start_guards_the_kernel:
  assumes "map_ok es" "length (idt_handlers s) = 256" "interrupt_handlers s = replicate 256 None" "processes s \<noteq> []"
  shows "\<exists>s'. kernel_start es s = Some s' \<and>
    (\<forall>n<256. gate_attr (idt s' ! n) AND 0x6000 \<noteq> 0 \<longleftrightarrow> n = 0x30) \<and>
    (\<forall>n<256. interrupt_handlers s' ! n = handler_of n) \<and>
    (\<forall>n<256. if handler_of n \<noteq> None \<or> n \<in> {0x20, 0x27, 0x2F}
       then gate_attr (idt s' ! n) = (if n = 0x30 then 0xEE00 else 0x8E00) \<and> gate_selector (idt s' ! n) = SS_K_CODE \<and>
         gate_offset (idt s' ! n) = (if n = 15 then idt_handlers s ! 15 else stub_addr s (stub_of n))
       else idt s' ! n = (0, 0))"
proof -
  define stubs where "stubs = fold (\<lambda>(k, stub) hs. hs[k := stub_addr s stub]) idt_stubs (idt_handlers s)"
  obtain s' where s': "kernel_start es s = Some s'" "wired started_handlers (started_gates stubs (stub_addr s)) stubs (stub_addr s) (length (processes s)) s'"
    using kernel_start_wires [OF assms] unfolding stubs_def by blast
  have h: "interrupt_handlers s' ! n = handler_of n" if "n < 256" for n
    using s'(2) that nth_fold_upd [of n "replicate 256 None" Some started_handlers]
    by (auto simp: wired_def started_handlers_of split: option.splits)
  have g: "idt s' ! n = (case map_of (rev (started_gates stubs (stub_addr s))) n of None \<Rightarrow> (0, 0) | Some g \<Rightarrow> g)" if "n < 256" for n
    using s'(2) that nth_fold_upd [of n "replicate 256 (0, 0)" "\<lambda>g. g" "started_gates stubs (stub_addr s)"]
    by (auto simp: wired_def split: option.splits)
  have st: "stubs ! n = (if n = 15 then idt_handlers s ! 15 else stub_addr s (stub_of n))"
    if "handler_of n \<noteq> None" "n \<notin> {0x20, 0x27, 0x2F}" for n
  proof (cases "n = 15")
    case True
    have "map_of (rev idt_stubs) 15 = None" by (auto simp: idt_stubs_def map_of_eq_None_iff simp del: upt_rec_numeral)
    then show ?thesis using True assms(2) by (simp add: stubs_def nth_fold_upd)
  next
    case False
    then show ?thesis using that stubs_of [OF assms(2), of n "stub_addr s"]
      by (auto simp: stubs_def [symmetric] handler_of_def stub_of_def split: if_splits)
  qed
  have z: "gate_attr (0, 0) = 0" by (simp add: gate_attr_def)
  have "if handler_of n \<noteq> None \<or> n \<in> {0x20, 0x27, 0x2F}
       then gate_attr (idt s' ! n) = (if n = 0x30 then 0xEE00 else 0x8E00) \<and> gate_selector (idt s' ! n) = SS_K_CODE \<and>
         gate_offset (idt s' ! n) = (if n = 15 then idt_handlers s ! 15 else stub_addr s (stub_of n))
       else idt s' ! n = (0, 0)" if "n < 256" for n
    using g [OF that] st [of n] by (auto simp: started_gates_of stub_of_def handler_of_def)
  moreover have "gate_attr (idt s' ! n) AND 0x6000 \<noteq> 0 \<longleftrightarrow> n = 0x30" if "n < 256" for n
    using g [OF that] by (auto simp: started_gates_of z)
  ultimately show ?thesis using s'(1) h by blast
qed


lemma map_demo_ok: "map_ok map_demo"
proof -
  have "kernel_pages map_demo = {1..<768}"
    by (auto simp: kernel_pages_def map_demo_facts) (auto simp: map_demo_def reserved_def region_pages_def)
  then show ?thesis by (simp add: map_ok_def map_demo_facts) (auto simp: map_demo_def reserved_def)
qed

theorem start_guards_the_kernel_witness:
  "\<exists>s'. kernel_start map_demo kernel_demo = Some s' \<and> gate_attr (idt s' ! 0x30) = 0xEE00 \<and> gate_attr (idt s' ! 14) = 0x8E00 \<and>
     interrupt_handlers s' ! 14 = Some Page_fault_handler \<and> interrupt_handlers s' ! 0x21 = Some Keyboard_handler \<and>
     gate_offset (idt s' ! 0x20) = 0x1000 \<and> idt s' ! 0x31 = (0, 0)"
proof -
  have k: "length (idt_handlers kernel_demo) = 256" "interrupt_handlers kernel_demo = replicate 256 None" "processes kernel_demo \<noteq> []"
    "stub_addr kernel_demo = (\<lambda>_. 0x1000)"
    by (simp_all add: kernel_demo_def device_state.defs kernel_state.defs dev_demo_def drv_demo_def con_demo_def hw_demo_def demo_def Let_def)
  obtain s' where s': "kernel_start map_demo kernel_demo = Some s'" "\<forall>n<256. interrupt_handlers s' ! n = handler_of n"
    "\<forall>n<256. if handler_of n \<noteq> None \<or> n \<in> {0x20, 0x27, 0x2F}
       then gate_attr (idt s' ! n) = (if n = 0x30 then 0xEE00 else 0x8E00) \<and> gate_selector (idt s' ! n) = SS_K_CODE \<and>
         gate_offset (idt s' ! n) = (if n = 15 then idt_handlers kernel_demo ! 15 else stub_addr kernel_demo (stub_of n))
       else idt s' ! n = (0, 0)"
    using start_guards_the_kernel [OF map_demo_ok k(1-3)] by blast
  show ?thesis using s'(1) s'(2) [THEN spec, of 14] s'(2) [THEN spec, of "0x21"] s'(3) [THEN spec, of "0x30"] s'(3) [THEN spec, of 14]
      s'(3) [THEN spec, of "0x20"] s'(3) [THEN spec, of "0x31"]
    by (intro exI [of _ s']) (simp add: handler_of_def k(4))
qed

end
