(* ===== verification/Krypt.thy ===== *)
theory Krypt
  imports Prelude
begin

unbundle bit_operations_syntax

section \<open>The cipher programs\<close>

text \<open>
  Three programs that run on the kernel: \<^verbatim>\<open>tasks/krypt.c\<close> and \<^verbatim>\<open>tasks/memkrypt.c\<close>
  encrypt a file on its way to the serial line, \<^verbatim>\<open>tasks/unkrypt.c\<close> decrypts what arrives
  there. \<^verbatim>\<open>memkrypt\<close> works with three processes on four shared pages and with the
  semaphores of the tasks' library (\<^verbatim>\<open>kernel/lib.c\<close>, a pipe each: as many permits as bytes).
  Each process is a step function, down to single bytes, and every interleaving of their steps
  is a run. What they print on the console is left out.
\<close>

subsection \<open>The cipher\<close>

definition CIPHER_KEY :: "u8 list" where
  "CIPHER_KEY = map of_char ''SpuriOS''"

definition CIPHER_KEY_SIZE :: nat where
  "CIPHER_KEY_SIZE = 7"

definition key_byte :: "nat \<Rightarrow> u8" where
  "key_byte n = CIPHER_KEY ! (n mod CIPHER_KEY_SIZE)"

text \<open>The loop over a buffer; \<open>n\<close> is the number of bytes enciphered before it.\<close>

fun crypt_bytes :: "nat \<Rightarrow> u8 list \<Rightarrow> u8 list" where
  "crypt_bytes n [] = []"
| "crypt_bytes n (b # bs) = (b XOR key_byte n) # crypt_bytes (n + 1) bs"

text \<open>
  The loops of \<^verbatim>\<open>krypt_encrypt\<close> and of \<^verbatim>\<open>unkrypt\<close> over the results of their reads, to
  the first that is empty: what they write, and the number of bytes.
\<close>

fun crypt_chunks :: "nat \<Rightarrow> u8 list list \<Rightarrow> u8 list \<times> nat" where
  "crypt_chunks bytes [] = ([], bytes)"
| "crypt_chunks bytes (buffer # reads) =
     (if buffer = [] then ([], bytes)
      else (let (out, total) = crypt_chunks (bytes + length buffer) reads in (crypt_bytes bytes buffer @ out, total)))"

subsection \<open>Three processes on shared pages\<close>

abbreviation (input) BUFFER_PAGES :: nat where "BUFFER_PAGES \<equiv> 4"
abbreviation (input) PAGE_BYTES :: nat where "PAGE_BYTES \<equiv> 4096"

datatype reader_at = R_open | R_start | R_wait | R_clear | R_fill nat | R_lock nat | R_store nat | R_unlock nat | R_post nat | R_done | R_failed
datatype encrypter_at = E_wait | E_lock | E_load | E_unlock nat | E_byte nat nat | E_post nat | E_done
datatype writer_at = W_wait | W_lock | W_load | W_unlock nat | W_byte nat nat | W_post nat | W_done

record memkrypt =
  sem_read :: nat
  sem_encrypt :: nat
  sem_write :: nat
  mutex :: nat
  buffer :: "nat \<Rightarrow> nat \<Rightarrow> u8"
  last_size_per_page :: "nat \<Rightarrow> nat"
  file_pos :: nat
  serial_out :: "u8 list"
  r_at :: reader_at
  r_i :: nat
  e_at :: encrypter_at
  e_i :: nat
  e_bytes :: nat
  w_at :: writer_at
  w_i :: nat

definition poke :: "nat \<Rightarrow> nat \<Rightarrow> u8 \<Rightarrow> memkrypt \<Rightarrow> memkrypt" where
  "poke i j b s = s\<lparr>buffer := (buffer s)(i := (buffer s i)(j := b))\<rparr>"

definition memkrypt_read :: "u8 list option \<Rightarrow> memkrypt \<Rightarrow> memkrypt option" where
  "memkrypt_read file s = (case r_at s of
       R_open \<Rightarrow> Some (s\<lparr>r_at := (if file = None then R_failed else R_start)\<rparr>)
     | R_start \<Rightarrow> Some (s\<lparr>sem_read := sem_read s + BUFFER_PAGES, r_at := R_wait\<rparr>)
     | R_wait \<Rightarrow> if 0 < sem_read s then Some (s\<lparr>sem_read := sem_read s - 1, r_at := R_clear\<rparr>) else None
     | R_clear \<Rightarrow> Some (s\<lparr>buffer := (buffer s)(r_i s := (\<lambda>_. 0)), r_at := R_fill 0\<rparr>)
     | R_fill sz \<Rightarrow> if sz < PAGE_BYTES \<and> file_pos s < length (the file)
         then Some (poke (r_i s) sz (the file ! file_pos s) (s\<lparr>file_pos := file_pos s + 1, r_at := R_fill (sz + 1)\<rparr>))
         else Some (s\<lparr>r_at := R_lock sz\<rparr>)
     | R_lock sz \<Rightarrow> if 0 < mutex s then Some (s\<lparr>mutex := mutex s - 1, r_at := R_store sz\<rparr>) else None
     | R_store sz \<Rightarrow> Some (s\<lparr>last_size_per_page := (last_size_per_page s)(r_i s := sz), r_at := R_unlock sz\<rparr>)
     | R_unlock sz \<Rightarrow> Some (s\<lparr>mutex := mutex s + 1, r_at := R_post sz\<rparr>)
     | R_post sz \<Rightarrow>
         (let s = s\<lparr>sem_encrypt := sem_encrypt s + 1\<rparr>
          in Some (if sz = 0 then s\<lparr>r_at := R_done\<rparr> else s\<lparr>r_at := R_wait, r_i := (r_i s + 1) mod BUFFER_PAGES\<rparr>))
     | R_done \<Rightarrow> None
     | R_failed \<Rightarrow> None)"

definition memkrypt_encrypt :: "memkrypt \<Rightarrow> memkrypt option" where
  "memkrypt_encrypt s = (case e_at s of
       E_wait \<Rightarrow> if 0 < sem_encrypt s then Some (s\<lparr>sem_encrypt := sem_encrypt s - 1, e_at := E_lock\<rparr>) else None
     | E_lock \<Rightarrow> if 0 < mutex s then Some (s\<lparr>mutex := mutex s - 1, e_at := E_load\<rparr>) else None
     | E_load \<Rightarrow> Some (s\<lparr>e_at := E_unlock (last_size_per_page s (e_i s))\<rparr>)
     | E_unlock sz \<Rightarrow> Some (s\<lparr>mutex := mutex s + 1, e_at := E_byte sz 0\<rparr>)
     | E_byte sz j \<Rightarrow> if j < sz
         then Some (poke (e_i s) j (buffer s (e_i s) j XOR key_byte (e_bytes s)) (s\<lparr>e_bytes := e_bytes s + 1, e_at := E_byte sz (j + 1)\<rparr>))
         else Some (s\<lparr>e_at := E_post sz\<rparr>)
     | E_post sz \<Rightarrow>
         (let s = s\<lparr>sem_write := sem_write s + 1\<rparr>
          in Some (if sz = 0 then s\<lparr>e_at := E_done\<rparr> else s\<lparr>e_at := E_wait, e_i := (e_i s + 1) mod BUFFER_PAGES\<rparr>))
     | E_done \<Rightarrow> None)"

definition memkrypt_write :: "memkrypt \<Rightarrow> memkrypt option" where
  "memkrypt_write s = (case w_at s of
       W_wait \<Rightarrow> if 0 < sem_write s then Some (s\<lparr>sem_write := sem_write s - 1, w_at := W_lock\<rparr>) else None
     | W_lock \<Rightarrow> if 0 < mutex s then Some (s\<lparr>mutex := mutex s - 1, w_at := W_load\<rparr>) else None
     | W_load \<Rightarrow> Some (s\<lparr>w_at := W_unlock (last_size_per_page s (w_i s))\<rparr>)
     | W_unlock sz \<Rightarrow> Some (s\<lparr>mutex := mutex s + 1, w_at := W_byte sz 0\<rparr>)
     | W_byte sz j \<Rightarrow> if j < sz
         then Some (s\<lparr>serial_out := serial_out s @ [buffer s (w_i s) j], w_at := W_byte sz (j + 1)\<rparr>)
         else Some (s\<lparr>w_at := W_post sz\<rparr>)
     | W_post sz \<Rightarrow>
         (let s = s\<lparr>sem_read := sem_read s + 1\<rparr>
          in Some (if sz = 0 then s\<lparr>w_at := W_done\<rparr> else s\<lparr>w_at := W_wait, w_i := (w_i s + 1) mod BUFFER_PAGES\<rparr>))
     | W_done \<Rightarrow> None)"

text \<open>The state after the forks: pages cleared, one permit for the mutex, none elsewhere.\<close>

definition memkrypt_main :: memkrypt where
  "memkrypt_main = \<lparr>sem_read = 0, sem_encrypt = 0, sem_write = 0, mutex = 1, buffer = (\<lambda>_ _. 0), last_size_per_page = (\<lambda>_. 0),
     file_pos = 0, serial_out = [], r_at = R_open, r_i = 0, e_at = E_wait, e_i = 0, e_bytes = 0, w_at = W_wait, w_i = 0\<rparr>"

datatype process = Reader | Encrypter | Writer

fun memkrypt_step :: "u8 list option \<Rightarrow> process \<Rightarrow> memkrypt \<Rightarrow> memkrypt option" where
  "memkrypt_step file Reader s = memkrypt_read file s"
| "memkrypt_step file Encrypter s = memkrypt_encrypt s"
| "memkrypt_step file Writer s = memkrypt_write s"

text \<open>A run: which process takes each step.\<close>

fun memkrypt_run :: "u8 list option \<Rightarrow> process list \<Rightarrow> memkrypt \<Rightarrow> memkrypt option" where
  "memkrypt_run file [] s = Some s"
| "memkrypt_run file (p # ps) s = do {
     s \<leftarrow> memkrypt_step file p s;
     memkrypt_run file ps s
   }"

subsection \<open>The cipher undoes itself\<close>

lemma length_crypt [simp]: "length (crypt_bytes n bs) = length bs"
  by (induction bs arbitrary: n) auto

lemma nth_crypt: "j < length bs \<Longrightarrow> crypt_bytes n bs ! j = bs ! j XOR key_byte (n + j)"
  by (induction bs arbitrary: n j) (auto simp: nth_Cons split: nat.splits)

lemma crypt_append: "crypt_bytes n (xs @ ys) = crypt_bytes n xs @ crypt_bytes (n + length xs) ys"
  by (induction xs arbitrary: n) auto

lemma crypt_crypt: "crypt_bytes n (crypt_bytes n bs) = bs"
  by (induction bs arbitrary: n) (auto simp: xor.assoc)

lemma crypt_chunks_concat:
  "crypt_chunks n cs = (crypt_bytes n (concat (takeWhile (\<lambda>c. c \<noteq> []) cs)), n + length (concat (takeWhile (\<lambda>c. c \<noteq> []) cs)))"
  by (induction cs arbitrary: n) (auto simp: crypt_append)



subsection \<open>The invariant of the pipeline\<close>

text \<open>The pieces of the file that the reader brings, one after the other, the first empty one being its last.\<close>

definition start_of :: "u8 list \<Rightarrow> nat \<Rightarrow> nat" where
  "start_of file k = min (PAGE_BYTES * k) (length file)"

definition size_of :: "u8 list \<Rightarrow> nat \<Rightarrow> nat" where
  "size_of file k = start_of file (k + 1) - start_of file k"

definition live :: "u8 list \<Rightarrow> nat \<Rightarrow> bool" where
  "live file k \<longleftrightarrow> PAGE_BYTES * k < length file + PAGE_BYTES"

definition enc :: "u8 list \<Rightarrow> nat \<Rightarrow> u8" where
  "enc file p = file ! p XOR key_byte p"

lemma pieces:
  "start_of file 0 = 0" "start_of file (Suc k) = start_of file k + size_of file k" "start_of file k \<le> length file"
  "size_of file k \<le> PAGE_BYTES" "live file 0" "live file (Suc k) \<longleftrightarrow> 0 < size_of file k"
  "live file k \<Longrightarrow> size_of file k = 0 \<Longrightarrow> start_of file k = length file"
  "size_of file k = min PAGE_BYTES (length file - start_of file k)"
  by (auto simp: start_of_def size_of_def live_def)

lemma piece_end: "start_of file k + size_of file k \<le> length file"
  using pieces(3) [of "file" "Suc k"] by (simp add: pieces(2))

lemma slots_apart: "k < l \<Longrightarrow> l < k + 4 \<Longrightarrow> k mod 4 \<noteq> l mod (4 :: nat)"
  by presburger

fun r_in :: "reader_at \<Rightarrow> nat" where
  "r_in R_clear = 1" | "r_in (R_fill j) = 1" | "r_in (R_lock j) = 1" | "r_in (R_store j) = 1" | "r_in (R_unlock j) = 1" | "r_in (R_post j) = 1" | "r_in _ = 0"

fun e_in :: "encrypter_at \<Rightarrow> nat" where
  "e_in E_wait = 0" | "e_in E_done = 0" | "e_in _ = 1"

fun w_in :: "writer_at \<Rightarrow> nat" where
  "w_in W_wait = 0" | "w_in W_done = 0" | "w_in _ = 1"

fun r_locks :: "reader_at \<Rightarrow> nat" where
  "r_locks (R_store j) = 1" | "r_locks (R_unlock j) = 1" | "r_locks _ = 0"

fun e_locks :: "encrypter_at \<Rightarrow> nat" where
  "e_locks E_load = 1" | "e_locks (E_unlock j) = 1" | "e_locks _ = 0"

fun w_locks :: "writer_at \<Rightarrow> nat" where
  "w_locks W_load = 1" | "w_locks (W_unlock j) = 1" | "w_locks _ = 0"

text \<open>The bytes of its page that a process is through with.\<close>

fun filled :: "reader_at \<Rightarrow> nat" where
  "filled (R_fill j) = j" | "filled (R_lock j) = j" | "filled (R_store j) = j" | "filled (R_unlock j) = j" | "filled (R_post j) = j" | "filled _ = 0"

fun encrypted :: "encrypter_at \<Rightarrow> nat" where
  "encrypted (E_byte sz j) = j" | "encrypted (E_post sz) = sz" | "encrypted _ = 0"

fun written :: "writer_at \<Rightarrow> nat" where
  "written (W_byte sz j) = j" | "written (W_post sz) = sz" | "written _ = 0"

text \<open>\<open>a\<close>, \<open>b\<close> and \<open>c\<close> pieces have been passed on by the reader, the encrypter and the writer.\<close>

definition counts_ok :: "nat \<Rightarrow> nat \<Rightarrow> nat \<Rightarrow> memkrypt \<Rightarrow> bool" where
  "counts_ok a b c s \<longleftrightarrow> (if r_at s = R_open \<or> r_at s = R_start then sem_read s = 0 \<and> a = 0 else sem_read s + a + r_in (r_at s) = 4 + c) \<and>
     sem_encrypt s + b + e_in (e_at s) = a \<and> sem_write s + c + w_in (w_at s) = b \<and>
     mutex s + r_locks (r_at s) + e_locks (e_at s) + w_locks (w_at s) = 1"

definition r_ok :: "u8 list \<Rightarrow> nat \<Rightarrow> memkrypt \<Rightarrow> bool" where
  "r_ok file a s \<longleftrightarrow> (case r_at s of
       R_fill j \<Rightarrow> live file a \<and> r_i s = a mod 4 \<and> j \<le> size_of file a \<and> file_pos s = start_of file a + j
     | R_lock sz \<Rightarrow> live file a \<and> r_i s = a mod 4 \<and> sz = size_of file a \<and> file_pos s = start_of file a + sz
     | R_store sz \<Rightarrow> live file a \<and> r_i s = a mod 4 \<and> sz = size_of file a \<and> file_pos s = start_of file a + sz
     | R_unlock sz \<Rightarrow> live file a \<and> r_i s = a mod 4 \<and> sz = size_of file a \<and> file_pos s = start_of file a + sz \<and> last_size_per_page s (a mod 4) = sz
     | R_post sz \<Rightarrow> live file a \<and> r_i s = a mod 4 \<and> sz = size_of file a \<and> file_pos s = start_of file a + sz \<and> last_size_per_page s (a mod 4) = sz
     | R_done \<Rightarrow> 0 < a \<and> start_of file (a - 1) = length file \<and> live file (a - 1)
     | R_failed \<Rightarrow> False
     | _ \<Rightarrow> live file a \<and> r_i s = a mod 4 \<and> file_pos s = start_of file a)"

definition e_ok :: "u8 list \<Rightarrow> nat \<Rightarrow> memkrypt \<Rightarrow> bool" where
  "e_ok file b s \<longleftrightarrow> (case e_at s of
       E_unlock sz \<Rightarrow> live file b \<and> e_i s = b mod 4 \<and> sz = size_of file b \<and> e_bytes s = start_of file b
     | E_byte sz j \<Rightarrow> live file b \<and> e_i s = b mod 4 \<and> sz = size_of file b \<and> j \<le> sz \<and> e_bytes s = start_of file b + j
     | E_post sz \<Rightarrow> live file b \<and> e_i s = b mod 4 \<and> sz = size_of file b \<and> e_bytes s = start_of file b + sz
     | E_done \<Rightarrow> 0 < b \<and> start_of file (b - 1) = length file \<and> live file (b - 1)
     | _ \<Rightarrow> live file b \<and> e_i s = b mod 4 \<and> e_bytes s = start_of file b)"

definition w_ok :: "u8 list \<Rightarrow> nat \<Rightarrow> memkrypt \<Rightarrow> bool" where
  "w_ok file c s \<longleftrightarrow> serial_out s = map (enc file) [0..<start_of file c + written (w_at s)] \<and> (case w_at s of
       W_unlock sz \<Rightarrow> live file c \<and> w_i s = c mod 4 \<and> sz = size_of file c
     | W_byte sz j \<Rightarrow> live file c \<and> w_i s = c mod 4 \<and> sz = size_of file c \<and> j \<le> sz
     | W_post sz \<Rightarrow> live file c \<and> w_i s = c mod 4 \<and> sz = size_of file c
     | W_done \<Rightarrow> 0 < c \<and> start_of file (c - 1) = length file \<and> live file (c - 1)
     | _ \<Rightarrow> live file c \<and> w_i s = c mod 4)"

definition pages_ok :: "u8 list \<Rightarrow> nat \<Rightarrow> nat \<Rightarrow> nat \<Rightarrow> memkrypt \<Rightarrow> bool" where
  "pages_ok file a b c s \<longleftrightarrow>
     (\<forall>k. c \<le> k \<and> k < a \<longrightarrow> last_size_per_page s (k mod 4) = size_of file k \<and>
        (\<forall>j < size_of file k. buffer s (k mod 4) j =
           (if k < b \<or> k = b \<and> j < encrypted (e_at s) then enc file (start_of file k + j) else file ! (start_of file k + j)))) \<and>
     (\<forall>j<filled (r_at s). buffer s (a mod 4) j = file ! (start_of file a + j))"

definition memkrypt_inv :: "u8 list \<Rightarrow> nat \<Rightarrow> nat \<Rightarrow> nat \<Rightarrow> memkrypt \<Rightarrow> bool" where
  "memkrypt_inv file a b c s \<longleftrightarrow> counts_ok a b c s \<and> r_ok file a s \<and> e_ok file b s \<and> w_ok file c s \<and> pages_ok file a b c s"

lemma memkrypt_main_inv: "memkrypt_inv file 0 0 0 memkrypt_main"
  by (simp add: memkrypt_inv_def counts_ok_def r_ok_def e_ok_def w_ok_def pages_ok_def memkrypt_main_def pieces)

lemma counts_bounds:
  assumes "counts_ok a b c s"
  shows "c + w_in (w_at s) \<le> b" "b + e_in (e_at s) \<le> a" "a + r_in (r_at s) \<le> c + 4"
  using assms by (auto simp: counts_ok_def split: if_splits)

lemma r_ok_frame [simp]:
  "r_ok file a (s\<lparr>sem_read := v0\<rparr>) = r_ok file a s"
  "r_ok file a (s\<lparr>sem_encrypt := v1\<rparr>) = r_ok file a s"
  "r_ok file a (s\<lparr>sem_write := v2\<rparr>) = r_ok file a s"
  "r_ok file a (s\<lparr>mutex := v3\<rparr>) = r_ok file a s"
  "r_ok file a (s\<lparr>buffer := v4\<rparr>) = r_ok file a s"
  "r_ok file a (s\<lparr>serial_out := v5\<rparr>) = r_ok file a s"
  "r_ok file a (s\<lparr>e_at := v6\<rparr>) = r_ok file a s"
  "r_ok file a (s\<lparr>e_i := v7\<rparr>) = r_ok file a s"
  "r_ok file a (s\<lparr>e_bytes := v8\<rparr>) = r_ok file a s"
  "r_ok file a (s\<lparr>w_at := v9\<rparr>) = r_ok file a s"
  "r_ok file a (s\<lparr>w_i := v10\<rparr>) = r_ok file a s"
  by (simp_all add: r_ok_def split: reader_at.split)

lemma e_ok_frame [simp]:
  "e_ok file b (s\<lparr>sem_read := v0\<rparr>) = e_ok file b s"
  "e_ok file b (s\<lparr>sem_encrypt := v1\<rparr>) = e_ok file b s"
  "e_ok file b (s\<lparr>sem_write := v2\<rparr>) = e_ok file b s"
  "e_ok file b (s\<lparr>mutex := v3\<rparr>) = e_ok file b s"
  "e_ok file b (s\<lparr>buffer := v4\<rparr>) = e_ok file b s"
  "e_ok file b (s\<lparr>last_size_per_page := v5\<rparr>) = e_ok file b s"
  "e_ok file b (s\<lparr>file_pos := v6\<rparr>) = e_ok file b s"
  "e_ok file b (s\<lparr>serial_out := v7\<rparr>) = e_ok file b s"
  "e_ok file b (s\<lparr>r_at := v8\<rparr>) = e_ok file b s"
  "e_ok file b (s\<lparr>r_i := v9\<rparr>) = e_ok file b s"
  "e_ok file b (s\<lparr>w_at := v10\<rparr>) = e_ok file b s"
  "e_ok file b (s\<lparr>w_i := v11\<rparr>) = e_ok file b s"
  by (simp_all add: e_ok_def split: encrypter_at.split)

lemma w_ok_frame [simp]:
  "w_ok file c (s\<lparr>sem_read := v0\<rparr>) = w_ok file c s"
  "w_ok file c (s\<lparr>sem_encrypt := v1\<rparr>) = w_ok file c s"
  "w_ok file c (s\<lparr>sem_write := v2\<rparr>) = w_ok file c s"
  "w_ok file c (s\<lparr>mutex := v3\<rparr>) = w_ok file c s"
  "w_ok file c (s\<lparr>buffer := v4\<rparr>) = w_ok file c s"
  "w_ok file c (s\<lparr>last_size_per_page := v5\<rparr>) = w_ok file c s"
  "w_ok file c (s\<lparr>file_pos := v6\<rparr>) = w_ok file c s"
  "w_ok file c (s\<lparr>r_at := v7\<rparr>) = w_ok file c s"
  "w_ok file c (s\<lparr>r_i := v8\<rparr>) = w_ok file c s"
  "w_ok file c (s\<lparr>e_at := v9\<rparr>) = w_ok file c s"
  "w_ok file c (s\<lparr>e_i := v10\<rparr>) = w_ok file c s"
  "w_ok file c (s\<lparr>e_bytes := v11\<rparr>) = w_ok file c s"
  by (simp_all add: w_ok_def split: writer_at.split)

lemma pages_ok_frame [simp]:
  "pages_ok file a b c (s\<lparr>sem_read := v0\<rparr>) = pages_ok file a b c s"
  "pages_ok file a b c (s\<lparr>sem_encrypt := v1\<rparr>) = pages_ok file a b c s"
  "pages_ok file a b c (s\<lparr>sem_write := v2\<rparr>) = pages_ok file a b c s"
  "pages_ok file a b c (s\<lparr>mutex := v3\<rparr>) = pages_ok file a b c s"
  "pages_ok file a b c (s\<lparr>file_pos := v4\<rparr>) = pages_ok file a b c s"
  "pages_ok file a b c (s\<lparr>serial_out := v5\<rparr>) = pages_ok file a b c s"
  "pages_ok file a b c (s\<lparr>r_i := v6\<rparr>) = pages_ok file a b c s"
  "pages_ok file a b c (s\<lparr>e_i := v7\<rparr>) = pages_ok file a b c s"
  "pages_ok file a b c (s\<lparr>e_bytes := v8\<rparr>) = pages_ok file a b c s"
  "pages_ok file a b c (s\<lparr>w_at := v9\<rparr>) = pages_ok file a b c s"
  "pages_ok file a b c (s\<lparr>w_i := v10\<rparr>) = pages_ok file a b c s"
  by (simp_all add: pages_ok_def)

lemma pages_encrypted:
  assumes "pages_ok file a b c s" "c \<le> k" "k < a"
  shows "last_size_per_page s (k mod 4) = size_of file k"
    and "j < size_of file k \<Longrightarrow> buffer s (k mod 4) j =
      (if k < b \<or> k = b \<and> j < encrypted (e_at s) then enc file (start_of file k + j) else file ! (start_of file k + j))"
  using assms by (auto simp: pages_ok_def)

lemma writer_step:
  assumes inv: "memkrypt_inv file a b c s" and step: "memkrypt_write s = Some s'"
  shows "\<exists>c'. memkrypt_inv file a b c' s'"
proof -
  have i: "counts_ok a b c s" "r_ok file a s" "e_ok file b s" "w_ok file c s" "pages_ok file a b c s"
    using inv by (simp_all add: memkrypt_inv_def)
  note B = counts_bounds [OF i(1)]
  show ?thesis
  proof (cases "w_at s")
    case W_wait
    then show ?thesis using step i by (intro exI [of _ c]) (auto simp: memkrypt_inv_def memkrypt_write_def counts_ok_def w_ok_def split: if_splits)
  next
    case W_lock
    then show ?thesis using step i by (intro exI [of _ c]) (auto simp: memkrypt_inv_def memkrypt_write_def counts_ok_def w_ok_def split: if_splits)
  next
    case W_load
    then have "last_size_per_page s (c mod 4) = size_of file c" using pages_encrypted(1) [OF i(5), of c] B by simp
    then show ?thesis using W_load step i by (intro exI [of _ c]) (auto simp: memkrypt_inv_def memkrypt_write_def counts_ok_def w_ok_def)
  next
    case (W_unlock sz)
    then show ?thesis using step i by (intro exI [of _ c]) (auto simp: memkrypt_inv_def memkrypt_write_def counts_ok_def w_ok_def)
  next
    case (W_byte sz j)
    then have "c < b" "c < a" using B by auto
    then have b: "buffer s (c mod 4) j = enc file (start_of file c + j)" if "j < sz"
      using that W_byte i(4) pages_encrypted(2) [OF i(5), of c j] by (auto simp: w_ok_def)
    show ?thesis using W_byte step i b by (intro exI [of _ c]) (auto simp: memkrypt_inv_def memkrypt_write_def counts_ok_def w_ok_def split: if_splits)
  next
    case (W_post sz)
    have p: "pages_ok file a b (Suc c) s" using i(5) by (auto simp: pages_ok_def)
    have w: "live file c" "w_i s = c mod 4" "sz = size_of file c" "serial_out s = map (enc file) [0..<start_of file (Suc c)]"
      using i(4) W_post by (simp_all add: w_ok_def pieces(2))
    have k: "counts_ok a b (Suc c) (s\<lparr>sem_read := sem_read s + 1, w_at := at', w_i := v\<rparr>)" if "w_in at' = 0" "w_locks at' = 0" for at' v
      using i(1) W_post that B by (auto simp: counts_ok_def split: if_splits)
    show ?thesis
    proof (cases "sz = 0")
      case True
      then have "s' = s\<lparr>sem_read := sem_read s + 1, w_at := W_done, w_i := w_i s\<rparr>" using step W_post by (cases s) (auto simp: memkrypt_write_def)
      moreover have "start_of file c = length file" using True w(1,3) pieces(7) by simp
      ultimately show ?thesis using i p k [of W_done "w_i s"] w by (intro exI [of _ "Suc c"]) (simp add: memkrypt_inv_def w_ok_def)
    next
      case False
      then have "s' = s\<lparr>sem_read := sem_read s + 1, w_at := W_wait, w_i := (w_i s + 1) mod 4\<rparr>" using step W_post by (simp add: memkrypt_write_def)
      moreover have "live file (Suc c)" using False w(3) by (simp add: pieces(6))
      ultimately show ?thesis using i p k [of W_wait "(w_i s + 1) mod 4"] w by (intro exI [of _ "Suc c"]) (simp add: memkrypt_inv_def w_ok_def mod_Suc_eq)
    qed
  next
    case W_done
    then show ?thesis using step by (simp add: memkrypt_write_def)
  qed
qed


lemma encrypter_step:
  assumes inv: "memkrypt_inv file a b c s" and step: "memkrypt_encrypt s = Some s'"
  shows "\<exists>b'. memkrypt_inv file a b' c s'"
proof -
  have i: "counts_ok a b c s" "r_ok file a s" "e_ok file b s" "w_ok file c s" "pages_ok file a b c s"
    using inv by (simp_all add: memkrypt_inv_def)
  note B = counts_bounds [OF i(1)]
  have p: "buffer s' = buffer s \<Longrightarrow> last_size_per_page s' = last_size_per_page s \<Longrightarrow> r_at s' = r_at s \<Longrightarrow>
      encrypted (e_at s') = encrypted (e_at s) \<Longrightarrow> pages_ok file a b c s'"
    using i(5) by (simp add: pages_ok_def)
  show ?thesis
  proof (cases "e_at s")
    case E_wait
    then show ?thesis using step i p by (intro exI [of _ b]) (auto simp: memkrypt_inv_def memkrypt_encrypt_def counts_ok_def e_ok_def split: if_splits)
  next
    case E_lock
    then show ?thesis using step i p by (intro exI [of _ b]) (auto simp: memkrypt_inv_def memkrypt_encrypt_def counts_ok_def e_ok_def split: if_splits)
  next
    case E_load
    then have "last_size_per_page s (b mod 4) = size_of file b" using pages_encrypted(1) [OF i(5), of b] B by simp
    then show ?thesis using E_load step i p
      by (intro exI [of _ b]) (auto simp: memkrypt_inv_def memkrypt_encrypt_def counts_ok_def e_ok_def)
  next
    case (E_unlock sz)
    then show ?thesis using step i p by (intro exI [of _ b]) (auto simp: memkrypt_inv_def memkrypt_encrypt_def counts_ok_def e_ok_def)
  next
    case (E_byte sz j)
    have e: "live file b" "e_i s = b mod 4" "sz = size_of file b" "j \<le> sz" "e_bytes s = start_of file b + j" using i(3) E_byte by (simp_all add: e_ok_def)
    have b: "c \<le> b" "b < a" "a + r_in (r_at s) \<le> c + 4" using B E_byte by auto
    show ?thesis
    proof (cases "j < sz")
      case True
      then have s': "s' = poke (b mod 4) j (buffer s (b mod 4) j XOR key_byte (start_of file b + j)) (s\<lparr>e_bytes := start_of file b + (j + 1), e_at := E_byte sz (j + 1)\<rparr>)"
        using step E_byte e by (auto simp: memkrypt_encrypt_def)
      have o: "buffer s (b mod 4) j = file ! (start_of file b + j)"
        using pages_encrypted(2) [OF i(5) b(1,2), of j] True e E_byte by simp
      have n: "k mod 4 \<noteq> b mod 4" if "c \<le> k" "k < a" "k \<noteq> b" for k
        using slots_apart [of k b] slots_apart [of b k] that b by linarith
      have r: "filled (r_at s) = 0 \<or> a mod 4 \<noteq> b mod 4" using slots_apart [of b a] b by (cases "r_at s") auto
      have "pages_ok file a b c s'" unfolding pages_ok_def
      proof (intro conjI allI impI)
        fix k assume k: "c \<le> k \<and> k < a"
        then show "last_size_per_page s' (k mod 4) = size_of file k" using pages_encrypted(1) [OF i(5)] by (simp add: s' poke_def)
        fix l assume l: "l < size_of file k"
        show "buffer s' (k mod 4) l = (if k < b \<or> k = b \<and> l < encrypted (e_at s') then enc file (start_of file k + l) else file ! (start_of file k + l))"
        proof (cases "k = b")
          case True
          then show ?thesis using pages_encrypted(2) [OF i(5) b(1,2), of l] l o E_byte by (auto simp: s' poke_def enc_def less_Suc_eq)
        next
          case False
          then show ?thesis using pages_encrypted(2) [OF i(5), of k l] k l n [of k] by (simp add: s' poke_def)
        qed
      next
        fix l assume "l < filled (r_at s')"
        then show "buffer s' (a mod 4) l = file ! (start_of file a + l)" using i(5) r by (auto simp: s' poke_def pages_ok_def)
      qed
      moreover have "counts_ok a b c s'" using i(1) E_byte by (simp add: s' poke_def counts_ok_def)
      moreover have "e_ok file b s'" using True e by (simp add: s' poke_def e_ok_def)
      ultimately show ?thesis using i by (intro exI [of _ b]) (simp add: memkrypt_inv_def s' poke_def)
    next
      case False
      then have "s' = s\<lparr>e_at := E_post sz\<rparr>" using step E_byte by (simp add: memkrypt_encrypt_def)
      then show ?thesis using False e i p E_byte by (intro exI [of _ b]) (simp add: memkrypt_inv_def counts_ok_def e_ok_def)
    qed
  next
    case (E_post sz)
    have e: "live file b" "e_i s = b mod 4" "sz = size_of file b" "e_bytes s = start_of file (Suc b)"
      using i(3) E_post by (simp_all add: e_ok_def pieces(2))
    have q: "pages_ok file a (Suc b) c (s\<lparr>sem_write := v, e_at := at', e_i := w\<rparr>)" if "encrypted at' = 0" for at' v w
      using i(5) E_post e that by (auto simp: pages_ok_def less_Suc_eq)
    have k: "counts_ok a (Suc b) c (s\<lparr>sem_write := sem_write s + 1, e_at := at', e_i := v\<rparr>)" if "e_in at' = 0" "e_locks at' = 0" for at' v
      using i(1) E_post that B by (auto simp: counts_ok_def split: if_splits)
    show ?thesis
    proof (cases "sz = 0")
      case True
      then have "s' = s\<lparr>sem_write := sem_write s + 1, e_at := E_done, e_i := e_i s\<rparr>" using step E_post by (cases s) (auto simp: memkrypt_encrypt_def)
      moreover have "start_of file b = length file" using True e(1,3) pieces(7) by simp
      ultimately show ?thesis using i q [where at' = E_done and v = "sem_write s + 1" and w = "e_i s"] k [of E_done "e_i s"] e by (intro exI [of _ "Suc b"]) (simp add: memkrypt_inv_def e_ok_def)
    next
      case False
      then have "s' = s\<lparr>sem_write := sem_write s + 1, e_at := E_wait, e_i := (e_i s + 1) mod 4\<rparr>" using step E_post by (simp add: memkrypt_encrypt_def)
      moreover have "live file (Suc b)" using False e(3) by (simp add: pieces(6))
      ultimately show ?thesis using i q [where at' = E_wait and v = "sem_write s + 1" and w = "(e_i s + 1) mod 4"] k [of E_wait "(e_i s + 1) mod 4"] e by (intro exI [of _ "Suc b"]) (simp add: memkrypt_inv_def e_ok_def mod_Suc_eq)
    qed
  next
    case E_done
    then show ?thesis using step by (simp add: memkrypt_encrypt_def)
  qed
qed


lemma reader_step:
  assumes inv: "memkrypt_inv file a b c s" and step: "memkrypt_read (Some file) s = Some s'"
  shows "\<exists>a'. memkrypt_inv file a' b c s'"
proof -
  have i: "counts_ok a b c s" "r_ok file a s" "e_ok file b s" "w_ok file c s" "pages_ok file a b c s"
    using inv by (simp_all add: memkrypt_inv_def)
  note B = counts_bounds [OF i(1)]
  have p: "buffer s' = buffer s \<Longrightarrow> last_size_per_page s' = last_size_per_page s \<Longrightarrow> e_at s' = e_at s \<Longrightarrow>
      filled (r_at s') = filled (r_at s) \<Longrightarrow> pages_ok file a b c s'"
    using i(5) by (simp add: pages_ok_def)
  have n: "k mod 4 \<noteq> a mod 4" if "c \<le> k" "k < a" "r_in (r_at s) = 1" for k
    using slots_apart [of k a] that B(3) by linarith
  show ?thesis
  proof (cases "r_at s")
    case R_open
    then show ?thesis using step i p by (intro exI [of _ a]) (auto simp: memkrypt_inv_def memkrypt_read_def counts_ok_def r_ok_def)
  next
    case R_start
    then show ?thesis using step i p B by (intro exI [of _ a]) (auto simp: memkrypt_inv_def memkrypt_read_def counts_ok_def r_ok_def)
  next
    case R_wait
    then show ?thesis using step i p by (intro exI [of _ a]) (auto simp: memkrypt_inv_def memkrypt_read_def counts_ok_def r_ok_def split: if_splits)
  next
    case R_clear
    then have s': "s' = s\<lparr>buffer := (buffer s)(a mod 4 := (\<lambda>_. 0)), r_at := R_fill 0\<rparr>" using step i(2) by (auto simp: memkrypt_read_def r_ok_def)
    have "pages_ok file a b c s'" using i(5) n R_clear by (auto simp: pages_ok_def s')
    then show ?thesis using R_clear i by (intro exI [of _ a]) (simp add: memkrypt_inv_def s' counts_ok_def r_ok_def)
  next
    case (R_fill j)
    have r: "live file a" "r_i s = a mod 4" "j \<le> size_of file a" "file_pos s = start_of file a + j" using i(2) R_fill by (simp_all add: r_ok_def)
    show ?thesis
    proof (cases "j < PAGE_BYTES \<and> file_pos s < length file")
      case True
      then have s': "s' = poke (a mod 4) j (file ! (start_of file a + j)) (s\<lparr>file_pos := start_of file a + (j + 1), r_at := R_fill (j + 1)\<rparr>)"
        using step R_fill r by (auto simp: memkrypt_read_def)
      have "j < size_of file a" using True r pieces(8) [of "file" a] by (simp add: less_diff_conv add.commute)
      moreover have "pages_ok file a b c s'" using i(5) n R_fill by (auto simp: pages_ok_def s' poke_def less_Suc_eq)
      ultimately show ?thesis using R_fill r i by (intro exI [of _ a]) (simp add: memkrypt_inv_def s' poke_def counts_ok_def r_ok_def)
    next
      case False
      then have s': "s' = s\<lparr>r_at := R_lock j\<rparr>" using step R_fill by (auto simp: memkrypt_read_def split: if_splits)
      have "j = size_of file a" using False r pieces(8) [of "file" a] by auto
      then show ?thesis using R_fill r i p by (intro exI [of _ a]) (simp add: memkrypt_inv_def s' counts_ok_def r_ok_def)
    qed
  next
    case (R_lock sz)
    then show ?thesis using step i p by (intro exI [of _ a]) (auto simp: memkrypt_inv_def memkrypt_read_def counts_ok_def r_ok_def split: if_splits)
  next
    case (R_store sz)
    then have s': "s' = s\<lparr>last_size_per_page := (last_size_per_page s)(a mod 4 := sz), r_at := R_unlock sz\<rparr>" using step i(2) by (auto simp: memkrypt_read_def r_ok_def)
    have "pages_ok file a b c s'" using i(5) n R_store by (auto simp: pages_ok_def s')
    then show ?thesis using R_store i by (intro exI [of _ a]) (simp add: memkrypt_inv_def s' counts_ok_def r_ok_def)
  next
    case (R_unlock sz)
    then show ?thesis using step i p by (intro exI [of _ a]) (auto simp: memkrypt_inv_def memkrypt_read_def counts_ok_def r_ok_def)
  next
    case (R_post sz)
    have r: "live file a" "r_i s = a mod 4" "sz = size_of file a" "file_pos s = start_of file (Suc a)" "last_size_per_page s (a mod 4) = sz"
      using i(2) R_post by (simp_all add: r_ok_def pieces(2))
    have q: "pages_ok file (Suc a) b c (s\<lparr>sem_encrypt := v, r_at := at', r_i := w\<rparr>)" if "filled at' = 0" for at' v w
    proof -
      have "encrypted (e_at s) = 0 \<or> b \<noteq> a" "\<not> a < b" using B by (cases "e_at s"; auto)+
      then show ?thesis using i(5) R_post r that by (auto simp: pages_ok_def less_Suc_eq)
    qed
    have k: "counts_ok (Suc a) b c (s\<lparr>sem_encrypt := sem_encrypt s + 1, r_at := at', r_i := v\<rparr>)"
      if "r_in at' = 0" "r_locks at' = 0" "at' \<noteq> R_open" "at' \<noteq> R_start" for at' v
      using i(1) R_post that by (auto simp: counts_ok_def split: if_splits)
    show ?thesis
    proof (cases "sz = 0")
      case True
      then have "s' = s\<lparr>sem_encrypt := sem_encrypt s + 1, r_at := R_done, r_i := r_i s\<rparr>" using step R_post by (cases s) (auto simp: memkrypt_read_def)
      moreover have "start_of file a = length file" using True r(1,3) pieces(7) by simp
      ultimately show ?thesis using i q [where at' = R_done and v = "sem_encrypt s + 1" and w = "r_i s"] k [of R_done "r_i s"] r
        by (intro exI [of _ "Suc a"]) (simp add: memkrypt_inv_def r_ok_def)
    next
      case False
      then have "s' = s\<lparr>sem_encrypt := sem_encrypt s + 1, r_at := R_wait, r_i := (r_i s + 1) mod 4\<rparr>" using step R_post by (simp add: memkrypt_read_def)
      moreover have "live file (Suc a)" using False r(3) by (simp add: pieces(6))
      ultimately show ?thesis using i q [where at' = R_wait and v = "sem_encrypt s + 1" and w = "(r_i s + 1) mod 4"] k [of R_wait "(r_i s + 1) mod 4"] r
        by (intro exI [of _ "Suc a"]) (simp add: memkrypt_inv_def r_ok_def mod_Suc_eq)
    qed
  next
    case R_done
    then show ?thesis using step by (simp add: memkrypt_read_def)
  next
    case R_failed
    then show ?thesis using step by (simp add: memkrypt_read_def)
  qed
qed


lemma memkrypt_step_inv:
  assumes "memkrypt_inv file a b c s" and "memkrypt_step (Some file) p s = Some s'"
  shows "\<exists>a b c. memkrypt_inv file a b c s'"
  using assms reader_step [of "file" a b c s s'] encrypter_step [of "file" a b c s s'] writer_step [of "file" a b c s s']
  by (cases p) auto

lemma memkrypt_run_inv:
  "memkrypt_inv file a b c s \<Longrightarrow> memkrypt_run (Some file) ps s = Some s' \<Longrightarrow> \<exists>a b c. memkrypt_inv file a b c s'"
proof (induction ps arbitrary: a b c s)
  case (Cons p ps)
  obtain s1 where s1: "memkrypt_step (Some file) p s = Some s1" "memkrypt_run (Some file) ps s1 = Some s'"
    using Cons.prems(2) by (cases "memkrypt_step (Some file) p s") auto
  show ?case using memkrypt_step_inv [OF Cons.prems(1) s1(1)] Cons.IH s1(2) by blast
qed auto

subsection \<open>The pipeline ends\<close>

fun r_rank :: "reader_at \<Rightarrow> nat" where
  "r_rank R_open = 12" | "r_rank R_start = 11" | "r_rank R_wait = 10" | "r_rank R_clear = 9"
| "r_rank (R_fill j) = 8 + (if 0 < j then 10 else 0)" | "r_rank (R_lock j) = 7 + (if 0 < j then 10 else 0)"
| "r_rank (R_store j) = 6 + (if 0 < j then 10 else 0)" | "r_rank (R_unlock j) = 5 + (if 0 < j then 10 else 0)"
| "r_rank (R_post j) = 4 + (if 0 < j then 10 else 0)" | "r_rank R_done = 0" | "r_rank R_failed = 0"

fun e_rank :: "encrypter_at \<Rightarrow> nat" where
  "e_rank E_wait = 10" | "e_rank E_lock = 9" | "e_rank E_load = 8" | "e_rank (E_unlock sz) = 7"
| "e_rank (E_byte sz j) = 6 + (if 0 < j then 10 else 0)" | "e_rank (E_post sz) = 5 + (if 0 < sz then 10 else 0)" | "e_rank E_done = 0"

fun w_rank :: "writer_at \<Rightarrow> nat" where
  "w_rank W_wait = 10" | "w_rank W_lock = 9" | "w_rank W_load = 8" | "w_rank (W_unlock sz) = 7"
| "w_rank (W_byte sz j) = 6 + (if 0 < j then 10 else 0)" | "w_rank (W_post sz) = 5 + (if 0 < sz then 10 else 0)" | "w_rank W_done = 0"

text \<open>Twenty steps for every byte that is still to be read, enciphered or written pay for everything.\<close>

definition work :: "u8 list \<Rightarrow> memkrypt \<Rightarrow> nat" where
  "work file s = 20 * (length file - file_pos s) + r_rank (r_at s) + 20 * (length file - e_bytes s) + e_rank (e_at s) +
     20 * (length file - length (serial_out s)) + w_rank (w_at s)"

lemma work_decreases:
  assumes inv: "memkrypt_inv file a b c s" and step: "memkrypt_step (Some file) p s = Some s'"
  shows "work file s' < work file s"
proof -
  have i: "r_ok file a s" "e_ok file b s" "w_ok file c s" using inv by (simp_all add: memkrypt_inv_def)
  show ?thesis
  proof (cases p)
    case Reader
    then show ?thesis using step i(1) by (cases "r_at s") (auto simp: memkrypt_read_def work_def r_ok_def poke_def Let_def split: if_splits)
  next
    case Encrypter
    have "e_bytes s < length file" if "e_at s = E_byte sz j" "j < sz" for sz j
      using that i(2) piece_end [of "file" b] by (simp add: e_ok_def)
    then show ?thesis using Encrypter step i(2) by (cases "e_at s") (auto simp: memkrypt_encrypt_def work_def e_ok_def poke_def Let_def split: if_splits)
  next
    case Writer
    have "length (serial_out s) < length file" if "w_at s = W_byte sz j" "j < sz" for sz j
      using that i(3) piece_end [of "file" c] by (simp add: w_ok_def)
    then show ?thesis using Writer step i(3) by (cases "w_at s") (auto simp: memkrypt_write_def work_def w_ok_def Let_def split: if_splits)
  qed
qed

lemma run_work:
  "memkrypt_inv file a b c s \<Longrightarrow> memkrypt_run (Some file) ps s = Some s' \<Longrightarrow> length ps + work file s' \<le> work file s"
proof (induction ps arbitrary: a b c s)
  case (Cons p ps)
  obtain s1 where s1: "memkrypt_step (Some file) p s = Some s1" "memkrypt_run (Some file) ps s1 = Some s'"
    using Cons.prems(2) by (cases "memkrypt_step (Some file) p s") auto
  obtain a' b' c' where "memkrypt_inv file a' b' c' s1" using memkrypt_step_inv [OF Cons.prems(1) s1(1)] by blast
  then show ?case using Cons.IH s1 work_decreases [OF Cons.prems(1) s1(1)] by fastforce
qed simp

text \<open>Nobody waits for ever: if no process can go on, all three are through.\<close>

lemma stuck_done:
  assumes inv: "memkrypt_inv file a b c s" and stuck: "\<forall>p. memkrypt_step (Some file) p s = None"
  shows "r_at s = R_done \<and> e_at s = E_done \<and> w_at s = W_done \<and> c = b \<and> b = a"
proof -
  have i: "counts_ok a b c s" "r_ok file a s" "e_ok file b s" "w_ok file c s" using inv by (simp_all add: memkrypt_inv_def)
  note B = counts_bounds [OF i(1)]
  have st: "memkrypt_read (Some file) s = None" "memkrypt_encrypt s = None" "memkrypt_write s = None"
    using stuck [THEN spec, of Reader] stuck [THEN spec, of Encrypter] stuck [THEN spec, of Writer] by simp_all
  have r: "r_at s = R_wait \<and> sem_read s = 0 \<or> (\<exists>sz. r_at s = R_lock sz \<and> mutex s = 0) \<or> r_at s = R_done"
    using st(1) i(2) by (cases "r_at s") (auto simp: memkrypt_read_def r_ok_def Let_def split: if_splits)
  have e: "e_at s = E_wait \<and> sem_encrypt s = 0 \<or> e_at s = E_lock \<and> mutex s = 0 \<or> e_at s = E_done"
    using st(2) by (cases "e_at s") (auto simp: memkrypt_encrypt_def Let_def split: if_splits)
  have w: "w_at s = W_wait \<and> sem_write s = 0 \<or> w_at s = W_lock \<and> mutex s = 0 \<or> w_at s = W_done"
    using st(3) by (cases "w_at s") (auto simp: memkrypt_write_def Let_def split: if_splits)
  have m: "mutex s = 1" using r e w i(1) by (auto simp: counts_ok_def)
  have k: "sem_encrypt s + b = a" "sem_write s + c = b" "r_at s \<noteq> R_done \<Longrightarrow> sem_read s = 0 \<and> a = 4 + c"
    using r e w m i(1) by (auto simp: counts_ok_def)
  have full: "\<not> live file (Suc n)" if "start_of file n = length file" for n
    using that piece_end [of "file" n] by (simp add: pieces(6))
  have mono: "live file n \<Longrightarrow> k \<le> n \<Longrightarrow> live file k" for n k by (simp add: live_def)
  have ed: "e_at s = E_wait \<Longrightarrow> live file b \<and> b = a" "e_at s = E_done \<Longrightarrow> 0 < b \<and> start_of file (b - 1) = length file \<and> live file (b - 1)"
    using i(3) k(1) e m by (auto simp: e_ok_def)
  have wd: "w_at s = W_wait \<Longrightarrow> live file c \<and> c = b" "w_at s = W_done \<Longrightarrow> 0 < c \<and> start_of file (c - 1) = length file \<and> live file (c - 1)"
    using i(4) k(2) w m by (auto simp: w_ok_def)
  have over: "0 < n \<and> start_of file (n - 1) = length file \<and> live file (n - 1) \<Longrightarrow> \<not> live file n" for n using full [of "n - 1"] by simp
  have r_done: "r_at s = R_done"
  proof (rule ccontr)
    assume n: "r_at s \<noteq> R_done"
    then have la: "live file a" "a = 4 + c" using i(2) r m k(3) by (auto simp: r_ok_def)
    then have lb: "live file b" "live file c" using mono [of a] B by auto
    then have "b = a" using e ed over m by auto
    then have "c = b" using w wd over lb m by auto
    then show False using la \<open>b = a\<close> by simp
  qed
  then have a: "0 < a" "start_of file (a - 1) = length file" "live file (a - 1)" "\<not> live file a"
    using i(2) over by (auto simp: r_ok_def)
  have e_done: "e_at s = E_done" using e ed a(4) m by auto
  have b: "b = a" using ed(2) [OF e_done] over [of b] mono [OF a(3), of b] B(2) by (cases "b \<le> a - 1") auto
  have w_done: "w_at s = W_done" using w wd a(4) b m by auto
  have "c = b" using wd(2) [OF w_done] over [of c] mono [OF a(3), of c] B(1) b by (cases "c \<le> a - 1") auto
  then show ?thesis using r_done e_done w_done b by simp
qed

lemma enc_crypt: "map (enc file) [0..<length file] = crypt_bytes 0 file"
  by (rule nth_equalityI) (simp_all add: nth_crypt enc_def)

lemma inv_output:
  assumes "memkrypt_inv file a b c s"
  shows "serial_out s = take (length (serial_out s)) (crypt_bytes 0 file)"
proof -
  have w: "serial_out s = map (enc file) [0..<start_of file c + written (w_at s)]" using assms by (simp add: memkrypt_inv_def w_ok_def)
  have "start_of file c + written (w_at s) \<le> length file"
    using assms piece_end [of "file" c] pieces(3) [of "file" c] by (cases "w_at s") (auto simp: memkrypt_inv_def w_ok_def)
  then show ?thesis by (simp add: w enc_crypt [symmetric] take_map)
qed


text \<open>The page that a process works on.\<close>

definition works_on :: "process \<Rightarrow> memkrypt \<Rightarrow> nat option" where
  "works_on p s = (case p of
       Reader \<Rightarrow> if r_in (r_at s) = 1 then Some (r_i s) else None
     | Encrypter \<Rightarrow> if e_in (e_at s) = 1 then Some (e_i s) else None
     | Writer \<Rightarrow> if w_in (w_at s) = 1 then Some (w_i s) else None)"

definition in_mutex :: "process \<Rightarrow> memkrypt \<Rightarrow> bool" where
  "in_mutex p s = (case p of Reader \<Rightarrow> r_locks (r_at s) = 1 | Encrypter \<Rightarrow> e_locks (e_at s) = 1 | Writer \<Rightarrow> w_locks (w_at s) = 1)"

text \<open>C18: No two of the processes ever work on the same page, and no two are between the locks of
  the table of sizes, so every byte has one user at a time.\<close>

theorem memkrypt_excludes:
  assumes "memkrypt_run (Some file) schedule memkrypt_main = Some s" and "p \<noteq> q"
  shows "(works_on p s = None \<or> works_on p s \<noteq> works_on q s) \<and> \<not> (in_mutex p s \<and> in_mutex q s)"
proof -
  obtain a b c where inv: "memkrypt_inv file a b c s" using memkrypt_run_inv [OF memkrypt_main_inv assms(1)] by blast
  then have i: "counts_ok a b c s" "r_ok file a s" "e_ok file b s" "w_ok file c s" by (simp_all add: memkrypt_inv_def)
  note B = counts_bounds [OF i(1)]
  have r: "r_in (r_at s) = 1 \<Longrightarrow> r_i s = a mod 4" using i(2) by (cases "r_at s") (auto simp: r_ok_def)
  have e: "e_in (e_at s) = 1 \<Longrightarrow> e_i s = b mod 4" using i(3) by (cases "e_at s") (auto simp: e_ok_def)
  have w: "w_in (w_at s) = 1 \<Longrightarrow> w_i s = c mod 4" using i(4) by (cases "w_at s") (auto simp: w_ok_def)
  have "r_in (r_at s) = 1 \<Longrightarrow> e_in (e_at s) = 1 \<Longrightarrow> a mod 4 \<noteq> b mod 4" using slots_apart [of b a] B by linarith
  moreover have "r_in (r_at s) = 1 \<Longrightarrow> w_in (w_at s) = 1 \<Longrightarrow> a mod 4 \<noteq> c mod 4" using slots_apart [of c a] B by linarith
  moreover have "e_in (e_at s) = 1 \<Longrightarrow> w_in (w_at s) = 1 \<Longrightarrow> b mod 4 \<noteq> c mod 4" using slots_apart [of c b] B by linarith
  moreover have "r_locks (r_at s) + e_locks (e_at s) + w_locks (w_at s) \<le> 1" using i(1) by (auto simp: counts_ok_def)
  ultimately show ?thesis using assms(2) r e w by (cases p; cases q) (auto simp: works_on_def in_mutex_def)
qed

text \<open>
  A reader that cannot open the file returns without a signal to the others, which then wait
  for ever.
\<close>

lemma failing_reader_strands_the_others:
  "\<exists>s. memkrypt_run None [Reader] memkrypt_main = Some s \<and> r_at s = R_failed \<and> e_at s = E_wait \<and> w_at s = W_wait \<and>
     (\<forall>p. memkrypt_step None p s = None)"
proof -
  let ?s = "memkrypt_main\<lparr>r_at := R_failed\<rparr>"
  have "memkrypt_step None p ?s = None" for p
    by (cases p) (simp_all add: memkrypt_read_def memkrypt_encrypt_def memkrypt_write_def memkrypt_main_def)
  then show ?thesis by (intro exI [of _ ?s]) (simp add: memkrypt_read_def memkrypt_main_def)
qed

subsection \<open>Witnesses\<close>


definition krypt_schedule :: "process list" where
  "krypt_schedule = replicate 18 Reader @ replicate 14 Encrypter @ replicate 14 Writer"

lemma krypt_demo_run:
  "\<exists>s. memkrypt_run (Some [0x68, 0x69]) krypt_schedule memkrypt_main = Some s \<and> (\<forall>p. memkrypt_step (Some [0x68, 0x69]) p s = None)"
proof -
  have "case memkrypt_run (Some [0x68, 0x69]) krypt_schedule memkrypt_main of None \<Rightarrow> False
    | Some s \<Rightarrow> Option.is_none (memkrypt_read (Some [0x68, 0x69]) s) \<and> Option.is_none (memkrypt_encrypt s) \<and> Option.is_none (memkrypt_write s)"
    by code_simp
  then obtain s where s: "memkrypt_run (Some [0x68, 0x69]) krypt_schedule memkrypt_main = Some s"
    "memkrypt_read (Some [0x68, 0x69]) s = None" "memkrypt_encrypt s = None" "memkrypt_write s = None"
    by (auto simp: Option.is_none_def split: option.splits)
  then have "memkrypt_step (Some [0x68, 0x69]) p s = None" for p by (cases p) simp_all
  then show ?thesis using s(1) by blast
qed


theorem memkrypt_excludes_witness:
  "\<exists>s. memkrypt_run (Some [0x68, 0x69]) [Reader, Reader, Reader, Reader] memkrypt_main = Some s \<and> works_on Reader s = Some 0 \<and>
     works_on Writer s \<noteq> Some 0"
proof -
  have "\<exists>s. memkrypt_run (Some [0x68, 0x69]) [Reader, Reader, Reader, Reader] memkrypt_main = Some s \<and> works_on Reader s = Some 0"
    by (simp add: memkrypt_read_def memkrypt_main_def works_on_def)
  then obtain s where s: "memkrypt_run (Some [0x68, 0x69]) [Reader, Reader, Reader, Reader] memkrypt_main = Some s" "works_on Reader s = Some 0" by blast
  then show ?thesis using memkrypt_excludes [OF s(1), of Reader Writer] by auto
qed

end
