(* ===== verification/Shell.thy ===== *)
theory Shell
  imports Kernel
begin

section \<open>The shell\<close>

text \<open>
  The console program \<^verbatim>\<open>tasks/console.c\<close>: its line editor key by key, and its commands. The
  answers of the kernel to its calls are arguments; what it does is the list of the calls that
  have an effect outside it. The functions of the tasks' library (\<^verbatim>\<open>kernel/lib.c\<close>) that stand
  between such programs and the kernel come first, on the kernel's own state.
\<close>

subsection \<open>The library of the tasks\<close>

text \<open>Two calls one after the other; the second is made when the first has answered.\<close>

definition after :: "(answer \<times> 's) option \<Rightarrow> (u32 \<Rightarrow> 's \<Rightarrow> (answer \<times> 's) option) \<Rightarrow> (answer \<times> 's) option" where
  "after r f = Option.bind r (\<lambda>(a, s). case a of Answers n \<Rightarrow> f n s | _ \<Rightarrow> Some (a, s))"

text \<open>A semaphore of the library is the pair of ends of a pipe, in the memory of the process.\<close>

definition lib_sem_open :: "u32 \<Rightarrow> 'a library_call" where
  "lib_sem_open sem int30 regs s = lib_pipe sem int30 regs s"

definition lib_sem_close :: "u32 \<Rightarrow> 'a library_call" where
  "lib_sem_close sem int30 regs s = do {
     a \<leftarrow> get_virt32 sem s;
     after (lib_close (sint a) int30 regs s) (\<lambda>r s. do {
       b \<leftarrow> get_virt32 (sem + 4) s;
       after (lib_close (sint b) int30 regs s) (\<lambda>r' s. Some (Answers (r + r'), s))
     })
   }"

text \<open>\<open>buf\<close> is the array of \<open>count\<close> bytes on the stack of the process.\<close>

definition lib_sem_signal :: "u32 \<Rightarrow> u32 \<Rightarrow> u32 \<Rightarrow> 'a library_call" where
  "lib_sem_signal buf sem count int30 regs s = do {
     b \<leftarrow> get_virt32 (sem + 4) s;
     lib_write (sint b) buf count int30 regs s
   }"

definition lib_sem_wait :: "u32 \<Rightarrow> u32 \<Rightarrow> u32 \<Rightarrow> 'a library_call" where
  "lib_sem_wait buf sem count int30 regs s = do {
     a \<leftarrow> get_virt32 sem s;
     lib_read (sint a) buf count int30 regs s
   }"

text \<open>\<open>sc\<close> is the address of the character on the stack.\<close>

definition lib_getch :: "u32 \<Rightarrow> int \<Rightarrow> 'a library_call" where
  "lib_getch sc fd int30 regs s = do {
     s \<leftarrow> memset_virt 1 sc 0 s;
     after (lib_read fd sc 1 int30 regs s) (\<lambda>r s. do {
       c \<leftarrow> user_byte sc s;
       Some (Answers (scast c), s)
     })
   }"

abbreviation (input) FPRINTF_BUFFER_SIZE :: nat where "FPRINTF_BUFFER_SIZE \<equiv> 4096"

text \<open>
  \<open>fp\<close> is the address of the pointer to the buffer, 0 before the first call. A failed
  assertion only prints.
\<close>

definition lib_fprintf :: "u32 \<Rightarrow> int \<Rightarrow> (u32 \<Rightarrow> u8 list) \<Rightarrow> u8 list \<Rightarrow> u32 list \<Rightarrow> 'a library_call" where
  "lib_fprintf fp fd str format args int30 regs s =
     (if format = [] then Some (Answers 0, s)
      else do {
        b \<leftarrow> get_virt32 fp s;
        after (if b = 0 then after (lib_palloc int30 regs s) (\<lambda>page s. do {
             s \<leftarrow> put_virt32 page fp s;
             if page = 0 then Some (Answers 0, s)
             else map_option (Pair (Answers page)) (memset_virt FPRINTF_BUFFER_SIZE page 0 s)
           }) else Some (Answers b, s)) (\<lambda>page s.
          if page = 0 then Some (Answers (- 5), s)
          else do {
            (sz_printf, text) \<leftarrow> vsnprintf str (int FPRINTF_BUFFER_SIZE) format args;
            s \<leftarrow> bytes_to_user text page s;
            lib_write fd page (word_of_int sz_printf) int30 regs s
          })
      })"

subsection \<open>The line editor\<close>

abbreviation (input) LINE_BUFFER_SIZE :: nat where "LINE_BUFFER_SIZE \<equiv> 80"

record line =
  line_buffer :: "u8 list"
  line_size :: nat

definition new_line :: line where
  "new_line = \<lparr>line_buffer = replicate LINE_BUFFER_SIZE 0, line_size = 0\<rparr>"

text \<open>One character: is the line complete, what is echoed, and the line.\<close>

definition line_key :: "u8 \<Rightarrow> line \<Rightarrow> bool \<times> u8 list \<times> line" where
  "line_key sc l =
     (if sc = 0x0A then (True, [sc], l)
      else if sc = 0x08 then
        (if 0 < line_size l
         then (False, [sc], l\<lparr>line_size := line_size l - 1, line_buffer := (line_buffer l)[line_size l - 1 := 0]\<rparr>)
         else (False, [], l))
      else if sc = 0x09 then (False, [], l)
      else if sc = 0x1B then (False, replicate (line_size l) 0x08, new_line)
      else if line_size l < LINE_BUFFER_SIZE
        then (False, [sc], l\<lparr>line_buffer := (line_buffer l)[line_size l := sc], line_size := line_size l + 1\<rparr>)
        else (False, [], l))"

text \<open>The characters that the console delivers; the echo, the line, and the characters left.\<close>

fun read_line :: "u8 list \<Rightarrow> line \<Rightarrow> (u8 list \<times> line \<times> u8 list) option" where
  "read_line [] l = None"
| "read_line (sc # input) l =
     (case line_key sc l of
        (True, echo, l) \<Rightarrow> Some (echo, l, input)
      | (False, echo, l) \<Rightarrow> map_option (\<lambda>(echoes, l, input). (echo @ echoes, l, input)) (read_line input l))"

subsection \<open>Commands\<close>

datatype task_call = Prints "u8 list" | Opens "u8 list" u32 | Closes int | Writes int "u8 list" | Runs "u8 list"

record kernel_answers =
  run_answer :: "u8 list \<Rightarrow> int"
  open_answer :: "u8 list \<Rightarrow> int"
  read_answers :: "u8 list list"

text \<open>A printed line; \<open>s\<close> is the string that the format names.\<close>

definition prints :: "string \<Rightarrow> u8 list \<Rightarrow> u32 list \<Rightarrow> task_call list option" where
  "prints format s args = map_option (\<lambda>(n, text). [Prints (take (nat n) text)]) (vsnprintf (\<lambda>_. s) (int FPRINTF_BUFFER_SIZE) (chars format @ [0x0A]) args)"

text \<open>The string at an address of the line buffer; without its end the program reads on into the stack.\<close>

definition c_string :: "u8 list \<Rightarrow> u8 list option" where
  "c_string bs = (if 0 \<in> set bs then Some (takeWhile (\<lambda>b. b \<noteq> 0) bs) else None)"

definition cmd_execute :: "kernel_answers \<Rightarrow> u8 list \<Rightarrow> nat \<Rightarrow> task_call list option" where
  "cmd_execute k buf sz =
     (if sz = 0 then prints (''Spursh: Expected filename after '' @ [CHR 0x27, CHR 0x3A, CHR 0x27]) [] []
      else do {
        file \<leftarrow> c_string buf;
        let throwed_pid = run_answer k file;
        out \<leftarrow> (if throwed_pid > 0 then prints ''Spursh: pid [%d]'' [] [word_of_int throwed_pid]
          else if throwed_pid = - RUN_ERROR_OPENING then prints ''Spursh: Error opening %s'' file [0]
          else if throwed_pid = - RUN_INVALID_EXECUTABLE then prints ''Spursh: %s is not a valid PSO file'' file [0]
          else if throwed_pid = - RUN_ERROR_READING then prints ''Spursh: Error reading %s'' file [0]
          else if throwed_pid = - RUN_UNAVAILABLE_MEMORY then prints ''Spursh: Not enough memory'' file [0]
          else Some []);
        Some (Runs file # out)
      })"

text \<open>The reads of the file, up to the first that brings nothing, copied to a device.\<close>

fun copy_reads :: "int \<Rightarrow> u8 list list \<Rightarrow> task_call list" where
  "copy_reads fd [] = []"
| "copy_reads fd (buf # reads) = (if buf = [] then [] else Writes fd buf # copy_reads fd reads)"

definition cmd_cat :: "int \<Rightarrow> kernel_answers \<Rightarrow> u8 list \<Rightarrow> nat \<Rightarrow> task_call list option" where
  "cmd_cat con_fd k buf sz =
     (if sz = 0 then prints (''Spursh: Expected filename after '' @ [CHR 0x27] @ ''%c'' @ [CHR 0x27]) [] [0x40]
      else do {
        file \<leftarrow> c_string buf;
        let fd = open_answer k file;
        if fd < 0 then map_option (Cons (Opens file FS_OPEN_RD)) (prints ''Spursh: Error opening %s'' file [0])
        else Some (Opens file FS_OPEN_RD # copy_reads con_fd (read_answers k) @ [Closes fd])
      })"

definition cmd_serialcat :: "kernel_answers \<Rightarrow> u8 list \<Rightarrow> nat \<Rightarrow> task_call list option" where
  "cmd_serialcat k buf sz =
     (if sz = 0 then prints (''Spursh: Expected filename after '' @ [CHR 0x27] @ ''%c'' @ [CHR 0x27]) [] [0x3D]
      else do {
        file \<leftarrow> c_string buf;
        let fd = open_answer k file;
        if fd < 0 then map_option (Cons (Opens file FS_OPEN_RD)) (prints ''Spursh: Error opening %s'' file [0])
        else do {
          let serial_fd = open_answer k (chars ''/serial0'');
          let opened = [Opens file FS_OPEN_RD, Opens (chars ''/serial0'') FS_OPEN_RDWR];
          if serial_fd < 0 then map_option ((@) opened) (prints (''Spursh: Error opening '' @ [CHR 0x22] @ ''/serial0'' @ [CHR 0x22]) [] [])
          else Some (opened @ copy_reads serial_fd (read_answers k) @ [Closes fd, Closes serial_fd])
        }
      })"

definition help_text :: "string list" where
  "help_text = [''Available commands:'', CHR 0x09 # ''help'' @ [CHR 0x09] @ ''Show this message'',
     CHR 0x09 # ''exit'' @ [CHR 0x09] @ ''Terminate this console'', CHR 0x09 # '':PATH'' @ [CHR 0x09] @ ''Run a .PSO task at PATH'',
     CHR 0x09 # ''@PATH'' @ [CHR 0x09] @ ''Read and print at PATH'', '''']"

text \<open>A command: whether the shell ends, and the calls.\<close>

definition parse :: "int \<Rightarrow> kernel_answers \<Rightarrow> line \<Rightarrow> (bool \<times> task_call list) option" where
  "parse con_fd k l =
     (let buf = line_buffer l; sz = line_size l in
      if hd buf = 0x3A then map_option (Pair False) (cmd_execute k (tl buf) (sz - 1))
      else if hd buf = 0x40 then map_option (Pair False) (cmd_cat con_fd k (tl buf) (sz - 1))
      else if hd buf = 0x3D then map_option (Pair False) (cmd_serialcat k (tl buf) (sz - 1))
      else if strcmp buf (chars ''exit'') = 0 then do {
        out \<leftarrow> prints ''Bye.'' [] [];
        Some (True, out @ [Closes con_fd])
      }
      else if strcmp buf (chars ''help'') = 0 then Some (False, map (\<lambda>t. Prints (chars t @ [0x0A])) help_text)
      else Some (False, [Prints (chars (''Spursh: Huh? What does '' @ [CHR 0x22])), Writes con_fd (take sz buf),
        Prints (chars ([CHR 0x22] @ '' mean?'') @ [0x0A])]))"

text \<open>
  The program, on the characters that come: the calls of every command, with the echo of its
  line before them. The answers may differ from command to command.
\<close>

fun shell :: "nat \<Rightarrow> int \<Rightarrow> (nat \<Rightarrow> kernel_answers) \<Rightarrow> u8 list \<Rightarrow> task_call list option" where
  "shell 0 con_fd k input = Some []"
| "shell (Suc n) con_fd k input =
     (case read_line input new_line of
        None \<Rightarrow> Some [Prints (chars ''>> '')]
      | Some (echo, l, rest) \<Rightarrow> do {
          (finished, calls) \<leftarrow> (if 0 < line_size l then parse con_fd (k n) l else Some (False, []));
          calls' \<leftarrow> (if finished then Some [] else shell n con_fd k rest);
          Some (Prints (chars ''>> '') # Writes con_fd echo # calls @ calls')
        })"


subsection \<open>The editor shows the line\<close>

text \<open>What a line is, as text: the effect of a character on it.\<close>

definition edit :: "u8 list \<Rightarrow> u8 \<Rightarrow> u8 list" where
  "edit t c = (if c = 0x08 then butlast t else if c = 0x09 then t else if c = 0x1B then []
     else if length t < LINE_BUFFER_SIZE then t @ [c] else t)"

text \<open>What stands on the screen behind the prompt when these characters are written there.\<close>

definition shown :: "u8 list \<Rightarrow> u8 list \<Rightarrow> u8 list" where
  "shown t cs = fold (\<lambda>c t. if c = 0x08 then butlast t else t @ [c]) cs t"

definition holds_text :: "line \<Rightarrow> u8 list \<Rightarrow> bool" where
  "holds_text l t \<longleftrightarrow> length t \<le> LINE_BUFFER_SIZE \<and> line_size l = length t \<and> line_buffer l = t @ replicate (LINE_BUFFER_SIZE - length t) 0"

lemma new_line_text: "holds_text new_line []"
  by (simp add: holds_text_def new_line_def)

lemma shown_append: "shown t (xs @ ys) = shown (shown t xs) ys"
  by (simp add: shown_def)

lemma shown_erase: "shown t (replicate (length t) 0x08) = []"
proof (induction t rule: rev_induct)
  case (snoc c t)
  then show ?case by (simp add: shown_def)
qed (simp add: shown_def)

lemma line_key_edits:
  assumes "holds_text l t" "c \<noteq> 0x0A"
  shows "\<exists>echo l'. line_key c l = (False, echo, l') \<and> holds_text l' (edit t c) \<and> shown t echo = edit t c"
proof -
  have l: "line_size l = length t" "line_buffer l = t @ replicate (80 - length t) 0" "length t \<le> 80" using assms(1) by (simp_all add: holds_text_def)
  consider "c = 0x08" "t = []" | "c = 0x08" "t \<noteq> []" | "c = 0x09" | "c = 0x1B" | "c \<notin> {0x08, 0x09, 0x1B}" "length t < 80" | "c \<notin> {0x08, 0x09, 0x1B}" "length t = 80"
    using l(3) by fastforce
  then show ?thesis
  proof cases
    case 2
    then obtain t' d where t: "t = t' @ [d]" by (metis rev_exhaust)
    have "Suc (79 - length t') = 80 - length t'" using l(3) t by simp
    then have "(t' @ d # replicate (79 - length t') 0)[length t' := 0] = t' @ replicate (80 - length t') 0"
      by (simp add: list_update_append flip: replicate_Suc)
    then show ?thesis using 2 l t by (simp add: line_key_def edit_def holds_text_def shown_def)
  next
    case 5
    then have "80 - length t = Suc (79 - length t)" by simp
    then have "(t @ replicate (80 - length t) 0)[length t := c] = (t @ [c]) @ replicate (80 - length (t @ [c])) 0"
      by (simp add: list_update_append)
    then show ?thesis using 5 l assms(2) by (simp add: line_key_def edit_def holds_text_def shown_def)
  next
    case 4
    then show ?thesis using l shown_erase [of t] new_line_text by (simp add: line_key_def edit_def)
  qed (use l assms in \<open>auto simp: line_key_def edit_def holds_text_def shown_def\<close>)
qed

lemma read_line_edits:
  "holds_text l t \<Longrightarrow> 0x0A \<notin> set ks \<Longrightarrow> \<exists>echo l'. read_line (ks @ 0x0A # rest) l = Some (echo @ [0x0A], l', rest) \<and>
    holds_text l' (foldl edit t ks) \<and> shown t echo = foldl edit t ks"
proof (induction ks arbitrary: l t)
  case Nil
  then show ?case by (intro exI [of _ "[]"] exI [of _ l]) (simp add: line_key_def shown_def)
next
  case (Cons k ks)
  obtain echo l' where k: "line_key k l = (False, echo, l')" "holds_text l' (edit t k)" "shown t echo = edit t k"
    using line_key_edits [OF Cons.prems(1), of k] Cons.prems(2) by auto
  obtain echoes l'' where r: "read_line (ks @ 0x0A # rest) l' = Some (echoes @ [0x0A], l'', rest)" "holds_text l'' (foldl edit (edit t k) ks)"
    "shown (edit t k) echoes = foldl edit (edit t k) ks"
    using Cons.IH [OF k(2)] Cons.prems(2) by auto
  show ?case using k r by (intro exI [of _ "echo @ echoes"] exI [of _ l'']) (simp add: shown_append)
qed


text \<open>
  A line of 80 characters leaves no room for its end: the name behind the colon then has none
  within the buffer, and the program hands the kernel a string that runs on into its stack.
\<close>

lemma full_line_has_no_end:
  assumes "length ks = 80" "\<forall>k\<in>set ks. k \<notin> {0, 0x08, 0x09, 0x0A, 0x1B}"
  shows "\<exists>echo l. read_line (ks @ 0x0A # rest) new_line = Some (echo, l, rest) \<and> c_string (tl (line_buffer l)) = None"
proof -
  have e: "length (t @ ks) \<le> 80 \<Longrightarrow> \<forall>k\<in>set ks. k \<notin> {0, 0x08, 0x09, 0x0A, 0x1B} \<Longrightarrow> foldl edit t ks = t @ ks" for t ks
    by (induction ks arbitrary: t) (auto simp: edit_def)
  have "0x0A \<notin> set ks" using assms(2) by auto
  then obtain echo l where "read_line (ks @ 0x0A # rest) new_line = Some (echo @ [0x0A], l, rest)" "holds_text l (foldl edit [] ks)"
    using read_line_edits [OF new_line_text, of ks] by blast
  moreover have "foldl edit [] ks = ks" using e [of "[]" ks] assms by simp
  ultimately have "line_buffer l = ks" "read_line (ks @ 0x0A # rest) new_line = Some (echo @ [0x0A], l, rest)" using assms(1) by (simp_all add: holds_text_def)
  moreover have "0 \<notin> set (tl ks)" using assms(2) by (cases ks) auto
  ultimately show ?thesis by (auto simp: c_string_def)
qed


end
